(* ===== verification/Prelude.thy ===== *)
theory Prelude
  imports Main
begin

text \<open>
  Shared vocabulary of the development: the result type that models Python
  exceptions, monadic iteration in the source's order, Python's list indexing,
  dictionaries as association lists, and generic facts on lists, relations and
  strict orders that the component theories use.
\<close>

named_theorems res_simps \<open>equations of the result monad\<close>

section \<open>Results\<close>

text \<open>
  A Python function that may raise returns \<open>'e + 'a\<close>: \<open>Inl\<close> is the exception,
  \<open>Inr\<close> the value.  \<open>bindE\<close> is sequencing, \<open>iterE\<close> a \<open>for\<close> loop whose body may
  raise, \<open>foldE\<close> a \<open>for\<close> loop with an accumulator, \<open>allE\<close> and \<open>anyE\<close> the
  short-circuiting \<open>all\<close> and \<open>any\<close>.
\<close>

definition bindE :: "'e + 'a \<Rightarrow> ('a \<Rightarrow> 'e + 'b) \<Rightarrow> 'e + 'b" where
  "bindE m f = (case m of Inl e \<Rightarrow> Inl e | Inr x \<Rightarrow> f x)"

lemma bindE_simps [simp, res_simps]:
  "bindE (Inl e) f = Inl e"
  "bindE (Inr x) f = f x"
  by (simp_all add: bindE_def)

lemma bindE_Inr_iff [res_simps]: "bindE m f = Inr y \<longleftrightarrow> (\<exists>x. m = Inr x \<and> f x = Inr y)"
  by (cases m) simp_all

lemma bindE_Inl_iff: "bindE m f = Inl e \<longleftrightarrow> m = Inl e \<or> (\<exists>x. m = Inr x \<and> f x = Inl e)"
  by (cases m) simp_all

lemma bindE_assoc: "bindE (bindE m f) g = bindE m (\<lambda>x. bindE (f x) g)"
  by (cases m) simp_all

lemma bindE_Inr [simp]: "bindE m Inr = m"
  by (cases m) simp_all

lemma bindE_cong [fundef_cong]:
  "m = m' \<Longrightarrow> (\<And>x. m' = Inr x \<Longrightarrow> f x = g x) \<Longrightarrow> bindE m f = bindE m' g"
  by (cases m') simp_all

definition requireE :: "bool \<Rightarrow> 'e \<Rightarrow> 'e + unit" where
  "requireE b e = (if b then Inr () else Inl e)"

lemma requireE_iff [simp, res_simps]:
  "requireE b e = Inr u \<longleftrightarrow> b"
  "requireE b e = Inl e' \<longleftrightarrow> \<not> b \<and> e = e'"
  by (auto simp: requireE_def)

lemma bind_requireE_iff [simp, res_simps]:
  "bindE (requireE b e) f = Inr y \<longleftrightarrow> b \<and> f () = Inr y"
  by (simp add: requireE_def)

fun iterE :: "('a \<Rightarrow> 'e + unit) \<Rightarrow> 'a list \<Rightarrow> 'e + unit" where
  "iterE f [] = Inr ()"
| "iterE f (x # xs) = bindE (f x) (\<lambda>_. iterE f xs)"

fun mapE :: "('a \<Rightarrow> 'e + 'b) \<Rightarrow> 'a list \<Rightarrow> 'e + 'b list" where
  "mapE f [] = Inr []"
| "mapE f (x # xs) = bindE (f x) (\<lambda>y. bindE (mapE f xs) (\<lambda>ys. Inr (y # ys)))"

fun foldE :: "('s \<Rightarrow> 'a \<Rightarrow> 'e + 's) \<Rightarrow> 's \<Rightarrow> 'a list \<Rightarrow> 'e + 's" where
  "foldE f s [] = Inr s"
| "foldE f s (x # xs) = bindE (f s x) (\<lambda>s'. foldE f s' xs)"

fun allE :: "('a \<Rightarrow> 'e + bool) \<Rightarrow> 'a list \<Rightarrow> 'e + bool" where
  "allE f [] = Inr True"
| "allE f (x # xs) = bindE (f x) (\<lambda>b. if b then allE f xs else Inr False)"

fun anyE :: "('a \<Rightarrow> 'e + bool) \<Rightarrow> 'a list \<Rightarrow> 'e + bool" where
  "anyE f [] = Inr False"
| "anyE f (x # xs) = bindE (f x) (\<lambda>b. if b then Inr True else anyE f xs)"

lemma iterE_cong [fundef_cong]:
  "xs = ys \<Longrightarrow> (\<And>x. x \<in> set ys \<Longrightarrow> f x = g x) \<Longrightarrow> iterE f xs = iterE g ys"
proof (induction ys arbitrary: xs)
  case (Cons y ys)
  then show ?case by (auto intro!: bindE_cong)
qed simp

lemma mapE_cong [fundef_cong]:
  "xs = ys \<Longrightarrow> (\<And>x. x \<in> set ys \<Longrightarrow> f x = g x) \<Longrightarrow> mapE f xs = mapE g ys"
proof (induction ys arbitrary: xs)
  case (Cons y ys)
  then show ?case by (auto intro!: bindE_cong)
qed simp

lemma foldE_cong [fundef_cong]:
  "s = t \<Longrightarrow> xs = ys \<Longrightarrow> (\<And>s x. x \<in> set ys \<Longrightarrow> f s x = g s x) \<Longrightarrow> foldE f s xs = foldE g t ys"
proof (induction ys arbitrary: xs s t)
  case (Cons y ys)
  then show ?case by (auto intro!: bindE_cong)
qed simp

lemma allE_cong [fundef_cong]:
  "xs = ys \<Longrightarrow> (\<And>x. x \<in> set ys \<Longrightarrow> f x = g x) \<Longrightarrow> allE f xs = allE g ys"
proof (induction ys arbitrary: xs)
  case (Cons y ys)
  then show ?case by (auto intro!: bindE_cong)
qed simp

lemma anyE_cong [fundef_cong]:
  "xs = ys \<Longrightarrow> (\<And>x. x \<in> set ys \<Longrightarrow> f x = g x) \<Longrightarrow> anyE f xs = anyE g ys"
proof (induction ys arbitrary: xs)
  case (Cons y ys)
  then show ?case by (auto intro!: bindE_cong)
qed simp

lemma iterE_Inr_iff [res_simps]: "iterE f xs = Inr u \<longleftrightarrow> (\<forall>x \<in> set xs. f x = Inr ())"
  by (induction xs) (auto simp: bindE_Inr_iff)

lemma iterE_InlD: "iterE f xs = Inl e \<Longrightarrow> \<exists>x \<in> set xs. f x = Inl e"
  by (induction xs) (auto simp: bindE_Inl_iff)

lemma mapE_Inr_iff: "mapE f xs = Inr ys \<longleftrightarrow> list_all2 (\<lambda>x y. f x = Inr y) xs ys"
  by (induction xs arbitrary: ys) (auto simp: bindE_Inr_iff list_all2_Cons1)

lemma mapE_total: "(\<And>x. x \<in> set xs \<Longrightarrow> f x = Inr (g x)) \<Longrightarrow> mapE f xs = Inr (map g xs)"
  by (induction xs) auto

lemma mapE_InlD: "mapE f xs = Inl e \<Longrightarrow> \<exists>x \<in> set xs. f x = Inl e"
  by (induction xs) (auto simp: bindE_Inl_iff)

lemma allE_total: "(\<And>x. x \<in> set xs \<Longrightarrow> f x = Inr (g x)) \<Longrightarrow> allE f xs = Inr (\<forall>x \<in> set xs. g x)"
  by (induction xs) auto

lemma anyE_total: "(\<And>x. x \<in> set xs \<Longrightarrow> f x = Inr (g x)) \<Longrightarrow> anyE f xs = Inr (\<exists>x \<in> set xs. g x)"
  by (induction xs) auto

text \<open>The loop invariant rule for a fold that may raise.\<close>

lemma foldE_invariant:
  assumes "foldE f s xs = Inr t" and "P s"
    and "\<And>s x s'. x \<in> set xs \<Longrightarrow> P s \<Longrightarrow> f s x = Inr s' \<Longrightarrow> P s'"
  shows "P t"
  using assms
proof (induction xs arbitrary: s)
  case (Cons x xs)
  then obtain s' where "f s x = Inr s'" "foldE f s' xs = Inr t"
    by (auto simp: bindE_Inr_iff)
  with Cons show ?case by auto
qed simp

lemma foldE_append: "foldE f s (xs @ ys) = bindE (foldE f s xs) (\<lambda>t. foldE f t ys)"
  by (induction xs arbitrary: s) (auto simp: bindE_assoc)

section \<open>Python lists\<close>

text \<open>
  \<open>xs[i]\<close>: a negative index counts from the end, and an index out of range is
  \<open>None\<close>, which the callers turn into an \<open>IndexError\<close>.
\<close>

definition py_get :: "'a list \<Rightarrow> int \<Rightarrow> 'a option" where
  "py_get xs i =
     (let n = int (length xs); j = (if i < 0 then n + i else i)
      in if 0 \<le> j \<and> j < n then Some (xs ! nat j) else None)"

lemma py_get_in_range [simp]:
  "0 \<le> i \<Longrightarrow> i < int (length xs) \<Longrightarrow> py_get xs i = Some (xs ! nat i)"
  by (simp add: py_get_def)

lemma py_get_SomeD: "py_get xs i = Some x \<Longrightarrow> x \<in> set xs"
  by (auto simp: py_get_def Let_def split: if_splits)

lemma py_get_size [termination_simp]: "py_get xs i = Some x \<Longrightarrow> size x < Suc (size_list size xs)"
  by (drule py_get_SomeD) (simp add: size_list_estimation less_Suc_eq_le size_list_estimation')

text \<open>\<open>range(n)\<close> for an \<open>int\<close> bound.\<close>

definition in_range :: "int \<Rightarrow> nat \<Rightarrow> bool" where
  "in_range i n \<longleftrightarrow> 0 \<le> i \<and> i < int n"

lemma in_range_nat: "in_range i n \<Longrightarrow> nat i < n"
  by (simp add: in_range_def nat_less_iff)

lemma in_range_of_nat [simp]: "in_range (int k) n \<longleftrightarrow> k < n"
  by (simp add: in_range_def)

lemma in_rangeE: "in_range i n \<Longrightarrow> (\<And>k. i = int k \<Longrightarrow> k < n \<Longrightarrow> P) \<Longrightarrow> P"
  by (metis in_range_def in_range_of_nat zero_le_imp_eq_int)

section \<open>Dictionaries\<close>

text \<open>
  A \<open>dict\<close> is an association list in insertion order.  Storing under a present key
  keeps its place, a new key goes to the end.
\<close>

fun dict_set :: "'k \<Rightarrow> 'v \<Rightarrow> ('k \<times> 'v) list \<Rightarrow> ('k \<times> 'v) list" where
  "dict_set k v [] = [(k, v)]"
| "dict_set k v (p # d) = (if fst p = k then (k, v) # d else p # dict_set k v d)"

definition dict_get :: "('k \<times> 'v) list \<Rightarrow> 'k \<Rightarrow> 'v \<Rightarrow> 'v" where
  "dict_get d k dflt = (case map_of d k of None \<Rightarrow> dflt | Some v \<Rightarrow> v)"

lemma map_of_dict_set [simp]: "map_of (dict_set k v d) = (map_of d)(k \<mapsto> v)"
  by (induction d) (auto simp: fun_eq_iff)

lemma dict_get_set [simp]: "dict_get (dict_set k v d) k' x = (if k' = k then v else dict_get d k' x)"
  by (simp add: dict_get_def)

lemma set_dict_set: "set (map fst (dict_set k v d)) = insert k (set (map fst d))"
  by (induction d) auto

lemma distinct_dict_set [simp]:
  "distinct (map fst d) \<Longrightarrow> distinct (map fst (dict_set k v d))"
proof (induction d)
  case (Cons p d)
  then show ?case using set_dict_set [of k v d] by auto
qed simp

lemma map_of_filter_key: "map_of (filter (\<lambda>p. P (fst p)) d) k = (if P k then map_of d k else None)"
  by (induction d) auto

section \<open>Strict orders and their covering relation\<close>

text \<open>
  The precedence relation of a partial order is transitive and irreflexive on a
  finite carrier.  The covering pairs, those with nothing strictly between, generate
  it, and every relation that generates it contains them: the transitive reduction
  of a finite strict order exists and is unique.
\<close>

definition covers :: "('a \<times> 'a) set \<Rightarrow> ('a \<times> 'a) set" where
  "covers R = {(a, b). (a, b) \<in> R \<and> \<not> (\<exists>c. (a, c) \<in> R \<and> (c, b) \<in> R)}"

locale strict_order =
  fixes R :: "('a \<times> 'a) set"
  assumes fin: "finite R"
    and trans: "trans R"
    and irrefl: "irrefl R"
begin

lemma covers_subset: "covers R \<subseteq> R"
  by (auto simp: covers_def)

lemma between_finite: "finite {c. (a, c) \<in> R \<and> (c, b) \<in> R}"
proof -
  have "{c. (a, c) \<in> R \<and> (c, b) \<in> R} \<subseteq> fst ` R" by force
  then show ?thesis using fin finite_subset by blast
qed

lemma between_psubset:
  assumes "(a, c) \<in> R" "(c, b) \<in> R"
  shows "{d. (a, d) \<in> R \<and> (d, c) \<in> R} \<subset> {d. (a, d) \<in> R \<and> (d, b) \<in> R}"
    and "{d. (c, d) \<in> R \<and> (d, b) \<in> R} \<subset> {d. (a, d) \<in> R \<and> (d, b) \<in> R}"
  using assms trans irrefl by (auto simp: irrefl_def dest: transD)

lemma covers_generate: "(a, b) \<in> R \<Longrightarrow> (a, b) \<in> (covers R)\<^sup>+"
proof (induction "card {c. (a, c) \<in> R \<and> (c, b) \<in> R}" arbitrary: a b rule: less_induct)
  case less
  show ?case
  proof (cases "\<exists>c. (a, c) \<in> R \<and> (c, b) \<in> R")
    case True
    then obtain c where c: "(a, c) \<in> R" "(c, b) \<in> R" by blast
    have "(a, c) \<in> (covers R)\<^sup>+" "(c, b) \<in> (covers R)\<^sup>+"
      using less.hyps c between_psubset [OF c] between_finite
      by (meson psubset_card_mono)+
    then show ?thesis by (rule trancl_trans)
  next
    case False
    with less.prems show ?thesis by (auto simp: covers_def intro: r_into_trancl)
  qed
qed

lemma trancl_covers: "(covers R)\<^sup>+ = R"
proof
  show "(covers R)\<^sup>+ \<subseteq> R"
    using trancl_mono [OF _ covers_subset] trans by (auto simp: trancl_id)
  show "R \<subseteq> (covers R)\<^sup>+" using covers_generate by auto
qed

lemma covers_least:
  assumes "S\<^sup>+ = R" shows "covers R \<subseteq> S"
proof clarify
  fix a b assume ab: "(a, b) \<in> covers R"
  then have "(a, b) \<in> S\<^sup>+" using assms covers_subset by auto
  then show "(a, b) \<in> S"
  proof (cases rule: tranclE)
    case (step c)
    with assms have "(a, c) \<in> R" "(c, b) \<in> R" by auto
    with ab show ?thesis by (auto simp: covers_def)
  qed
qed

lemma not_mutual: "(a, b) \<in> R \<Longrightarrow> (b, a) \<notin> R"
  using trans irrefl by (auto simp: irrefl_def dest: transD)

end

lemma acyclic_strict_order: "finite E \<Longrightarrow> acyclic E \<Longrightarrow> strict_order (E\<^sup>+)"
  by unfold_locales (auto simp: acyclic_irrefl)

lemma acyclic_if_strict: "trans R \<Longrightarrow> irrefl R \<Longrightarrow> acyclic R"
  by (simp add: acyclic_irrefl trancl_id)

end
