(* ===== verification/Canonical_Json.thy ===== *)
theory Canonical_Json
  imports Prelude "HOL-Library.Char_ord" "HOL-Library.List_Lexorder"
    "HOL-Library.Product_Lexorder"
begin

text \<open>
  \<^verbatim>\<open>fabric/canonical.py\<close>: the canonical JSON text of a value, and the digest
  over it.  A JSON value is a \<open>json\<close>; a Python \<open>dict\<close> is an association list in
  insertion order, a \<open>str\<close> a \<open>string\<close> whose characters are the code points below
  256, an \<open>int\<close> an unbounded \<open>int\<close>.  Floats are not represented.  The hash of
  \<^verbatim>\<open>hashlib\<close> is the parameter \<open>sha\<close> of every definition that digests.

  The main result is that the canonical text determines the value: two values with
  the same text are equal up to the order of their dictionary entries.
\<close>

section \<open>Values and their text\<close>

datatype json = JNull | JBool bool | JInt int | JStr string
  | JList "json list" | JObj "(string \<times> json) list"

definition digit :: "nat \<Rightarrow> char" where
  "digit d = char_of (48 + d)"

fun string_of_nat :: "nat \<Rightarrow> string" where
  "string_of_nat n = (if n < 10 then [digit n] else string_of_nat (n div 10) @ [digit (n mod 10)])"

declare string_of_nat.simps [simp del]

definition string_of_int :: "int \<Rightarrow> string" where
  "string_of_int i = (if i < 0 then CHR ''-'' # string_of_nat (nat (- i)) else string_of_nat (nat i))"

definition hex_digit :: "nat \<Rightarrow> char" where
  "hex_digit d = (if d < 10 then char_of (48 + d) else char_of (87 + d))"

text \<open>The escapes of \<^verbatim>\<open>json.dumps(..., ensure_ascii=True)\<close>.\<close>

definition escape_char :: "char \<Rightarrow> string" where
  "escape_char c =
     (if c = CHR 0x22 then [CHR 0x5C, CHR 0x22]
      else if c = CHR 0x5C then [CHR 0x5C, CHR 0x5C]
      else if c = CHR 0x0A then [CHR 0x5C, CHR ''n'']
      else if c = CHR 0x0D then [CHR 0x5C, CHR ''r'']
      else if c = CHR 0x09 then [CHR 0x5C, CHR ''t'']
      else if c = CHR 0x0C then [CHR 0x5C, CHR ''f'']
      else if c = CHR 0x08 then [CHR 0x5C, CHR ''b'']
      else if 32 \<le> (of_char c :: nat) \<and> (of_char c :: nat) \<le> 126 then [c]
      else [CHR 0x5C, CHR ''u'', CHR ''0'', CHR ''0'',
            hex_digit (of_char c div 16), hex_digit (of_char c mod 16)])"

definition quote_string :: "string \<Rightarrow> string" where
  "quote_string s = CHR 0x22 # concat (map escape_char s) @ [CHR 0x22]"

fun join_comma :: "string list \<Rightarrow> string" where
  "join_comma [] = []"
| "join_comma [x] = x"
| "join_comma (x # y # zs) = x @ CHR '','' # join_comma (y # zs)"

text \<open>
  \<open>to_jsonable\<close> rebuilds mappings with their items sorted by key;
  \<open>json_dumps\<close> is \<^verbatim>\<open>json.dumps\<close> with \<^verbatim>\<open>sort_keys=True\<close> and compact separators.
\<close>

lemma size_snd_in_list [termination_simp]:
  "(k, v) \<in> set d \<Longrightarrow> size v < Suc (size_list (size_prod (\<lambda>_. 0) size) d)"
  by (induction d) auto

fun to_jsonable :: "json \<Rightarrow> json" where
  "to_jsonable (JObj d) = JObj (sort_key fst (map (\<lambda>(k, v). (k, to_jsonable v)) d))"
| "to_jsonable (JList xs) = JList (map to_jsonable xs)"
| "to_jsonable v = v"

fun json_dumps :: "json \<Rightarrow> string" where
  "json_dumps JNull = ''null''"
| "json_dumps (JBool b) = (if b then ''true'' else ''false'')"
| "json_dumps (JInt i) = string_of_int i"
| "json_dumps (JStr s) = quote_string s"
| "json_dumps (JList xs) = CHR ''['' # join_comma (map json_dumps xs) @ '']''"
| "json_dumps (JObj d) =
     CHR ''{'' # join_comma (map (\<lambda>(k, t). quote_string k @ CHR '':'' # t)
       (sort_key fst (map (\<lambda>(k, v). (k, json_dumps v)) d))) @ ''}''"

definition canonical_json :: "json \<Rightarrow> string" where
  "canonical_json v = json_dumps (to_jsonable v)"

text \<open>\<^verbatim>\<open>sha256\<close> hashes the canonical text.\<close>

definition sha256 :: "(string \<Rightarrow> string) \<Rightarrow> json \<Rightarrow> string" where
  "sha256 sha v = sha (canonical_json v)"

section \<open>Numbers and strings can be read back\<close>

fun nat_of_digits :: "nat \<Rightarrow> string \<Rightarrow> nat" where
  "nat_of_digits a [] = a"
| "nat_of_digits a (c # cs) = nat_of_digits (10 * a + (of_char c - 48)) cs"

lemma nat_of_digits_append: "nat_of_digits a (xs @ ys) = nat_of_digits (nat_of_digits a xs) ys"
  by (induction xs arbitrary: a) auto

lemma of_char_digit: "d < 10 \<Longrightarrow> (of_char (digit d) :: nat) = 48 + d"
  by (simp add: digit_def)

lemma nat_of_digits_string_of_nat: "nat_of_digits 0 (string_of_nat n) = n"
proof (induction n rule: string_of_nat.induct)
  case (1 n)
  then show ?case
    by (subst string_of_nat.simps) (auto simp: nat_of_digits_append of_char_digit)
qed

lemma string_of_nat_inj: "string_of_nat m = string_of_nat n \<Longrightarrow> m = n"
  by (metis nat_of_digits_string_of_nat)

definition is_digit :: "char \<Rightarrow> bool" where
  "is_digit c \<longleftrightarrow> 48 \<le> (of_char c :: nat) \<and> (of_char c :: nat) \<le> 57"

lemma string_of_nat_digits: "c \<in> set (string_of_nat n) \<Longrightarrow> is_digit c"
proof (induction n rule: string_of_nat.induct)
  case (1 n)
  show ?case
  proof (cases "n < 10")
    case True
    with "1.prems" show ?thesis
      by (subst (asm) string_of_nat.simps) (simp add: is_digit_def of_char_digit)
  next
    case False
    have "n mod 10 < 10" by simp
    with False 1 show ?thesis
      by (subst (asm) (2) string_of_nat.simps) (auto simp: is_digit_def of_char_digit)
  qed
qed

lemma string_of_nat_nonempty [simp]: "string_of_nat n \<noteq> []"
  by (subst string_of_nat.simps) simp

lemma not_digit_minus [simp]: "\<not> is_digit (CHR ''-'')"
  by (simp add: is_digit_def)

lemma string_of_int_inj: "string_of_int i = string_of_int j \<Longrightarrow> i = j"
proof -
  assume *: "string_of_int i = string_of_int j"
  have minus: "CHR ''-'' # xs \<noteq> string_of_nat n" for xs n
    using string_of_nat_digits [of "CHR ''-''" n] by (metis list.set_intros(1) not_digit_minus)
  show ?thesis
    using * minus minus [symmetric]
    by (auto simp: string_of_int_def dest!: string_of_nat_inj split: if_splits)
qed

lemma string_of_int_chars: "c \<in> set (string_of_int i) \<Longrightarrow> is_digit c \<or> c = CHR ''-''"
  by (auto simp: string_of_int_def dest: string_of_nat_digits split: if_splits)

text \<open>A JSON value in a text is followed by the end, a comma or a closing bracket.\<close>

definition stops :: "string \<Rightarrow> bool" where
  "stops r \<longleftrightarrow> r = [] \<or> hd r \<in> {CHR '','', CHR '']'', CHR ''}''}"

lemma stops_simps [simp]:
  "stops []" "stops (CHR '','' # r)" "stops (CHR '']'' # r)" "stops (CHR ''}'' # r)"
  by (simp_all add: stops_def)

lemma not_stop:
  "is_digit c \<or> c = CHR ''-'' \<Longrightarrow> c \<notin> {CHR '','', CHR '']'', CHR ''}''}"
  by (auto simp: is_digit_def)

lemma number_prefix:
  assumes "\<forall>c \<in> set xs. is_digit c \<or> c = CHR ''-''" "\<forall>c \<in> set ys. is_digit c \<or> c = CHR ''-''"
    and "stops r" "stops s" "xs @ r = ys @ s"
  shows "xs = ys \<and> r = s"
  using assms
proof (induction xs arbitrary: ys)
  case Nil
  show ?case
  proof (cases ys)
    case (Cons y ys')
    with Nil.prems have "stops (y # ys' @ s)" "is_digit y \<or> y = CHR ''-''" by simp_all
    with not_stop [of y] show ?thesis by (simp add: stops_def)
  qed (use Nil.prems in simp)
next
  case (Cons x xs)
  show ?case
  proof (cases ys)
    case Nil
    with Cons.prems have "stops (x # xs @ r)" "is_digit x \<or> x = CHR ''-''" by simp_all
    with not_stop [of x] show ?thesis by (simp add: stops_def)
  next
    case (Cons y ys')
    with Cons.prems Cons.IH [of ys'] show ?thesis by simp
  qed
qed

lemma of_char_lt: "(of_char c :: nat) < 256"
  by (rule nat_of_char_less_256)

lemma hex_digit_of: "d < 16 \<Longrightarrow> (of_char (hex_digit d) :: nat) = (if d < 10 then 48 + d else 87 + d)"
  by (simp add: hex_digit_def)

lemma hex_digit_inj: "d < 16 \<Longrightarrow> e < 16 \<Longrightarrow> hex_digit d = hex_digit e \<Longrightarrow> d = e"
proof -
  assume *: "d < 16" "e < 16" "hex_digit d = hex_digit e"
  then have "(of_char (hex_digit d) :: nat) = of_char (hex_digit e)" by metis
  with *(1,2) show ?thesis by (simp add: hex_digit_of split: if_splits)
qed

lemma of_char_inj: "(of_char c :: nat) = of_char d \<Longrightarrow> c = d"
  by (metis char_of_char)

lemma hex_pair_inj:
  "hex_digit (of_char c div 16) = hex_digit (of_char d div 16) \<Longrightarrow>
   hex_digit (of_char c mod 16) = hex_digit (of_char d mod 16) \<Longrightarrow> c = d"
proof -
  assume "hex_digit (of_char c div 16) = hex_digit (of_char d div 16)"
    "hex_digit (of_char c mod 16) = hex_digit (of_char d mod 16)"
  moreover have "(of_char c :: nat) div 16 < 16" "(of_char d :: nat) div 16 < 16"
    using of_char_lt [of c] of_char_lt [of d] by (simp_all add: less_mult_imp_div_less)
  ultimately have "(of_char c :: nat) div 16 = of_char d div 16" "(of_char c :: nat) mod 16 = of_char d mod 16"
    using hex_digit_inj by (meson mod_less_divisor zero_less_numeral)+
  then show ?thesis by (metis of_char_inj div_mod_decomp)
qed

lemma escape_char_prefix: "escape_char c @ xs = escape_char d @ ys \<Longrightarrow> c = d \<and> xs = ys"
  by (auto simp: escape_char_def dest: hex_pair_inj split: if_splits)

lemma escape_char_no_quote: "escape_char c @ xs \<noteq> CHR 0x22 # ys"
  by (auto simp: escape_char_def)

lemma concat_escape_prefix:
  "concat (map escape_char s) @ CHR 0x22 # xs = concat (map escape_char t) @ CHR 0x22 # ys
   \<Longrightarrow> s = t \<and> xs = ys"
proof (induction s arbitrary: t)
  case Nil
  then show ?case by (cases t) (auto simp: escape_char_no_quote [symmetric])
next
  case (Cons c s)
  then show ?case
    by (cases t) (auto simp: escape_char_no_quote dest!: escape_char_prefix)
qed

lemma quote_string_prefix: "quote_string s @ xs = quote_string t @ ys \<longleftrightarrow> s = t \<and> xs = ys"
  by (auto simp: quote_string_def dest: concat_escape_prefix)

section \<open>The canonical text determines the value\<close>

lemma insort_key_map: "insort_key f (g x) (map g xs) = map g (insort_key (\<lambda>y. f (g y)) x xs)"
  by (induction xs) auto

lemma sort_key_map: "sort_key f (map g xs) = map g (sort_key (\<lambda>y. f (g y)) xs)"
  by (induction xs) (auto simp: insort_key_map)

lemma sort_key_map_snd:
  "sort_key fst (map (\<lambda>(k, v). (k, f v)) d) = map (\<lambda>(k, v). (k, f v)) (sort_key fst d)"
  by (simp add: sort_key_map case_prod_unfold)

definition entry_text :: "string \<times> json \<Rightarrow> string" where
  "entry_text p = quote_string (fst p) @ CHR '':'' # json_dumps (snd p)"

lemma json_dumps_obj:
  "json_dumps (JObj d) = CHR ''{'' # join_comma (map entry_text (sort_key fst d)) @ ''}''"
proof -
  have "map (\<lambda>(k, t). quote_string k @ CHR '':'' # t) (map (\<lambda>(k, v). (k, json_dumps v)) ps)
      = map entry_text ps" for ps
    by (simp add: comp_def case_prod_unfold entry_text_def [abs_def])
  then show ?thesis by (simp only: json_dumps.simps sort_key_map_snd)
qed

lemma to_jsonable_obj:
  "to_jsonable (JObj d) = JObj (map (\<lambda>(k, v). (k, to_jsonable v)) (sort_key fst d))"
  by (simp add: sort_key_map_snd)

declare json_dumps.simps(6) [simp del] to_jsonable.simps(1) [simp del]

lemma string_of_int_starts: "\<not> stops (string_of_int i @ r)" "string_of_int i \<noteq> []"
proof -
  show ne: "string_of_int i \<noteq> []" by (simp add: string_of_int_def)
  with not_stop [of "hd (string_of_int i)"] string_of_int_chars [of "hd (string_of_int i)" i]
  show "\<not> stops (string_of_int i @ r)" by (simp add: stops_def)
qed

lemma json_dumps_starts: "\<not> stops (json_dumps v @ r)"
  by (cases v) (simp_all add: string_of_int_starts quote_string_def json_dumps_obj, simp_all add: stops_def)

lemma entry_text_starts: "\<not> stops (entry_text p @ r)"
  by (simp add: entry_text_def quote_string_def stops_def)

text \<open>
  Texts that can be told apart from what follows them can be told apart in a
  comma-separated list.
\<close>

lemma join_comma_prefix:
  assumes dec: "\<And>x y r s. x \<in> set xs \<Longrightarrow> enc x @ r = enc y @ s \<Longrightarrow> stops r \<Longrightarrow> stops s \<Longrightarrow> same x y \<and> r = s"
    and starts: "\<And>x r. \<not> stops (enc x @ r)"
    and "c \<in> {CHR '']'', CHR ''}''}"
    and "join_comma (map enc xs) @ c # r = join_comma (map enc ys) @ c # s"
  shows "list_all2 same xs ys \<and> r = s"
  using dec assms(4)
proof (induction xs arbitrary: ys)
  case Nil
  show ?case
  proof (cases ys)
    case (Cons y ys')
    with Nil.prems have "\<exists>t. c # r = enc y @ t"
      by (cases ys') auto
    moreover from assms(3) have "stops (c # r)" by (auto simp: stops_def)
    ultimately show ?thesis using starts by metis
  qed (use Nil in simp)
next
  case (Cons x xs)
  let ?tail = "\<lambda>zs u. if zs = [] then c # u else CHR '','' # join_comma (map enc zs) @ c # u"
  have split: "join_comma (map enc (z # zs)) @ c # u = enc z @ ?tail zs u" for z zs u
    by (cases zs) auto
  have stop: "stops (?tail zs u)" for zs u using assms(3) by (auto simp: stops_def)
  show ?case
  proof (cases ys)
    case Nil
    with Cons.prems split have "c # s = enc x @ ?tail xs r" by (metis append_Nil join_comma.simps(1) list.simps(8))
    moreover from assms(3) have "stops (c # s)" by (auto simp: stops_def)
    ultimately show ?thesis using starts by metis
  next
    case (Cons y ys')
    with Cons.prems(2) split have "enc x @ ?tail xs r = enc y @ ?tail ys' s" by metis
    from Cons.prems(1) [OF _ this stop stop]
    have same: "same x y" and tails: "?tail xs r = ?tail ys' s" by simp_all
    have "list_all2 same xs ys' \<and> r = s"
    proof (cases "xs = [] \<or> ys' = []")
      case True
      with tails assms(3) show ?thesis by (auto split: if_splits)
    next
      case False
      with tails have "join_comma (map enc xs) @ c # r = join_comma (map enc ys') @ c # s" by simp
      with Cons.IH Cons.prems(1) show ?thesis by (meson list.set_intros(2))
    qed
    with same Cons show ?thesis by simp
  qed
qed

lemma list_all2_map_eq: "list_all2 (\<lambda>x y. f x = f y) xs ys \<Longrightarrow> map f xs = map f ys"
  by (induction rule: list_all2_induct) auto

text \<open>The first character of a text tells the kind of its value.\<close>

definition char_class :: "char \<Rightarrow> nat" where
  "char_class c = (if c = CHR ''n'' then 0 else if c = CHR ''t'' then 1 else if c = CHR ''f'' then 2
     else if c = CHR 0x22 then 3 else if c = CHR ''['' then 4 else if c = CHR ''{'' then 5 else 6)"

fun json_class :: "json \<Rightarrow> nat" where
  "json_class JNull = 0"
| "json_class (JBool b) = (if b then 1 else 2)"
| "json_class (JInt i) = 6"
| "json_class (JStr s) = 3"
| "json_class (JList xs) = 4"
| "json_class (JObj d) = 5"

lemma char_class_number: "is_digit c \<or> c = CHR ''-'' \<Longrightarrow> char_class c = 6"
  by (auto simp: char_class_def is_digit_def)

lemma json_dumps_class: "json_dumps a \<noteq> [] \<and> char_class (hd (json_dumps a)) = json_class a"
proof (cases a)
  case (JInt i)
  have "hd (string_of_int i) \<in> set (string_of_int i)" using string_of_int_starts(2) by simp
  then have "char_class (hd (string_of_int i)) = 6"
    using string_of_int_chars char_class_number by blast
  then show ?thesis using JInt string_of_int_starts(2) by simp
qed (simp_all add: char_class_def quote_string_def json_dumps_obj)

lemma json_dumps_kind: "json_dumps a @ r = json_dumps b @ s \<Longrightarrow> json_class a = json_class b"
  using json_dumps_class [of a] json_dumps_class [of b] by (metis hd_append2)

lemma json_dumps_prefix:
  "json_dumps a @ r = json_dumps b @ s \<Longrightarrow> stops r \<Longrightarrow> stops s
   \<Longrightarrow> to_jsonable a = to_jsonable b \<and> r = s"
proof (induction a arbitrary: b r s)
  case JNull
  from json_dumps_kind [OF JNull(1)] have "b = JNull" by (cases b) (auto split: if_splits)
  with JNull show ?case by simp
next
  case (JBool x)
  from json_dumps_kind [OF JBool(1)] have "b = JBool x" by (cases b) (auto split: if_splits)
  with JBool show ?case by simp
next
  case (JInt i)
  from json_dumps_kind [OF JInt(1)] obtain j where b: "b = JInt j" by (cases b) (auto split: if_splits)
  with JInt number_prefix [of "string_of_int i" "string_of_int j" r s] string_of_int_chars
  have "string_of_int i = string_of_int j \<and> r = s" by auto
  with b show ?case by (auto dest: string_of_int_inj)
next
  case (JStr t)
  from json_dumps_kind [OF JStr(1)] obtain t' where "b = JStr t'" by (cases b) (auto split: if_splits)
  with JStr show ?case by (simp add: quote_string_prefix)
next
  case (JList xs)
  from json_dumps_kind [OF JList(2)] obtain ys where b: "b = JList ys" by (cases b) (auto split: if_splits)
  with JList have "join_comma (map json_dumps xs) @ CHR '']'' # r = join_comma (map json_dumps ys) @ CHR '']'' # s"
    by simp
  from join_comma_prefix [OF _ json_dumps_starts _ this, of "\<lambda>x y. to_jsonable x = to_jsonable y"] JList.IH
  have "list_all2 (\<lambda>x y. to_jsonable x = to_jsonable y) xs ys \<and> r = s" by blast
  with b show ?case by (auto dest: list_all2_map_eq)
next
  case (JObj d)
  from json_dumps_kind [OF JObj(2)] obtain d' where b: "b = JObj d'" by (cases b) (auto split: if_splits)
  let ?same = "\<lambda>p q. (\<lambda>(k, v). (k, to_jsonable v)) p = (\<lambda>(k, v). (k, to_jsonable v)) q"
  have entry: "?same p q \<and> u = v"
    if "p \<in> set (sort_key fst d)" "entry_text p @ u = entry_text q @ v" "stops u" "stops v" for p q u v
  proof -
    from that(2) have "fst p = fst q" "json_dumps (snd p) @ u = json_dumps (snd q) @ v"
      by (auto simp: entry_text_def quote_string_prefix)
    moreover have "p \<in> set d" using that(1) by simp
    moreover have "snd p \<in> Basic_BNFs.snds p" by (cases p) simp
    from JObj.IH [OF calculation(3) this calculation(2) that(3,4)]
    have "to_jsonable (snd p) = to_jsonable (snd q) \<and> u = v" .
    ultimately show ?thesis by (simp add: case_prod_unfold)
  qed
  from JObj b have "join_comma (map entry_text (sort_key fst d)) @ CHR ''}'' # r
      = join_comma (map entry_text (sort_key fst d')) @ CHR ''}'' # s"
    by (simp add: json_dumps_obj)
  then have "list_all2 ?same (sort_key fst d) (sort_key fst d') \<and> r = s"
    by (intro join_comma_prefix [where same = ?same and enc = entry_text and c = "CHR ''}''", OF entry entry_text_starts])
      simp_all
  with b show ?case by (auto simp: to_jsonable_obj dest: list_all2_map_eq)
qed

lemma to_jsonable_idem: "to_jsonable (to_jsonable v) = to_jsonable v"
proof (induction v)
  case (JObj d)
  have "sort_key fst (map (\<lambda>(k, v). (k, to_jsonable v)) (sort_key fst d))
      = map (\<lambda>(k, v). (k, to_jsonable v)) (sort_key fst d)"
    by (simp add: sort_key_map_snd sort_key_id_if_sorted)
  with JObj show ?case
    by (auto simp: to_jsonable_obj sort_key_map_snd case_prod_unfold sort_key_id_if_sorted snds.simps)
qed auto

lemma canonical_json_eqD: "canonical_json a = canonical_json b \<Longrightarrow> to_jsonable a = to_jsonable b"
  using json_dumps_prefix [of "to_jsonable a" "[]" "to_jsonable b" "[]"]
  by (simp add: canonical_json_def to_jsonable_idem)

text \<open>
  The canonical JSON text of a value (keys sorted, compact separators, ASCII
  escapes) identifies it exactly up to the order in which dictionaries hold their
  entries: two values have the same text if and only if they agree once every
  dictionary is sorted by key.
\<close>

theorem canonical_json_identifies:
  "canonical_json a = canonical_json b \<longleftrightarrow> to_jsonable a = to_jsonable b"
  by (metis canonical_json_def canonical_json_eqD)

end
