(* ===== verification/Powl_Algebra.thy ===== *)
theory Powl_Algebra
  imports Canonical_Json
begin

text \<open>
  \<^verbatim>\<open>powl/refusals.py\<close>, \<^verbatim>\<open>powl/frequency.py\<close> and \<^verbatim>\<open>powl/algebra.py\<close>: the node
  algebra of POWL 2.0.  A node is a \<open>pnode\<close>; its constructors are the raw objects, with
  the cached closure and depth as fields, and the \<open>mk_\<close> functions are the
  \<^verbatim>\<open>__post_init__\<close> bodies that admit or refuse.  \<open>Foreign\<close> stands for an object of any
  other Python class, so that the final \<^verbatim>\<open>raise\<close> of every dispatch is a branch.
  A \<open>frozenset\<close> of edges is the list of its elements, without repetition, in the order in
  which it is iterated; nothing is proved about one order only.
\<close>

section \<open>Refusals and exceptions\<close>

datatype refusal =
    CYCLIC_PARTIAL_ORDER | INVALID_CHOICE | INVALID_CHOICE_ARITY | IRREDUCIBLE_PROJECTION
  | LANGUAGE_MISMATCH | CHOICE_GRAPH_DISCONNECTED | MULTI_BOUNDARY_CHOICE_GRAPH | DEPTH_EXCEEDED
  | DANGLING_REFERENCE | NOT_TRANSITIVELY_REDUCED | EDGE_TYPE_MISMATCH | INVALID_PARTIAL_ORDER_ARITY
  | INVALID_FREQUENCY | PROHIBITED_NODE_KIND | BOUND_EXHAUSTED | AMBIGUOUS_CHOICE_GUARD
  | NO_GUARD_MATCHED | TRANSITION_BUDGET_EXHAUSTED | ATOM_INVOCATION_FAILED | CHECKPOINT_NODE_MISMATCH

text \<open>
  What a function of the package may raise: a \<^verbatim>\<open>PowlError\<close> with its refusal (the detail
  text is for people and is left out), or Python's \<^verbatim>\<open>IndexError\<close> from \<^verbatim>\<open>children[i]\<close>,
  \<^verbatim>\<open>KeyError\<close> from a dictionary and \<^verbatim>\<open>ValueError\<close>.
\<close>

datatype exn = PowlError refusal | IndexError | KeyError | ValueError | TypeError

type_synonym 'a res = "exn + 'a"

abbreviation refuse :: "refusal \<Rightarrow> 'a res" where
  "refuse r \<equiv> Inl (PowlError r)"

definition child_at :: "'a list \<Rightarrow> int \<Rightarrow> 'a res" where
  "child_at cs i = (case py_get cs i of None \<Rightarrow> Inl IndexError | Some c \<Rightarrow> Inr c)"

lemma child_at_in_range [simp]: "in_range i (length cs) \<Longrightarrow> child_at cs i = Inr (cs ! nat i)"
  by (simp add: child_at_def in_range_def)

lemma child_at_InrD: "child_at cs i = Inr c \<Longrightarrow> c \<in> set cs"
  by (auto simp: child_at_def split: option.splits dest: py_get_SomeD)

section \<open>Frequencies\<close>

record frequency =
  fmin :: int
  fmax :: "int option"

text \<open>\<open>mk_frequency\<close> is \<^verbatim>\<open>Frequency.__post_init__\<close> on integers; \<^verbatim>\<open>max=None\<close> is unbounded.\<close>

definition mk_frequency :: "int \<Rightarrow> int option \<Rightarrow> frequency res" where
  "mk_frequency lo hi =
     (if lo < 0 then refuse INVALID_FREQUENCY
      else case hi of
          Some h \<Rightarrow> if h < lo then refuse INVALID_FREQUENCY else Inr \<lparr>fmin = lo, fmax = hi\<rparr>
        | None \<Rightarrow> Inr \<lparr>fmin = lo, fmax = None\<rparr>)"

definition allows :: "frequency \<Rightarrow> int \<Rightarrow> bool" where
  "allows f n = (if n < fmin f then False else (case fmax f of None \<Rightarrow> True | Some h \<Rightarrow> n \<le> h))"

definition is_skippable :: "frequency \<Rightarrow> bool" where
  "is_skippable f \<longleftrightarrow> fmin f = 0"

definition is_unbounded :: "frequency \<Rightarrow> bool" where
  "is_unbounded f \<longleftrightarrow> fmax f = None"

definition is_repeatable :: "frequency \<Rightarrow> bool" where
  "is_repeatable f \<longleftrightarrow> (case fmax f of None \<Rightarrow> True | Some h \<Rightarrow> h > 1)"

definition ONCE :: frequency where "ONCE = \<lparr>fmin = 1, fmax = Some 1\<rparr>"
definition OPTIONAL :: frequency where "OPTIONAL = \<lparr>fmin = 0, fmax = Some 1\<rparr>"
definition ONE_OR_MORE :: frequency where "ONE_OR_MORE = \<lparr>fmin = 1, fmax = None\<rparr>"
definition ZERO_OR_MORE :: frequency where "ZERO_OR_MORE = \<lparr>fmin = 0, fmax = None\<rparr>"

text \<open>What \<open>mk_frequency\<close> establishes.\<close>

definition wf_frequency :: "frequency \<Rightarrow> bool" where
  "wf_frequency f \<longleftrightarrow> 0 \<le> fmin f \<and> (case fmax f of None \<Rightarrow> True | Some h \<Rightarrow> fmin f \<le> h)"

lemma mk_frequency_wf: "mk_frequency lo hi = Inr f \<Longrightarrow> wf_frequency f \<and> fmin f = lo \<and> fmax f = hi"
  by (auto simp: mk_frequency_def wf_frequency_def split: if_splits option.splits)

lemma wf_frequency_constants [simp]:
  "wf_frequency ONCE" "wf_frequency OPTIONAL" "wf_frequency ONE_OR_MORE" "wf_frequency ZERO_OR_MORE"
  by (simp_all add: wf_frequency_def ONCE_def OPTIONAL_def ONE_OR_MORE_def ZERO_OR_MORE_def)

lemma allows_ONCE [simp]: "allows ONCE n \<longleftrightarrow> n = 1"
  by (auto simp: allows_def ONCE_def)

lemma allows_iff: "allows f n \<longleftrightarrow> fmin f \<le> n \<and> (\<forall>h. fmax f = Some h \<longrightarrow> n \<le> h)"
  by (auto simp: allows_def split: option.splits)

section \<open>Edges\<close>

text \<open>
  A guard names a predicate and carries its arguments, a JSON object; its identity is
  the canonical text \<open>guard_key\<close>.
\<close>

datatype guard = Guard (predicate_name: string) (predicate_args: json)

definition guard_key :: "guard \<Rightarrow> string" where
  "guard_key g = canonical_json (JObj [(''predicate_name'', JStr (predicate_name g)),
                                       (''predicate_args'', predicate_args g)])"

text \<open>The two edge classes are not interchangeable, so they are two constructors.\<close>

datatype edge = OrderEdge (src: int) (dst: int)
  | ChoiceGraphEdge (src: int) (dst: int) (guard_of: "guard option")
  where "guard_of (OrderEdge _ _) = None"

definition guard_key_or_empty :: "edge \<Rightarrow> string" where
  "guard_key_or_empty e = (case guard_of e of Some g \<Rightarrow> guard_key g | None \<Rightarrow> '''')"

text \<open>The sort key of \<^verbatim>\<open>ChoiceGraphEdge.__lt__\<close>; for \<open>OrderEdge\<close> it is \<^verbatim>\<open>order=True\<close>.\<close>

definition edge_key :: "edge \<Rightarrow> int \<times> int \<times> string" where
  "edge_key e = (src e, dst e, guard_key_or_empty e)"

definition sorted_edges :: "edge list \<Rightarrow> edge list" where
  "sorted_edges es = sort_key edge_key es"

lemma set_sorted_edges [simp]: "set (sorted_edges es) = set es"
  by (simp add: sorted_edges_def)

abbreviation ends :: "edge \<Rightarrow> int \<times> int" where
  "ends e \<equiv> (src e, dst e)"

text \<open>The relation that a set of edges denotes.\<close>

definition erel :: "edge list \<Rightarrow> (int \<times> int) set" where
  "erel es = ends ` set es"

lemma erel_finite [simp]: "finite (erel es)"
  by (simp add: erel_def)

section \<open>Transitive closure and reduction\<close>

text \<open>\<open>check_edges\<close> refuses the first edge that is not an order edge or dangles.\<close>

definition check_edge :: "nat \<Rightarrow> edge \<Rightarrow> unit res" where
  "check_edge n e =
     (if \<not> is_OrderEdge e then refuse EDGE_TYPE_MISMATCH
      else if \<not> (in_range (src e) n \<and> in_range (dst e) n) then refuse DANGLING_REFERENCE
      else Inr ())"

definition check_edges :: "edge list \<Rightarrow> nat \<Rightarrow> unit res" where
  "check_edges es n = iterE (check_edge n) es"

text \<open>
  \<open>reachability\<close> is Warshall's triple loop over a boolean matrix, updated in place
  (\<open>rk\<close> and \<open>ri\<close> of the source alias rows of the same matrix).
\<close>

definition cell :: "bool list list \<Rightarrow> nat \<Rightarrow> nat \<Rightarrow> bool" where
  "cell m i j = m ! i ! j"

definition set_cell :: "bool list list \<Rightarrow> nat \<Rightarrow> nat \<Rightarrow> bool list list" where
  "set_cell m i j = m[i := (m ! i)[j := True]]"

definition false_matrix :: "nat \<Rightarrow> bool list list" where
  "false_matrix n = map (\<lambda>_. replicate n False) [0..<n]"

definition edge_matrix :: "edge list \<Rightarrow> nat \<Rightarrow> bool list list" where
  "edge_matrix es n = foldl (\<lambda>m e. set_cell m (nat (src e)) (nat (dst e))) (false_matrix n) es"

definition pivot_row :: "nat \<Rightarrow> nat \<Rightarrow> bool list list \<Rightarrow> nat \<Rightarrow> bool list list" where
  "pivot_row n k m i =
     (if cell m i k then foldl (\<lambda>m j. if cell m k j then set_cell m i j else m) m [0..<n] else m)"

definition pivot :: "nat \<Rightarrow> bool list list \<Rightarrow> nat \<Rightarrow> bool list list" where
  "pivot n m k = foldl (pivot_row n k) m [0..<n]"

definition reachability :: "edge list \<Rightarrow> nat \<Rightarrow> bool list list" where
  "reachability es n = foldl (pivot n) (edge_matrix es n) [0..<n]"

definition matrix_edges :: "nat \<Rightarrow> bool list list \<Rightarrow> edge list" where
  "matrix_edges n m = concat (map (\<lambda>i. map (\<lambda>j. OrderEdge (int i) (int j))
     (filter (\<lambda>j. cell m i j) [0..<n])) [0..<n])"

definition transitive_closure :: "edge list \<Rightarrow> nat \<Rightarrow> edge list res" where
  "transitive_closure es n =
     bindE (check_edges es n) (\<lambda>_.
       let reach = reachability es n in
       if \<exists>i \<in> set [0..<n]. cell reach i i then refuse CYCLIC_PARTIAL_ORDER
       else Inr (matrix_edges n reach))"

definition transitive_reduction :: "edge list \<Rightarrow> nat \<Rightarrow> edge list res" where
  "transitive_reduction es n =
     bindE (transitive_closure es n) (\<lambda>closure.
       let reach = edge_matrix closure n in
       Inr (filter (\<lambda>e. \<not> (\<exists>k \<in> set [0..<n]. int k \<noteq> src e \<and> int k \<noteq> dst e
              \<and> cell reach (nat (src e)) k \<and> cell reach k (nat (dst e)))) closure))"

section \<open>Nodes\<close>

datatype consequence = PURE | READ | DO | VERIFY

text \<open>
  An action is an opaque payload of which the package reads only a textual identity:
  nothing, a named callable or class, a plain value, or an object of some class.
\<close>

datatype action = NoAction | Named string string | StrAction string | IntAction int
  | BoolAction bool | ObjectAction string string

definition action_identity :: "action \<Rightarrow> string" where
  "action_identity a = (case a of
       NoAction \<Rightarrow> ''''
     | Named m nm \<Rightarrow> m @ ''.'' @ nm
     | StrAction s \<Rightarrow> ''str:'' @ s
     | IntAction i \<Rightarrow> ''int:'' @ string_of_int i
     | BoolAction b \<Rightarrow> ''bool:'' @ (if b then ''True'' else ''False'')
     | ObjectAction m nm \<Rightarrow> m @ ''.'' @ nm)"

datatype pnode = Start | End | Silent
  | Atom (label: string) (action: action) (bindings: json) (consequence: consequence)
  | PartialOrder (children: "pnode list") (order: "edge list") (freq: frequency)
      (closure: "edge list") (cached_depth: nat)
  | ChoiceGraph (children: "pnode list") (edges: "edge list") (start: int) (finish: int)
      (freq: frequency) (cached_depth: nat)
  | Foreign string
  where "children Start = []" | "children End = []" | "children Silent = []"
  | "children (Atom _ _ _ _) = []" | "children (Foreign _) = []"

definition consequence_name :: "consequence \<Rightarrow> string" where
  "consequence_name c = (case c of PURE \<Rightarrow> ''PURE'' | READ \<Rightarrow> ''READ'' | DO \<Rightarrow> ''DO'' | VERIFY \<Rightarrow> ''VERIFY'')"

definition atom_key :: "pnode \<Rightarrow> string" where
  "atom_key a = canonical_json (JObj
     [(''label'', JStr (label a)), (''action'', JStr (action_identity (action a))),
      (''bindings'', bindings a), (''consequence'', JStr (consequence_name (consequence a)))])"

definition MAX_POWL_DEPTH :: nat where "MAX_POWL_DEPTH = 8"

definition node_depth :: "pnode \<Rightarrow> nat" where
  "node_depth v = (case v of PartialOrder _ _ _ _ d \<Rightarrow> d | ChoiceGraph _ _ _ _ _ d \<Rightarrow> d | _ \<Rightarrow> 1)"

definition composite_depth :: "pnode list \<Rightarrow> nat res" where
  "composite_depth cs =
     (let depth = 1 + fold max (map node_depth cs) 0
      in if depth > MAX_POWL_DEPTH then refuse DEPTH_EXCEEDED else Inr depth)"

definition mk_partial_order :: "pnode list \<Rightarrow> edge list \<Rightarrow> frequency \<Rightarrow> pnode res" where
  "mk_partial_order cs es f =
     (let n = length cs; es = remdups es in
      if n < 2 then refuse INVALID_PARTIAL_ORDER_ARITY
      else bindE (check_edges es n) (\<lambda>_.
           bindE (transitive_closure es n) (\<lambda>cl.
           bindE (transitive_reduction cl n) (\<lambda>red.
           bindE (composite_depth cs) (\<lambda>d.
           Inr (PartialOrder cs red f cl d))))))"

definition check_choice_edge :: "nat \<Rightarrow> edge \<Rightarrow> unit res" where
  "check_choice_edge n e =
     (if is_OrderEdge e then refuse EDGE_TYPE_MISMATCH
      else if \<not> (in_range (src e) n \<and> in_range (dst e) n) then refuse DANGLING_REFERENCE
      else Inr ())"

definition check_boundary :: "int \<Rightarrow> int \<Rightarrow> edge \<Rightarrow> unit res" where
  "check_boundary st en e =
     (if dst e = st then refuse MULTI_BOUNDARY_CHOICE_GRAPH
      else if src e = en then refuse MULTI_BOUNDARY_CHOICE_GRAPH
      else Inr ())"

definition mk_choice_graph :: "pnode list \<Rightarrow> edge list \<Rightarrow> int \<Rightarrow> int \<Rightarrow> frequency \<Rightarrow> pnode res" where
  "mk_choice_graph cs es st en f =
     (let n = length cs; es = remdups es in
      if n < 2 then refuse INVALID_CHOICE_ARITY
      else bindE (iterE (check_choice_edge n) es) (\<lambda>_.
           if \<not> in_range st n then refuse DANGLING_REFERENCE
           else if \<not> in_range en n then refuse DANGLING_REFERENCE
           else if st = en then refuse MULTI_BOUNDARY_CHOICE_GRAPH
           else bindE (iterE (check_boundary st en) es) (\<lambda>_.
                bindE (composite_depth cs) (\<lambda>d.
                Inr (ChoiceGraph cs es st en f d)))))"

end
