(* ===== verification/Powl_Order.thy ===== *)
theory Powl_Order
  imports Powl_Algebra
begin

text \<open>
  Correctness of the edge algebra of \<^verbatim>\<open>powl/algebra.py\<close>: Warshall's loops compute the
  transitive closure, the filter over the closure computes its covering relation, so
  \<open>transitive_reduction\<close> is the least relation with the same closure; and what the
  node constructors establish (\<open>wf_node\<close>).
\<close>

section \<open>Boolean matrices\<close>

definition mat :: "nat \<Rightarrow> bool list list \<Rightarrow> bool" where
  "mat n m \<longleftrightarrow> length m = n \<and> (\<forall>i < n. length (m ! i) = n)"

definition mrel :: "nat \<Rightarrow> bool list list \<Rightarrow> (nat \<times> nat) set" where
  "mrel n m = {(a, b). a < n \<and> b < n \<and> cell m a b}"

lemma mrel_iff: "(a, b) \<in> mrel n m \<longleftrightarrow> a < n \<and> b < n \<and> cell m a b"
  by (simp add: mrel_def)

lemma mat_set_cell [simp]: "mat n m \<Longrightarrow> mat n (set_cell m i j)"
  unfolding mat_def set_cell_def by (metis length_list_update nth_list_update_eq nth_list_update_neq)

lemma cell_set_cell:
  assumes "mat n m" "a < n" "b < n"
  shows "cell (set_cell m i j) a b \<longleftrightarrow> a = i \<and> b = j \<or> cell m a b"
proof (cases "a = i")
  case True
  with assms have "m[i := (m ! i)[j := True]] ! a = (m ! i)[j := True]" "length (m ! i) = n"
    by (auto simp: mat_def)
  with True assms show ?thesis by (cases "b = j") (auto simp: cell_def set_cell_def)
qed (simp add: cell_def set_cell_def)

lemma mrel_set_cell:
  "mat n m \<Longrightarrow> i < n \<Longrightarrow> j < n \<Longrightarrow> mrel n (set_cell m i j) = insert (i, j) (mrel n m)"
  by (auto simp: mrel_def cell_set_cell)

lemma mat_false [simp]: "mat n (false_matrix n)" and mrel_false [simp]: "mrel n (false_matrix n) = {}"
  by (auto simp: mat_def false_matrix_def mrel_def cell_def)

lemma foldl_edges:
  assumes "mat n m" "\<forall>e \<in> set es. in_range (src e) n \<and> in_range (dst e) n"
  shows "mat n (foldl (\<lambda>m e. set_cell m (nat (src e)) (nat (dst e))) m es)
    \<and> mrel n (foldl (\<lambda>m e. set_cell m (nat (src e)) (nat (dst e))) m es)
      = mrel n m \<union> (\<lambda>e. (nat (src e), nat (dst e))) ` set es"
  using assms by (induction es arbitrary: m) (auto simp: mrel_set_cell in_range_nat)

lemma edge_matrix_rel:
  assumes "\<forall>e \<in> set es. in_range (src e) n \<and> in_range (dst e) n"
  shows "mat n (edge_matrix es n)" "mrel n (edge_matrix es n) = map_prod nat nat ` erel es"
  using foldl_edges [OF mat_false assms] by (auto simp: edge_matrix_def erel_def image_image)

section \<open>Warshall's loops\<close>

lemma row_loop:
  assumes "mat n m" "i < n" "k < n" "set js \<subseteq> {..<n}"
  defines "f \<equiv> \<lambda>m j. if cell m k j then set_cell m i j else m"
  shows "mat n (foldl f m js) \<and> mrel n (foldl f m js) = mrel n m \<union> {(i, j) | j. j \<in> set js \<and> cell m k j}"
  using assms(1,4)
proof (induction js arbitrary: m)
  case (Cons j js)
  have row: "cell (f m j) k b = cell m k b" if "b < n" for b
    using that Cons.prems assms(2,3) by (auto simp: f_def cell_set_cell)
  have "mat n (f m j)" "mrel n (f m j) = mrel n m \<union> {(i, j) | b. b = j \<and> cell m k j}"
    using Cons.prems assms(2) by (auto simp: f_def mrel_set_cell)
  moreover have "{(i, b) | b. b \<in> set js \<and> cell (f m j) k b} = {(i, b) | b. b \<in> set js \<and> cell m k b}"
    using row Cons.prems(2) by auto
  ultimately show ?case
    using Cons.IH [of "f m j"] Cons.prems by auto
qed simp

lemma pivot_row_rel:
  assumes "mat n m" "i < n" "k < n"
  shows "mat n (pivot_row n k m i)"
    and "mrel n (pivot_row n k m i) = mrel n m \<union> {(i, j) | j. (i, k) \<in> mrel n m \<and> (k, j) \<in> mrel n m}"
proof -
  have "set [0..<n] \<subseteq> {..<n}" by auto
  from row_loop [OF assms this]
  show "mat n (pivot_row n k m i)"
    and "mrel n (pivot_row n k m i) = mrel n m \<union> {(i, j) | j. (i, k) \<in> mrel n m \<and> (k, j) \<in> mrel n m}"
    using assms by (auto simp: pivot_row_def mrel_iff [of i k] mrel_iff [of k])
qed

lemma pivot_loop:
  assumes "mat n m" "k < n" "set is \<subseteq> {..<n}"
  shows "mat n (foldl (pivot_row n k) m is) \<and> mrel n (foldl (pivot_row n k) m is)
    = mrel n m \<union> {(i, j). i \<in> set is \<and> (i, k) \<in> mrel n m \<and> (k, j) \<in> mrel n m}"
  using assms(1,3)
proof (induction "is" arbitrary: m)
  case (Cons i "is")
  let ?m = "pivot_row n k m i"
  have i: "i < n" using Cons.prems by simp
  note step = pivot_row_rel [OF Cons.prems(1) i assms(2)]
  have "(a, k) \<in> mrel n ?m \<longleftrightarrow> (a, k) \<in> mrel n m" "(k, b) \<in> mrel n ?m \<longleftrightarrow> (k, b) \<in> mrel n m" for a b
    unfolding step(2) by auto
  with Cons.IH [OF step(1)] Cons.prems(2) step show ?case by auto
qed simp

lemma pivot_rel:
  assumes "mat n m" "k < n"
  shows "mat n (pivot n m k)"
    and "mrel n (pivot n m k) = mrel n m \<union> {(i, j). (i, k) \<in> mrel n m \<and> (k, j) \<in> mrel n m}"
proof -
  have "set [0..<n] \<subseteq> {..<n}" by auto
  from pivot_loop [OF assms this]
  show "mat n (pivot n m k)"
    and "mrel n (pivot n m k) = mrel n m \<union> {(i, j). (i, k) \<in> mrel n m \<and> (k, j) \<in> mrel n m}"
    by (auto simp: pivot_def mrel_iff [of _ k])
qed

text \<open>The loop invariant: after pivots below \<open>k\<close>, paths through nodes below \<open>k\<close> are closed.\<close>

definition warshall_inv :: "(nat \<times> nat) set \<Rightarrow> nat \<Rightarrow> (nat \<times> nat) set \<Rightarrow> bool" where
  "warshall_inv E k R \<longleftrightarrow> E \<subseteq> R \<and> R \<subseteq> E\<^sup>+ \<and>
     (\<forall>a b c. (a, c) \<in> R \<longrightarrow> (c, b) \<in> R \<longrightarrow> c < k \<longrightarrow> (a, b) \<in> R)"

lemma warshall_inv_step:
  assumes "warshall_inv E k R"
  shows "warshall_inv E (Suc k) (R \<union> {(i, j). (i, k) \<in> R \<and> (k, j) \<in> R})"
proof -
  have "(i, j) \<in> E\<^sup>+" if "(i, k) \<in> R" "(k, j) \<in> R" for i j
    using assms that unfolding warshall_inv_def by (meson subsetD trancl_trans)
  moreover have "(a, b) \<in> R \<union> {(i, j). (i, k) \<in> R \<and> (k, j) \<in> R}"
    if "(a, c) \<in> R \<union> {(i, j). (i, k) \<in> R \<and> (k, j) \<in> R}"
      "(c, b) \<in> R \<union> {(i, j). (i, k) \<in> R \<and> (k, j) \<in> R}" "c < Suc k" for a b c
    using assms that unfolding warshall_inv_def less_Suc_eq by blast
  ultimately show ?thesis using assms unfolding warshall_inv_def by blast
qed

lemma reachability_inv:
  assumes "\<forall>e \<in> set es. in_range (src e) n \<and> in_range (dst e) n" and "k \<le> n"
  defines "m \<equiv> foldl (pivot n) (edge_matrix es n) [0..<k]"
  shows "mat n m \<and> warshall_inv (map_prod nat nat ` erel es) k (mrel n m)"
  using assms(2) unfolding m_def
proof (induction k)
  case 0
  then show ?case using edge_matrix_rel [OF assms(1)] by (auto simp: warshall_inv_def)
next
  case (Suc k)
  let ?m = "foldl (pivot n) (edge_matrix es n) [0..<k]"
  from Suc have IH: "mat n ?m" "warshall_inv (map_prod nat nat ` erel es) k (mrel n ?m)" by auto
  from pivot_rel [OF IH(1), of k] Suc.prems warshall_inv_step [OF IH(2)] show ?case by simp
qed

lemma reachability_trancl:
  assumes "\<forall>e \<in> set es. in_range (src e) n \<and> in_range (dst e) n"
  shows "mrel n (reachability es n) = (map_prod nat nat ` erel es)\<^sup>+"
proof -
  let ?R = "mrel n (reachability es n)" and ?E = "map_prod nat nat ` erel es"
  have inv: "warshall_inv ?E n ?R" using reachability_inv [OF assms, of n] by (simp add: reachability_def)
  have "trans ?R"
  proof (rule transI)
    fix a b c assume ab: "(a, b) \<in> ?R" and bc: "(b, c) \<in> ?R"
    moreover from bc have "b < n" by (simp add: mrel_iff)
    ultimately show "(a, c) \<in> ?R" using inv unfolding warshall_inv_def by blast
  qed
  moreover have "?E \<subseteq> ?R" "?R \<subseteq> ?E\<^sup>+" using inv by (auto simp: warshall_inv_def)
  ultimately show ?thesis by (metis subset_antisym trancl_mono_subset trancl_id)
qed

section \<open>The closure of a set of order edges\<close>

definition order_edges_ok :: "edge list \<Rightarrow> nat \<Rightarrow> bool" where
  "order_edges_ok es n \<longleftrightarrow>
     (\<forall>e \<in> set es. is_OrderEdge e \<and> in_range (src e) n \<and> in_range (dst e) n)"

lemma check_edges_iff: "check_edges es n = Inr u \<longleftrightarrow> order_edges_ok es n"
  by (auto simp: check_edges_def check_edge_def order_edges_ok_def iterE_Inr_iff)

lemma check_edges_total:
  "check_edges es n = Inr () \<or> (\<exists>r \<in> {EDGE_TYPE_MISMATCH, DANGLING_REFERENCE}. check_edges es n = refuse r)"
proof (cases "check_edges es n")
  case (Inl x)
  then have "iterE (check_edge n) es = Inl x" by (simp add: check_edges_def)
  from iterE_InlD [OF this] obtain e where "check_edge n e = Inl x" ..
  with Inl show ?thesis by (auto simp: check_edge_def split: if_splits)
qed simp

lemma int_image_iff: "(x, y) \<in> map_prod int int ` R \<longleftrightarrow> (\<exists>i j. x = int i \<and> y = int j \<and> (i, j) \<in> R)"
proof
  assume "(x, y) \<in> map_prod int int ` R"
  then obtain q where "(x, y) = map_prod int int q" "q \<in> R" by (rule imageE)
  then show "\<exists>i j. x = int i \<and> y = int j \<and> (i, j) \<in> R" by (cases q) simp
next
  assume "\<exists>i j. x = int i \<and> y = int j \<and> (i, j) \<in> R"
  then obtain i j where *: "x = int i" "y = int j" "(i, j) \<in> R" by blast
  then have "map_prod int int (i, j) \<in> map_prod int int ` R" by (intro imageI)
  with * show "(x, y) \<in> map_prod int int ` R" by simp
qed

lemma trancl_map_prod_int: "(map_prod int int ` R)\<^sup>+ = map_prod int int ` R\<^sup>+"
proof
  show "map_prod int int ` R\<^sup>+ \<subseteq> (map_prod int int ` R)\<^sup>+"
  proof clarsimp
    fix a b assume "(a, b) \<in> R\<^sup>+"
    then show "(int a, int b) \<in> (map_prod int int ` R)\<^sup>+"
      by induction (auto intro: trancl_into_trancl r_into_trancl)
  qed
  show "(map_prod int int ` R)\<^sup>+ \<subseteq> map_prod int int ` R\<^sup>+"
  proof clarsimp
    fix x y assume "(x, y) \<in> (map_prod int int ` R)\<^sup>+"
    then show "(x, y) \<in> map_prod int int ` R\<^sup>+"
      by induction (auto simp: int_image_iff intro: trancl_into_trancl)
  qed
qed

lemma erel_nat_int:
  assumes "order_edges_ok es n"
  shows "map_prod int int ` map_prod nat nat ` erel es = erel es"
proof -
  have "map_prod int int (map_prod nat nat p) = p" if "p \<in> erel es" for p
    using that assms by (auto simp: erel_def order_edges_ok_def in_range_def)
  then have "map_prod int int ` map_prod nat nat ` erel es = (\<lambda>p. p) ` erel es"
    unfolding image_image by (rule image_cong [OF refl])
  then show ?thesis by simp
qed

lemma set_matrix_edges: "set (matrix_edges n m) = (\<lambda>(i, j). OrderEdge (int i) (int j)) ` mrel n m"
  by (auto simp: matrix_edges_def mrel_def)

lemma erel_matrix_edges: "erel (matrix_edges n m) = map_prod int int ` mrel n m"
  by (simp add: erel_def set_matrix_edges image_image case_prod_unfold map_prod_def)

lemma matrix_edges_ok: "order_edges_ok (matrix_edges n m) n"
  by (auto simp: order_edges_ok_def set_matrix_edges mrel_def)

lemma distinct_matrix_edges: "distinct (matrix_edges n m)"
proof -
  have "distinct (concat (map (\<lambda>i. map (\<lambda>j. OrderEdge (int i) (int j)) (f i)) xs))"
    if "distinct xs" "\<And>i. distinct (f i)" for f xs
    using that by (induction xs) (auto simp: distinct_map inj_on_def)
  then show ?thesis by (simp add: matrix_edges_def)
qed

lemma reachability_erel:
  assumes "order_edges_ok es n"
  shows "map_prod int int ` mrel n (reachability es n) = (erel es)\<^sup>+"
proof -
  have "\<forall>e \<in> set es. in_range (src e) n \<and> in_range (dst e) n"
    using assms by (simp add: order_edges_ok_def)
  then show ?thesis
    by (simp add: reachability_trancl trancl_map_prod_int [symmetric] erel_nat_int [OF assms])
qed

lemma reachability_cell:
  assumes "order_edges_ok es n" "i < n" "j < n"
  shows "cell (reachability es n) i j \<longleftrightarrow> (int i, int j) \<in> (erel es)\<^sup>+"
  using reachability_erel [OF assms(1), symmetric] assms(2,3)
  by (auto simp: mrel_iff int_image_iff)

lemma erel_range: "order_edges_ok es n \<Longrightarrow> (i, j) \<in> erel es \<Longrightarrow> in_range i n \<and> in_range j n"
  by (auto simp: erel_def order_edges_ok_def)

lemma erel_trancl_range:
  assumes "order_edges_ok es n" "(i, j) \<in> (erel es)\<^sup>+"
  shows "in_range i n \<and> in_range j n"
  using assms(2) erel_range [OF assms(1)] by (induction) auto

lemma diagonal_acyclic:
  assumes "order_edges_ok es n"
  shows "(\<exists>i \<in> set [0..<n]. cell (reachability es n) i i) \<longleftrightarrow> \<not> acyclic (erel es)"
proof -
  have "\<exists>i < n. (int i, int i) \<in> (erel es)\<^sup>+" if "(x, x) \<in> (erel es)\<^sup>+" for x
    using that erel_trancl_range [OF assms that] by (auto elim!: in_rangeE)
  then show ?thesis using assms by (force simp: acyclic_def reachability_cell)
qed

text \<open>The closure: refused exactly for a cyclic relation, and otherwise the transitive closure.\<close>

lemma transitive_closure_InrD:
  assumes "transitive_closure es n = Inr cl"
  shows "order_edges_ok es n" "acyclic (erel es)" "erel cl = (erel es)\<^sup>+"
    and "order_edges_ok cl n" "distinct cl" "cl = matrix_edges n (reachability es n)"
proof -
  from assms show ok: "order_edges_ok es n"
    by (auto simp: transitive_closure_def bindE_Inr_iff check_edges_iff)
  from assms show cl: "cl = matrix_edges n (reachability es n)"
    by (auto simp: transitive_closure_def bindE_Inr_iff Let_def split: if_splits)
  from assms diagonal_acyclic [OF ok] show "acyclic (erel es)"
    by (auto simp: transitive_closure_def bindE_Inr_iff Let_def split: if_splits)
  show "erel cl = (erel es)\<^sup>+" by (simp add: cl erel_matrix_edges reachability_erel [OF ok])
  show "order_edges_ok cl n" "distinct cl" by (simp_all add: cl matrix_edges_ok distinct_matrix_edges)
qed

lemma transitive_closure_ok:
  assumes "order_edges_ok es n"
  shows "transitive_closure es n =
    (if acyclic (erel es) then Inr (matrix_edges n (reachability es n)) else refuse CYCLIC_PARTIAL_ORDER)"
proof -
  have "check_edges es n = Inr ()" using assms by (simp add: check_edges_iff)
  then show ?thesis
    unfolding transitive_closure_def Let_def diagonal_acyclic [OF assms] by simp
qed

text \<open>
  Both results depend on the closure of the relation only, not on which edges were given.
\<close>

lemma matrix_edges_cong: "mrel n m = mrel n m' \<Longrightarrow> matrix_edges n m = matrix_edges n m'"
proof -
  assume "mrel n m = mrel n m'"
  then have "\<And>i j. i < n \<Longrightarrow> j < n \<Longrightarrow> cell m i j = cell m' i j" by (metis mrel_iff)
  then have "filter (\<lambda>j. cell m i j) [0..<n] = filter (\<lambda>j. cell m' i j) [0..<n]" if "i < n" for i
    using that by (intro filter_cong) auto
  then show ?thesis unfolding matrix_edges_def by (intro arg_cong [where f = concat] map_cong) auto
qed

lemma inj_map_prod_int: "inj (map_prod int int)"
  by (auto simp: inj_def)

lemma acyclic_trancl: "acyclic (R\<^sup>+) \<longleftrightarrow> acyclic R"
  by (simp add: acyclic_def)

lemma transitive_closure_cong:
  assumes "order_edges_ok es n" "order_edges_ok es' n" "(erel es)\<^sup>+ = (erel es')\<^sup>+"
  shows "transitive_closure es n = transitive_closure es' n"
proof -
  have "mrel n (reachability es n) = mrel n (reachability es' n)"
    using reachability_erel assms inj_image_eq_iff [OF inj_map_prod_int] by metis
  then have "matrix_edges n (reachability es n) = matrix_edges n (reachability es' n)"
    by (rule matrix_edges_cong)
  moreover have "acyclic (erel es) = acyclic (erel es')" by (metis assms(3) acyclic_trancl)
  ultimately show ?thesis using assms by (simp add: transitive_closure_ok)
qed

section \<open>The reduction\<close>

text \<open>The closure of a set of edges as a strict order, or nothing where it is refused.\<close>

definition closure_rel :: "edge list \<Rightarrow> nat \<Rightarrow> (int \<times> int) set" where
  "closure_rel es n = (case transitive_closure es n of Inl _ \<Rightarrow> {} | Inr cl \<Rightarrow> erel cl)"

interpretation precedence: strict_order "closure_rel es n" for es n
proof unfold_locales
  show "finite (closure_rel es n)" by (simp add: closure_rel_def split: sum.split)
  show "trans (closure_rel es n)" by (auto simp: closure_rel_def transitive_closure_InrD(3) split: sum.split)
  show "irrefl (closure_rel es n)"
    using transitive_closure_InrD(2,3) [of es n]
    by (auto simp: closure_rel_def acyclic_irrefl irrefl_def split: sum.split)
qed

lemma closure_rel_Inr: "transitive_closure es n = Inr cl \<Longrightarrow> closure_rel es n = erel cl"
  by (simp add: closure_rel_def)

lemma edge_matrix_cell:
  assumes "order_edges_ok es n" "i < n" "j < n"
  shows "cell (edge_matrix es n) i j \<longleftrightarrow> (int i, int j) \<in> erel es"
proof -
  have r: "\<forall>e \<in> set es. in_range (src e) n \<and> in_range (dst e) n"
    using assms(1) by (simp add: order_edges_ok_def)
  have "(i, j) \<in> map_prod nat nat ` erel es \<longleftrightarrow> (int i, int j) \<in> erel es"
    unfolding erel_nat_int [OF assms(1), symmetric, THEN arg_cong, of "\<lambda>R. (int i, int j) \<in> R"] int_image_iff by auto
  then show ?thesis using edge_matrix_rel(2) [OF r] assms(2,3) by (metis mrel_iff)
qed

lemma transitive_reduction_InrD:
  assumes "transitive_reduction es n = Inr red"
  obtains cl where "transitive_closure es n = Inr cl"
    "erel red = covers (erel cl)" "order_edges_ok red n" "distinct red"
proof -
  from assms obtain cl where cl: "transitive_closure es n = Inr cl"
    and red: "red = filter (\<lambda>e. \<not> (\<exists>k \<in> set [0..<n]. int k \<noteq> src e \<and> int k \<noteq> dst e
              \<and> cell (edge_matrix cl n) (nat (src e)) k \<and> cell (edge_matrix cl n) k (nat (dst e)))) cl"
    by (auto simp: transitive_reduction_def bindE_Inr_iff Let_def)
  note clD = transitive_closure_InrD [OF cl]
  have irr: "(a, a) \<notin> erel cl" for a using clD(2,3) by (simp add: acyclic_def)
  have between: "(\<exists>k \<in> set [0..<n]. int k \<noteq> a \<and> int k \<noteq> b
        \<and> cell (edge_matrix cl n) (nat a) k \<and> cell (edge_matrix cl n) k (nat b))
      \<longleftrightarrow> (\<exists>c. (a, c) \<in> erel cl \<and> (c, b) \<in> erel cl)" if "(a, b) \<in> erel cl" for a b
  proof -
    from erel_range [OF clD(4) that] obtain i j where ij: "a = int i" "i < n" "b = int j" "j < n"
      by (auto elim!: in_rangeE)
    have "(\<exists>c. (a, c) \<in> erel cl \<and> (c, b) \<in> erel cl) \<longleftrightarrow> (\<exists>k < n. (a, int k) \<in> erel cl \<and> (int k, b) \<in> erel cl)"
      using erel_range [OF clD(4)] by (metis in_rangeE)
    moreover have "(int i, int k) \<in> erel cl \<and> (int k, int j) \<in> erel cl \<longrightarrow> k \<noteq> i \<and> k \<noteq> j" for k
      using irr by blast
    ultimately show ?thesis
      using ij by (simp add: edge_matrix_cell [OF clD(4)] Bex_def) blast
  qed
  have "erel red = covers (erel cl)"
  proof -
    have "e \<in> set red \<longleftrightarrow> e \<in> set cl \<and> (src e, dst e) \<in> covers (erel cl)" for e
      using between [of "src e" "dst e"] unfolding red covers_def by (auto simp: erel_def)
    moreover have "covers (erel cl) \<subseteq> ends ` set cl" unfolding covers_def erel_def by auto
    ultimately show ?thesis unfolding erel_def by auto
  qed
  moreover have "order_edges_ok red n" "distinct red"
    using clD(4,5) unfolding red order_edges_ok_def by auto
  ultimately show ?thesis using cl that by blast
qed

lemma transitive_reduction_closure_cong:
  "transitive_closure es n = transitive_closure es' n \<Longrightarrow> transitive_reduction es n = transitive_reduction es' n"
  by (simp add: transitive_reduction_def)

lemma distinct_remdups_eq: "xs = remdups xs \<Longrightarrow> distinct xs"
  by (metis distinct_remdups)

lemma transitive_reduction_total:
  "transitive_closure es n = Inr cl \<Longrightarrow> \<exists>red. transitive_reduction es n = Inr red"
  by (simp add: transitive_reduction_def Let_def)

lemma reduction_generates:
  assumes "transitive_reduction es n = Inr red"
  shows "(erel red)\<^sup>+ = (erel es)\<^sup>+"
  using assms
proof (rule transitive_reduction_InrD)
  fix cl assume *: "transitive_closure es n = Inr cl" "erel red = covers (erel cl)"
  show ?thesis
    using precedence.trancl_covers [of es n] * transitive_closure_InrD(3) [OF *(1)]
    by (simp add: closure_rel_Inr)
qed

lemma reduction_least:
  assumes "transitive_reduction es n = Inr red" "S\<^sup>+ = (erel es)\<^sup>+"
  shows "erel red \<subseteq> S"
  using assms(1)
proof (rule transitive_reduction_InrD)
  fix cl assume *: "transitive_closure es n = Inr cl" "erel red = covers (erel cl)"
  show ?thesis
    using precedence.covers_least [of S es n] * assms(2) transitive_closure_InrD(3) [OF *(1)]
    by (simp add: closure_rel_Inr)
qed

section \<open>What the constructors establish\<close>

lemma erel_remdups [simp]: "erel (remdups es) = erel es"
  by (simp add: erel_def)

lemma order_edges_ok_remdups [simp]: "order_edges_ok (remdups es) n = order_edges_ok es n"
  by (simp add: order_edges_ok_def)

text \<open>
  An admitted node is one that its own constructor, applied to its fields, returns; all
  its descendants are admitted.  No \<open>Foreign\<close> object is.
\<close>

fun wf_node :: "pnode \<Rightarrow> bool" where
  "wf_node Start = True"
| "wf_node End = True"
| "wf_node Silent = True"
| "wf_node (Atom _ _ _ _) = True"
| "wf_node (PartialOrder cs es f cl d) \<longleftrightarrow>
     mk_partial_order cs es f = Inr (PartialOrder cs es f cl d) \<and> wf_frequency f \<and> (\<forall>c \<in> set cs. wf_node c)"
| "wf_node (ChoiceGraph cs es st en f d) \<longleftrightarrow>
     mk_choice_graph cs es st en f = Inr (ChoiceGraph cs es st en f d) \<and> wf_frequency f \<and> (\<forall>c \<in> set cs. wf_node c)"
| "wf_node (Foreign _) = False"

lemma mk_partial_order_InrD:
  assumes "mk_partial_order cs es f = Inr v"
  obtains red cl d where "v = PartialOrder cs red f cl d" "2 \<le> length cs"
    "transitive_closure es (length cs) = Inr cl" "transitive_reduction es (length cs) = Inr red"
    "composite_depth cs = Inr d"
proof -
  let ?n = "length cs"
  from assms obtain cl red d where v: "v = PartialOrder cs red f cl d" and n: "2 \<le> ?n"
    and cl': "transitive_closure (remdups es) ?n = Inr cl" and red: "transitive_reduction cl ?n = Inr red"
    and d: "composite_depth cs = Inr d"
    by (auto simp: mk_partial_order_def Let_def bindE_Inr_iff split: if_splits)
  have ok: "order_edges_ok es ?n" using transitive_closure_InrD(1) [OF cl'] by simp
  then have cl: "transitive_closure es ?n = Inr cl"
    using cl' transitive_closure_cong [of es ?n "remdups es"] by simp
  moreover have "transitive_closure cl ?n = transitive_closure es ?n"
    using transitive_closure_InrD(3,4) [OF cl] ok by (intro transitive_closure_cong) simp_all
  ultimately have "transitive_reduction es ?n = Inr red"
    using red transitive_reduction_closure_cong by metis
  with v n cl d show ?thesis using that by blast
qed

lemma mk_partial_order_total:
  assumes "transitive_closure es (length cs) = Inr cl" "transitive_reduction es (length cs) = Inr red"
    "composite_depth cs = Inr d" "2 \<le> length cs"
  shows "mk_partial_order cs es f = Inr (PartialOrder cs red f cl d)"
proof -
  let ?n = "length cs"
  note clD = transitive_closure_InrD [OF assms(1)]
  have "transitive_closure (remdups es) ?n = Inr cl"
    using transitive_closure_cong [of "remdups es" ?n es] clD(1) assms(1) by simp
  moreover have "transitive_closure cl ?n = transitive_closure es ?n"
    using clD by (intro transitive_closure_cong) simp_all
  then have "transitive_reduction cl ?n = Inr red"
    using assms(2) transitive_reduction_closure_cong by metis
  moreover have "check_edges (remdups es) ?n = Inr ()" using clD(1) by (simp add: check_edges_iff)
  ultimately show ?thesis using assms(3,4) by (simp add: mk_partial_order_def Let_def)
qed

lemma mk_partial_order_cong:
  assumes "order_edges_ok es (length cs)" "order_edges_ok es' (length cs)"
    and "(erel es)\<^sup>+ = (erel es')\<^sup>+"
  shows "mk_partial_order cs es f = mk_partial_order cs es' f"
proof -
  let ?n = "length cs"
  have "transitive_closure (remdups es) ?n = transitive_closure (remdups es') ?n"
    using assms by (intro transitive_closure_cong) simp_all
  moreover have "check_edges (remdups es) ?n = Inr ()" "check_edges (remdups es') ?n = Inr ()"
    using assms by (simp_all add: check_edges_iff)
  ultimately show ?thesis by (simp add: mk_partial_order_def Let_def)
qed

lemma transitive_reduction_ok:
  assumes "transitive_reduction es n = Inr red"
  shows "order_edges_ok red n" "transitive_closure red n = transitive_closure es n"
    "transitive_reduction red n = Inr red"
proof -
  obtain cl where cl: "transitive_closure es n = Inr cl" and ok: "order_edges_ok red n"
    using transitive_reduction_InrD [OF assms] by metis
  show "order_edges_ok red n" by (rule ok)
  show eq: "transitive_closure red n = transitive_closure es n"
    using reduction_generates [OF assms] transitive_closure_InrD(1) [OF cl] ok
    by (intro transitive_closure_cong) simp_all
  then show "transitive_reduction red n = Inr red"
    using assms transitive_reduction_closure_cong by metis
qed

lemma mk_partial_order_wf:
  assumes "mk_partial_order cs es f = Inr v" "wf_frequency f" "\<forall>c \<in> set cs. wf_node c"
  shows "wf_node v"
  using assms(1)
proof (rule mk_partial_order_InrD)
  fix red cl d
  assume *: "v = PartialOrder cs red f cl d" "2 \<le> length cs"
    "transitive_closure es (length cs) = Inr cl" "transitive_reduction es (length cs) = Inr red"
    "composite_depth cs = Inr d"
  have "mk_partial_order cs red f = Inr v"
    unfolding *(1) using * transitive_reduction_ok [OF *(4)] by (intro mk_partial_order_total) simp_all
  with * assms(2,3) show ?thesis by simp
qed

definition choice_edges_ok :: "edge list \<Rightarrow> nat \<Rightarrow> int \<Rightarrow> int \<Rightarrow> bool" where
  "choice_edges_ok es n st en \<longleftrightarrow> (\<forall>e \<in> set es. \<not> is_OrderEdge e \<and> in_range (src e) n
     \<and> in_range (dst e) n \<and> dst e \<noteq> st \<and> src e \<noteq> en)"

lemma mk_choice_graph_Inr_iff:
  "mk_choice_graph cs es st en f = Inr v \<longleftrightarrow>
     2 \<le> length cs \<and> choice_edges_ok es (length cs) st en \<and> in_range st (length cs)
     \<and> in_range en (length cs) \<and> st \<noteq> en
     \<and> (\<exists>d. composite_depth cs = Inr d \<and> v = ChoiceGraph cs (remdups es) st en f d)"
  by (auto simp: mk_choice_graph_def Let_def bindE_Inr_iff iterE_Inr_iff choice_edges_ok_def
      check_choice_edge_def check_boundary_def split: if_splits)

lemma mk_choice_graph_wf:
  assumes "mk_choice_graph cs es st en f = Inr v" "wf_frequency f" "\<forall>c \<in> set cs. wf_node c"
  shows "wf_node v"
  using assms by (auto simp: mk_choice_graph_Inr_iff choice_edges_ok_def distinct_remdups_id)

text \<open>The facts about an admitted composite that later components use.\<close>

lemma wf_partial_orderD:
  assumes "wf_node (PartialOrder cs es f cl d)"
  shows "2 \<le> length cs" "order_edges_ok es (length cs)" "order_edges_ok cl (length cs)"
    "erel cl = (erel es)\<^sup>+" "trans (erel cl)" "irrefl (erel cl)" "wf_frequency f"
    "\<And>c. c \<in> set cs \<Longrightarrow> wf_node c" "composite_depth cs = Inr d"
    "transitive_closure es (length cs) = Inr cl" "transitive_reduction es (length cs) = Inr es"
    "distinct cl" "distinct es"
proof -
  from assms have mk: "mk_partial_order cs es f = Inr (PartialOrder cs es f cl d)" by simp
  from mk_partial_order_InrD [OF mk] show *: "2 \<le> length cs" "composite_depth cs = Inr d"
    "transitive_closure es (length cs) = Inr cl" "transitive_reduction es (length cs) = Inr es"
    by (metis pnode.inject(2))+
  note clD = transitive_closure_InrD [OF *(3)]
  show "order_edges_ok es (length cs)" "order_edges_ok cl (length cs)" "erel cl = (erel es)\<^sup>+" "distinct cl"
    by (rule clD)+
  then show "trans (erel cl)" "irrefl (erel cl)"
    using clD(2) by (auto simp: acyclic_irrefl)
  show "distinct es" using transitive_reduction_InrD [OF *(4)] by metis
  show "wf_frequency f" "\<And>c. c \<in> set cs \<Longrightarrow> wf_node c" using assms by auto
qed

lemma wf_choice_graphD:
  assumes "wf_node (ChoiceGraph cs es st en f d)"
  shows "2 \<le> length cs" "choice_edges_ok es (length cs) st en" "in_range st (length cs)"
    "in_range en (length cs)" "st \<noteq> en" "wf_frequency f" "\<And>c. c \<in> set cs \<Longrightarrow> wf_node c"
    "composite_depth cs = Inr d" "distinct es"
  using assms by (auto simp: mk_choice_graph_Inr_iff intro: distinct_remdups_eq)

lemmas wf_nodeD = wf_partial_orderD(8) wf_choice_graphD(7)

section \<open>Depth\<close>

fun height :: "pnode \<Rightarrow> nat" where
  "height (PartialOrder cs es f cl d) = 1 + fold max (map height cs) 0"
| "height (ChoiceGraph cs es st en f d) = 1 + fold max (map height cs) 0"
| "height _ = 1"

lemma fold_max_le_iff: "fold max xs (a :: nat) \<le> b \<longleftrightarrow> a \<le> b \<and> (\<forall>x \<in> set xs. x \<le> b)"
  by (induction xs arbitrary: a) auto

lemma composite_depth_InrD:
  "composite_depth cs = Inr d \<Longrightarrow> d = 1 + fold max (map node_depth cs) 0 \<and> d \<le> MAX_POWL_DEPTH"
  by (auto simp: composite_depth_def Let_def split: if_splits)

lemma node_depth_height: "wf_node v \<Longrightarrow> node_depth v = height v \<and> height v \<le> MAX_POWL_DEPTH"
proof (induction v)
  case (PartialOrder cs es f cl d)
  then have "map node_depth cs = map height cs" by (auto dest: wf_partial_orderD(8))
  with composite_depth_InrD [OF wf_partial_orderD(9) [OF PartialOrder.prems]]
  show ?case by (simp add: node_depth_def)
next
  case (ChoiceGraph cs es st en f d)
  then have "map node_depth cs = map height cs" by (auto dest: wf_choice_graphD(7))
  with composite_depth_InrD [OF wf_choice_graphD(8) [OF ChoiceGraph.prems]]
  show ?case by (simp add: node_depth_def)
qed (simp_all add: node_depth_def MAX_POWL_DEPTH_def)

section \<open>Evaluation\<close>

text \<open>
  Closed closures evaluate by \<open>simp add: closure_eval\<close>; the constructors of common
  shapes are evaluated once, for any children.
\<close>

lemmas closure_eval = transitive_closure_def check_edges_def check_edge_def in_range_def
  matrix_edges_def reachability_def edge_matrix_def false_matrix_def pivot_def pivot_row_def
  set_cell_def cell_def upt_rec numeral_eq_Suc atLeastLessThanSuc

lemma closure_01: "transitive_closure [OrderEdge 0 1] 2 = Inr [OrderEdge 0 1]"
  by (simp add: closure_eval)

lemma reduction_01: "transitive_reduction [OrderEdge 0 1] 2 = Inr [OrderEdge 0 1]"
  by (simp add: transitive_reduction_def closure_01 Let_def) (simp add: atLeastLessThanSuc numeral_eq_Suc)

lemma closure_012:
  "transitive_closure [OrderEdge 0 2, OrderEdge 1 2, OrderEdge 0 1] 3
   = Inr [OrderEdge 0 1, OrderEdge 0 2, OrderEdge 1 2]"
  by (simp add: closure_eval)

lemma edge_matrix_012:
  "edge_matrix [OrderEdge 0 1, OrderEdge 0 2, OrderEdge 1 2] 3
   = [[False, True, True], [False, False, True], [False, False, False]]"
  by (simp add: closure_eval)

lemma reduction_012:
  "transitive_reduction [OrderEdge 0 2, OrderEdge 1 2, OrderEdge 0 1] 3
   = Inr [OrderEdge 0 1, OrderEdge 1 2]"
  by (simp add: transitive_reduction_def closure_012 edge_matrix_012 Let_def)
    (simp add: cell_def atLeastLessThanSuc numeral_eq_Suc)

lemma closure_Nil: "transitive_closure [] n = Inr []" and reduction_Nil: "transitive_reduction [] n = Inr []"
proof -
  have ok: "order_edges_ok [] n" by (simp add: order_edges_ok_def)
  show *: "transitive_closure [] n = Inr []"
  proof (cases "transitive_closure [] n")
    case (Inr cl)
    then have "erel cl = {}" using transitive_closure_InrD(3) [of "[]" n] by (simp add: erel_def)
    with Inr show ?thesis by (simp add: erel_def)
  qed (use transitive_closure_ok [OF ok] in \<open>auto simp: erel_def acyclic_def split: if_splits\<close>)
  show "transitive_reduction [] n = Inr []" by (simp add: transitive_reduction_def * Let_def)
qed

lemma mk_parallel:
  "2 \<le> length cs \<Longrightarrow> composite_depth cs = Inr d \<Longrightarrow> mk_partial_order cs [] f = Inr (PartialOrder cs [] f [] d)"
  by (rule mk_partial_order_total) (simp_all add: closure_Nil reduction_Nil)

lemma mk_sequence:
  "composite_depth [a, b] = Inr d \<Longrightarrow>
   mk_partial_order [a, b] [OrderEdge 0 1] f = Inr (PartialOrder [a, b] [OrderEdge 0 1] f [OrderEdge 0 1] d)"
  by (rule mk_partial_order_total) (simp_all add: closure_01 reduction_01 numeral_2_eq_2 [symmetric])

section \<open>Properties\<close>

text \<open>
  C31.  \<open>transitive_closure\<close>: for order edges between existing children, Warshall's loops
  return the transitive closure of the relation, and refuse with
  \<open>CYCLIC_PARTIAL_ORDER\<close> exactly when the relation has a cycle.
\<close>

theorem transitive_closure_correct:
  assumes "\<forall>e \<in> set es. is_OrderEdge e \<and> in_range (src e) n \<and> in_range (dst e) n"
  shows "case transitive_closure es n of
      Inl x \<Rightarrow> x = PowlError CYCLIC_PARTIAL_ORDER \<and> \<not> acyclic (erel es)
    | Inr cl \<Rightarrow> acyclic (erel es) \<and> erel cl = (erel es)\<^sup>+"
proof -
  have ok: "order_edges_ok es n" using assms by (simp add: order_edges_ok_def)
  show ?thesis
  proof (cases "transitive_closure es n")
    case (Inl x)
    with transitive_closure_ok [OF ok] show ?thesis by (simp split: if_splits)
  next
    case (Inr cl)
    with transitive_closure_InrD(2,3) [OF Inr] show ?thesis by simp
  qed
qed

theorem transitive_closure_correct_witness:
  "case transitive_closure [OrderEdge 0 1, OrderEdge 1 2] 3 of
      Inl x \<Rightarrow> x = PowlError CYCLIC_PARTIAL_ORDER \<and> \<not> acyclic (erel [OrderEdge 0 1, OrderEdge 1 2])
    | Inr cl \<Rightarrow> acyclic (erel [OrderEdge 0 1, OrderEdge 1 2])
        \<and> erel cl = (erel [OrderEdge 0 1, OrderEdge 1 2])\<^sup>+"
  by (rule transitive_closure_correct) (simp add: in_range_def)

text \<open>
  \<open>transitive_reduction\<close>: the reduction has the same transitive closure as its
  argument and is contained in every relation that has; so it is the unique least one,
  and it is the same whether it is computed from the reduction, the closure or anything
  between.
\<close>

theorem transitive_reduction_minimal:
  assumes "transitive_reduction es n = Inr red"
  shows "(erel red)\<^sup>+ = (erel es)\<^sup>+ \<and> (\<forall>S. S\<^sup>+ = (erel es)\<^sup>+ \<longrightarrow> erel red \<subseteq> S)
    \<and> (\<forall>es'. order_edges_ok es' n \<longrightarrow> (erel es')\<^sup>+ = (erel es)\<^sup>+ \<longrightarrow> transitive_reduction es' n = Inr red)"
proof -
  obtain cl where cl: "transitive_closure es n = Inr cl"
    using transitive_reduction_InrD [OF assms] by metis
  have "transitive_reduction es' n = Inr red"
    if "order_edges_ok es' n" "(erel es')\<^sup>+ = (erel es)\<^sup>+" for es'
    using that transitive_closure_cong transitive_closure_InrD(1) [OF cl] assms
      transitive_reduction_closure_cong by metis
  with reduction_generates [OF assms] reduction_least [OF assms] show ?thesis by blast
qed

theorem transitive_reduction_minimal_witness:
  "(erel [OrderEdge 0 1, OrderEdge 1 2])\<^sup>+ = (erel [OrderEdge 0 2, OrderEdge 1 2, OrderEdge 0 1])\<^sup>+"
  by (rule transitive_reduction_minimal [OF reduction_012, THEN conjunct1])

text \<open>
  The storage law of \<open>PartialOrder\<close>: construction looks at the precedence relation
  only through its transitive closure, so the reduction, the closure and every relation
  between them build the same object or the same refusal.
\<close>

theorem mk_partial_order_storage_law:
  assumes "order_edges_ok es (length cs)" "order_edges_ok es' (length cs)"
    and "(erel es)\<^sup>+ = (erel es')\<^sup>+"
  shows "mk_partial_order cs es f = mk_partial_order cs es' f"
  using assms by (rule mk_partial_order_cong)

theorem mk_partial_order_storage_law_witness:
  "mk_partial_order [Silent, Silent, Silent] [OrderEdge 0 1, OrderEdge 1 2] ONCE
   = mk_partial_order [Silent, Silent, Silent] [OrderEdge 0 2, OrderEdge 1 2, OrderEdge 0 1] ONCE"
proof (rule mk_partial_order_storage_law)
  show "(erel [OrderEdge 0 1, OrderEdge 1 2])\<^sup>+ = (erel [OrderEdge 0 2, OrderEdge 1 2, OrderEdge 0 1])\<^sup>+"
    by (rule reduction_generates [OF reduction_012])
qed (simp_all add: order_edges_ok_def in_range_def)

end
