(* ===== verification/Powl_Identity.thy ===== *)
theory Powl_Identity
  imports Powl_Order
begin

text \<open>
  \<^verbatim>\<open>powl/identity.py\<close> and \<^verbatim>\<open>powl/bounds.py\<close>: content-addressed identity of nodes, a
  Merkle digest over the canonical JSON of a structural description.  The theorems say
  exactly what the digest covers (\<open>shape\<close>), and so also what it leaves out.
\<close>

section \<open>Digests\<close>

record bound =
  max_activity_fires :: nat
  max_node_visits :: nat
  max_marking_states :: nat

definition DEFAULT_BOUND :: bound where
  "DEFAULT_BOUND = \<lparr>max_activity_fires = 1024, max_node_visits = 4096, max_marking_states = 8192\<rparr>"

definition bound_sha256 :: "(string \<Rightarrow> string) \<Rightarrow> bound \<Rightarrow> string" where
  "bound_sha256 sha b = sha256 sha (JObj
     [(''max_activity_fires'', JInt (int (max_activity_fires b))),
      (''max_node_visits'', JInt (int (max_node_visits b))),
      (''max_marking_states'', JInt (int (max_marking_states b)))])"

definition atom_description :: "pnode \<Rightarrow> json" where
  "atom_description v = JObj [(''label'', JStr (label v)),
     (''action'', JStr (action_identity (action v))), (''bindings'', bindings v)]"

definition activity_sha256 :: "(string \<Rightarrow> string) \<Rightarrow> pnode \<Rightarrow> string res" where
  "activity_sha256 sha v =
     (case v of Atom _ _ _ _ \<Rightarrow> Inr (sha256 sha (atom_description v)) | _ \<Rightarrow> refuse PROHIBITED_NODE_KIND)"

definition json_int_option :: "int option \<Rightarrow> json" where
  "json_int_option i = (case i of None \<Rightarrow> JNull | Some n \<Rightarrow> JInt n)"

definition freq_json :: "frequency \<Rightarrow> json" where
  "freq_json f = JObj [(''min'', JInt (fmin f)), (''max'', json_int_option (fmax f))]"

definition arcs_json :: "edge list \<Rightarrow> json" where
  "arcs_json es = JList (map (\<lambda>(i, j). JList [JInt i, JInt j]) (sort (map ends es)))"

definition kind_json :: "string \<Rightarrow> json" where
  "kind_json k = JObj [(''kind'', JStr k)]"

text \<open>
  \<open>node_id\<close> hashes the description as a text: \<^verbatim>\<open>sha256\<close> serializes the string it is
  given once more.
\<close>

definition text_digest :: "(string \<Rightarrow> string) \<Rightarrow> json \<Rightarrow> string" where
  "text_digest sha s = sha256 sha (JStr (canonical_json s))"

function node_structure :: "(string \<Rightarrow> string) \<Rightarrow> pnode \<Rightarrow> json res"
  and node_id :: "(string \<Rightarrow> string) \<Rightarrow> pnode \<Rightarrow> string res" where
  "node_structure sha Start = Inr (kind_json ''Start'')"
| "node_structure sha End = Inr (kind_json ''End'')"
| "node_structure sha Silent = Inr (kind_json ''Silent'')"
| "node_structure sha (Atom l a b c) =
     bindE (activity_sha256 sha (Atom l a b c)) (\<lambda>d.
       Inr (JObj [(''kind'', JStr ''Atom''), (''activity'', JStr d)]))"
| "node_structure sha (PartialOrder cs es f cl d) =
     bindE (mapE (node_id sha) cs) (\<lambda>ids.
       Inr (JObj [(''kind'', JStr ''PartialOrder''), (''children'', JList (map JStr ids)),
         (''order'', arcs_json es), (''frequency'', freq_json f)]))"
| "node_structure sha (ChoiceGraph cs es st en f d) =
     bindE (mapE (node_id sha) cs) (\<lambda>ids.
       Inr (JObj [(''kind'', JStr ''ChoiceGraph''), (''children'', JList (map JStr ids)),
         (''edges'', arcs_json es), (''start'', JInt st), (''end'', JInt en),
         (''frequency'', freq_json f)]))"
| "node_structure sha (Foreign nm) = refuse PROHIBITED_NODE_KIND"
| "node_id sha v = bindE (node_structure sha v) (\<lambda>s. Inr (text_digest sha s))"
  by pat_completeness auto
termination
  by (relation "measure (case_sum (\<lambda>(sha, v). 2 * size v) (\<lambda>(sha, v). 2 * size v + 1))")
    (auto simp: size_list_estimation' less_Suc_eq_le dest!: size_list_estimation [of _ _ _ size] intro: le_imp_less_Suc)

declare node_id.simps [simp del]

record occurrence_key =
  ok_activity :: string
  ok_index :: nat
  ok_context :: string

section \<open>Identities exist\<close>

lemma node_structure_total: "wf_node v \<Longrightarrow> \<exists>s. node_structure sha v = Inr s"
proof (induction v)
  case (PartialOrder cs es f cl d)
  then have "\<forall>c \<in> set cs. \<exists>i. node_id sha c = Inr i"
    by (auto simp: node_id.simps bindE_Inr_iff dest: wf_partial_orderD(8))
  then have "mapE (node_id sha) cs = Inr (map (\<lambda>c. SOME i. node_id sha c = Inr i) cs)"
    by (intro mapE_total) (auto intro: someI)
  then show ?case by simp
next
  case (ChoiceGraph cs es st en f d)
  then have "\<forall>c \<in> set cs. \<exists>i. node_id sha c = Inr i"
    by (auto simp: node_id.simps bindE_Inr_iff dest: wf_choice_graphD(7))
  then have "mapE (node_id sha) cs = Inr (map (\<lambda>c. SOME i. node_id sha c = Inr i) cs)"
    by (intro mapE_total) (auto intro: someI)
  then show ?case by simp
qed (auto simp: activity_sha256_def)

lemma node_id_total: "wf_node v \<Longrightarrow> \<exists>i. node_id sha v = Inr i"
  using node_structure_total by (auto simp: node_id.simps bindE_Inr_iff)

section \<open>What an identity covers\<close>

text \<open>
  \<open>shape\<close> is what \<open>node_structure\<close> describes with the digests of children and activities
  left unhashed: labels, actions, bindings, tree structure, edge ends, boundaries and
  frequencies; no guards, no consequence classes, no cached fields.
\<close>

fun shape :: "pnode \<Rightarrow> json" where
  "shape Start = kind_json ''Start''"
| "shape End = kind_json ''End''"
| "shape Silent = kind_json ''Silent''"
| "shape (Atom l a b c) = JObj [(''kind'', JStr ''Atom''), (''activity'', to_jsonable (atom_description (Atom l a b c)))]"
| "shape (PartialOrder cs es f cl d) =
     JObj [(''kind'', JStr ''PartialOrder''), (''children'', JList (map shape cs)),
       (''order'', arcs_json es), (''frequency'', freq_json f)]"
| "shape (ChoiceGraph cs es st en f d) =
     JObj [(''kind'', JStr ''ChoiceGraph''), (''children'', JList (map shape cs)),
       (''edges'', arcs_json es), (''start'', JInt st), (''end'', JInt en), (''frequency'', freq_json f)]"
| "shape (Foreign nm) = JNull"

lemma text_digest_inj:
  assumes "inj sha" "text_digest sha s = text_digest sha t"
  shows "to_jsonable s = to_jsonable t"
proof -
  have "canonical_json (JStr (canonical_json s)) = canonical_json (JStr (canonical_json t))"
    using assms by (simp add: text_digest_def sha256_def inj_eq)
  from canonical_json_eqD [OF this] have "canonical_json s = canonical_json t" by simp
  then show ?thesis by (rule canonical_json_eqD)
qed

lemma text_digest_cong: "to_jsonable s = to_jsonable t \<Longrightarrow> text_digest sha s = text_digest sha t"
  by (simp add: text_digest_def sha256_def canonical_json_def)

lemma sha256_cong: "to_jsonable s = to_jsonable t \<Longrightarrow> sha256 sha s = sha256 sha t"
  by (simp add: sha256_def canonical_json_def)

lemma sha256_inj: "inj sha \<Longrightarrow> sha256 sha s = sha256 sha t \<Longrightarrow> to_jsonable s = to_jsonable t"
  unfolding sha256_def by (auto simp: inj_eq dest!: canonical_json_eqD)

lemma to_jsonable_obj_field:
  assumes "to_jsonable (JObj d) = to_jsonable (JObj d')"
    and "distinct (map fst d)" "distinct (map fst d')"
  shows "map_option to_jsonable (map_of d k) = map_option to_jsonable (map_of d' k)"
proof -
  let ?f = "map (\<lambda>(k, v). (k, to_jsonable v))"
  have "set (sort_key fst (?f d)) = set (sort_key fst (?f d'))"
    using assms(1) unfolding to_jsonable.simps by simp
  then have "set (?f d) = set (?f d')" by (simp only: set_sort)
  moreover have "distinct (map fst (?f d))" "distinct (map fst (?f d'))"
    using assms(2,3) by (simp_all add: comp_def case_prod_unfold)
  ultimately have "map_of (?f d) k = map_of (?f d') k"
    using map_of_inject_set [of "?f d" "?f d'"] by simp
  then show ?thesis by (simp add: map_of_map)
qed

definition the_id :: "(string \<Rightarrow> string) \<Rightarrow> pnode \<Rightarrow> string" where
  "the_id sha v = (case node_id sha v of Inr i \<Rightarrow> i | Inl _ \<Rightarrow> '''')"

lemma node_id_the: "wf_node v \<Longrightarrow> node_id sha v = Inr (the_id sha v)"
  using node_id_total [of v sha] by (auto simp: the_id_def)

lemma mapE_node_id: "(\<And>c. c \<in> set cs \<Longrightarrow> wf_node c) \<Longrightarrow> mapE (node_id sha) cs = Inr (map (the_id sha) cs)"
  by (rule mapE_total) (rule node_id_the)

lemma to_jsonable_strings [simp]: "map to_jsonable (map JStr xs) = map JStr xs"
  by simp

lemma to_jsonable_arcs [simp]: "to_jsonable (arcs_json es) = arcs_json es"
  by (simp add: arcs_json_def)

lemma map_JStr_eq: "map JStr xs = map JStr ys \<longleftrightarrow> xs = ys"
  by (metis inj_map_eq_map inj_def json.inject(3))

lemma to_jsonable_freq_inj: "to_jsonable (freq_json f) = to_jsonable (freq_json g) \<Longrightarrow> f = g"
proof -
  assume "to_jsonable (freq_json f) = to_jsonable (freq_json g)"
  note field = to_jsonable_obj_field [OF this [unfolded freq_json_def]]
  from field [of "''min''"] field [of "''max''"] show "f = g"
    by (cases f; cases g) (auto simp: json_int_option_def split: option.splits)
qed

lemma freq_json_inj: "freq_json f = freq_json g \<longleftrightarrow> f = g"
  using to_jsonable_freq_inj [of f g] by auto

text \<open>The kind is a field of the description, so descriptions of different kinds differ.\<close>

fun kind_name :: "pnode \<Rightarrow> string" where
  "kind_name Start = ''Start''" | "kind_name End = ''End''" | "kind_name Silent = ''Silent''"
| "kind_name (Atom _ _ _ _) = ''Atom''" | "kind_name (PartialOrder _ _ _ _ _) = ''PartialOrder''"
| "kind_name (ChoiceGraph _ _ _ _ _ _) = ''ChoiceGraph''" | "kind_name (Foreign _) = ''Foreign''"

lemma node_structure_obj:
  "node_structure sha v = Inr s \<Longrightarrow> \<exists>d. s = JObj d \<and> distinct (map fst d) \<and> map_of d ''kind'' = Some (JStr (kind_name v))"
  by (cases v) (auto simp: bindE_Inr_iff kind_json_def)

lemma node_structure_kind:
  assumes "node_structure sha v = Inr s" "node_structure sha w = Inr t" "to_jsonable s = to_jsonable t"
  shows "kind_name v = kind_name w"
proof -
  from node_structure_obj [OF assms(1)] node_structure_obj [OF assms(2)] obtain d d'
    where "s = JObj d" "distinct (map fst d)" "map_of d ''kind'' = Some (JStr (kind_name v))"
      "t = JObj d'" "distinct (map fst d')" "map_of d' ''kind'' = Some (JStr (kind_name w))" by blast
  with to_jsonable_obj_field [of d d' "''kind''"] assms(3) show ?thesis by simp
qed

lemma shape_kind: "wf_node v \<Longrightarrow> wf_node w \<Longrightarrow> shape v = shape w \<Longrightarrow> kind_name v = kind_name w"
  by (cases v; cases w) (simp_all add: kind_json_def)

lemma ids_shapes:
  assumes "\<And>c c'. c \<in> set cs \<Longrightarrow> c' \<in> set cs' \<Longrightarrow> the_id sha c = the_id sha c' \<longleftrightarrow> shape c = shape c'"
  shows "map (the_id sha) cs = map (the_id sha) cs' \<longleftrightarrow> map shape cs = map shape cs'"
  using assms
proof (induction cs arbitrary: cs')
  case (Cons c cs)
  then show ?case by (cases cs') auto
qed auto

lemma the_id_structure:
  assumes "inj sha" "node_structure sha c = Inr s" "node_structure sha c' = Inr t"
    and "to_jsonable s = to_jsonable t \<longleftrightarrow> X"
  shows "the_id sha c = the_id sha c' \<longleftrightarrow> X"
proof -
  have "the_id sha c = text_digest sha s" "the_id sha c' = text_digest sha t"
    using assms(2,3) by (simp_all add: the_id_def node_id.simps)
  then show ?thesis using assms(4) text_digest_inj [OF assms(1), of s t] text_digest_cong [of s t sha] by auto
qed

lemma structure_shape:
  assumes "inj sha"
  shows "wf_node v \<Longrightarrow> wf_node w \<Longrightarrow> node_structure sha v = Inr s \<Longrightarrow> node_structure sha w = Inr t
    \<Longrightarrow> to_jsonable s = to_jsonable t \<longleftrightarrow> shape v = shape w"
proof (induction v arbitrary: w s t)
  case (Atom l a b c)
  show ?case
  proof (cases w)
    case (Atom l' a' b' c')
    let ?x = "atom_description (pnode.Atom l a b c)" and ?y = "atom_description (pnode.Atom l' a' b' c')"
    have st: "s = JObj [(''kind'', JStr ''Atom''), (''activity'', JStr (sha256 sha ?x))]"
      "t = JObj [(''kind'', JStr ''Atom''), (''activity'', JStr (sha256 sha ?y))]"
      using Atom Atom.prems by (simp_all add: activity_sha256_def)
    have "sha256 sha ?x = sha256 sha ?y" if eq: "to_jsonable s = to_jsonable t"
      using to_jsonable_obj_field [OF eq [unfolded st], of "''activity''"] by simp
    then have "to_jsonable s = to_jsonable t \<longleftrightarrow> sha256 sha ?x = sha256 sha ?y"
      unfolding st by auto
    also have "\<dots> \<longleftrightarrow> to_jsonable ?x = to_jsonable ?y"
      using sha256_inj [OF assms] sha256_cong by metis
    finally show ?thesis using Atom by simp
  qed (use Atom.prems node_structure_kind [OF Atom.prems(3,4)] shape_kind [OF Atom.prems(1,2)] in auto)
next
  case (PartialOrder cs es f cl d)
  note kind = node_structure_kind [OF PartialOrder.prems(3,4)] shape_kind [OF PartialOrder.prems(1,2)]
  show ?case
  proof (cases w)
    case w: (PartialOrder cs' es' f' cl' d')
    note wf = wf_partial_orderD(8) [OF PartialOrder.prems(1)] wf_partial_orderD(8) [OF PartialOrder.prems(2) [unfolded w]]
    have id: "the_id sha c = the_id sha c' \<longleftrightarrow> shape c = shape c'" if m: "c \<in> set cs" "c' \<in> set cs'" for c c'
    proof -
      obtain u where u: "node_structure sha c = Inr u" using node_structure_total [OF wf(1) [OF m(1)]] by blast
      obtain u' where u': "node_structure sha c' = Inr u'" using node_structure_total [OF wf(2) [OF m(2)]] by blast
      show ?thesis
        by (rule the_id_structure [OF assms u u' PartialOrder.IH [OF m(1) wf(1) [OF m(1)] wf(2) [OF m(2)] u u']])
    qed
    let ?d = "\<lambda>cs es f. [(''kind'', JStr ''PartialOrder''), (''children'', JList (map JStr (map (the_id sha) cs))),
         (''order'', arcs_json es), (''frequency'', freq_json f)]"
    have st: "s = JObj (?d cs es f)" "t = JObj (?d cs' es' f')"
      using PartialOrder.prems w mapE_node_id [OF wf(1)] mapE_node_id [OF wf(2)] by simp_all
    have "map (the_id sha) cs = map (the_id sha) cs' \<and> arcs_json es = arcs_json es' \<and> f = f'"
      if eq: "to_jsonable s = to_jsonable t"
    proof -
      note field = to_jsonable_obj_field [OF eq [unfolded st]]
      from field [of "''children''"] field [of "''order''"] field [of "''frequency''"] show ?thesis
        by (simp add: comp_def map_JStr_eq [unfolded comp_def] to_jsonable_freq_inj map_equality_iff)
    qed
    then have "to_jsonable s = to_jsonable t \<longleftrightarrow>
        map (the_id sha) cs = map (the_id sha) cs' \<and> arcs_json es = arcs_json es' \<and> f = f'"
      unfolding st by (auto simp del: map_map list.map_comp)
    with ids_shapes [of cs cs' sha, OF id] w show ?thesis by (simp add: freq_json_inj)
  qed (use PartialOrder.prems kind in auto)
next
  case (ChoiceGraph cs es st en f d)
  note kind = node_structure_kind [OF ChoiceGraph.prems(3,4)] shape_kind [OF ChoiceGraph.prems(1,2)]
  show ?case
  proof (cases w)
    case w: (ChoiceGraph cs' es' st' en' f' d')
    note wf = wf_choice_graphD(7) [OF ChoiceGraph.prems(1)] wf_choice_graphD(7) [OF ChoiceGraph.prems(2) [unfolded w]]
    have id: "the_id sha c = the_id sha c' \<longleftrightarrow> shape c = shape c'" if m: "c \<in> set cs" "c' \<in> set cs'" for c c'
    proof -
      obtain u where u: "node_structure sha c = Inr u" using node_structure_total [OF wf(1) [OF m(1)]] by blast
      obtain u' where u': "node_structure sha c' = Inr u'" using node_structure_total [OF wf(2) [OF m(2)]] by blast
      show ?thesis
        by (rule the_id_structure [OF assms u u' ChoiceGraph.IH [OF m(1) wf(1) [OF m(1)] wf(2) [OF m(2)] u u']])
    qed
    let ?d = "\<lambda>cs es st en f. [(''kind'', JStr ''ChoiceGraph''), (''children'', JList (map JStr (map (the_id sha) cs))),
         (''edges'', arcs_json es), (''start'', JInt st), (''end'', JInt en), (''frequency'', freq_json f)]"
    have st: "s = JObj (?d cs es st en f)" "t = JObj (?d cs' es' st' en' f')"
      using ChoiceGraph.prems w mapE_node_id [OF wf(1)] mapE_node_id [OF wf(2)] by simp_all
    have "map (the_id sha) cs = map (the_id sha) cs' \<and> arcs_json es = arcs_json es' \<and> st = st' \<and> en = en' \<and> f = f'"
      if eq: "to_jsonable s = to_jsonable t"
    proof -
      note field = to_jsonable_obj_field [OF eq [unfolded st]]
      from field [of "''children''"] field [of "''edges''"] field [of "''start''"] field [of "''end''"]
        field [of "''frequency''"] show ?thesis
        by (simp add: comp_def map_JStr_eq [unfolded comp_def] to_jsonable_freq_inj map_equality_iff)
    qed
    then have "to_jsonable s = to_jsonable t \<longleftrightarrow>
        map (the_id sha) cs = map (the_id sha) cs' \<and> arcs_json es = arcs_json es' \<and> st = st' \<and> en = en' \<and> f = f'"
      unfolding st by (auto simp del: map_map list.map_comp)
    with ids_shapes [of cs cs' sha, OF id] w show ?thesis by (simp add: freq_json_inj)
  qed (use ChoiceGraph.prems kind in auto)
next
  case Start
  with node_structure_kind [OF Start.prems(3,4)] show ?case by (cases w) (auto simp: kind_json_def)
next
  case End
  with node_structure_kind [OF End.prems(3,4)] show ?case by (cases w) (auto simp: kind_json_def)
next
  case Silent
  with node_structure_kind [OF Silent.prems(3,4)] show ?case by (cases w) (auto simp: kind_json_def)
qed auto

section \<open>Properties\<close>

text \<open>
  C33.  \<open>node_id\<close>: if the hash has no collisions, two admitted nodes have the same identity
  if and only if they have the same shape.  The shape holds labels, action identities,
  bindings, tree structure, the ends of edges in sorted order, boundaries and
  frequencies, so iteration order never reaches a digest, and neither do the cached
  closure and depth.
\<close>

theorem node_id_identifies_shape:
  assumes "inj sha" "wf_node v" "wf_node w"
  shows "node_id sha v = node_id sha w \<longleftrightarrow> shape v = shape w"
proof -
  obtain s t where st: "node_structure sha v = Inr s" "node_structure sha w = Inr t"
    using assms node_structure_total by metis
  then have "node_id sha v = node_id sha w \<longleftrightarrow> to_jsonable s = to_jsonable t"
    using text_digest_inj [OF assms(1), of s t] text_digest_cong [of s t sha] by (auto simp: node_id.simps)
  with structure_shape [OF assms st] show ?thesis by simp
qed

theorem node_id_identifies_shape_witness:
  "node_id (\<lambda>s. s) (Atom ''a'' NoAction (JObj []) PURE) \<noteq> node_id (\<lambda>s. s) (Atom ''b'' NoAction (JObj []) PURE)"
  using node_id_identifies_shape [of "\<lambda>s. s" "Atom ''a'' NoAction (JObj []) PURE" "Atom ''b'' NoAction (JObj []) PURE"]
  by (simp add: inj_def atom_description_def to_jsonable_obj)

text \<open>
  The identity forgets what the algebra says makes nodes different: whatever the
  hash, an atom keeps its \<open>node_id\<close> when its consequence class changes (its \<open>key\<close> does
  change), and a choice graph keeps its \<open>node_id\<close> when the guards on its edges do.
\<close>

theorem node_id_ignores_consequence_and_guards:
  "node_id sha (Atom l a b c) = node_id sha (Atom l a b c')
   \<and> (atom_key (Atom l a b PURE) \<noteq> atom_key (Atom l a b DO))
   \<and> node_id sha (ChoiceGraph cs [ChoiceGraphEdge 0 1 g] 0 1 f d)
     = node_id sha (ChoiceGraph cs [ChoiceGraphEdge 0 1 g'] 0 1 f d)"
proof -
  have "atom_key (Atom l a b PURE) \<noteq> atom_key (Atom l a b DO)"
  proof
    assume "atom_key (Atom l a b PURE) = atom_key (Atom l a b DO)"
    from canonical_json_eqD [OF this [unfolded atom_key_def]]
    show False
      using to_jsonable_obj_field [of _ _ "''consequence''"] by (fastforce simp: consequence_name_def)
  qed
  then show ?thesis
    by (simp add: node_id.simps activity_sha256_def atom_description_def arcs_json_def)
qed

end
