(* ===== verification/Powl_Validate.thy ===== *)
theory Powl_Validate
  imports Powl_Order
begin

text \<open>
  \<^verbatim>\<open>powl/validate.py\<close>: the structural validator, which re-derives every law from the
  stored fields of a node that need not have passed through its constructor.  For nodes
  that have, it adds exactly two laws: every choice graph is connected and its guards
  are unambiguous.
\<close>

section \<open>The validator\<close>

definition validate_frequency :: "frequency \<Rightarrow> unit res" where
  "validate_frequency f =
     (if fmin f < 0 then refuse INVALID_FREQUENCY
      else case fmax f of
          None \<Rightarrow> Inr ()
        | Some h \<Rightarrow> if h < fmin f then refuse INVALID_FREQUENCY else Inr ())"

definition check_endpoints :: "edge list \<Rightarrow> nat \<Rightarrow> (edge \<Rightarrow> bool) \<Rightarrow> unit res" where
  "check_endpoints es n expected = iterE (\<lambda>e.
     if \<not> expected e then refuse EDGE_TYPE_MISMATCH
     else if \<not> in_range (src e) n \<or> \<not> in_range (dst e) n then refuse DANGLING_REFERENCE
     else Inr ()) es"

definition validate_closure :: "pnode \<Rightarrow> nat \<Rightarrow> unit res" where
  "validate_closure v n =
     (let cl = closure v; pairs = remdups (map ends cl) in
      bindE (check_endpoints cl n is_OrderEdge) (\<lambda>_.
      bindE (iterE (\<lambda>(i, j).
          if i = j then refuse CYCLIC_PARTIAL_ORDER
          else if (j, i) \<in> set pairs then refuse CYCLIC_PARTIAL_ORDER
          else Inr ()) pairs) (\<lambda>_.
      iterE (\<lambda>(i, j). iterE (\<lambda>k.
          if (j, int k) \<in> set pairs \<and> (i, int k) \<notin> set pairs
          then refuse NOT_TRANSITIVELY_REDUCED else Inr ()) [0..<n]) pairs)))"

definition validate_partial_order :: "pnode \<Rightarrow> unit res" where
  "validate_partial_order v =
     (let n = length (children v); es = order v in
      if n < 2 then refuse INVALID_PARTIAL_ORDER_ARITY
      else bindE (validate_frequency (freq v)) (\<lambda>_.
           bindE (check_endpoints es n is_OrderEdge) (\<lambda>_.
           bindE (iterE (\<lambda>e. if src e = dst e then refuse CYCLIC_PARTIAL_ORDER else Inr ()) es) (\<lambda>_.
           bindE (transitive_reduction es n) (\<lambda>reduction.
           if set reduction \<noteq> set es then refuse NOT_TRANSITIVELY_REDUCED
           else validate_closure v n)))))"

text \<open>
  \<open>guard_keys\<close> is the loop over the guarded edges of one source that remembers the
  guard keys it has seen.
\<close>

fun guard_keys :: "string list \<Rightarrow> edge list \<Rightarrow> unit res" where
  "guard_keys seen [] = Inr ()"
| "guard_keys seen (e # es) =
     (case guard_of e of
        None \<Rightarrow> guard_keys seen es
      | Some g \<Rightarrow> if guard_key g \<in> set seen then refuse AMBIGUOUS_CHOICE_GUARD
                  else guard_keys (guard_key g # seen) es)"

definition guard_exclusivity_at :: "edge list \<Rightarrow> unit res" where
  "guard_exclusivity_at outgoing =
     (if length outgoing < 2 then Inr ()
      else let guarded = filter (\<lambda>e. guard_of e \<noteq> None) outgoing in
        if guarded = [] then Inr ()
        else let unguarded = filter (\<lambda>e. guard_of e = None) outgoing in
          if length unguarded > 1 then refuse AMBIGUOUS_CHOICE_GUARD
          else guard_keys [] outgoing)"

definition validate_guard_exclusivity :: "edge list \<Rightarrow> nat \<Rightarrow> unit res" where
  "validate_guard_exclusivity es n =
     iterE (\<lambda>s. guard_exclusivity_at (filter (\<lambda>e. src e = int s) es)) [0..<n]"

text \<open>
  \<open>traverse\<close> collects the nodes reachable from an origin; \<open>arcs\<close> holds the pairs of the
  adjacency dictionary, the stack has its top at the head.
\<close>

definition successors :: "(int \<times> int) list \<Rightarrow> int \<Rightarrow> int list" where
  "successors arcs cur = remdups (map snd (filter (\<lambda>p. fst p = cur) arcs))"

lemma traverse_decreases:
  fixes arcs seen cur
  defines "new \<equiv> filter (\<lambda>nxt. nxt \<notin> set seen) (successors arcs cur)"
  shows "2 * card (set (map snd arcs) - set (seen @ new)) + length new
    \<le> 2 * card (set (map snd arcs) - set seen)"
proof -
  let ?U = "set (map snd arcs)"
  have new: "set new \<subseteq> ?U - set seen" by (auto simp: new_def successors_def)
  have "distinct new" by (simp add: new_def successors_def)
  then have "card (set new) = length new" by (rule distinct_card)
  moreover have "?U - set (seen @ new) = (?U - set seen) - set new" by auto
  moreover have "card ((?U - set seen) - set new) = card (?U - set seen) - card (set new)"
    using new by (intro card_Diff_subset) auto
  moreover have "card (set new) \<le> card (?U - set seen)" using new by (intro card_mono) auto
  ultimately have "card (?U - set (seen @ new)) = card (?U - set seen) - length new"
    "length new \<le> card (?U - set seen)" by simp_all
  then show ?thesis by arith
qed

function traverse_loop :: "(int \<times> int) list \<Rightarrow> int list \<Rightarrow> int list \<Rightarrow> int list" where
  "traverse_loop arcs [] seen = seen"
| "traverse_loop arcs (cur # stack) seen =
     (let new = filter (\<lambda>nxt. nxt \<notin> set seen) (successors arcs cur)
      in traverse_loop arcs (rev new @ stack) (seen @ new))"
  by pat_completeness auto

termination
proof (relation "measure (\<lambda>(arcs, stack, seen). 2 * card (set (map snd arcs) - set seen) + length stack)")
  fix arcs :: "(int \<times> int) list" and cur stack seen and new :: "int list"
  assume "new = filter (\<lambda>nxt. nxt \<notin> set seen) (successors arcs cur)"
  then show "((arcs, rev new @ stack, seen @ new), arcs, cur # stack, seen)
      \<in> measure (\<lambda>(arcs, stack, seen). 2 * card (set (map snd arcs) - set seen) + length stack)"
    using traverse_decreases [of arcs seen cur] by simp
qed simp

definition traverse :: "int \<Rightarrow> (int \<times> int) list \<Rightarrow> int list" where
  "traverse origin arcs = traverse_loop arcs [origin] [origin]"

definition validate_choice_graph :: "pnode \<Rightarrow> unit res" where
  "validate_choice_graph v =
     (let n = length (children v); es = edges v; st = start v; en = finish v in
      if n < 2 then refuse INVALID_CHOICE_ARITY
      else bindE (validate_frequency (freq v)) (\<lambda>_.
           bindE (check_endpoints es n (\<lambda>e. \<not> is_OrderEdge e)) (\<lambda>_.
           if \<not> in_range st n then refuse DANGLING_REFERENCE
           else if \<not> in_range en n then refuse DANGLING_REFERENCE
           else if st = en then refuse MULTI_BOUNDARY_CHOICE_GRAPH
           else bindE (iterE (check_boundary st en) es) (\<lambda>_.
                bindE (validate_guard_exclusivity es n) (\<lambda>_.
                let forward = traverse st (map ends es);
                    backward = traverse en (map (\<lambda>e. (dst e, src e)) es)
                in iterE (\<lambda>i.
                     if int i \<notin> set forward then refuse CHOICE_GRAPH_DISCONNECTED
                     else if int i \<notin> set backward then refuse CHOICE_GRAPH_DISCONNECTED
                     else Inr ()) [0..<n])))))"

fun validate :: "pnode \<Rightarrow> nat \<Rightarrow> unit res" where
  "validate (PartialOrder cs es f cl d) depth =
     (if depth > MAX_POWL_DEPTH then refuse DEPTH_EXCEEDED
      else bindE (validate_partial_order (PartialOrder cs es f cl d)) (\<lambda>_.
           iterE (\<lambda>c. validate c (depth + 1)) cs))"
| "validate (ChoiceGraph cs es st en f d) depth =
     (if depth > MAX_POWL_DEPTH then refuse DEPTH_EXCEEDED
      else bindE (validate_choice_graph (ChoiceGraph cs es st en f d)) (\<lambda>_.
           iterE (\<lambda>c. validate c (depth + 1)) cs))"
| "validate (Foreign nm) depth =
     (if depth > MAX_POWL_DEPTH then refuse DEPTH_EXCEEDED else refuse PROHIBITED_NODE_KIND)"
| "validate leaf depth = (if depth > MAX_POWL_DEPTH then refuse DEPTH_EXCEEDED else Inr ())"

definition validate_model :: "pnode \<Rightarrow> unit res" where
  "validate_model v = validate v 1"

section \<open>Traversal\<close>

lemma set_successors [simp]: "set (successors arcs cur) = {b. (cur, b) \<in> set arcs}"
  by (force simp: successors_def)

definition traverse_inv :: "(int \<times> int) list \<Rightarrow> int \<Rightarrow> int list \<Rightarrow> int list \<Rightarrow> bool" where
  "traverse_inv arcs origin stack seen \<longleftrightarrow> origin \<in> set seen \<and> set stack \<subseteq> set seen
     \<and> (\<forall>x \<in> set seen. (origin, x) \<in> (set arcs)\<^sup>*)
     \<and> (\<forall>x \<in> set seen - set stack. \<forall>y. (x, y) \<in> set arcs \<longrightarrow> y \<in> set seen)"

lemma traverse_loop_inv:
  "traverse_inv arcs origin stack seen \<Longrightarrow> traverse_inv arcs origin [] (traverse_loop arcs stack seen)"
proof (induction arcs stack seen rule: traverse_loop.induct)
  case (2 arcs cur stack seen)
  let ?new = "filter (\<lambda>nxt. nxt \<notin> set seen) (successors arcs cur)"
  have "traverse_inv arcs origin (rev ?new @ stack) (seen @ ?new)"
    unfolding traverse_inv_def
  proof (intro conjI ballI allI impI)
    show "origin \<in> set (seen @ ?new)" "set (rev ?new @ stack) \<subseteq> set (seen @ ?new)"
      using "2.prems" by (auto simp: traverse_inv_def)
    show "(origin, x) \<in> (set arcs)\<^sup>*" if "x \<in> set (seen @ ?new)" for x
    proof -
      have reach: "\<forall>x \<in> set seen. (origin, x) \<in> (set arcs)\<^sup>*" "cur \<in> set seen"
        using "2.prems" by (simp_all add: traverse_inv_def)
      show ?thesis
      proof (cases "x \<in> set seen")
        case False
        with that have "(cur, x) \<in> set arcs" by simp
        with reach show ?thesis by (meson rtrancl.rtrancl_into_rtrancl)
      qed (use reach in simp)
    qed
    show "y \<in> set (seen @ ?new)"
      if x: "x \<in> set (seen @ ?new) - set (rev ?new @ stack)" and y: "(x, y) \<in> set arcs" for x y
    proof (cases "x = cur")
      case True
      with y show ?thesis by simp
    next
      case False
      with x have "x \<in> set seen - set (cur # stack)" by auto
      moreover have "\<forall>x \<in> set seen - set (cur # stack). \<forall>y. (x, y) \<in> set arcs \<longrightarrow> y \<in> set seen"
        using "2.prems" unfolding traverse_inv_def by (rule conjunct2 [THEN conjunct2, THEN conjunct2])
      ultimately show ?thesis using y by (simp del: list.set)
    qed
  qed
  then show ?case using "2.IH" by (simp add: Let_def)
qed simp

lemma traverse_reachable: "set (traverse origin arcs) = {x. (origin, x) \<in> (set arcs)\<^sup>*}"
proof -
  have "traverse_inv arcs origin [origin] [origin]" by (simp add: traverse_inv_def)
  from traverse_loop_inv [OF this] have inv: "traverse_inv arcs origin [] (traverse origin arcs)"
    by (simp add: traverse_def)
  then have closed: "origin \<in> set (traverse origin arcs)" "\<forall>x \<in> set (traverse origin arcs). (origin, x) \<in> (set arcs)\<^sup>*"
    "\<And>x y. x \<in> set (traverse origin arcs) \<Longrightarrow> (x, y) \<in> set arcs \<Longrightarrow> y \<in> set (traverse origin arcs)"
    by (simp_all add: traverse_inv_def)
  have "x \<in> set (traverse origin arcs)" if "(origin, x) \<in> (set arcs)\<^sup>*" for x
    using that by induction (simp_all add: closed)
  with closed(2) show ?thesis by blast
qed

section \<open>What the validator adds to the constructors\<close>

definition graph_connected :: "edge list \<Rightarrow> nat \<Rightarrow> int \<Rightarrow> int \<Rightarrow> bool" where
  "graph_connected es n st en \<longleftrightarrow>
     (\<forall>i < n. (st, int i) \<in> (erel es)\<^sup>* \<and> (int i, en) \<in> (erel es)\<^sup>*)"

text \<open>The choices at a node are unambiguous: distinct guards and at most one edge without.\<close>

definition unambiguous_at :: "edge list \<Rightarrow> bool" where
  "unambiguous_at out \<longleftrightarrow> length out < 2 \<or> (\<forall>e \<in> set out. guard_of e = None) \<or>
     (length (filter (\<lambda>e. guard_of e = None) out) \<le> 1 \<and> distinct (map guard_key (List.map_filter guard_of out)))"

definition guards_unambiguous :: "edge list \<Rightarrow> nat \<Rightarrow> bool" where
  "guards_unambiguous es n \<longleftrightarrow> (\<forall>i < n. unambiguous_at (filter (\<lambda>e. src e = int i) es))"

fun choices_ok :: "pnode \<Rightarrow> bool" where
  "choices_ok (PartialOrder cs es f cl d) \<longleftrightarrow> (\<forall>c \<in> set cs. choices_ok c)"
| "choices_ok (ChoiceGraph cs es st en f d) \<longleftrightarrow> graph_connected es (length cs) st en
     \<and> guards_unambiguous es (length cs) \<and> (\<forall>c \<in> set cs. choices_ok c)"
| "choices_ok _ \<longleftrightarrow> True"

lemma validate_frequency_iff: "validate_frequency f = Inr u \<longleftrightarrow> wf_frequency f"
  by (auto simp: validate_frequency_def wf_frequency_def split: option.splits)

lemma check_endpoints_iff:
  "check_endpoints es n P = Inr u \<longleftrightarrow> (\<forall>e \<in> set es. P e \<and> in_range (src e) n \<and> in_range (dst e) n)"
  by (auto simp: check_endpoints_def iterE_Inr_iff)

lemma guard_keys_iff:
  "guard_keys seen es = Inr u \<longleftrightarrow> distinct (map guard_key (List.map_filter guard_of es))
     \<and> set (map guard_key (List.map_filter guard_of es)) \<inter> set seen = {}"
  by (induction es arbitrary: seen) (auto simp: map_filter_simps split: option.splits)

lemma guard_exclusivity_at_iff: "guard_exclusivity_at out = Inr u \<longleftrightarrow> unambiguous_at out"
  by (auto simp: guard_exclusivity_at_def unambiguous_at_def Let_def guard_keys_iff filter_empty_conv)

lemma validate_guard_exclusivity_iff:
  "validate_guard_exclusivity es n = Inr u \<longleftrightarrow> guards_unambiguous es n"
  by (auto simp: validate_guard_exclusivity_def iterE_Inr_iff guard_exclusivity_at_iff guards_unambiguous_def)

lemma set_map_ends: "set (map ends es) = erel es" and
  set_map_ends_converse: "set (map (\<lambda>e. (dst e, src e)) es) = (erel es)\<inverse>"
  by (auto simp: erel_def)

lemma validate_choice_graph_iff:
  "validate_choice_graph (ChoiceGraph cs es st en f d) = Inr u \<longleftrightarrow>
     2 \<le> length cs \<and> wf_frequency f \<and> choice_edges_ok es (length cs) st en \<and> in_range st (length cs)
     \<and> in_range en (length cs) \<and> st \<noteq> en \<and> guards_unambiguous es (length cs)
     \<and> graph_connected es (length cs) st en"
  unfolding validate_choice_graph_def graph_connected_def
  by (auto simp: Let_def bindE_Inr_iff iterE_Inr_iff check_endpoints_iff validate_frequency_iff
      validate_guard_exclusivity_iff check_boundary_def choice_edges_ok_def traverse_reachable
      set_map_ends set_map_ends_converse rtrancl_converse simp del: set_map)

lemma order_edges_eq_iff:
  "order_edges_ok es n \<Longrightarrow> order_edges_ok es' n \<Longrightarrow> set es = set es' \<longleftrightarrow> erel es = erel es'"
proof
  assume ok: "order_edges_ok es n" "order_edges_ok es' n" and eq: "erel es = erel es'"
  have "set fs = (\<lambda>(i, j). OrderEdge i j) ` erel fs" if "order_edges_ok fs n" for fs
  proof -
    have "set fs = (\<lambda>e. OrderEdge (src e) (dst e)) ` set fs"
      using that by (force simp: order_edges_ok_def is_OrderEdge_def)
    then show ?thesis by (simp add: erel_def image_image)
  qed
  with ok eq show "set es = set es'" by simp
qed (simp add: erel_def)

lemma validate_closure_iff:
  "validate_closure (PartialOrder cs es f cl d) n = Inr u \<longleftrightarrow>
     order_edges_ok cl n \<and> trans (erel cl) \<and> irrefl (erel cl)"
proof -
  have pairs: "set (remdups (map ends cl)) = erel cl" by (auto simp: erel_def)
  have range: "(\<forall>k < n. (j, int k) \<in> erel cl \<longrightarrow> (i, int k) \<in> erel cl) \<longleftrightarrow>
      (\<forall>k. (j, k) \<in> erel cl \<longrightarrow> (i, k) \<in> erel cl)" if "order_edges_ok cl n" for i j
    using erel_range [OF that] by (metis in_rangeE)
  have "validate_closure (PartialOrder cs es f cl d) n = Inr u \<longleftrightarrow>
      order_edges_ok cl n \<and> (\<forall>(i, j) \<in> erel cl. i \<noteq> j \<and> (j, i) \<notin> erel cl)
      \<and> (\<forall>(i, j) \<in> erel cl. \<forall>k < n. (j, int k) \<in> erel cl \<longrightarrow> (i, int k) \<in> erel cl)"
    unfolding validate_closure_def Let_def
    by (simp add: bindE_Inr_iff iterE_Inr_iff check_endpoints_iff order_edges_ok_def
        erel_def [symmetric] case_prod_unfold Ball_def [of "{0..<n}"] split: if_split) meson
  also have "\<dots> \<longleftrightarrow> order_edges_ok cl n \<and> (\<forall>(i, j) \<in> erel cl. i \<noteq> j \<and> (j, i) \<notin> erel cl)
      \<and> (\<forall>(i, j) \<in> erel cl. \<forall>k. (j, k) \<in> erel cl \<longrightarrow> (i, k) \<in> erel cl)"
    using range by (auto split: prod.splits)
  also have "\<dots> \<longleftrightarrow> order_edges_ok cl n \<and> trans (erel cl) \<and> irrefl (erel cl)"
    unfolding trans_def irrefl_def by blast
  finally show ?thesis .
qed

lemma validate_partial_order_iff:
  "validate_partial_order (PartialOrder cs es f cl d) = Inr u \<longleftrightarrow>
     2 \<le> length cs \<and> wf_frequency f \<and> order_edges_ok es (length cs) \<and> acyclic (erel es)
     \<and> covers ((erel es)\<^sup>+) = erel es
     \<and> order_edges_ok cl (length cs) \<and> trans (erel cl) \<and> irrefl (erel cl)"
  (is "?V \<longleftrightarrow> ?R")
proof -
  let ?n = "length cs"
  have red: "(\<exists>r. transitive_reduction es ?n = Inr r \<and> set r = set es) \<longleftrightarrow>
      acyclic (erel es) \<and> covers ((erel es)\<^sup>+) = erel es" if ok: "order_edges_ok es ?n"
  proof
    assume "\<exists>r. transitive_reduction es ?n = Inr r \<and> set r = set es"
    then obtain r where r: "transitive_reduction es ?n = Inr r" "set r = set es" by blast
    obtain cl where "transitive_closure es ?n = Inr cl" "erel r = covers (erel cl)"
      using transitive_reduction_InrD [OF r(1)] by metis
    with transitive_closure_InrD(2,3) r(2) show "acyclic (erel es) \<and> covers ((erel es)\<^sup>+) = erel es"
      by (simp add: erel_def)
  next
    assume *: "acyclic (erel es) \<and> covers ((erel es)\<^sup>+) = erel es"
    then obtain cl where cl: "transitive_closure es ?n = Inr cl" using ok by (simp add: transitive_closure_ok)
    then obtain r where r: "transitive_reduction es ?n = Inr r" using transitive_reduction_total by blast
    have "erel r = covers (erel cl)" "order_edges_ok r ?n"
      using transitive_reduction_InrD [OF r] cl by (metis sum.inject(2))+
    with * transitive_closure_InrD(3) [OF cl] order_edges_eq_iff [OF _ ok] r
    show "\<exists>r. transitive_reduction es ?n = Inr r \<and> set r = set es" by auto
  qed
  have "?V \<longleftrightarrow> 2 \<le> ?n \<and> wf_frequency f \<and> order_edges_ok es ?n \<and> (\<forall>e \<in> set es. src e \<noteq> dst e)
      \<and> (\<exists>r. transitive_reduction es ?n = Inr r \<and> set r = set es)
      \<and> validate_closure (PartialOrder cs es f cl d) ?n = Inr ()"
    unfolding validate_partial_order_def
    by (auto simp: Let_def bindE_Inr_iff iterE_Inr_iff check_endpoints_iff validate_frequency_iff order_edges_ok_def)
  moreover have "\<forall>e \<in> set es. src e \<noteq> dst e" if "acyclic (erel es)"
    using that by (force simp: acyclic_def erel_def)
  ultimately show ?thesis using red by (auto simp: validate_closure_iff)
qed

text \<open>
  The laws of POWL 2.0 on the stored fields, stated without reference to the algorithms: no
  foreign object, legal frequencies, partial orders stored as their own covering relation, choice
  graphs with one entry and one exit that are connected and unambiguous.
\<close>

fun stored_lawful :: "pnode \<Rightarrow> bool" where
  "stored_lawful (PartialOrder cs es f cl d) \<longleftrightarrow> 2 \<le> length cs \<and> wf_frequency f
     \<and> order_edges_ok es (length cs) \<and> acyclic (erel es) \<and> covers ((erel es)\<^sup>+) = erel es \<and> (\<forall>c \<in> set cs. stored_lawful c)"
| "stored_lawful (ChoiceGraph cs es st en f d) \<longleftrightarrow> 2 \<le> length cs \<and> wf_frequency f
     \<and> choice_edges_ok es (length cs) st en \<and> in_range st (length cs) \<and> in_range en (length cs) \<and> st \<noteq> en
     \<and> guards_unambiguous es (length cs) \<and> graph_connected es (length cs) st en \<and> (\<forall>c \<in> set cs. stored_lawful c)"
| "stored_lawful (Foreign _) \<longleftrightarrow> False"
| "stored_lawful _ \<longleftrightarrow> True"

text \<open>
  What can be asked of the cached closures: \<open>closures_strict\<close>, that each is some strict order of the
  children, and \<open>closures_derived\<close>, that each is the closure of the order it is stored with.  A
  model is lawful when its stored fields are and its caches are right.
\<close>

fun closures_strict :: "pnode \<Rightarrow> bool" where
  "closures_strict (PartialOrder cs es f cl d) \<longleftrightarrow> order_edges_ok cl (length cs) \<and> trans (erel cl) \<and> irrefl (erel cl)
     \<and> (\<forall>c \<in> set cs. closures_strict c)"
| "closures_strict (ChoiceGraph cs es st en f d) \<longleftrightarrow> (\<forall>c \<in> set cs. closures_strict c)"
| "closures_strict _ \<longleftrightarrow> True"

fun closures_derived :: "pnode \<Rightarrow> bool" where
  "closures_derived (PartialOrder cs es f cl d) \<longleftrightarrow> order_edges_ok cl (length cs) \<and> erel cl = (erel es)\<^sup>+
     \<and> (\<forall>c \<in> set cs. closures_derived c)"
| "closures_derived (ChoiceGraph cs es st en f d) \<longleftrightarrow> (\<forall>c \<in> set cs. closures_derived c)"
| "closures_derived _ \<longleftrightarrow> True"

definition lawful :: "pnode \<Rightarrow> bool" where
  "lawful v \<longleftrightarrow> stored_lawful v \<and> closures_derived v"

lemma derived_strict: "stored_lawful v \<Longrightarrow> closures_derived v \<Longrightarrow> closures_strict v"
  by (induction v) (simp_all add: acyclic_def irrefl_def)

lemma height_pos: "1 \<le> height v"
  by (cases v) auto

lemma validate_iff:
  "validate v depth = Inr () \<longleftrightarrow> (stored_lawful v \<and> closures_strict v) \<and> depth + height v \<le> MAX_POWL_DEPTH + 1"
proof (induction v arbitrary: depth)
  case (PartialOrder cs es f cl d)
  have "depth + height (PartialOrder cs es f cl d) \<le> MAX_POWL_DEPTH + 1 \<longleftrightarrow>
      depth \<le> MAX_POWL_DEPTH \<and> (\<forall>c \<in> set cs. depth + 1 + height c \<le> MAX_POWL_DEPTH + 1)"
    using fold_max_le_iff [of "map height cs" 0 "MAX_POWL_DEPTH - depth"] by auto
  with PartialOrder.IH show ?case
    by (auto simp: bindE_Inr_iff iterE_Inr_iff validate_partial_order_iff split: if_splits)
next
  case (ChoiceGraph cs es st en f d)
  have "depth + height (ChoiceGraph cs es st en f d) \<le> MAX_POWL_DEPTH + 1 \<longleftrightarrow>
      depth \<le> MAX_POWL_DEPTH \<and> (\<forall>c \<in> set cs. depth + 1 + height c \<le> MAX_POWL_DEPTH + 1)"
    using fold_max_le_iff [of "map height cs" 0 "MAX_POWL_DEPTH - depth"] by auto
  with ChoiceGraph.IH show ?case
    by (auto simp: bindE_Inr_iff iterE_Inr_iff validate_choice_graph_iff split: if_splits)
qed auto

lemma wf_lawful: "wf_node v \<Longrightarrow> stored_lawful v \<and> closures_strict v \<longleftrightarrow> choices_ok v"
proof (induction v)
  case (PartialOrder cs es f cl d)
  note D = wf_partial_orderD [OF PartialOrder.prems]
  have "covers ((erel es)\<^sup>+) = erel es" "acyclic (erel es)"
    using transitive_reduction_InrD [OF D(11)] D(10) D(4) transitive_closure_InrD(2) [OF D(10)]
    by (metis sum.inject(2))+
  moreover have "(\<forall>c \<in> set cs. stored_lawful c) \<and> (\<forall>c \<in> set cs. closures_strict c) \<longleftrightarrow> (\<forall>c \<in> set cs. choices_ok c)"
    using D(8) PartialOrder.IH by blast
  ultimately show ?case using D by simp
next
  case (ChoiceGraph cs es st en f d)
  with wf_choice_graphD [OF ChoiceGraph.prems] show ?case by auto
qed auto

lemma validate_model_iff: "validate_model v = Inr () \<longleftrightarrow> (stored_lawful v \<and> closures_strict v) \<and> height v \<le> MAX_POWL_DEPTH"
  by (simp add: validate_model_def validate_iff)

lemma validate_iff_choices: "wf_node v \<Longrightarrow> validate_model v = Inr () \<longleftrightarrow> choices_ok v"
  by (simp add: validate_model_iff wf_lawful node_depth_height)

section \<open>Properties\<close>

text \<open>
  For a model built by the constructors the validator adds exactly two laws: every
  choice graph has each child on some path from its start to its end, and the guards on
  the edges leaving each child leave no ambiguity.
\<close>

theorem validate_constructed:
  assumes "wf_node v"
  shows "validate_model v = Inr () \<longleftrightarrow> choices_ok v"
  using assms by (rule validate_iff_choices)

definition loop_graph :: pnode where
  "loop_graph = ChoiceGraph [Start, Atom ''a'' NoAction (JObj []) PURE, End]
     [ChoiceGraphEdge 0 1 None, ChoiceGraphEdge 1 1 (Some (Guard ''again'' (JObj []))), ChoiceGraphEdge 1 2 None]
     0 2 ONCE 2"

lemma loop_graph_wf: "wf_node loop_graph"
  by (simp add: loop_graph_def mk_choice_graph_Inr_iff choice_edges_ok_def in_range_def
      composite_depth_def node_depth_def MAX_POWL_DEPTH_def)

lemma loop_graph_choices: "choices_ok loop_graph"
proof -
  have "(0, 1) \<in> erel (edges loop_graph)" "(1, 2) \<in> erel (edges loop_graph)"
    by (simp_all add: loop_graph_def erel_def)
  then have "(0, 1) \<in> (erel (edges loop_graph))\<^sup>*" "(1, 2) \<in> (erel (edges loop_graph))\<^sup>*"
    "(0, 2) \<in> (erel (edges loop_graph))\<^sup>*" by (simp_all add: converse_rtrancl_into_rtrancl)
  then have "graph_connected (edges loop_graph) 3 0 2"
    by (auto simp: graph_connected_def less_Suc_eq numeral_3_eq_3)
  moreover have "guards_unambiguous (edges loop_graph) 3"
    by (simp add: guards_unambiguous_def unambiguous_at_def loop_graph_def less_Suc_eq numeral_3_eq_3
        all_conj_distrib)
  ultimately show ?thesis by (simp add: loop_graph_def numeral_3_eq_3)
qed

theorem validate_constructed_witness: "validate_model loop_graph = Inr () \<longleftrightarrow> choices_ok loop_graph"
  by (rule validate_constructed) (rule loop_graph_wf)

text \<open>
  The validator does not compare the cached closure with the order: a partial order
  whose closure was emptied is accepted, although its order still holds an edge, and the
  executor reads only the closure.
\<close>

definition stale_closure :: pnode where
  "stale_closure = PartialOrder [Silent, Silent] [OrderEdge 0 1] ONCE [] 2"

lemma stale_closure_accepted: "validate_model stale_closure = Inr ()" "\<not> closures_derived stale_closure"
proof -
  have cov: "covers ((erel [OrderEdge 0 1])\<^sup>+) = erel [OrderEdge 0 1]"
    using transitive_reduction_InrD [OF reduction_01] closure_01 transitive_closure_InrD(3) [OF closure_01]
    by (metis sum.inject(2))
  have acy: "acyclic (erel [OrderEdge 0 1])" by (rule transitive_closure_InrD(2) [OF closure_01])
  have "stored_lawful stale_closure \<and> closures_strict stale_closure"
    using cov acy by (simp add: stale_closure_def order_edges_ok_def in_range_def erel_def)
  moreover have "height stale_closure \<le> MAX_POWL_DEPTH"
    by (simp add: stale_closure_def MAX_POWL_DEPTH_def)
  ultimately show "validate_model stale_closure = Inr ()" by (simp add: validate_model_iff)
  have "(0, 1) \<in> (erel [OrderEdge 0 1])\<^sup>+" by (rule r_into_trancl) (simp add: erel_def)
  then show "\<not> closures_derived stale_closure" by (auto simp: stale_closure_def erel_def)
qed

theorem validate_accepts_stale_closure:
  "validate_model stale_closure = Inr () \<and> closure stale_closure = []
   \<and> transitive_closure (order stale_closure) 2 = Inr [OrderEdge 0 1] \<and> \<not> wf_node stale_closure"
proof -
  have "\<not> wf_node stale_closure"
    using wf_partial_orderD(10) [of "[Silent, Silent]" "[OrderEdge 0 1]" ONCE "[]" 2] closure_01
    by (simp add: stale_closure_def numeral_2_eq_2) blast
  then show ?thesis using stale_closure_accepted(1) closure_01 by (simp add: stale_closure_def)
qed

text \<open>
  C30.  What \<open>validate_model\<close> decides, whether or not the object went through the constructors.  It
  accepts an object exactly when its stored fields obey the laws of POWL 2.0, every cached closure
  is some strict order of the children, and it nests at most \<open>MAX_POWL_DEPTH\<close> deep.  On objects
  whose cached closures are the closures of their orders this decides lawfulness.  On the
  others it does not: a cached closure is trusted once it is a strict order, so that an object
  whose closure has lost the precedences of its order is accepted.
\<close>

theorem validate_model_decides:
  "(validate_model v = Inr () \<longleftrightarrow> stored_lawful v \<and> closures_strict v \<and> height v \<le> MAX_POWL_DEPTH)
   \<and> (closures_derived v \<longrightarrow> (validate_model v = Inr () \<longleftrightarrow> lawful v \<and> height v \<le> MAX_POWL_DEPTH))
   \<and> validate_model stale_closure = Inr () \<and> \<not> lawful stale_closure"
  using stale_closure_accepted derived_strict [of v] by (auto simp: validate_model_iff lawful_def)

theorem validate_model_decides_witness: "validate_model loop_graph = Inr () \<longleftrightarrow> lawful loop_graph \<and> height loop_graph \<le> MAX_POWL_DEPTH"
proof -
  have "closures_derived loop_graph" by (simp add: loop_graph_def)
  then show ?thesis using validate_model_decides [of loop_graph] by blast
qed

end
