(* ===== verification/Powl_Normalize.thy ===== *)
theory Powl_Normalize
  imports Powl_Identity Powl_Validate "HOL-Library.Multiset"
begin

text \<open>
  \<^verbatim>\<open>powl/normalize.py\<close>: the canonical form of a model sorts the children of every
  partial order by their identity and renames the edges along; the model digest is the
  identity of the canonical form.
\<close>

section \<open>Canonical form\<close>

definition sorted_positions :: "string list \<Rightarrow> nat list" where
  "sorted_positions ids = sort_key (\<lambda>i. (ids ! i, i)) [0..<length ids]"

text \<open>\<open>new_index\<close> is the dictionary from old positions to new ones.\<close>

definition new_index :: "nat list \<Rightarrow> int \<Rightarrow> int" where
  "new_index perm old = dict_get (zip (map int perm) (map int [0..<length perm])) old 0"

definition rename_edge :: "nat list \<Rightarrow> edge \<Rightarrow> edge" where
  "rename_edge perm e = OrderEdge (new_index perm (src e)) (new_index perm (dst e))"

fun canonical_form :: "(string \<Rightarrow> string) \<Rightarrow> pnode \<Rightarrow> pnode res" where
  "canonical_form sha (PartialOrder cs es f cl d) =
     bindE (mapE (canonical_form sha) cs) (\<lambda>kids.
     bindE (mapE (node_id sha) kids) (\<lambda>ids.
       let perm = sorted_positions ids in
       bindE (transitive_reduction es (length kids)) (\<lambda>reduced.
         mk_partial_order (map (\<lambda>i. kids ! i) perm) (map (rename_edge perm) reduced) f)))"
| "canonical_form sha (ChoiceGraph cs es st en f d) =
     bindE (mapE (canonical_form sha) cs) (\<lambda>kids. mk_choice_graph kids es st en f)"
| "canonical_form sha (Foreign nm) = refuse PROHIBITED_NODE_KIND"
| "canonical_form sha leaf = Inr leaf"

definition model_digest :: "(string \<Rightarrow> string) \<Rightarrow> pnode \<Rightarrow> string res" where
  "model_digest sha v = bindE (canonical_form sha v) (node_id sha)"

section \<open>Sorted positions\<close>

lemma set_sorted_positions [simp]: "set (sorted_positions ids) = {..<length ids}"
  by (auto simp: sorted_positions_def)

lemma distinct_sorted_positions [simp]: "distinct (sorted_positions ids)"
  by (simp add: sorted_positions_def)

lemma length_sorted_positions [simp]: "length (sorted_positions ids) = length ids"
  by (simp add: sorted_positions_def)

lemma sorted_ids: "sorted (map (\<lambda>i. ids ! i) (sorted_positions ids))"
proof -
  have "sorted (map (\<lambda>i. (ids ! i, i)) (sorted_positions ids))"
    by (simp add: sorted_positions_def)
  then show ?thesis
    by (auto simp: sorted_map less_eq_prod_def elim!: sorted_wrt_mono_rel [rotated])
qed

lemma sorted_positions_sorted:
  assumes "sorted ids" shows "sorted_positions ids = [0..<length ids]"
proof -
  have "sorted (map (\<lambda>i. (ids ! i, i)) [0..<length ids])"
    using assms by (auto simp: sorted_iff_nth_mono less_eq_prod_def)
  then show ?thesis by (simp add: sorted_positions_def sort_key_id_if_sorted)
qed

lemma new_index_nth:
  assumes "distinct perm" "k < length perm"
  shows "new_index perm (int (perm ! k)) = int k"
proof -
  let ?d = "zip (map int perm) (map int [0..<length perm])"
  have "distinct (map fst ?d)" using assms by (simp add: distinct_map inj_on_def)
  moreover have "?d ! k \<in> set ?d" using assms(2) by (intro nth_mem) simp
  then have "(int (perm ! k), int k) \<in> set ?d" using assms(2) by simp
  ultimately have "map_of ?d (int (perm ! k)) = Some (int k)" by (rule map_of_is_SomeI)
  then show ?thesis by (simp add: new_index_def dict_get_def)
qed

lemma new_index_id: "in_range i n \<Longrightarrow> new_index [0..<n] i = i"
  by (elim in_rangeE) (use new_index_nth [of "[0..<n]"] in auto)

lemma rename_edge_id: "order_edges_ok es n \<Longrightarrow> map (rename_edge [0..<n]) es = es"
  by (rule map_idI) (auto simp: rename_edge_def order_edges_ok_def new_index_id is_OrderEdge_def)

section \<open>Idempotence\<close>

lemma mapE_memberD: "mapE f xs = Inr ys \<Longrightarrow> y \<in> set ys \<Longrightarrow> \<exists>x \<in> set xs. f x = Inr y"
  by (induction xs arbitrary: ys) (auto simp: bindE_Inr_iff)

lemma mapE_all:
  "mapE f xs = Inr ys \<Longrightarrow> (\<And>x y. x \<in> set xs \<Longrightarrow> f x = Inr y \<Longrightarrow> P y) \<Longrightarrow> \<forall>y \<in> set ys. P y"
  by (auto dest: mapE_memberD)

lemma canonical_form_wf: "wf_node v \<Longrightarrow> canonical_form sha v = Inr w \<Longrightarrow> wf_node w"
proof (induction v arbitrary: w)
  case (PartialOrder cs es f cl d)
  note D = wf_partial_orderD [OF PartialOrder.prems(1)]
  from PartialOrder.prems(2) obtain kids ids es'
    where kids: "mapE (canonical_form sha) cs = Inr kids" and ids: "mapE (node_id sha) kids = Inr ids"
      and w: "mk_partial_order (map (\<lambda>i. kids ! i) (sorted_positions ids)) es' f = Inr w"
    by (auto simp: bindE_Inr_iff Let_def)
  have "\<forall>k \<in> set kids. wf_node k"
    using kids by (rule mapE_all) (use PartialOrder.IH D(8) in auto)
  moreover from ids have "length ids = length kids" by (auto simp: mapE_Inr_iff dest: list_all2_lengthD)
  ultimately have "\<forall>k \<in> set (map (\<lambda>i. kids ! i) (sorted_positions ids)). wf_node k" by auto
  with w D(7) show ?case by (rule mk_partial_order_wf)
next
  case (ChoiceGraph cs es st en f d)
  note D = wf_choice_graphD [OF ChoiceGraph.prems(1)]
  from ChoiceGraph.prems(2) obtain kids
    where kids: "mapE (canonical_form sha) cs = Inr kids" and w: "mk_choice_graph kids es st en f = Inr w"
    by (auto simp: bindE_Inr_iff)
  have "\<forall>k \<in> set kids. wf_node k"
    using kids by (rule mapE_all) (use ChoiceGraph.IH D(7) in auto)
  with w D(6) show ?case by (rule mk_choice_graph_wf)
qed auto

lemma mapE_fixpoints: "(\<And>x. x \<in> set xs \<Longrightarrow> f x = Inr x) \<Longrightarrow> mapE f xs = Inr xs"
  using mapE_total [of xs f "\<lambda>x. x"] by simp

lemma mapE_nth:
  "mapE f xs = Inr ys \<Longrightarrow> set is \<subseteq> {..<length xs} \<Longrightarrow>
   mapE f (map (\<lambda>i. xs ! i) is) = Inr (map (\<lambda>i. ys ! i) is)"
  unfolding mapE_Inr_iff by (auto simp: list_all2_conv_all_nth dest!: subsetD [OF _ nth_mem])

lemma canonical_form_fixpoint: "wf_node v \<Longrightarrow> canonical_form sha v = Inr w \<Longrightarrow> canonical_form sha w = Inr w"
proof (induction v arbitrary: w)
  case (PartialOrder cs es f cl d)
  note D = wf_partial_orderD [OF PartialOrder.prems(1)]
  from PartialOrder.prems(2) obtain kids ids red
    where kids: "mapE (canonical_form sha) cs = Inr kids" and ids: "mapE (node_id sha) kids = Inr ids"
      and w: "mk_partial_order (map (\<lambda>i. kids ! i) (sorted_positions ids))
            (map (rename_edge (sorted_positions ids)) red) f = Inr w"
    by (auto simp: bindE_Inr_iff Let_def)
  let ?p = "sorted_positions ids"
  let ?ks = "map (\<lambda>i. kids ! i) ?p" and ?ids = "map (\<lambda>i. ids ! i) ?p"
  have len: "length ids = length kids" using ids by (auto simp: mapE_Inr_iff dest: list_all2_lengthD)
  have fix_kids: "\<forall>k \<in> set kids. canonical_form sha k = Inr k"
    using kids by (rule mapE_all) (use PartialOrder.IH D(8) in auto)
  then have ks: "mapE (canonical_form sha) ?ks = Inr ?ks"
    using len by (intro mapE_fixpoints) auto
  have is_ids: "mapE (node_id sha) ?ks = Inr ?ids"
    using ids len by (intro mapE_nth) auto
  obtain red' cl' d' where w': "w = PartialOrder ?ks red' f cl' d'"
    and red': "transitive_reduction (map (rename_edge ?p) red) (length ?ks) = Inr red'"
    and cl': "transitive_closure (map (rename_edge ?p) red) (length ?ks) = Inr cl'"
    and d': "composite_depth ?ks = Inr d'" "2 \<le> length ?ks"
    using w by (rule mk_partial_order_InrD)
  have p': "sorted_positions ?ids = [0..<length ids]"
    using sorted_positions_sorted [OF sorted_ids, of ids] by simp
  have "map (\<lambda>i. ?ks ! i) [0..<length ids] = ?ks" using len by (intro nth_equalityI) auto
  moreover have "map (rename_edge [0..<length ids]) red' = red'"
    using transitive_reduction_ok(1) [OF red'] by (intro rename_edge_id) (simp add: len)
  moreover have "mk_partial_order ?ks red' f = Inr w"
    unfolding w' using red' cl' d' transitive_reduction_ok [OF red'] by (intro mk_partial_order_total) simp_all
  ultimately show ?case
    unfolding w' using ks is_ids p' transitive_reduction_ok(3) [OF red'] w'
    by (simp add: Let_def)
next
  case (ChoiceGraph cs es st en f d)
  note D = wf_choice_graphD [OF ChoiceGraph.prems(1)]
  from ChoiceGraph.prems(2) obtain kids
    where kids: "mapE (canonical_form sha) cs = Inr kids" and w: "mk_choice_graph kids es st en f = Inr w"
    by (auto simp: bindE_Inr_iff)
  have "\<forall>k \<in> set kids. canonical_form sha k = Inr k"
    using kids by (rule mapE_all) (use ChoiceGraph.IH D(7) in auto)
  then have "mapE (canonical_form sha) kids = Inr kids" by (simp add: mapE_fixpoints)
  with w show ?case
    by (auto simp: mk_choice_graph_Inr_iff choice_edges_ok_def distinct_remdups_id)
qed auto

section \<open>Totality\<close>

lemma rename_edge_range:
  assumes "order_edges_ok es (length perm)" "distinct perm" "set perm = {..<length perm}" "e \<in> set es"
  obtains i j where "i < length perm" "j < length perm" "ends e = (int (perm ! i), int (perm ! j))"
    "rename_edge perm e = OrderEdge (int i) (int j)"
proof -
  have find: "\<exists>i < length perm. x = int (perm ! i)" if "in_range x (length perm)" for x
  proof -
    from that obtain k where k: "x = int k" "k < length perm" by (rule in_rangeE)
    then have "k \<in> set perm" by (simp add: assms(3))
    with k show ?thesis by (auto simp: in_set_conv_nth)
  qed
  from assms(1,4) have "in_range (src e) (length perm)" "in_range (dst e) (length perm)"
    by (simp_all add: order_edges_ok_def)
  with find obtain i j where ij: "i < length perm" "src e = int (perm ! i)" "j < length perm"
    "dst e = int (perm ! j)" by metis
  then have "rename_edge perm e = OrderEdge (int i) (int j)"
    using assms(2) by (simp add: rename_edge_def new_index_nth)
  with ij show ?thesis using that by blast
qed

lemma acyclic_renamed:
  assumes "order_edges_ok es (length perm)" "distinct perm" "set perm = {..<length perm}"
    "acyclic (erel es)"
  shows "acyclic (erel (map (rename_edge perm) es))"
    and "order_edges_ok (map (rename_edge perm) es) (length perm)"
proof -
  let ?old = "\<lambda>k. int (perm ! nat k)"
  have sub: "erel (map (rename_edge perm) es) \<subseteq> inv_image (erel es) ?old"
  proof
    fix p assume "p \<in> erel (map (rename_edge perm) es)"
    then obtain e where e: "e \<in> set es" "p = ends (rename_edge perm e)" by (auto simp: erel_def)
    from rename_edge_range [OF assms(1-3) e(1)] obtain i j
      where "ends e = (int (perm ! i), int (perm ! j))" "rename_edge perm e = OrderEdge (int i) (int j)"
      by metis
    moreover have "ends e \<in> erel es" using e(1) by (simp add: erel_def)
    ultimately show "p \<in> inv_image (erel es) ?old" using e(2) by (simp add: inv_image_def)
  qed
  have "wf (erel es)" using assms(4) by (simp add: finite_acyclic_wf)
  then have "acyclic (inv_image (erel es) ?old)" by (intro wf_acyclic wf_inv_image)
  then show "acyclic (erel (map (rename_edge perm) es))" using sub by (rule acyclic_subset)
  show "order_edges_ok (map (rename_edge perm) es) (length perm)"
    unfolding order_edges_ok_def
  proof
    fix e' assume "e' \<in> set (map (rename_edge perm) es)"
    then obtain e where e: "e \<in> set es" "e' = rename_edge perm e" by auto
    from rename_edge_range [OF assms(1-3) e(1)] obtain i j
      where "i < length perm" "j < length perm" "rename_edge perm e = OrderEdge (int i) (int j)" by metis
    then show "is_OrderEdge e' \<and> in_range (src e') (length perm) \<and> in_range (dst e') (length perm)"
      using e(2) by simp
  qed
qed

lemma fold_max_cong: "set xs = set ys \<Longrightarrow> fold max xs (a :: nat) = fold max ys a"
proof -
  assume "set xs = set ys"
  then have *: "fold max xs a \<le> b \<longleftrightarrow> fold max ys a \<le> b" for b by (simp add: fold_max_le_iff)
  show "fold max xs a = fold max ys a" using * [of "fold max ys a"] * [of "fold max xs a"] by simp
qed

lemma set_permuted:
  "length ids = length zs \<Longrightarrow> set (map (\<lambda>i. zs ! i) (sorted_positions ids)) = set zs"
  by (auto simp: in_set_conv_nth)

lemma composite_depth_cong:
  "node_depth ` set cs = node_depth ` set cs' \<Longrightarrow> composite_depth cs = composite_depth cs'"
  using fold_max_cong [of "map node_depth cs" "map node_depth cs'"] by (simp add: composite_depth_def)

lemma canonical_form_total:
  "wf_node v \<Longrightarrow> \<exists>w. canonical_form sha v = Inr w \<and> node_depth w = node_depth v"
proof (induction v)
  case (PartialOrder cs es f cl d)
  note D = wf_partial_orderD [OF PartialOrder.prems]
  from PartialOrder.IH D(8)
  have "\<forall>c \<in> set cs. \<exists>w. canonical_form sha c = Inr w \<and> node_depth w = node_depth c" by blast
  then obtain g where g: "\<forall>c \<in> set cs. canonical_form sha c = Inr (g c) \<and> node_depth (g c) = node_depth c"
    by metis
  then have kids: "mapE (canonical_form sha) cs = Inr (map g cs)" by (intro mapE_total) simp
  have wf: "wf_node (g c)" if "c \<in> set cs" for c
    using canonical_form_wf [of c sha] g that D(8) by simp
  let ?ids = "map (the_id sha) (map g cs)"
  let ?p = "sorted_positions ?ids"
  let ?ks = "map (\<lambda>i. map g cs ! i) ?p"
  have ids: "mapE (node_id sha) (map g cs) = Inr ?ids"
    by (rule mapE_node_id) (use wf in auto)
  have set_ks: "set ?ks = g ` set cs" using set_permuted [of ?ids "map g cs"] by simp
  have ac: "acyclic (erel es)" using transitive_closure_InrD(2) [OF D(10)] .
  have ren: "acyclic (erel (map (rename_edge ?p) es))" "order_edges_ok (map (rename_edge ?p) es) (length cs)"
    using acyclic_renamed [of es ?p] D(2) ac by simp_all
  then obtain cl' where cl': "transitive_closure (map (rename_edge ?p) es) (length cs) = Inr cl'"
    by (simp add: transitive_closure_ok)
  then obtain red' where red': "transitive_reduction (map (rename_edge ?p) es) (length cs) = Inr red'"
    using transitive_reduction_total by metis
  have d': "composite_depth ?ks = Inr d"
  proof -
    have "node_depth ` set ?ks = node_depth ` set cs" unfolding set_ks using g by (simp add: image_image)
    from composite_depth_cong [OF this] D(9) show ?thesis by (rule trans)
  qed
  have "mk_partial_order ?ks (map (rename_edge ?p) es) f = Inr (PartialOrder ?ks red' f cl' d)"
    using cl' red' d' D(1) by (intro mk_partial_order_total) simp_all
  then have "canonical_form sha (PartialOrder cs es f cl d) = Inr (PartialOrder ?ks red' f cl' d)"
    by (simp add: kids ids Let_def D(11) del: map_map list.map_comp)
  then show ?case by (simp add: node_depth_def)
next
  case (ChoiceGraph cs es st en f d)
  note D = wf_choice_graphD [OF ChoiceGraph.prems]
  from ChoiceGraph.IH D(7)
  have "\<forall>c \<in> set cs. \<exists>w. canonical_form sha c = Inr w \<and> node_depth w = node_depth c" by blast
  then obtain g where g: "\<forall>c \<in> set cs. canonical_form sha c = Inr (g c) \<and> node_depth (g c) = node_depth c"
    by metis
  then have kids: "mapE (canonical_form sha) cs = Inr (map g cs)" by (intro mapE_total) simp
  have "composite_depth (map g cs) = Inr d"
    using D(8) composite_depth_cong [of "map g cs" cs] g by (simp add: image_image)
  then have "canonical_form sha (ChoiceGraph cs es st en f d) = Inr (ChoiceGraph (map g cs) (remdups es) st en f d)"
    using D by (auto simp: kids mk_choice_graph_Inr_iff)
  then show ?case by (simp add: node_depth_def)
qed (simp_all)

section \<open>Permuted children\<close>

lemma sorted_ids_perm: "map (\<lambda>i. ids ! i) (sorted_positions ids) = sort ids"
proof (rule properties_for_sort [symmetric])
  have "mset (sorted_positions ids) = mset [0..<length ids]" by (simp add: sorted_positions_def)
  then have "mset (map (\<lambda>i. ids ! i) (sorted_positions ids)) = mset (map (\<lambda>i. ids ! i) [0..<length ids])"
    by (simp only: mset_map)
  then show "mset (map (\<lambda>i. ids ! i) (sorted_positions ids)) = mset ids" by (simp only: map_nth)
qed (rule sorted_ids)

lemma model_digest_parallel:
  assumes wf: "wf_node (PartialOrder cs [] f cl d)"
  shows "model_digest sha (PartialOrder cs [] f cl d) =
    Inr (text_digest sha (JObj [(''kind'', JStr ''PartialOrder''),
      (''children'', JList (map JStr (sort (map (\<lambda>c. projr (model_digest sha c)) cs)))),
      (''order'', arcs_json []), (''frequency'', freq_json f)]))"
proof -
  note D = wf_partial_orderD [OF wf]
  let ?g = "\<lambda>c. projr (canonical_form sha c)"
  have g: "canonical_form sha c = Inr (?g c)" "wf_node (?g c)" if c: "c \<in> set cs" for c
  proof -
    obtain w where w: "canonical_form sha c = Inr w" using canonical_form_total [OF D(8) [OF c]] by blast
    then show "canonical_form sha c = Inr (?g c)" by simp
    show "wf_node (?g c)" using canonical_form_wf [OF D(8) [OF c] w] w by simp
  qed
  let ?ids = "map (the_id sha) (map ?g cs)"
  let ?ks = "map (\<lambda>i. map ?g cs ! i) (sorted_positions ?ids)"
  have kids: "mapE (canonical_form sha) cs = Inr (map ?g cs)" by (rule mapE_total) (rule g(1))
  have ids: "mapE (node_id sha) (map ?g cs) = Inr ?ids" by (rule mapE_node_id) (use g(2) in auto)
  have ks_ids: "mapE (node_id sha) ?ks = Inr (map (\<lambda>i. ?ids ! i) (sorted_positions ?ids))"
    using ids by (rule mapE_nth) simp
  have dig: "?ids = map (\<lambda>c. projr (model_digest sha c)) cs"
  proof -
    have "the_id sha (?g c) = projr (model_digest sha c)" if "c \<in> set cs" for c
      unfolding model_digest_def by (subst (2) g(1) [OF that]) (simp add: node_id_the g(2) [OF that])
    then show ?thesis by simp
  qed
  obtain w where w: "canonical_form sha (PartialOrder cs [] f cl d) = Inr w"
    using canonical_form_total [OF wf] by blast
  then have "mk_partial_order ?ks [] f = Inr w"
    by (simp add: kids ids Let_def reduction_Nil del: map_map list.map_comp)
  then obtain cl' d' where "w = PartialOrder ?ks [] f cl' d'"
    by (rule mk_partial_order_InrD) (simp add: reduction_Nil)
  moreover have "model_digest sha (PartialOrder cs [] f cl d) = node_id sha w"
    unfolding model_digest_def w by simp
  ultimately show ?thesis
    using ks_ids unfolding dig sorted_ids_perm by (simp add: node_id.simps del: map_map list.map_comp)
qed

section \<open>Properties\<close>

text \<open>
  C32.  \<open>canonical_form\<close> never raises on an admitted model, returns an admitted model of the
  same depth, and is idempotent: a canonical form is its own canonical form.
\<close>

theorem canonical_form_idempotent:
  assumes "wf_node v"
  shows "\<exists>w. canonical_form sha v = Inr w \<and> wf_node w \<and> node_depth w = node_depth v
    \<and> canonical_form sha w = Inr w"
  using canonical_form_total [OF assms] canonical_form_wf [OF assms] canonical_form_fixpoint [OF assms]
  by blast

theorem canonical_form_idempotent_witness:
  "\<exists>w. canonical_form (\<lambda>s. s) loop_graph = Inr w \<and> wf_node w \<and> node_depth w = node_depth loop_graph
    \<and> canonical_form (\<lambda>s. s) w = Inr w"
  by (rule canonical_form_idempotent [OF loop_graph_wf])

text \<open>
  \<open>model_digest\<close> does not see the order in which the children of an unconstrained partial
  order are written: every permutation of them is admitted too and has the same digest.
\<close>

theorem model_digest_unordered:
  assumes "wf_node (PartialOrder cs [] f cl d)" "mset cs' = mset cs"
  shows "\<exists>w. mk_partial_order cs' [] f = Inr w
    \<and> model_digest sha w = model_digest sha (PartialOrder cs [] f cl d)"
proof -
  note D = wf_partial_orderD [OF assms(1)]
  have set: "set cs' = set cs" using assms(2) by (rule mset_eq_setD)
  then have "composite_depth cs' = Inr d" using D(9) composite_depth_cong [of cs' cs] by simp
  moreover have "2 \<le> length cs'" using D(1) mset_eq_length [OF assms(2)] by simp
  ultimately have mk: "mk_partial_order cs' [] f = Inr (PartialOrder cs' [] f [] d)"
    by (intro mk_parallel)
  then have wf': "wf_node (PartialOrder cs' [] f [] d)"
    using D(7,8) set by (intro mk_partial_order_wf) auto
  let ?k = "\<lambda>c. projr (model_digest sha c)"
  have "sort (map ?k cs') = sort (map ?k cs)"
    using assms(2) by (intro properties_for_sort) simp_all
  then have "model_digest sha (PartialOrder cs' [] f [] d) = model_digest sha (PartialOrder cs [] f cl d)"
    by (simp only: model_digest_parallel [OF wf'] model_digest_parallel [OF assms(1)])
  with mk show ?thesis by blast
qed

theorem model_digest_unordered_witness:
  "\<exists>w. mk_partial_order [Silent, Start] [] ONCE = Inr w
    \<and> model_digest (\<lambda>s. s) w = model_digest (\<lambda>s. s) (PartialOrder [Start, Silent] [] ONCE [] 2)"
proof (rule model_digest_unordered)
  have "mk_partial_order [Start, Silent] [] ONCE = Inr (PartialOrder [Start, Silent] [] ONCE [] 2)"
    by (rule mk_parallel) (simp_all add: composite_depth_def node_depth_def MAX_POWL_DEPTH_def)
  then show "wf_node (PartialOrder [Start, Silent] [] ONCE [] 2)" by simp
qed (simp add: add_mset_commute)

end
