(* ===== verification/Powl_Denotation.thy ===== *)
theory Powl_Denotation
  imports Powl_Validate
begin

text \<open>
  The abstract specification of a model's behaviour, the set semantics that the
  documentation of \<^verbatim>\<open>powl/semantics.py\<close> transcribes from its Lean source: traces are
  lists of labels, a language is a set of traces.  \<open>den None v\<close> is the unbounded language;
  \<open>den (Some k) v\<close> limits unbounded repetition and the visits of a choice graph node to
  \<open>k\<close>.  The components below are proved against it.
\<close>

type_synonym trace = "string list"

section \<open>Operations on languages\<close>

definition conc :: "'a list set \<Rightarrow> 'a list set \<Rightarrow> 'a list set" where
  "conc L M = {u @ v |u v. u \<in> L \<and> v \<in> M}"

fun conc_list :: "'a list set list \<Rightarrow> 'a list set" where
  "conc_list [] = {[]}"
| "conc_list (L # Ls) = conc L (conc_list Ls)"

definition within :: "nat option \<Rightarrow> nat \<Rightarrow> bool" where
  "within cap n \<longleftrightarrow> (case cap of None \<Rightarrow> True | Some k \<Rightarrow> n \<le> k)"

definition bounded_powers :: "nat option \<Rightarrow> frequency \<Rightarrow> 'a list set \<Rightarrow> 'a list set" where
  "bounded_powers cap f L = (\<Union>n \<in> {n. allows f (int n) \<and> (fmax f = None \<longrightarrow> within cap n)}.
     conc_list (replicate n L))"

text \<open>
  A merge is a list of symbols, each with its owner.  Every owner's strand is a trace of
  its child, and no symbol of a predecessor comes after a symbol of its successor.
\<close>

definition strand :: "nat \<Rightarrow> (nat \<times> 'a) list \<Rightarrow> 'a list" where
  "strand i zs = map snd (filter (\<lambda>z. fst z = i) zs)"

definition keeps_order :: "(nat \<Rightarrow> nat \<Rightarrow> bool) \<Rightarrow> (nat \<times> 'a) list \<Rightarrow> bool" where
  "keeps_order prec zs \<longleftrightarrow> sorted_wrt (\<lambda>x y. \<not> prec (fst y) (fst x)) zs"

definition merge_lang :: "(nat \<Rightarrow> nat \<Rightarrow> bool) \<Rightarrow> 'a list set list \<Rightarrow> 'a list set" where
  "merge_lang prec Ls = {map snd zs |zs. (\<forall>z \<in> set zs. fst z < length Ls) \<and> keeps_order prec zs
     \<and> (\<forall>i < length Ls. strand i zs \<in> Ls ! i)}"

definition before :: "edge list \<Rightarrow> nat \<Rightarrow> nat \<Rightarrow> bool" where
  "before cl p i \<longleftrightarrow> (int p, int i) \<in> erel cl"

definition walk :: "(int \<times> int) set \<Rightarrow> int \<Rightarrow> int \<Rightarrow> int list \<Rightarrow> bool" where
  "walk E st en ws \<longleftrightarrow> ws \<noteq> [] \<and> hd ws = st \<and> last ws = en \<and> successively (\<lambda>a b. (a, b) \<in> E) ws"

definition graph_lang :: "nat option \<Rightarrow> (int \<times> int) set \<Rightarrow> int \<Rightarrow> int \<Rightarrow> 'a list set list \<Rightarrow> 'a list set" where
  "graph_lang cap E st en Ls = (\<Union>ws \<in> {ws. walk E st en ws \<and> (\<forall>v. within cap (count_list ws v))}.
     conc_list (map (\<lambda>i. Ls ! nat i) ws))"

fun den :: "nat option \<Rightarrow> pnode \<Rightarrow> trace set" where
  "den cap (Atom l _ _ _) = {[l]}"
| "den cap (PartialOrder cs es f cl d) =
     bounded_powers cap f (merge_lang (before cl) (map (den cap) cs))"
| "den cap (ChoiceGraph cs es st en f d) =
     bounded_powers cap f (graph_lang cap (erel es) st en (map (den cap) cs))"
| "den cap (Foreign _) = {}"
| "den cap _ = {[]}"

section \<open>Concatenation\<close>

lemma concI: "u \<in> L \<Longrightarrow> v \<in> M \<Longrightarrow> u @ v \<in> conc L M"
  by (auto simp: conc_def)

lemma conc_empty [simp]: "conc {} M = {}" "conc L {} = {}"
  by (auto simp: conc_def)

lemma conc_eps [simp]: "conc {[]} M = M" "conc L {[]} = L"
  by (auto simp: conc_def)

lemma conc_assoc: "conc (conc L M) N = conc L (conc M N)"
  by (auto simp: conc_def) (metis append.assoc)+

lemma conc_list_append: "conc_list (Ls @ Ms) = conc (conc_list Ls) (conc_list Ms)"
  by (induction Ls) (simp_all add: conc_assoc)

lemma conc_list_iff: "w \<in> conc_list Ls \<longleftrightarrow> (\<exists>us. list_all2 (\<in>) us Ls \<and> w = concat us)"
proof (induction Ls arbitrary: w)
  case (Cons L Ls)
  show ?case
  proof
    assume "w \<in> conc_list (L # Ls)"
    then obtain u v where "w = u @ v" "u \<in> L" "v \<in> conc_list Ls" by (auto simp: conc_def)
    moreover from this obtain us where "list_all2 (\<in>) us Ls" "v = concat us" using Cons.IH by blast
    ultimately have "list_all2 (\<in>) (u # us) (L # Ls)" "w = concat (u # us)" by simp_all
    then show "\<exists>us. list_all2 (\<in>) us (L # Ls) \<and> w = concat us" by blast
  next
    assume "\<exists>us. list_all2 (\<in>) us (L # Ls) \<and> w = concat us"
    then obtain u us where "u \<in> L" "list_all2 (\<in>) us Ls" "w = u @ concat us"
      by (auto simp: list_all2_Cons2)
    then show "w \<in> conc_list (L # Ls)" using Cons.IH by (auto intro!: concI)
  qed
qed simp

lemma conc_finite: "finite L \<Longrightarrow> finite M \<Longrightarrow> finite (conc L M)"
proof -
  assume "finite L" "finite M"
  moreover have "conc L M = (\<lambda>(u, v). u @ v) ` (L \<times> M)" by (auto simp: conc_def)
  ultimately show ?thesis by simp
qed

lemma Nil_conc: "[] \<in> conc L M \<longleftrightarrow> [] \<in> L \<and> [] \<in> M"
  by (auto simp: conc_def)

lemma Nil_conc_list: "[] \<in> conc_list Ls \<longleftrightarrow> (\<forall>L \<in> set Ls. [] \<in> L)"
  by (induction Ls) (auto simp: Nil_conc)

lemma conc_nonempty: "conc L M = {} \<longleftrightarrow> L = {} \<or> M = {}"
  by (auto simp: conc_def)

lemma conc_list_nonempty: "conc_list Ls = {} \<longleftrightarrow> {} \<in> set Ls"
  by (induction Ls) (auto simp: conc_nonempty)

text \<open>The symbols with which a trace of a language may begin.\<close>

definition firsts :: "'a list set \<Rightarrow> 'a set" where
  "firsts L = {a. \<exists>w. a # w \<in> L}"

lemma firsts_simps [simp]: "firsts {} = {}" "firsts {[]} = {}" "firsts {[a]} = {a}"
  by (auto simp: firsts_def)

lemma firsts_Un: "firsts (\<Union>i \<in> I. L i) = (\<Union>i \<in> I. firsts (L i))"
  by (auto simp: firsts_def)

lemma firsts_conc:
  assumes "M \<noteq> {}"
  shows "firsts (conc L M) = firsts L \<union> (if [] \<in> L then firsts M else {})"
proof -
  have "a # w \<in> conc L M \<longleftrightarrow>
      (\<exists>u v. a # u \<in> L \<and> v \<in> M \<and> w = u @ v) \<or> ([] \<in> L \<and> a # w \<in> M)" for a w
    by (auto simp: conc_def Cons_eq_append_conv)
  then show ?thesis using assms by (auto simp: firsts_def)
qed

lemma firsts_conc_list:
  assumes "\<forall>L \<in> set Ls. L \<noteq> {}"
  shows "firsts (conc_list Ls) =
    (\<Union>j \<in> {j. j < length Ls \<and> (\<forall>i < j. [] \<in> Ls ! i)}. firsts (Ls ! j))"
  using assms
proof (induction Ls)
  case (Cons L Ls)
  have ne: "conc_list Ls \<noteq> {}" using Cons.prems by (auto simp: conc_list_nonempty)
  have "{j. j < length (L # Ls) \<and> (\<forall>i < j. [] \<in> (L # Ls) ! i)}
      = insert 0 (if [] \<in> L then Suc ` {j. j < length Ls \<and> (\<forall>i < j. [] \<in> Ls ! i)} else {})"
    (is "?J = ?K")
  proof (rule set_eqI)
    fix j show "j \<in> ?J \<longleftrightarrow> j \<in> ?K" by (cases j) (auto simp: less_Suc_eq_0_disj image_iff)
  qed
  then show ?case using Cons by (simp add: firsts_conc [OF ne])
qed simp

section \<open>Merges\<close>

lemma linear_extension:
  fixes R :: "('a \<times> 'a) set"
  assumes "finite R" "trans R" "irrefl R" "finite A"
  shows "\<exists>xs. distinct xs \<and> set xs = A \<and> sorted_wrt (\<lambda>x y. (y, x) \<notin> R) xs"
  using assms(4)
proof (induction "card A" arbitrary: A)
  case (Suc n)
  have "wf R" using assms(1-3) by (simp add: finite_acyclic_wf acyclic_if_strict)
  moreover have "A \<noteq> {}" using Suc.hyps(2) by auto
  ultimately obtain m where m: "m \<in> A" "\<And>y. (y, m) \<in> R \<Longrightarrow> y \<notin> A"
    unfolding wf_eq_minimal by blast
  have "n = card (A - {m})" "finite (A - {m})" using Suc.hyps(2) Suc.prems m(1) by simp_all
  then obtain xs where xs: "distinct xs" "set xs = A - {m}" "sorted_wrt (\<lambda>x y. (y, x) \<notin> R) xs"
    using Suc.hyps(1) by blast
  have "distinct (m # xs)" "set (m # xs) = A" "sorted_wrt (\<lambda>x y. (y, x) \<notin> R) (m # xs)"
    using xs m by auto
  then show ?case by blast
qed auto

lemma strand_Nil [simp]: "strand i [] = []"
  and strand_Cons: "strand i (z # zs) = (if fst z = i then snd z # strand i zs else strand i zs)"
  and strand_append [simp]: "strand i (zs @ ys) = strand i zs @ strand i ys"
  by (simp_all add: strand_def)

text \<open>Children run one after the other, in a linear extension of the precedence.\<close>

definition in_series :: "nat list \<Rightarrow> (nat \<Rightarrow> 'a list) \<Rightarrow> (nat \<times> 'a) list" where
  "in_series xs t = concat (map (\<lambda>i. map (Pair i) (t i)) xs)"

lemma strand_pairs: "strand i (map (Pair j) u) = (if i = j then u else [])"
  by (induction u) (auto simp: strand_Cons)

lemma strand_series: "distinct xs \<Longrightarrow> strand i (in_series xs t) = (if i \<in> set xs then t i else [])"
  by (induction xs) (auto simp: in_series_def strand_pairs)

lemma owners_series: "fst ` set (in_series xs t) \<subseteq> set xs"
  by (auto simp: in_series_def)

lemma keeps_order_append:
  "keeps_order prec (zs @ ys) \<longleftrightarrow> keeps_order prec zs \<and> keeps_order prec ys
     \<and> (\<forall>z \<in> set zs. \<forall>y \<in> set ys. \<not> prec (fst y) (fst z))"
  by (simp add: keeps_order_def sorted_wrt_append)

lemma keeps_order_pairs: "\<not> prec j j \<Longrightarrow> keeps_order prec (map (Pair j) u)"
  by (induction u) (auto simp: keeps_order_def)

lemma keeps_order_series:
  assumes "sorted_wrt (\<lambda>x y. \<not> prec y x) xs" "\<forall>i \<in> set xs. \<not> prec i i"
  shows "keeps_order prec (in_series xs t)"
  using assms
proof (induction xs)
  case (Cons x xs)
  have "in_series (x # xs) t = map (Pair x) (t x) @ in_series xs t" by (simp add: in_series_def)
  moreover have "keeps_order prec (in_series xs t)" using Cons by simp
  moreover have "\<forall>y \<in> set (in_series xs t). fst y \<in> set xs" using owners_series by fastforce
  ultimately show ?case using Cons.prems by (auto simp: keeps_order_append keeps_order_pairs)
qed (simp add: in_series_def keeps_order_def)

lemma before_extension:
  assumes "trans (erel cl)" "irrefl (erel cl)"
  obtains xs where "distinct xs" "set xs = {..<n}" "sorted_wrt (\<lambda>x y. \<not> before cl y x) xs"
proof -
  obtain ys where ys: "distinct ys" "set ys = int ` {..<n}" "sorted_wrt (\<lambda>x y. (y, x) \<notin> erel cl) ys"
    using linear_extension [of "erel cl" "int ` {..<n}"] assms by auto
  let ?xs = "map nat ys"
  have inv: "\<forall>y \<in> set ys. int (nat y) = y" using ys(2) by auto
  have "distinct ?xs" using ys(1) inv by (metis distinct_map inj_onI)
  moreover have "set ?xs = {..<n}" using ys(2) by (simp add: image_image)
  moreover have "sorted_wrt (\<lambda>x y. \<not> before cl y x) ?xs"
    unfolding sorted_wrt_map before_def using ys(3)
    by (rule sorted_wrt_mono_rel [rotated]) (use inv in auto)
  ultimately show ?thesis by (rule that)
qed

lemma before_irrefl: "irrefl (erel cl) \<Longrightarrow> \<not> before cl i i"
  by (simp add: before_def irrefl_def)

lemma Nil_merge_lang: "[] \<in> merge_lang prec Ls \<longleftrightarrow> (\<forall>L \<in> set Ls. [] \<in> L)"
  by (auto simp: merge_lang_def keeps_order_def in_set_conv_nth intro: nth_mem)

lemma series_in_merge_lang:
  assumes cl: "trans (erel cl)" "irrefl (erel cl)" and ts: "\<forall>i < length Ls. t i \<in> Ls ! i"
  shows "merge_lang (before cl) Ls \<noteq> {}"
proof -
  obtain xs where xs: "distinct xs" "set xs = {..<length Ls}" "sorted_wrt (\<lambda>x y. \<not> before cl y x) xs"
    using before_extension [OF cl] by metis
  let ?zs = "in_series xs t"
  have "\<forall>z \<in> set ?zs. fst z < length Ls" using owners_series [of xs t] xs(2) by auto
  moreover have "keeps_order (before cl) ?zs"
    using xs(3) by (rule keeps_order_series) (simp add: before_irrefl [OF cl(2)])
  moreover have "\<forall>i < length Ls. strand i ?zs \<in> Ls ! i" using ts xs by (simp add: strand_series)
  ultimately have "map snd ?zs \<in> merge_lang (before cl) Ls" unfolding merge_lang_def by blast
  then show ?thesis by blast
qed

lemma merge_lang_nonempty:
  assumes cl: "trans (erel cl)" "irrefl (erel cl)" and ne: "\<forall>L \<in> set Ls. L \<noteq> {}"
  shows "merge_lang (before cl) Ls \<noteq> {}"
proof -
  have "\<forall>i < length Ls. (SOME t. t \<in> Ls ! i) \<in> Ls ! i" using ne by (auto simp: some_in_eq)
  then show ?thesis by (rule series_in_merge_lang [OF cl])
qed

lemma merge_langE:
  assumes "w \<in> merge_lang prec Ls"
  obtains zs where "map snd zs = w" "keeps_order prec zs" "\<forall>z \<in> set zs. fst z < length Ls"
    "\<forall>i < length Ls. strand i zs \<in> Ls ! i"
  using assms unfolding merge_lang_def by blast

lemma first_of_merge:
  assumes "map snd zs = a # w" "keeps_order prec zs"
  obtains i zs' where "zs = (i, a) # zs'" "strand i zs = a # strand i zs'"
    "\<And>p. prec p i \<Longrightarrow> \<not> prec i i \<Longrightarrow> strand p zs = []"
proof -
  obtain i zs' where zs: "zs = (i, a) # zs'" using assms(1) by (cases zs) auto
  have "strand p zs = []" if "prec p i" "\<not> prec i i" for p
    using assms(2) that unfolding zs keeps_order_def strand_def by (auto simp: filter_empty_conv)
  with zs show ?thesis using that by (simp add: strand_Cons)
qed

lemma merge_starting_with:
  assumes cl: "trans (erel cl)" "irrefl (erel cl)" and ne: "\<forall>L \<in> set Ls. L \<noteq> {}"
    and i: "i < length Ls" "a # r \<in> Ls ! i" and null: "\<forall>p < length Ls. before cl p i \<longrightarrow> [] \<in> Ls ! p"
  shows "a \<in> firsts (merge_lang (before cl) Ls)"
proof -
  obtain xs where xs: "distinct xs" "set xs = {..<length Ls}" "sorted_wrt (\<lambda>x y. \<not> before cl y x) xs"
    using before_extension [OF cl] by metis
  let ?t = "\<lambda>j. if j = i then r else if before cl j i then [] else (SOME t. t \<in> Ls ! j)"
  let ?zs = "(i, a) # in_series xs ?t"
  have owner: "fst z < length Ls \<and> \<not> before cl (fst z) i" if "z \<in> set (in_series xs ?t)" for z
    using that before_irrefl [OF cl(2)] xs(2) by (auto simp: in_series_def split: if_splits)
  have "keeps_order (before cl) (in_series xs ?t)"
    using xs(3) by (rule keeps_order_series) (simp add: before_irrefl [OF cl(2)])
  then have "keeps_order (before cl) ?zs" using owner by (simp add: keeps_order_def)
  moreover have "strand j ?zs \<in> Ls ! j" if "j < length Ls" for j
    using that i null ne xs by (auto simp: strand_Cons strand_series some_in_eq)
  ultimately have "map snd ?zs \<in> merge_lang (before cl) Ls"
    unfolding merge_lang_def using owner i(1) by (intro CollectI exI [of _ ?zs]) auto
  then show ?thesis by (auto simp: firsts_def)
qed

lemma firsts_merge_lang:
  assumes cl: "trans (erel cl)" "irrefl (erel cl)" and ne: "\<forall>L \<in> set Ls. L \<noteq> {}"
  shows "firsts (merge_lang (before cl) Ls) =
    (\<Union>i \<in> {i. i < length Ls \<and> (\<forall>p < length Ls. before cl p i \<longrightarrow> [] \<in> Ls ! p)}. firsts (Ls ! i))"
    (is "?l = ?r")
proof
  show "?l \<subseteq> ?r"
  proof
    fix a assume "a \<in> ?l"
    then obtain w where "a # w \<in> merge_lang (before cl) Ls" by (auto simp: firsts_def)
    then obtain zs where zs: "map snd zs = a # w" "keeps_order (before cl) zs"
      "\<forall>z \<in> set zs. fst z < length Ls" "\<forall>i < length Ls. strand i zs \<in> Ls ! i"
      by (rule merge_langE)
    from zs(1,2) show "a \<in> ?r"
    proof (rule first_of_merge)
      fix i zs' assume *: "zs = (i, a) # zs'" "strand i zs = a # strand i zs'"
        "\<And>p. before cl p i \<Longrightarrow> \<not> before cl i i \<Longrightarrow> strand p zs = []"
      have "i < length Ls" using zs(3) *(1) by simp
      moreover from this zs(4) have "a # strand i zs' \<in> Ls ! i" by (simp flip: *(2))
      then have "a \<in> firsts (Ls ! i)" by (auto simp: firsts_def)
      moreover have "\<forall>p < length Ls. before cl p i \<longrightarrow> [] \<in> Ls ! p"
        using zs(4) *(3) before_irrefl [OF cl(2)] by fastforce
      ultimately show ?thesis by blast
    qed
  qed
  show "?r \<subseteq> ?l" using merge_starting_with [OF cl ne] by (auto simp: firsts_def)
qed

section \<open>Repetition\<close>

lemma Nil_bounded_powers:
  "[] \<in> bounded_powers cap f L \<longleftrightarrow> (\<exists>n. allows f (int n) \<and> (fmax f = None \<longrightarrow> within cap n) \<and> (n = 0 \<or> [] \<in> L))"
  by (auto simp: bounded_powers_def Nil_conc_list)

lemma allows_min: "wf_frequency f \<Longrightarrow> allows f (int (nat (fmin f)))"
  by (auto simp: wf_frequency_def allows_iff)

lemma allows_0: "wf_frequency f \<Longrightarrow> allows f 0 \<longleftrightarrow> is_skippable f"
  by (auto simp: wf_frequency_def allows_iff is_skippable_def split: option.splits)

lemma Nil_bounded_powers_None:
  assumes f: "wf_frequency f"
  shows "[] \<in> bounded_powers None f L \<longleftrightarrow> is_skippable f \<or> [] \<in> L"
proof -
  have "(\<exists>n. allows f (int n) \<and> (n = 0 \<or> [] \<in> L)) \<longleftrightarrow> allows f 0 \<or> [] \<in> L"
    using allows_min [OF f] by (metis of_nat_0)
  then show ?thesis by (simp add: Nil_bounded_powers within_def allows_0 [OF f])
qed

lemma bounded_powers_nonempty:
  "wf_frequency f \<Longrightarrow> L \<noteq> {} \<Longrightarrow> bounded_powers None f L \<noteq> {}"
proof -
  assume f: "wf_frequency f" and L: "L \<noteq> {}"
  note allows_min [OF f]
  moreover have "conc_list (replicate (nat (fmin f)) L) \<noteq> {}" using L by (simp add: conc_list_nonempty)
  ultimately show ?thesis by (auto simp: bounded_powers_def within_def)
qed

lemma firsts_power:
  assumes "L \<noteq> {}" shows "firsts (conc_list (replicate n L)) = (if n = 0 then {} else firsts L)"
proof (induction n)
  case (Suc n)
  have "conc_list (replicate n L) \<noteq> {}" using assms by (simp add: conc_list_nonempty)
  then show ?case using Suc.IH by (simp add: firsts_conc)
qed simp

lemma firsts_bounded_powers:
  assumes f: "wf_frequency f" and L: "L \<noteq> {}"
  shows "firsts (bounded_powers None f L) = (if fmax f = Some 0 then {} else firsts L)"
proof -
  have some: "\<exists>n. allows f (int n) \<and> n \<noteq> 0" if "fmax f \<noteq> Some 0"
  proof (cases "fmax f")
    case None
    then have "allows f (int (Suc (nat (fmin f))))" using f by (auto simp: wf_frequency_def allows_iff)
    then show ?thesis by (intro exI [of _ "Suc (nat (fmin f))"]) simp
  next
    case (Some h)
    then have "allows f (int (nat h))" "nat h \<noteq> 0"
      using f that by (auto simp: wf_frequency_def allows_iff)
    then show ?thesis by blast
  qed
  have "n = 0" if "fmax f = Some 0" "allows f (int n)" for n using that by (simp add: allows_iff)
  with some have any: "(\<exists>n. allows f (int n) \<and> n \<noteq> 0) \<longleftrightarrow> fmax f \<noteq> Some 0" by blast
  have "a \<in> firsts (bounded_powers None f L) \<longleftrightarrow> (\<exists>n. allows f (int n) \<and> n \<noteq> 0) \<and> a \<in> firsts L" for a
  proof -
    have "a \<in> firsts (bounded_powers None f L) \<longleftrightarrow> (\<exists>n. allows f (int n) \<and> a \<in> (if n = 0 then {} else firsts L))"
      by (simp only: bounded_powers_def firsts_Un firsts_power [OF L] within_def UN_iff mem_Collect_eq
          Bex_def option.case simp_thms)
    then show ?thesis by (auto split: if_splits)
  qed
  then show ?thesis unfolding any by (intro set_eqI) simp
qed

section \<open>Walks\<close>

lemma walk_Nil [simp]: "\<not> walk E st en []"
  by (simp add: walk_def)

lemma walk_Cons:
  "walk E st en (x # ws) \<longleftrightarrow> x = st \<and> (if ws = [] then st = en else (st, hd ws) \<in> E \<and> walk E (hd ws) en ws)"
  by (cases ws) (auto simp: walk_def)

lemma walk_extend: "(st, y) \<in> E \<Longrightarrow> walk E y en ws \<Longrightarrow> walk E st en (st # ws)"
  by (cases ws) (auto simp: walk_def)

lemma walk_snoc:
  assumes "walk E st c (ws @ [c])" "(c, d) \<in> E" shows "walk E st d (ws @ [c] @ [d])"
proof -
  have "successively (\<lambda>a b. (a, b) \<in> E) ((ws @ [c]) @ [d])"
    using assms by (subst successively_append_iff) (simp add: walk_def)
  moreover have "hd (ws @ [c] @ [d]) = st" using assms(1) by (cases ws) (simp_all add: walk_def)
  ultimately show ?thesis by (simp add: walk_def)
qed

lemma rtrancl_walk:
  assumes "(st, en) \<in> E\<^sup>*" obtains ws where "walk E st en ws"
proof -
  have "\<exists>ws. walk E st en ws"
    using assms
  proof (induction rule: converse_rtrancl_induct)
    case base
    have "walk E en en [en]" by (simp add: walk_def)
    then show ?case by blast
  next
    case (step y z)
    then show ?case using walk_extend by metis
  qed
  then show ?thesis using that by blast
qed

lemma walk_rtrancl: "walk E st en ws \<Longrightarrow> (st, en) \<in> E\<^sup>*"
proof (induction ws arbitrary: st)
  case (Cons x ws)
  then show ?case by (auto simp: walk_Cons split: if_splits intro: converse_rtrancl_into_rtrancl)
qed simp

lemma walk_nodes: "walk E st en ws \<Longrightarrow> v \<in> set ws \<Longrightarrow> (st, v) \<in> E\<^sup>*"
proof (induction ws arbitrary: st)
  case (Cons x ws)
  then show ?case by (auto simp: walk_Cons split: if_splits intro: converse_rtrancl_into_rtrancl)
qed simp

text \<open>\<open>quiet E Ls\<close> are the edges out of nodes that may pass silently.\<close>

definition quiet :: "(int \<times> int) set \<Rightarrow> 'a list set list \<Rightarrow> (int \<times> int) set" where
  "quiet E Ls = {(a, b) \<in> E. [] \<in> Ls ! nat a}"

lemma Nil_graph_lang:
  "[] \<in> graph_lang None E st en Ls \<longleftrightarrow> (st, en) \<in> (quiet E Ls)\<^sup>* \<and> [] \<in> Ls ! nat en"
proof -
  have "(\<exists>ws. walk E st en ws \<and> (\<forall>i \<in> set ws. [] \<in> Ls ! nat i))
    \<longleftrightarrow> (st, en) \<in> (quiet E Ls)\<^sup>* \<and> [] \<in> Ls ! nat en" (is "?l \<longleftrightarrow> ?r")
  proof
    assume ?l
    then obtain ws where "walk E st en ws" "\<forall>i \<in> set ws. [] \<in> Ls ! nat i" by blast
    then show ?r
    proof (induction ws arbitrary: st)
      case (Cons x ws)
      show ?case
      proof (cases "ws = []")
        case False
        with Cons.prems have w: "walk E (hd ws) en ws" "(st, hd ws) \<in> E" "x = st" by (simp_all add: walk_Cons)
        with Cons have "(hd ws, en) \<in> (quiet E Ls)\<^sup>* \<and> [] \<in> Ls ! nat en" by simp
        moreover have "(st, hd ws) \<in> quiet E Ls" using w Cons.prems(2) by (simp add: quiet_def)
        ultimately show ?thesis by (auto intro: converse_rtrancl_into_rtrancl)
      qed (use Cons.prems in \<open>simp add: walk_Cons\<close>)
    qed simp
  next
    assume r: ?r
    then have "(st, en) \<in> (quiet E Ls)\<^sup>*" by simp
    then show ?l
    proof (induction rule: converse_rtrancl_induct)
      case base
      have "walk E en en [en]" by (simp add: walk_def)
      with r show ?case by force
    next
      case (step y z)
      then obtain ws where "walk E z en ws" "\<forall>i \<in> set ws. [] \<in> Ls ! nat i" by blast
      moreover have "(y, z) \<in> E" "[] \<in> Ls ! nat y" using step.hyps(1) by (simp_all add: quiet_def)
      ultimately have "walk E y en (y # ws)" "\<forall>i \<in> set (y # ws). [] \<in> Ls ! nat i"
        by (simp_all add: walk_extend)
      then show ?case by blast
    qed
  qed
  then show ?thesis by (simp add: graph_lang_def within_def Nil_conc_list)
qed

lemma walk_starts: "walk E st en ws \<Longrightarrow> \<exists>ws'. ws = st # ws'"
  by (cases ws) (auto simp: walk_Cons)

lemma firsts_graph_lang:
  assumes ne: "\<forall>v. (st, v) \<in> E\<^sup>* \<longrightarrow> Ls ! nat v \<noteq> {}"
  shows "firsts (graph_lang None E st en Ls) =
    (\<Union>v \<in> {v. (st, v) \<in> (quiet E Ls)\<^sup>* \<and> (v, en) \<in> E\<^sup>*}. firsts (Ls ! nat v))"
proof -
  have "a \<in> firsts (conc_list (map (\<lambda>i. Ls ! nat i) ws))
    \<longleftrightarrow> (\<exists>j < length ws. (\<forall>i < j. [] \<in> Ls ! nat (ws ! i)) \<and> a \<in> firsts (Ls ! nat (ws ! j)))"
    if "walk E st en ws" for a ws
  proof -
    have "\<forall>L \<in> set (map (\<lambda>i. Ls ! nat i) ws). L \<noteq> {}" using walk_nodes [OF that] ne by auto
    from firsts_conc_list [OF this] show ?thesis by auto
  qed
  then have "a \<in> firsts (graph_lang None E st en Ls) \<longleftrightarrow>
    (\<exists>ws. walk E st en ws \<and> (\<exists>j < length ws. (\<forall>i < j. [] \<in> Ls ! nat (ws ! i)) \<and> a \<in> firsts (Ls ! nat (ws ! j))))"
    for a unfolding graph_lang_def firsts_Un within_def by simp
  then have "a \<in> firsts (graph_lang None E st en Ls) \<longleftrightarrow>
    (\<exists>v. (\<exists>ws. walk E st en ws \<and> (\<exists>j < length ws. (\<forall>i < j. [] \<in> Ls ! nat (ws ! i)) \<and> ws ! j = v))
       \<and> a \<in> firsts (Ls ! nat v))" for a
    by blast
  moreover have "(\<exists>ws. walk E st en ws \<and> (\<exists>j < length ws. (\<forall>i < j. [] \<in> Ls ! nat (ws ! i)) \<and> ws ! j = v))
    \<longleftrightarrow> (st, v) \<in> (quiet E Ls)\<^sup>* \<and> (v, en) \<in> E\<^sup>*" (is "?l \<longleftrightarrow> ?r") for v
  proof
    assume ?l
    then obtain ws j where "walk E st en ws" "j < length ws" "\<forall>i < j. [] \<in> Ls ! nat (ws ! i)" "ws ! j = v"
      by blast
    then show ?r
    proof (induction j arbitrary: st ws)
      case 0
      then have "v = st" using walk_starts [OF 0(1)] by auto
      then show ?case using walk_rtrancl [OF 0(1)] by simp
    next
      case (Suc j)
      obtain ws' where ws: "ws = st # ws'" using walk_starts [OF Suc.prems(1)] by blast
      have "ws' \<noteq> []" using Suc.prems(2) ws by auto
      with Suc.prems(1) ws have w: "(st, hd ws') \<in> E" "walk E (hd ws') en ws'" by (simp_all add: walk_Cons)
      have "\<forall>i < j. [] \<in> Ls ! nat (ws' ! i)" using Suc.prems(3) ws by auto
      then have "(hd ws', v) \<in> (quiet E Ls)\<^sup>* \<and> (v, en) \<in> E\<^sup>*"
        using Suc.IH [OF w(2)] Suc.prems(2,4) ws by simp
      moreover have "(st, hd ws') \<in> quiet E Ls" using Suc.prems(3) ws w(1) by (auto simp: quiet_def)
      ultimately show ?case by (auto intro: converse_rtrancl_into_rtrancl)
    qed
  next
    assume r: ?r
    then have "(st, v) \<in> (quiet E Ls)\<^sup>*" by simp
    then show ?l
    proof (induction rule: converse_rtrancl_induct)
      case base
      obtain ws where ws: "walk E v en ws" using rtrancl_walk r by metis
      with walk_starts [OF ws] show ?case by (intro exI [of _ ws] conjI exI [of _ 0]) auto
    next
      case (step y z)
      then obtain ws j where w: "walk E z en ws" "j < length ws" "\<forall>i < j. [] \<in> Ls ! nat (ws ! i)" "ws ! j = v"
        by blast
      have yz: "(y, z) \<in> E" "[] \<in> Ls ! nat y" using step.hyps(1) by (simp_all add: quiet_def)
      have "\<forall>i < Suc j. [] \<in> Ls ! nat ((y # ws) ! i)" using w(3) yz(2) by (simp add: nth_Cons split: nat.splits)
      with w yz show ?case by (intro exI [of _ "y # ws"] conjI walk_extend exI [of _ "Suc j"]) auto
    qed
  qed
  ultimately have "a \<in> firsts (graph_lang None E st en Ls) \<longleftrightarrow>
    (\<exists>v. ((st, v) \<in> (quiet E Ls)\<^sup>* \<and> (v, en) \<in> E\<^sup>*) \<and> a \<in> firsts (Ls ! nat v))" for a
    by (simp only:)
  then show ?thesis by (intro set_eqI) (simp only: UN_iff mem_Collect_eq Bex_def)
qed

lemma graph_lang_nonempty:
  assumes "(st, en) \<in> E\<^sup>*" "\<forall>v. (st, v) \<in> E\<^sup>* \<longrightarrow> Ls ! nat v \<noteq> {}"
  shows "graph_lang None E st en Ls \<noteq> {}"
proof -
  obtain ws where ws: "walk E st en ws" using rtrancl_walk [OF assms(1)] by blast
  then have "conc_list (map (\<lambda>i. Ls ! nat i) ws) \<noteq> {}"
    using walk_nodes [OF ws] assms(2) by (auto simp: conc_list_nonempty)
  with ws show ?thesis by (auto simp: graph_lang_def within_def)
qed

lemma graph_reachable_range:
  assumes "choice_edges_ok es n st en" "in_range st n" "(st, v) \<in> (erel es)\<^sup>*" shows "in_range v n"
  using assms(3)
proof (cases rule: rtranclE)
  case base with assms(2) show ?thesis by simp
next
  case (step y) with assms(1) show ?thesis by (auto simp: choice_edges_ok_def erel_def)
qed

end
