(* ===== verification/Powl_Semantics.thy ===== *)
theory Powl_Semantics
  imports Powl_Denotation
begin

text \<open>
  \<^verbatim>\<open>powl/semantics.py\<close>: the bounded language of a node, and its enabled first labels.  A
  \<^verbatim>\<open>frozenset\<close> of traces is the list of its elements without repetition.  A generator
  is the list of what it yields, an element \<open>Inl\<close> standing for the exception that its
  consumer meets at that point.
\<close>

section \<open>Bounds\<close>

definition trace_guard :: "nat \<Rightarrow> int \<Rightarrow> unit res" where
  "trace_guard sz max_traces = (if int sz > max_traces then refuse BOUND_EXHAUSTED else Inr ())"

definition check_bounds :: "int \<Rightarrow> int \<Rightarrow> unit res" where
  "check_bounds max_traces max_unrolls =
     (if max_traces < 1 then refuse BOUND_EXHAUSTED
      else if max_unrolls < 1 then refuse BOUND_EXHAUSTED else Inr ())"

section \<open>Interleaving, sequence, repetition\<close>

fun interleavings :: "trace \<Rightarrow> trace \<Rightarrow> trace list" where
  "interleavings [] [] = [[]]"
| "interleavings (a # u) [] = map ((#) a) (interleavings u [])"
| "interleavings [] (b # v) = map ((#) b) (interleavings [] v)"
| "interleavings (a # u) (b # v) =
     map ((#) a) (interleavings u (b # v)) @ map ((#) b) (interleavings (a # u) v)"

definition add_trace :: "int \<Rightarrow> trace list \<Rightarrow> trace \<Rightarrow> trace list res" where
  "add_trace max_traces out t =
     (let out' = (if t \<in> set out then out else out @ [t])
      in bindE (trace_guard (length out') max_traces) (\<lambda>_. Inr out'))"

definition seq_traces :: "trace list \<Rightarrow> trace list \<Rightarrow> int \<Rightarrow> trace list res" where
  "seq_traces left right max_traces =
     foldE (\<lambda>out u. foldE (\<lambda>out v. add_trace max_traces out (u @ v)) out right) [] left"

definition union_traces :: "trace list \<Rightarrow> trace list \<Rightarrow> trace list" where
  "union_traces out new = out @ filter (\<lambda>t. t \<notin> set out) new"

definition unroll_limit :: "frequency \<Rightarrow> int \<Rightarrow> int res" where
  "unroll_limit f max_unrolls =
     bindE (case fmax f of
         None \<Rightarrow> Inr max_unrolls
       | Some h \<Rightarrow> if h > max_unrolls then refuse BOUND_EXHAUSTED else Inr h) (\<lambda>hi.
       if fmin f > hi then refuse BOUND_EXHAUSTED else Inr hi)"

definition power_step :: "trace list \<Rightarrow> frequency \<Rightarrow> int \<Rightarrow> trace list \<times> trace list \<Rightarrow> nat
    \<Rightarrow> (trace list \<times> trace list) res" where
  "power_step body f max_traces = (\<lambda>(current, out) n.
     bindE (if n > 0 then seq_traces current body max_traces else Inr current) (\<lambda>current'.
       if allows f (int n)
       then let out' = union_traces out current'
            in bindE (trace_guard (length out') max_traces) (\<lambda>_. Inr (current', out'))
       else Inr (current', out)))"

definition bounded_power :: "trace list \<Rightarrow> frequency \<Rightarrow> int \<Rightarrow> int \<Rightarrow> trace list res" where
  "bounded_power body f max_traces max_unrolls =
     bindE (unroll_limit f max_unrolls) (\<lambda>hi.
     bindE (foldE (power_step body f max_traces) ([[]], []) [0..<nat (hi + 1)]) (\<lambda>(current, out).
       Inr out))"

section \<open>Partial orders\<close>

text \<open>
  \<open>merges\<close> keeps what is left of every child's trace; the source keeps positions into them.
\<close>

definition preds_of :: "edge list \<Rightarrow> nat \<Rightarrow> int list" where
  "preds_of cl i = remdups (map src (filter (\<lambda>e. dst e = int i) cl))"

function merges :: "int list list \<Rightarrow> trace list \<Rightarrow> trace res list" where
  "merges preds rest =
     (if \<forall>t \<in> set rest. t = [] then [Inr []]
      else concat (map (\<lambda>i.
        if rest ! i = [] then []
        else case anyE (\<lambda>p. bindE (child_at rest p) (\<lambda>t. Inr (t \<noteq> []))) (preds ! i) of
            Inl x \<Rightarrow> [Inl x]
          | Inr True \<Rightarrow> []
          | Inr False \<Rightarrow> map (map_sum id ((#) (hd (rest ! i)))) (merges preds (rest[i := tl (rest ! i)])))
        [0..<length rest]))"
  by pat_completeness auto
termination
proof (relation "measure (\<lambda>(preds, rest). sum_list (map length rest))")
  fix preds :: "int list list" and rest :: "trace list" and i
  assume "i \<in> set [0..<length rest]" "rest ! i \<noteq> []"
  then have "length rest > i" "length (tl (rest ! i)) < length (rest ! i)" by auto
  then have "sum_list (map length (rest[i := tl (rest ! i)])) < sum_list (map length rest)"
    by (simp add: map_update sum_list_update) (use member_le_sum_list [of "length (rest ! i)" "map length rest"] in auto)
  then show "((preds, rest[i := tl (rest ! i)]), preds, rest) \<in> measure (\<lambda>(preds, rest). sum_list (map length rest))"
    by simp
qed simp

declare merges.simps [simp del]

definition partial_order_body :: "trace list list \<Rightarrow> edge list \<Rightarrow> int \<Rightarrow> trace list res" where
  "partial_order_body langs cl max_traces =
     (let preds = map (preds_of cl) [0..<length langs] in
      foldE (\<lambda>out combo. foldE (\<lambda>out m. bindE m (add_trace max_traces out)) out (merges preds combo))
        [] (product_lists (map sort langs)))"

section \<open>Choice graphs\<close>

definition succs :: "edge list \<Rightarrow> int \<Rightarrow> int list" where
  "succs es cur = map dst (filter (\<lambda>e. src e = cur) es)"

function walks :: "edge list \<Rightarrow> int \<Rightarrow> int \<Rightarrow> (int \<Rightarrow> int) \<Rightarrow> int \<Rightarrow> int list list" where
  "walks es en max_unrolls counts cur =
     (if counts cur \<ge> max_unrolls then []
      else if cur = en then [[cur]]
      else concat (map (\<lambda>nxt. map ((#) cur)
             (walks es en max_unrolls (counts(cur := counts cur + 1)) nxt)) (sort (succs es cur))))"
  by pat_completeness auto
termination
proof (relation "measure (\<lambda>(es, en, k, counts, cur).
    (\<Sum>v \<in> dst ` set es. nat (k - counts v)) + (if cur \<in> dst ` set es then 0 else 1))")
  fix es :: "edge list" and en k cur nxt :: int and counts
  assume *: "\<not> k \<le> counts cur" "nxt \<in> set (sort (succs es cur))"
  let ?V = "dst ` set es" and ?c = "counts(cur := counts cur + 1)"
  have nxt: "nxt \<in> ?V" using *(2) by (auto simp: succs_def)
  have le: "(\<Sum>v \<in> ?V. nat (k - ?c v)) \<le> (\<Sum>v \<in> ?V. nat (k - counts v))"
    by (intro sum_mono) auto
  have "(\<Sum>v \<in> ?V. nat (k - ?c v)) < (\<Sum>v \<in> ?V. nat (k - counts v))" if "cur \<in> ?V"
    using that *(1) by (intro sum_strict_mono_ex1) (auto intro!: bexI [of _ cur])
  with le nxt show "((es, en, k, ?c, nxt), es, en, k, counts, cur) \<in> measure (\<lambda>(es, en, k, counts, cur).
      (\<Sum>v \<in> dst ` set es. nat (k - counts v)) + (if cur \<in> dst ` set es then 0 else 1))"
    by (cases "cur \<in> ?V") (simp_all del: fun_upd_apply)
qed simp

declare walks.simps [simp del]

definition choice_graph_body :: "trace list list \<Rightarrow> edge list \<Rightarrow> int \<Rightarrow> int \<Rightarrow> int \<Rightarrow> int \<Rightarrow> trace list res" where
  "choice_graph_body langs es st en max_traces max_unrolls =
     foldE (\<lambda>out w.
       bindE (foldE (\<lambda>acc idx. bindE (child_at langs idx) (\<lambda>l. seq_traces acc l max_traces)) [[]] w) (\<lambda>acc.
       let out' = union_traces out acc
       in bindE (trace_guard (length out') max_traces) (\<lambda>_. Inr out')))
     [] (walks es en max_unrolls (\<lambda>_. 0) st)"

section \<open>The language\<close>

definition repeated :: "trace list res \<Rightarrow> frequency \<Rightarrow> int \<Rightarrow> int \<Rightarrow> trace list res" where
  "repeated body f max_traces max_unrolls =
     bindE body (\<lambda>b.
     bindE (bounded_power b f max_traces max_unrolls) (\<lambda>out.
     bindE (trace_guard (length out) max_traces) (\<lambda>_. Inr out)))"

fun language :: "pnode \<Rightarrow> int \<Rightarrow> int \<Rightarrow> trace list res" where
  "language v max_traces max_unrolls = bindE (check_bounds max_traces max_unrolls) (\<lambda>_.
     case v of
       Atom l a b c \<Rightarrow> Inr [[l]]
     | PartialOrder cs es f cl d \<Rightarrow>
         repeated (bindE (mapE (\<lambda>c. language c max_traces max_unrolls) cs) (\<lambda>langs.
           partial_order_body langs cl max_traces)) f max_traces max_unrolls
     | ChoiceGraph cs es st en f d \<Rightarrow>
         repeated (bindE (mapE (\<lambda>c. language c max_traces max_unrolls) cs) (\<lambda>langs.
           choice_graph_body langs es st en max_traces max_unrolls)) f max_traces max_unrolls
     | Foreign nm \<Rightarrow> refuse PROHIBITED_NODE_KIND
     | _ \<Rightarrow> Inr [[]])"

declare language.simps [simp del]

section \<open>What the loops compute\<close>

text \<open>
  \<open>computes S r\<close>: the result is a duplicate-free list of the set \<open>S\<close>, or the refusal that a
  bound was hit.
\<close>

definition computes :: "'a set \<Rightarrow> 'a list res \<Rightarrow> bool" where
  "computes S r \<longleftrightarrow> (case r of Inl x \<Rightarrow> x = PowlError BOUND_EXHAUSTED | Inr L \<Rightarrow> distinct L \<and> set L = S)"

lemma computes_Inr: "computes S (Inr L) \<longleftrightarrow> distinct L \<and> set L = S"
  and computes_Inl: "computes S (Inl x) \<longleftrightarrow> x = PowlError BOUND_EXHAUSTED"
  by (simp_all add: computes_def)

lemma trace_guard_cases [case_names over ok]:
  assumes "trace_guard n m = refuse BOUND_EXHAUSTED \<Longrightarrow> P" "trace_guard n m = Inr () \<Longrightarrow> int n \<le> m \<Longrightarrow> P"
  shows P
  using assms by (cases "int n > m") (simp_all add: trace_guard_def)

lemma computes_guarded: "computes S (Inr L) \<Longrightarrow> computes S (bindE (trace_guard n m) (\<lambda>_. Inr L))"
  by (cases rule: trace_guard_cases [of n m]) (simp_all add: computes_Inl)

lemma computes_bind:
  assumes "computes S r" "\<And>L. distinct L \<Longrightarrow> set L = S \<Longrightarrow> computes T (f L)"
  shows "computes T (bindE r f)"
  using assms by (cases r) (simp_all add: computes_def)

text \<open>A fold whose steps keep to an invariant computes what the invariant says at the end.\<close>

lemma computes_foldE:
  assumes "computes (S 0) (Inr s)"
    and "\<And>i L. i < length xs \<Longrightarrow> distinct L \<Longrightarrow> set L = S i \<Longrightarrow> computes (S (Suc i)) (f L (xs ! i))"
  shows "computes (S (length xs)) (foldE f s xs)"
  using assms
proof (induction xs arbitrary: s S)
  case (Cons x xs)
  have "computes (S (Suc 0)) (f s x)" using Cons.prems(2) [of 0 s] Cons.prems(1) by (simp add: computes_Inr)
  then have "computes (S (Suc (length xs))) (bindE (f s x) (\<lambda>s'. foldE f s' xs))"
  proof (rule computes_bind)
    fix L assume "distinct L" "set L = S (Suc 0)"
    then show "computes (S (Suc (length xs))) (foldE f L xs)"
      using Cons.IH [of "\<lambda>i. S (Suc i)" L] Cons.prems(2) by (fastforce simp: computes_Inr)
  qed
  then show ?case by simp
qed simp

lemma computes_Un_fold:
  assumes "distinct s" "\<And>L x. x \<in> set xs \<Longrightarrow> distinct L \<Longrightarrow> computes (set L \<union> T x) (f L x)"
  shows "computes (set s \<union> (\<Union>x \<in> set xs. T x)) (foldE f s xs)"
proof -
  let ?S = "\<lambda>i. set s \<union> (\<Union>x \<in> set (take i xs). T x)"
  have "computes (?S (length xs)) (foldE f s xs)"
  proof (rule computes_foldE)
    fix i and L :: "'a list" assume i: "i < length xs" and L: "distinct L" "set L = ?S i"
    have "?S (Suc i) = set L \<union> T (xs ! i)" using i L(2) by (auto simp: take_Suc_conv_app_nth)
    moreover have "computes (set L \<union> T (xs ! i)) (f L (xs ! i))" using assms(2) i L(1) by simp
    ultimately show "computes (?S (Suc i)) (f L (xs ! i))" by simp
  qed (use assms(1) in \<open>simp add: computes_Inr\<close>)
  then show ?thesis by simp
qed

lemma computes_add_trace: "distinct out \<Longrightarrow> computes (insert t (set out)) (add_trace m out t)"
  unfolding add_trace_def Let_def by (rule computes_guarded) (auto simp: computes_Inr)

lemma computes_seq:
  assumes "distinct left" shows "computes (conc (set left) (set right)) (seq_traces left right m)"
proof -
  have "computes (set [] \<union> (\<Union>u \<in> set left. \<Union>v \<in> set right. {u @ v})) (seq_traces left right m)"
    unfolding seq_traces_def
  proof (intro computes_Un_fold)
    fix L :: "trace list" and v u assume "distinct L"
    then show "computes (set L \<union> {u @ v}) (add_trace m L (u @ v))" using computes_add_trace by simp
  qed simp_all
  moreover have "set [] \<union> (\<Union>u \<in> set left. \<Union>v \<in> set right. {u @ v}) = conc (set left) (set right)"
    by (auto simp: conc_def)
  ultimately show ?thesis by simp
qed

lemma set_union_traces [simp]: "set (union_traces out new) = set out \<union> set new"
  and distinct_union_traces: "distinct out \<Longrightarrow> distinct new \<Longrightarrow> distinct (union_traces out new)"
  by (auto simp: union_traces_def)

lemma foldE_range_Suc: "foldE f s [0..<Suc n] = bindE (foldE f s [0..<n]) (\<lambda>t. f t n)"
  by (simp add: foldE_append)

lemma power_fold:
  assumes "distinct body"
  shows "case foldE (power_step body f m) ([[]], []) [0..<Suc n] of
      Inl x \<Rightarrow> x = PowlError BOUND_EXHAUSTED
    | Inr (current, out) \<Rightarrow> distinct current \<and> distinct out
        \<and> set current = conc_list (replicate n (set body))
        \<and> set out = (\<Union>i \<in> {i. i \<le> n \<and> allows f (int i)}. conc_list (replicate i (set body)))"
proof (induction n)
  case 0
  have "{i. i \<le> 0 \<and> allows f (int i)} = (if allows f 0 then {0} else {})" by auto
  then show ?case
    by (cases rule: trace_guard_cases [of 1 m]; cases "allows f 0")
      (simp_all add: power_step_def union_traces_def Let_def)
next
  case (Suc n)
  show ?case
  proof (cases "foldE (power_step body f m) ([[]], []) [0..<Suc n]")
    case (Inl x)
    then show ?thesis using Suc.IH by (simp only: foldE_range_Suc [of _ _ "Suc n"] bindE_simps sum.case)
  next
    case (Inr p)
    obtain current out where p: "p = (current, out)" by (cases p)
    with Inr Suc.IH have c: "distinct current" "set current = conc_list (replicate n (set body))"
      and o: "distinct out" "set out = (\<Union>i \<in> {i. i \<le> n \<and> allows f (int i)}. conc_list (replicate i (set body)))"
      by simp_all
    have eq: "foldE (power_step body f m) ([[]], []) [0..<Suc (Suc n)] = power_step body f m (current, out) (Suc n)"
      using Inr p by (simp only: foldE_range_Suc [of _ _ "Suc n"] bindE_simps)
    have pow: "conc (set current) (set body) = conc_list (replicate (Suc n) (set body))"
      using c(2) conc_list_append [of "replicate n (set body)" "[set body]"]
      by (simp add: replicate_append_same)
    have Suc_set: "{i. i \<le> Suc n \<and> allows f (int i)}
      = (if allows f (int (Suc n)) then insert (Suc n) else id) {i. i \<le> n \<and> allows f (int i)}"
      by (auto simp: le_Suc_eq)
    show ?thesis
    proof (cases "seq_traces current body m")
      case (Inr cur)
      with computes_seq [OF c(1), of body m] have cur: "distinct cur" "set cur = conc_list (replicate (Suc n) (set body))"
        by (simp_all add: computes_Inr pow del: replicate_Suc)
      show ?thesis
        unfolding eq unfolding power_step_def using Inr cur o
        by (cases rule: trace_guard_cases [of "length (union_traces out cur)" m])
          (auto simp: Suc_set distinct_union_traces Let_def simp del: replicate_Suc)
    next
      case (Inl x)
      with computes_seq [OF c(1), of body m] have "x = PowlError BOUND_EXHAUSTED" by (simp add: computes_Inl)
      then show ?thesis unfolding eq unfolding power_step_def by (simp add: Inl)
    qed
  qed
qed

lemma computes_bounded_power:
  assumes "distinct body" "wf_frequency f" "0 \<le> k"
  shows "computes (bounded_powers (Some (nat k)) f (set body)) (bounded_power body f m k)"
proof (cases "unroll_limit f k")
  case (Inl x)
  then show ?thesis
    by (auto simp: bounded_power_def computes_Inl unroll_limit_def split: option.splits if_splits)
next
  case (Inr hi)
  then have hi: "0 \<le> hi" "case fmax f of None \<Rightarrow> hi = k | Some h \<Rightarrow> hi = h"
    using assms(2,3) by (auto simp: unroll_limit_def wf_frequency_def split: option.splits if_splits)
  have eq: "{i. i \<le> nat hi \<and> allows f (int i)} = {n. allows f (int n) \<and> (fmax f = None \<longrightarrow> within (Some (nat k)) n)}"
    using hi by (auto simp: within_def allows_iff le_nat_iff split: option.splits)
  have "nat (hi + 1) = Suc (nat hi)" using hi(1) by simp
  then show ?thesis
    using power_fold [OF assms(1), where f = f and m = m and n = "nat hi"] Inr
    by (auto simp: bounded_power_def computes_def bounded_powers_def eq split: sum.splits prod.splits)
qed

section \<open>Merges\<close>

abbreviation singles :: "'a list list \<Rightarrow> 'a list set list" where
  "singles rest \<equiv> map (\<lambda>t. {t}) rest"

lemma no_strands: "\<forall>z \<in> set zs. fst z < n \<Longrightarrow> \<forall>i < n. strand i zs = [] \<Longrightarrow> zs = []"
  by (cases zs) (auto simp: strand_Cons)

lemma strand_empty_iff: "strand i zs = [] \<longleftrightarrow> (\<forall>z \<in> set zs. fst z \<noteq> i)"
  by (auto simp: strand_def filter_empty_conv)

lemma merge_singles_Nil: "[] \<in> merge_lang prec (singles rest) \<longleftrightarrow> (\<forall>t \<in> set rest. t = [])"
  by (auto simp: Nil_merge_lang)

lemma merge_singles_Cons:
  assumes irr: "\<And>i. \<not> prec i i"
  shows "a # w \<in> merge_lang prec (singles rest) \<longleftrightarrow>
    (\<exists>i < length rest. \<exists>r. rest ! i = a # r \<and> (\<forall>p < length rest. prec p i \<longrightarrow> rest ! p = [])
       \<and> w \<in> merge_lang prec (singles (rest[i := r])))" (is "?l \<longleftrightarrow> ?r")
proof
  assume ?l
  then obtain zs where zs: "map snd zs = a # w" "keeps_order prec zs" "\<forall>z \<in> set zs. fst z < length rest"
    "\<forall>i < length rest. strand i zs = rest ! i"
    by (rule merge_langE) simp
  from first_of_merge [OF zs(1,2)] irr obtain i zs' where z: "zs = (i, a) # zs'"
    "strand i zs = a # strand i zs'" "\<And>p. prec p i \<Longrightarrow> strand p zs = []"
    by metis
  have i: "i < length rest" using zs(3) z(1) by simp
  moreover have "rest ! i = a # strand i zs'" using zs(4) z(2) i by simp
  moreover have "\<forall>p < length rest. prec p i \<longrightarrow> rest ! p = []" by (metis z(3) zs(4))
  moreover have "w \<in> merge_lang prec (singles (rest[i := strand i zs']))"
  proof -
    have "w = map snd zs'" "\<forall>z \<in> set zs'. fst z < length rest" "keeps_order prec zs'"
      using zs z(1) by (simp_all add: keeps_order_def)
    moreover have "strand j zs' = rest[i := strand i zs'] ! j" if "j < length rest" for j
      using zs(4) [rule_format, OF that] that i unfolding z(1) by (cases "j = i") (simp_all add: strand_Cons)
    ultimately show ?thesis by (auto simp: merge_lang_def)
  qed
  ultimately show ?r by blast
next
  assume ?r
  then obtain i r where i: "i < length rest" "rest ! i = a # r" "\<forall>p < length rest. prec p i \<longrightarrow> rest ! p = []"
    and "w \<in> merge_lang prec (singles (rest[i := r]))" by blast
  from this(4) obtain zs where zs: "map snd zs = w" "keeps_order prec zs" "\<forall>z \<in> set zs. fst z < length rest"
    "\<forall>j < length rest. strand j zs = rest[i := r] ! j"
    by (rule merge_langE) simp
  have "\<not> prec (fst z) i" if "z \<in> set zs" for z
  proof
    assume p: "prec (fst z) i"
    then have "fst z \<noteq> i" using irr by metis
    moreover have "fst z < length rest" using zs(3) that by blast
    moreover have "rest ! fst z = []" using i(3) p calculation(2) by blast
    ultimately have "strand (fst z) zs = []" using zs(4) by simp
    with that show False by (auto simp: strand_empty_iff)
  qed
  then have "keeps_order prec ((i, a) # zs)" using zs(2) by (simp add: keeps_order_def)
  moreover have "\<forall>j < length rest. strand j ((i, a) # zs) = rest ! j"
    using zs(4) i(1,2) by (simp add: strand_Cons)
  ultimately show ?l using zs(1,3) i(1) unfolding merge_lang_def
    by (intro CollectI exI [of _ "(i, a) # zs"]) simp
qed

lemma set_merges:
  assumes irr: "\<And>i. \<not> prec i i"
    and preds: "length preds = length rest" "\<And>i. i < length rest \<Longrightarrow> set (preds ! i) = {int p |p. p < length rest \<and> prec p i}"
  shows "set (merges preds rest) = Inr ` merge_lang prec (singles rest)"
  using preds
proof (induction preds rest rule: merges.induct)
  case (1 preds rest)
  show ?case
  proof (cases "\<forall>t \<in> set rest. t = []")
    case True
    have "w = []" if "w \<in> merge_lang prec (singles rest)" for w
    proof (cases w)
      case (Cons a w')
      with that show ?thesis using True by (auto simp: merge_singles_Cons [OF irr] dest!: nth_mem)
    qed simp
    with True have "merge_lang prec (singles rest) = {[]}" using merge_singles_Nil [of prec rest] by blast
    then show ?thesis using True by (simp add: merges.simps)
  next
    case False
    let ?free = "\<lambda>i. \<forall>p < length rest. prec p i \<longrightarrow> rest ! p = []"
    have any: "anyE (\<lambda>p. bindE (child_at rest p) (\<lambda>t. Inr (t \<noteq> []))) (preds ! i) = Inr (\<not> ?free i)"
      if i: "i < length rest" for i
    proof -
      have "anyE (\<lambda>p. bindE (child_at rest p) (\<lambda>t. Inr (t \<noteq> []))) (preds ! i)
          = Inr (\<exists>p \<in> set (preds ! i). rest ! nat p \<noteq> [])"
        by (rule anyE_total) (use 1(3) [OF i] in auto)
      then show ?thesis by (auto simp: 1(3) [OF i])
    qed
    have elem: "set (if rest ! i = [] then []
        else case anyE (\<lambda>p. bindE (child_at rest p) (\<lambda>t. Inr (t \<noteq> []))) (preds ! i) of
            Inl x \<Rightarrow> [Inl x]
          | Inr True \<Rightarrow> []
          | Inr False \<Rightarrow> map (map_sum id ((#) (hd (rest ! i)))) (merges preds (rest[i := tl (rest ! i)])))
      = Inr ` {hd (rest ! i) # w |w. rest ! i \<noteq> [] \<and> ?free i
           \<and> w \<in> merge_lang prec (singles (rest[i := tl (rest ! i)]))}" if i: "i < length rest" for i
    proof (cases "rest ! i \<noteq> [] \<and> ?free i")
      case True
      then have "set (merges preds (rest[i := tl (rest ! i)])) = Inr ` merge_lang prec (singles (rest[i := tl (rest ! i)]))"
        using i 1(2,3) False any [OF i] by (intro 1(1) [OF False _ _ any [OF i]]) auto
      then show ?thesis using True by (auto simp: any [OF i] image_image)
    next
      case no: False
      then show ?thesis by (auto simp: any [OF i] split: if_split)
    qed
    have "merge_lang prec (singles rest) = (\<Union>i \<in> {..<length rest}.
        {hd (rest ! i) # w |w. rest ! i \<noteq> [] \<and> ?free i
           \<and> w \<in> merge_lang prec (singles (rest[i := tl (rest ! i)]))})" (is "?l = ?r")
    proof (rule set_eqI)
      fix w
      show "w \<in> ?l \<longleftrightarrow> w \<in> ?r"
      proof (cases w)
        case Nil
        then show ?thesis using False merge_singles_Nil [of prec rest] by auto
      next
        case (Cons a w')
        show ?thesis unfolding Cons merge_singles_Cons [OF irr] by (auto simp: neq_Nil_conv) force
      qed
    qed
    then have all: "Inr ` merge_lang prec (singles rest) = (\<Union>i \<in> {..<length rest}. Inr `
        {hd (rest ! i) # w |w. rest ! i \<noteq> [] \<and> ?free i
           \<and> w \<in> merge_lang prec (singles (rest[i := tl (rest ! i)]))})"
      by (simp only: image_UN)
    have "set (merges preds rest) = (\<Union>i \<in> {..<length rest}. set (if rest ! i = [] then []
        else case anyE (\<lambda>p. bindE (child_at rest p) (\<lambda>t. Inr (t \<noteq> []))) (preds ! i) of
            Inl x \<Rightarrow> [Inl x]
          | Inr True \<Rightarrow> []
          | Inr False \<Rightarrow> map (map_sum id ((#) (hd (rest ! i)))) (merges preds (rest[i := tl (rest ! i)]))))"
      using False by (subst merges.simps) (simp only: if_False set_concat set_map set_upt image_image
          atLeast_upt [symmetric] simp_thms atLeast0LessThan)
    moreover have "\<dots> = (\<Union>i \<in> {..<length rest}. Inr `
        {hd (rest ! i) # w |w. rest ! i \<noteq> [] \<and> ?free i
           \<and> w \<in> merge_lang prec (singles (rest[i := tl (rest ! i)]))})"
      by (rule SUP_cong [OF refl]) (rule elem, simp)
    ultimately show ?thesis by (simp only: all)
  qed
qed

lemma merge_lang_combos:
  "merge_lang prec Ls = (\<Union>ts \<in> {ts. list_all2 (\<in>) ts Ls}. merge_lang prec (singles ts))"
proof (intro equalityI subsetI)
  fix w assume "w \<in> merge_lang prec Ls"
  then obtain zs where zs: "map snd zs = w" "keeps_order prec zs" "\<forall>z \<in> set zs. fst z < length Ls"
    "\<forall>i < length Ls. strand i zs \<in> Ls ! i" by (rule merge_langE)
  let ?ts = "map (\<lambda>i. strand i zs) [0..<length Ls]"
  have "list_all2 (\<in>) ?ts Ls" using zs(4) by (simp add: list_all2_conv_all_nth)
  moreover have "w \<in> merge_lang prec (singles ?ts)" using zs by (auto simp: merge_lang_def)
  ultimately show "w \<in> (\<Union>ts \<in> {ts. list_all2 (\<in>) ts Ls}. merge_lang prec (singles ts))" by blast
next
  fix w assume "w \<in> (\<Union>ts \<in> {ts. list_all2 (\<in>) ts Ls}. merge_lang prec (singles ts))"
  then obtain ts where ts: "list_all2 (\<in>) ts Ls" "w \<in> merge_lang prec (singles ts)" by blast
  from ts(2) obtain zs where zs: "map snd zs = w" "keeps_order prec zs" "\<forall>z \<in> set zs. fst z < length ts"
    "\<forall>i < length ts. strand i zs = ts ! i" by (rule merge_langE) simp
  then show "w \<in> merge_lang prec Ls"
    using ts(1) unfolding merge_lang_def list_all2_conv_all_nth by (intro CollectI exI [of _ zs]) simp
qed

lemma set_preds_of:
  assumes "order_edges_ok cl n" shows "set (preds_of cl i) = {int p |p. p < n \<and> before cl p i}"
proof (intro equalityI subsetI)
  fix x assume "x \<in> set (preds_of cl i)"
  then have x: "(x, int i) \<in> erel cl" by (auto simp: preds_of_def erel_def image_iff)
  with erel_range [OF assms x] show "x \<in> {int p |p. p < n \<and> before cl p i}"
    by (auto simp: before_def elim!: in_rangeE)
next
  fix x assume "x \<in> {int p |p. p < n \<and> before cl p i}"
  then obtain e where "e \<in> set cl" "src e = x" "dst e = int i" by (auto simp: before_def erel_def)
  then show "x \<in> set (preds_of cl i)" by (auto simp: preds_of_def)
qed

lemma in_product_lists: "ts \<in> set (product_lists Ls) \<longleftrightarrow> list_all2 (\<lambda>t L. t \<in> set L) ts Ls"
  by (simp add: product_lists_set)

lemma computes_partial_order_body:
  assumes "order_edges_ok cl (length langs)" "irrefl (erel cl)"
  shows "computes (merge_lang (before cl) (map set langs)) (partial_order_body langs cl m)"
proof -
  let ?preds = "map (preds_of cl) [0..<length langs]"
  have merges: "set (merges ?preds ts) = Inr ` merge_lang (before cl) (singles ts)"
    if "ts \<in> set (product_lists (map sort langs))" for ts
  proof -
    have len: "length ts = length langs" using that by (auto simp: in_product_lists dest: list_all2_lengthD)
    show ?thesis
      by (rule set_merges) (use assms len in \<open>simp_all add: before_irrefl set_preds_of\<close>)
  qed
  have "computes (set [] \<union> (\<Union>ts \<in> set (product_lists (map sort langs)). \<Union>x \<in> set (merges ?preds ts). {projr x}))
      (partial_order_body langs cl m)"
    unfolding partial_order_body_def Let_def
  proof (intro computes_Un_fold)
    fix L :: "trace list" and x ts assume L: "distinct L" and "ts \<in> set (product_lists (map sort langs))"
      and "x \<in> set (merges ?preds ts)"
    then obtain t where "x = Inr t" using merges by auto
    then show "computes (set L \<union> {projr x}) (bindE x (add_trace m L))"
      using computes_add_trace [OF L] by simp
  qed simp_all
  moreover have "(\<Union>ts \<in> set (product_lists (map sort langs)). \<Union>x \<in> set (merges ?preds ts). {projr x})
      = (\<Union>ts \<in> set (product_lists (map sort langs)). merge_lang (before cl) (singles ts))"
    by (rule SUP_cong) (auto simp: merges)
  moreover have "ts \<in> set (product_lists (map sort langs)) \<longleftrightarrow> list_all2 (\<in>) ts (map set langs)" for ts
    by (auto simp: in_product_lists list_all2_conv_all_nth)
  then have "set (product_lists (map sort langs)) = {ts. list_all2 (\<in>) ts (map set langs)}" by blast
  then have "(\<Union>ts \<in> set (product_lists (map sort langs)). merge_lang (before cl) (singles ts))
      = merge_lang (before cl) (map set langs)"
    by (simp only: merge_lang_combos [of "before cl" "map set langs"])
  ultimately show ?thesis by simp
qed

section \<open>Walks\<close>

lemma set_walks:
  assumes "\<And>v. counts v \<le> k"
  shows "set (walks es en k counts cur) =
    {ws. walk (erel es) cur en ws \<and> en \<notin> set (butlast ws) \<and> (\<forall>v. counts v + int (count_list ws v) \<le> k)}"
  using assms
proof (induction es en k counts cur rule: walks.induct)
  case (1 es en k counts cur)
  let ?ok = "\<lambda>c cur ws. walk (erel es) cur en ws \<and> en \<notin> set (butlast ws) \<and> (\<forall>v. c v + int (count_list ws v) \<le> k)"
  let ?c = "counts(cur := counts cur + 1)"
  consider (full) "k \<le> counts cur" | (stop) "\<not> k \<le> counts cur" "cur = en" | (step) "\<not> k \<le> counts cur" "cur \<noteq> en"
    by blast
  then show ?case
  proof cases
    case full
    have "\<not> ?ok counts cur ws" for ws
    proof
      assume ok: "?ok counts cur ws"
      then obtain ws' where "ws = cur # ws'" using walk_starts by blast
      with ok have "counts cur + int (count_list (cur # ws') cur) \<le> k" by blast
      with full show False by simp
    qed
    then show ?thesis using full by (simp add: walks.simps)
  next
    case stop
    have "?ok counts cur ws \<longleftrightarrow> ws = [cur]" for ws
    proof
      assume ok: "?ok counts cur ws"
      then obtain ws' where "ws = cur # ws'" using walk_starts by blast
      with ok stop(2) show "ws = [cur]" by (cases ws') auto
    next
      assume "ws = [cur]"
      then show "?ok counts cur ws" using stop 1(2) by (simp add: walk_def)
    qed
    then show ?thesis using stop by (simp add: walks.simps)
  next
    case step
    have c: "?c v \<le> k" for v using 1(2) step(1) by simp
    have IH: "set (walks es en k ?c nxt) = {ws. ?ok ?c nxt ws}" if "nxt \<in> set (succs es cur)" for nxt
      using that c step by (intro 1(1)) simp_all
    have shift: "?c v + int (count_list ws v) = counts v + int (count_list (cur # ws) v)" for v ws by simp
    have nxt: "nxt \<in> set (succs es cur) \<longleftrightarrow> (cur, nxt) \<in> erel es" for nxt
      by (auto simp: succs_def erel_def)
    have "?ok counts cur ws \<longleftrightarrow> (\<exists>nxt. (cur, nxt) \<in> erel es \<and> (\<exists>ws'. ws = cur # ws' \<and> ?ok ?c nxt ws'))" for ws
    proof
      assume ok: "?ok counts cur ws"
      then obtain ws' where ws: "ws = cur # ws'" using walk_starts by blast
      with ok step(2) have "ws' \<noteq> []" "(cur, hd ws') \<in> erel es" "walk (erel es) (hd ws') en ws'"
        by (auto simp: walk_Cons split: if_splits)
      moreover have "en \<notin> set (butlast ws')" using ok ws calculation(1) by simp
      ultimately show "\<exists>nxt. (cur, nxt) \<in> erel es \<and> (\<exists>ws'. ws = cur # ws' \<and> ?ok ?c nxt ws')"
        using ok ws unfolding shift by blast
    next
      assume "\<exists>nxt. (cur, nxt) \<in> erel es \<and> (\<exists>ws'. ws = cur # ws' \<and> ?ok ?c nxt ws')"
      then obtain nxt ws' where *: "(cur, nxt) \<in> erel es" "ws = cur # ws'" "?ok ?c nxt ws'" by blast
      then have "walk (erel es) cur en ws" by (simp add: walk_extend)
      moreover have "en \<notin> set (butlast ws)" using * step(2) by auto
      ultimately show "?ok counts cur ws" using * shift by metis
    qed
    moreover have "set (walks es en k counts cur) = (\<Union>nxt \<in> {nxt. (cur, nxt) \<in> erel es}. (#) cur ` {ws. ?ok ?c nxt ws})"
    proof -
      have "set (walks es en k counts cur) = (\<Union>nxt \<in> set (succs es cur). (#) cur ` set (walks es en k ?c nxt))"
        using step by (subst walks.simps) simp
      also have "\<dots> = (\<Union>nxt \<in> set (succs es cur). (#) cur ` {ws. ?ok ?c nxt ws})"
        by (rule SUP_cong) (simp_all only: IH)
      moreover have "set (succs es cur) = {nxt. (cur, nxt) \<in> erel es}" using nxt by blast
      ultimately show ?thesis by (simp only:)
    qed
    ultimately show ?thesis by (intro set_eqI) (simp only: UN_iff mem_Collect_eq image_iff, blast)
  qed
qed

lemma walk_no_exit:
  assumes "\<And>v. (en, v) \<notin> E" shows "walk E st en ws \<Longrightarrow> en \<notin> set (butlast ws)"
proof (induction ws arbitrary: st)
  case (Cons x ws)
  then show ?case using assms by (auto simp: walk_Cons split: if_splits)
qed simp

lemma computes_choice_graph_body:
  assumes es: "choice_edges_ok es (length langs) st en" and st: "in_range st (length langs)"
    and langs: "\<And>l. l \<in> set langs \<Longrightarrow> distinct l" and k: "0 \<le> k"
  shows "computes (graph_lang (Some (nat k)) (erel es) st en (map set langs)) (choice_graph_body langs es st en m k)"
proof -
  have exit: "(en, v) \<notin> erel es" for v
    using es by (auto simp: choice_edges_ok_def erel_def)
  have nodes: "in_range v (length langs)" if "(st, v) \<in> (erel es)\<^sup>*" for v
    using es st that by (rule graph_reachable_range)
  let ?W = "{ws. walk (erel es) st en ws \<and> (\<forall>v. within (Some (nat k)) (count_list ws v))}"
  let ?L = "\<lambda>ws. conc_list (map (\<lambda>i. map set langs ! nat i) ws)"
  have walks: "set (walks es en k (\<lambda>_. 0) st) = ?W"
    using set_walks [of "\<lambda>_. 0" k es en st] k walk_no_exit [OF exit]
    by (auto simp: within_def le_nat_iff)
  have acc: "computes (?L ws) (foldE (\<lambda>acc idx. bindE (child_at langs idx) (\<lambda>l. seq_traces acc l m)) [[]] ws)"
    if ws: "ws \<in> ?W" for ws
  proof -
    have in_ws: "in_range v (length langs)" if "v \<in> set ws" for v
      using ws that nodes walk_nodes by blast
    have "computes (?L (take (length ws) ws)) (foldE (\<lambda>acc idx. bindE (child_at langs idx) (\<lambda>l. seq_traces acc l m)) [[]] ws)"
    proof (rule computes_foldE)
      fix i and L :: "trace list" assume i: "i < length ws" and L: "distinct L" "set L = ?L (take i ws)"
      have r: "in_range (ws ! i) (length langs)" using in_ws i by simp
      have "?L (take (Suc i) ws) = conc (set L) (set (langs ! nat (ws ! i)))"
        using i L(2) r by (simp add: take_Suc_conv_app_nth conc_list_append in_range_nat)
      then show "computes (?L (take (Suc i) ws)) (bindE (child_at langs (ws ! i)) (\<lambda>l. seq_traces L l m))"
        using computes_seq [OF L(1)] r by simp
    qed (simp add: computes_Inr)
    then show ?thesis by simp
  qed
  have "computes (set [] \<union> (\<Union>ws \<in> set (walks es en k (\<lambda>_. 0) st). ?L ws)) (choice_graph_body langs es st en m k)"
    unfolding choice_graph_body_def
  proof (rule computes_Un_fold)
    fix L :: "trace list" and ws assume L: "distinct L" and "ws \<in> set (walks es en k (\<lambda>_. 0) st)"
    then have "ws \<in> ?W" using walks by blast
    from acc [OF this] show "computes (set L \<union> ?L ws) (bindE (foldE (\<lambda>acc idx. bindE (child_at langs idx)
        (\<lambda>l. seq_traces acc l m)) [[]] ws) (\<lambda>acc. let out' = union_traces L acc
          in bindE (trace_guard (length out') m) (\<lambda>_. Inr out')))"
    proof (rule computes_bind)
      fix a :: "trace list" assume "distinct a" "set a = ?L ws"
      then show "computes (set L \<union> ?L ws) (let out' = union_traces L a
          in bindE (trace_guard (length out') m) (\<lambda>_. Inr out'))"
        unfolding Let_def using L by (intro computes_guarded) (simp add: computes_Inr distinct_union_traces)
    qed
  qed simp
  then show ?thesis unfolding walks graph_lang_def by simp
qed

section \<open>The language is the bounded denotation\<close>

lemma mapE_computes:
  assumes "\<And>c. c \<in> set cs \<Longrightarrow> computes (S c) (f c)"
    and "\<And>ls. map set ls = map S cs \<Longrightarrow> \<forall>l \<in> set ls. distinct l \<Longrightarrow> computes T (g ls)"
  shows "computes T (bindE (mapE f cs) g)"
  using assms
proof (induction cs arbitrary: g)
  case (Cons c cs)
  have "computes T (bindE (f c) (\<lambda>l. bindE (mapE f cs) (\<lambda>ls. g (l # ls))))"
  proof (rule computes_bind)
    fix l assume l: "distinct l" "set l = S c"
    show "computes T (bindE (mapE f cs) (\<lambda>ls. g (l # ls)))"
      using Cons.prems l by (intro Cons.IH) auto
  qed (use Cons.prems in auto)
  then show ?case by (simp add: bindE_assoc)
qed simp

lemma computes_repeated:
  assumes "computes S body" "wf_frequency f" "0 \<le> k"
  shows "computes (bounded_powers (Some (nat k)) f S) (repeated body f m k)"
  unfolding repeated_def
proof (rule computes_bind [OF assms(1)])
  fix L assume L: "distinct L" "set L = S"
  show "computes (bounded_powers (Some (nat k)) f S)
      (bindE (bounded_power L f m k) (\<lambda>out. bindE (trace_guard (length out) m) (\<lambda>_. Inr out)))"
  proof (rule computes_bind)
    show "computes (bounded_powers (Some (nat k)) f S) (bounded_power L f m k)"
      using computes_bounded_power [OF L(1) assms(2,3)] L(2) by simp
  qed (intro computes_guarded, simp add: computes_Inr)
qed

lemma language_bounds: "m < 1 \<or> k < 1 \<Longrightarrow> language v m k = refuse BOUND_EXHAUSTED"
  by (subst language.simps) (auto simp: check_bounds_def)

lemma language_eqs:
  assumes "\<not> (m < 1 \<or> k < 1)"
  shows "language (Atom l a b c) m k = Inr [[l]]" "language Start m k = Inr [[]]"
    "language End m k = Inr [[]]" "language Silent m k = Inr [[]]"
    "language (Foreign nm) m k = refuse PROHIBITED_NODE_KIND"
    "language (PartialOrder cs es f cl d) m k = repeated (bindE (mapE (\<lambda>c. language c m k) cs)
       (\<lambda>langs. partial_order_body langs cl m)) f m k"
    "language (ChoiceGraph cs es st en f d) m k = repeated (bindE (mapE (\<lambda>c. language c m k) cs)
       (\<lambda>langs. choice_graph_body langs es st en m k)) f m k"
  using assms by (subst language.simps, simp add: check_bounds_def)+

lemma language_computes:
  "wf_node v \<Longrightarrow> computes (den (Some (nat k)) v) (language v m k)"
proof (induction v)
  case (PartialOrder cs es f cl d)
  note D = wf_partial_orderD [OF PartialOrder.prems]
  show ?case
  proof (cases "m < 1 \<or> k < 1")
    case False
    have "computes (bounded_powers (Some (nat k)) f (merge_lang (before cl) (map (den (Some (nat k))) cs)))
        (repeated (bindE (mapE (\<lambda>c. language c m k) cs) (\<lambda>langs. partial_order_body langs cl m)) f m k)"
    proof (intro computes_repeated mapE_computes)
      fix ls :: "trace list list" assume ls: "map set ls = map (den (Some (nat k))) cs"
      then have "length ls = length cs" by (metis length_map)
      then show "computes (merge_lang (before cl) (map (den (Some (nat k))) cs)) (partial_order_body ls cl m)"
        using D(3,6) ls by (metis computes_partial_order_body)
    qed (use PartialOrder D False in auto)
    then show ?thesis unfolding language_eqs(6,7) [OF False] by simp
  qed (simp add: language_bounds computes_Inl)
next
  case (ChoiceGraph cs es st en f d)
  note D = wf_choice_graphD [OF ChoiceGraph.prems]
  show ?case
  proof (cases "m < 1 \<or> k < 1")
    case False
    have "computes (bounded_powers (Some (nat k)) f (graph_lang (Some (nat k)) (erel es) st en (map (den (Some (nat k))) cs)))
        (repeated (bindE (mapE (\<lambda>c. language c m k) cs) (\<lambda>langs. choice_graph_body langs es st en m k)) f m k)"
    proof (intro computes_repeated mapE_computes)
      fix ls :: "trace list list"
      assume ls: "map set ls = map (den (Some (nat k))) cs" "\<forall>l \<in> set ls. distinct l"
      then have "length ls = length cs" by (metis length_map)
      then show "computes (graph_lang (Some (nat k)) (erel es) st en (map (den (Some (nat k))) cs))
          (choice_graph_body ls es st en m k)"
        using computes_choice_graph_body [of es ls st en k m] D(2,3) ls False by simp
    qed (use ChoiceGraph D False in auto)
    then show ?thesis unfolding language_eqs(6,7) [OF False] by simp
  qed (simp add: language_bounds computes_Inl)
qed (cases "m < 1 \<or> k < 1"; simp add: language_bounds language_eqs computes_Inl computes_Inr)+

lemma repeated_length: "repeated body f m k = Inr L \<Longrightarrow> int (length L) \<le> m"
  by (auto simp: repeated_def bindE_Inr_iff trace_guard_def split: if_splits)

lemma language_length: "language v m k = Inr L \<Longrightarrow> int (length L) \<le> m"
  by (cases "m < 1 \<or> k < 1"; cases v) (auto simp: language_bounds language_eqs dest: repeated_length)

section \<open>Enough traces\<close>

text \<open>
  A computation that depends on the cap of traces settles when it returns the same value for
  every cap that is large enough.
\<close>

definition settles :: "(int \<Rightarrow> 'a res) \<Rightarrow> bool" where
  "settles F \<longleftrightarrow> (\<exists>x. eventually (\<lambda>m. F m = Inr x) at_top)"

lemma settles_const [intro]: "settles (\<lambda>m. Inr x)"
  by (auto simp: settles_def)

lemma settles_bind:
  assumes "settles F" "\<And>x. eventually (\<lambda>m. F m = Inr x) at_top \<Longrightarrow> settles (\<lambda>m. G m x)"
  shows "settles (\<lambda>m. bindE (F m) (G m))"
proof -
  obtain x where x: "eventually (\<lambda>m. F m = Inr x) at_top" using assms(1) by (auto simp: settles_def)
  with assms(2) obtain y where "eventually (\<lambda>m. G m x = Inr y) at_top" by (auto simp: settles_def)
  with x have "eventually (\<lambda>m. bindE (F m) (G m) = Inr y) at_top" by eventually_elim simp
  then show ?thesis by (auto simp: settles_def)
qed

lemma settles_guard: "settles (trace_guard n)"
proof -
  have "eventually (\<lambda>m. trace_guard n m = Inr ()) at_top"
    using eventually_ge_at_top [of "int n"] by eventually_elim (simp add: trace_guard_def)
  then show ?thesis by (auto simp: settles_def)
qed

lemma eventually_mapE_length:
  assumes "eventually (\<lambda>m :: int. mapE (f m) cs = Inr langs) at_top" shows "length langs = length cs"
proof -
  obtain m where "mapE (f m) cs = Inr langs" using assms by (auto simp: eventually_at_top_linorder)
  then show ?thesis by (auto simp: mapE_Inr_iff dest: list_all2_lengthD)
qed

lemma settles_foldE:
  "(\<And>s x. x \<in> set xs \<Longrightarrow> settles (\<lambda>m. f m s x)) \<Longrightarrow> settles (\<lambda>m. foldE (f m) s xs)"
proof (induction xs arbitrary: s)
  case (Cons x xs)
  have "settles (\<lambda>m. bindE (f m s x) (\<lambda>s'. foldE (f m) s' xs))"
    by (rule settles_bind) (use Cons in auto)
  then show ?case by simp
qed auto

lemma settles_mapE: "(\<And>x. x \<in> set xs \<Longrightarrow> settles (\<lambda>m. f m x)) \<Longrightarrow> settles (\<lambda>m. mapE (f m) xs)"
proof (induction xs)
  case (Cons x xs)
  have "settles (\<lambda>m. bindE (f m x) (\<lambda>y. bindE (mapE (f m) xs) (\<lambda>ys. Inr (y # ys))))"
    by (intro settles_bind settles_const) (use Cons in auto)
  then show ?case by simp
qed auto

lemma settles_guarded: "settles (\<lambda>m. bindE (trace_guard n m) (\<lambda>_. Inr x))"
  by (rule settles_bind [OF settles_guard]) (rule settles_const)

lemma settles_add_trace: "settles (\<lambda>m. add_trace m out t)"
  unfolding add_trace_def Let_def by (rule settles_guarded)

lemma settles_seq: "settles (seq_traces left right)"
  unfolding seq_traces_def by (intro settles_foldE settles_add_trace)

lemma settles_partial_order_body:
  assumes "order_edges_ok cl (length langs)" "irrefl (erel cl)"
  shows "settles (partial_order_body langs cl)"
  unfolding partial_order_body_def Let_def
proof (intro settles_foldE)
  fix ts x out
  assume "ts \<in> set (product_lists (map sort langs))" "x \<in> set (merges (map (preds_of cl) [0..<length langs]) ts)"
  moreover from this(1) have "length ts = length langs" by (auto simp: in_product_lists dest: list_all2_lengthD)
  moreover have "set (merges (map (preds_of cl) [0..<length ts]) ts) = Inr ` merge_lang (before cl) (singles ts)"
    by (rule set_merges) (use assms calculation(3) in \<open>simp_all add: before_irrefl set_preds_of\<close>)
  ultimately obtain t where "x = Inr t" by auto
  then show "settles (\<lambda>m. bindE x (add_trace m out))" by (simp add: settles_add_trace)
qed

lemma settles_choice_graph_body:
  assumes es: "choice_edges_ok es (length langs) st en" and st: "in_range st (length langs)" and k: "0 \<le> k"
  shows "settles (\<lambda>m. choice_graph_body langs es st en m k)"
  unfolding choice_graph_body_def Let_def
proof (intro settles_foldE settles_bind settles_guarded settles_seq)
  fix ws idx assume "ws \<in> set (walks es en k (\<lambda>_. 0) st)" and idx: "idx \<in> set ws"
  then have "walk (erel es) st en ws" using set_walks [of "\<lambda>_. 0" k es en st] k by simp
  from walk_nodes [OF this idx] have "in_range idx (length langs)" by (rule graph_reachable_range [OF es st])
  then show "settles (\<lambda>m. child_at langs idx)" by (simp add: settles_const)
qed (rule settles_guard settles_const)+

definition unroll_fits :: "int \<Rightarrow> frequency \<Rightarrow> bool" where
  "unroll_fits k f \<longleftrightarrow> (case fmax f of None \<Rightarrow> fmin f \<le> k | Some h \<Rightarrow> h \<le> k)"

text \<open>Every frequency of the model fits under the unroll limit.\<close>

fun fits :: "int \<Rightarrow> pnode \<Rightarrow> bool" where
  "fits k (PartialOrder cs es f cl d) \<longleftrightarrow> unroll_fits k f \<and> (\<forall>c \<in> set cs. fits k c)"
| "fits k (ChoiceGraph cs es st en f d) \<longleftrightarrow> unroll_fits k f \<and> (\<forall>c \<in> set cs. fits k c)"
| "fits k _ \<longleftrightarrow> True"

lemma settles_repeated:
  assumes "settles body" "wf_frequency f" "unroll_fits k f"
  shows "settles (\<lambda>m. repeated (body m) f m k)"
proof -
  obtain hi where hi: "unroll_limit f k = Inr hi"
    using assms(2,3) by (auto simp: unroll_limit_def unroll_fits_def wf_frequency_def split: option.splits)
  have step: "settles (\<lambda>m. power_step b f m p n)" for b p n
  proof (cases p)
    case (Pair current out)
    have "settles (\<lambda>m. if n > 0 then seq_traces current b m else Inr current)"
      by (cases "n > 0") (auto simp: settles_seq)
    moreover have "settles (\<lambda>m. if allows f (int n)
       then let out' = union_traces out cur'
            in bindE (trace_guard (length out') m) (\<lambda>_. Inr (cur', out'))
       else Inr (cur', out))" for cur'
      by (cases "allows f (int n)") (auto simp: Let_def settles_guarded)
    ultimately show ?thesis unfolding power_step_def Pair prod.case by (intro settles_bind)
  qed
  have "settles (\<lambda>m. bindE (foldE (power_step b f m) ([[]], []) [0..<nat (hi + 1)]) (\<lambda>(current, out). Inr out))" for b
    by (intro settles_bind settles_foldE step) (auto split: prod.split)
  then have "settles (\<lambda>m. bounded_power b f m k)" for b by (simp add: bounded_power_def hi)
  then show ?thesis unfolding repeated_def by (intro settles_bind settles_guarded assms(1))
qed

lemma settles_if_large: "settles F \<Longrightarrow> (\<And>m. 1 \<le> m \<Longrightarrow> G m = F m) \<Longrightarrow> settles G"
proof -
  assume "settles F" and eq: "\<And>m. 1 \<le> m \<Longrightarrow> G m = F m"
  then obtain x where "eventually (\<lambda>m. F m = Inr x) at_top" by (auto simp: settles_def)
  with eventually_ge_at_top [of "1::int"] have "eventually (\<lambda>m. G m = Inr x) at_top"
    by eventually_elim (simp add: eq)
  then show ?thesis by (auto simp: settles_def)
qed

lemma language_settles: "wf_node v \<Longrightarrow> 1 \<le> k \<Longrightarrow> fits k v \<Longrightarrow> settles (\<lambda>m. language v m k)"
proof (induction v)
  case (PartialOrder cs es f cl d)
  note D = wf_partial_orderD [OF PartialOrder.prems(1)]
  have "settles (\<lambda>m. repeated (bindE (mapE (\<lambda>c. language c m k) cs) (\<lambda>langs. partial_order_body langs cl m)) f m k)"
  proof (intro settles_repeated settles_bind settles_mapE)
    fix langs assume "eventually (\<lambda>m. mapE (\<lambda>c. language c m k) cs = Inr langs) at_top"
    then have "length langs = length cs"
      by (rule eventually_mapE_length)
    then show "settles (partial_order_body langs cl)" using D by (intro settles_partial_order_body) simp_all
  qed (use PartialOrder D in auto)
  then show ?case by (rule settles_if_large) (use PartialOrder.prems in \<open>simp add: language_eqs\<close>)
next
  case (ChoiceGraph cs es st en f d)
  note D = wf_choice_graphD [OF ChoiceGraph.prems(1)]
  have "settles (\<lambda>m. repeated (bindE (mapE (\<lambda>c. language c m k) cs) (\<lambda>langs. choice_graph_body langs es st en m k)) f m k)"
  proof (intro settles_repeated settles_bind settles_mapE)
    fix langs assume "eventually (\<lambda>m. mapE (\<lambda>c. language c m k) cs = Inr langs) at_top"
    then have "length langs = length cs"
      by (rule eventually_mapE_length)
    then show "settles (\<lambda>m. choice_graph_body langs es st en m k)"
      using D ChoiceGraph.prems(2) by (intro settles_choice_graph_body) simp_all
  qed (use ChoiceGraph D in auto)
  then show ?case by (rule settles_if_large) (use ChoiceGraph.prems in \<open>simp add: language_eqs\<close>)
qed (rule settles_if_large [OF settles_const]; simp add: language_eqs; fail)+

section \<open>The bounded denotations exhaust the unbounded one\<close>

lemma bounded_powers_mono: "L \<subseteq> M \<Longrightarrow> bounded_powers (Some k) f L \<subseteq> bounded_powers None f M"
proof -
  assume "L \<subseteq> M"
  then have "conc_list (replicate n L) \<subseteq> conc_list (replicate n M)" for n
    by (induction n) (auto simp: conc_def)
  then show ?thesis by (fastforce simp: bounded_powers_def within_def)
qed

lemma merge_lang_mono: "(\<And>c. c \<in> set cs \<Longrightarrow> S c \<subseteq> T c) \<Longrightarrow> merge_lang prec (map S cs) \<subseteq> merge_lang prec (map T cs)"
proof
  fix w assume sub: "\<And>c. c \<in> set cs \<Longrightarrow> S c \<subseteq> T c" and "w \<in> merge_lang prec (map S cs)"
  from this(2) obtain zs where zs: "map snd zs = w" "keeps_order prec zs" "\<forall>z \<in> set zs. fst z < length cs"
    "\<forall>i < length cs. strand i zs \<in> S (cs ! i)" by (rule merge_langE) simp
  have "strand i zs \<in> T (cs ! i)" if "i < length cs" for i
    using zs(4) that sub [OF nth_mem [OF that]] by auto
  with zs show "w \<in> merge_lang prec (map T cs)"
    unfolding merge_lang_def by (intro CollectI exI [of _ zs]) simp
qed

lemma conc_list_map_mono: "(\<And>x. x \<in> set xs \<Longrightarrow> S x \<subseteq> T x) \<Longrightarrow> conc_list (map S xs) \<subseteq> conc_list (map T xs)"
  by (induction xs) (fastforce simp: conc_def)+

lemma den_mono: "wf_node v \<Longrightarrow> den (Some k) v \<subseteq> den None v"
proof (induction v)
  case (PartialOrder cs es f cl d)
  then have "merge_lang (before cl) (map (den (Some k)) cs) \<subseteq> merge_lang (before cl) (map (den None) cs)"
    by (intro merge_lang_mono) (auto dest: wf_partial_orderD(8))
  then show ?case by (simp add: bounded_powers_mono)
next
  case (ChoiceGraph cs es st en f d)
  note D = wf_choice_graphD [OF ChoiceGraph.prems]
  have "map (den (Some k)) cs ! nat i \<subseteq> map (den None) cs ! nat i"
    if "walk (erel es) st en ws" "i \<in> set ws" for ws i
  proof -
    from walk_nodes [OF that] have "in_range i (length cs)" by (rule graph_reachable_range [OF D(2,3)])
    with ChoiceGraph.IH D(7) show ?thesis by (simp add: in_range_nat)
  qed
  then have "graph_lang (Some k) (erel es) st en (map (den (Some k)) cs) \<subseteq> graph_lang None (erel es) st en (map (den None) cs)"
    unfolding graph_lang_def by (intro UN_mono conc_list_map_mono) (auto simp: within_def)
  then show ?case by (simp add: bounded_powers_mono)
qed auto

lemma conc_list_limit:
  assumes "w \<in> conc_list (map S xs)"
    and "\<And>x u. x \<in> set xs \<Longrightarrow> u \<in> S x \<Longrightarrow> eventually (\<lambda>k. u \<in> T k x) F"
  shows "eventually (\<lambda>k. w \<in> conc_list (map (T k) xs)) F"
  using assms
proof (induction xs arbitrary: w)
  case (Cons x xs)
  then obtain u v where w: "w = u @ v" "u \<in> S x" "v \<in> conc_list (map S xs)" by (auto simp: conc_def)
  have "eventually (\<lambda>k. u \<in> T k x) F" "eventually (\<lambda>k. v \<in> conc_list (map (T k) xs)) F"
    using Cons w by simp_all
  then show ?case by eventually_elim (simp add: w(1) concI)
qed simp

lemma bounded_powers_limit:
  fixes T :: "nat \<Rightarrow> 'a list set"
  assumes "w \<in> bounded_powers None f S" "\<And>u. u \<in> S \<Longrightarrow> eventually (\<lambda>k. u \<in> T k) at_top"
  shows "eventually (\<lambda>k. w \<in> bounded_powers (Some k) f (T k)) at_top"
proof -
  obtain n where n: "allows f (int n)" "w \<in> conc_list (map (\<lambda>_. S) [0..<n])"
    using assms(1) by (auto simp: bounded_powers_def map_replicate_const)
  have "eventually (\<lambda>k. w \<in> conc_list (map (\<lambda>_. T k) [0..<n])) at_top"
    using n(2) by (rule conc_list_limit) (rule assms(2))
  with eventually_ge_at_top [of n] show ?thesis
  proof eventually_elim
    case (elim k)
    with n(1) show ?case unfolding bounded_powers_def
      by (intro UN_I [of n]) (simp_all add: within_def map_replicate_const)
  qed
qed

lemma merge_lang_limit:
  fixes T :: "nat \<Rightarrow> 'b \<Rightarrow> 'a list set"
  assumes "w \<in> merge_lang prec (map S cs)"
    and "\<And>c u. c \<in> set cs \<Longrightarrow> u \<in> S c \<Longrightarrow> eventually (\<lambda>k. u \<in> T k c) at_top"
  shows "eventually (\<lambda>k. w \<in> merge_lang prec (map (T k) cs)) at_top"
proof -
  from assms(1) obtain zs where zs: "map snd zs = w" "keeps_order prec zs" "\<forall>z \<in> set zs. fst z < length cs"
    "\<forall>i < length cs. strand i zs \<in> S (cs ! i)" by (rule merge_langE) simp
  have "eventually (\<lambda>k. \<forall>i \<in> {..<length cs}. strand i zs \<in> T k (cs ! i)) at_top"
    using zs(4) by (intro eventually_ball_finite) (auto intro!: assms(2))
  then show ?thesis
  proof eventually_elim
    case (elim k)
    with zs show ?case unfolding merge_lang_def by (intro CollectI exI [of _ zs]) simp
  qed
qed

lemma den_limit: "wf_node v \<Longrightarrow> w \<in> den None v \<Longrightarrow> eventually (\<lambda>k. w \<in> den (Some k) v) at_top"
proof (induction v arbitrary: w)
  case (PartialOrder cs es f cl d)
  note D = wf_partial_orderD [OF PartialOrder.prems(1)]
  have "eventually (\<lambda>k. w \<in> bounded_powers (Some k) f (merge_lang (before cl) (map (den (Some k)) cs))) at_top"
    using PartialOrder.prems(2) unfolding den.simps
    by (rule bounded_powers_limit) (rule merge_lang_limit, assumption, rule PartialOrder.IH, use D(8) in auto)
  then show ?case by simp
next
  case (ChoiceGraph cs es st en f d)
  note D = wf_choice_graphD [OF ChoiceGraph.prems(1)]
  have body: "eventually (\<lambda>k. u \<in> graph_lang (Some k) (erel es) st en (map (den (Some k)) cs)) at_top"
    if u: "u \<in> graph_lang None (erel es) st en (map (den None) cs)" for u
  proof -
    obtain ws where ws: "walk (erel es) st en ws" "u \<in> conc_list (map (\<lambda>i. map (den None) cs ! nat i) ws)"
      using u by (auto simp: graph_lang_def)
    have "eventually (\<lambda>k. u \<in> conc_list (map (\<lambda>i. map (den (Some k)) cs ! nat i) ws)) at_top"
      using ws(2)
    proof (rule conc_list_limit)
      fix i x assume i: "i \<in> set ws" and x: "x \<in> map (den None) cs ! nat i"
      from walk_nodes [OF ws(1) i] have "in_range i (length cs)" by (rule graph_reachable_range [OF D(2,3)])
      then show "eventually (\<lambda>k. x \<in> map (den (Some k)) cs ! nat i) at_top"
        using ChoiceGraph.IH [of "cs ! nat i" x] D(7) x by (simp add: in_range_nat)
    qed
    with eventually_ge_at_top [of "length ws"] show ?thesis
    proof eventually_elim
      case (elim k)
      then show ?case unfolding graph_lang_def using ws(1) count_le_length order_trans
        by (intro UN_I [of ws]) (fastforce simp: within_def)+
    qed
  qed
  show ?case using ChoiceGraph.prems(2) unfolding den.simps by (rule bounded_powers_limit) (rule body)
qed auto

lemma eventually_fits: "wf_node v \<Longrightarrow> eventually (\<lambda>k. fits (int k) v) at_top"
proof (induction v)
  case (PartialOrder cs es f cl d)
  have "eventually (\<lambda>k. \<forall>c \<in> set cs. fits (int k) c) at_top"
    using PartialOrder by (intro eventually_ball_finite) (auto dest: wf_partial_orderD(8))
  with eventually_ge_at_top [of "nat (case fmax f of None \<Rightarrow> fmin f | Some h \<Rightarrow> h)"] show ?case
    by eventually_elim (auto simp: unroll_fits_def split: option.splits)
next
  case (ChoiceGraph cs es st en f d)
  have "eventually (\<lambda>k. \<forall>c \<in> set cs. fits (int k) c) at_top"
    using ChoiceGraph by (intro eventually_ball_finite) (auto dest: wf_choice_graphD(7))
  with eventually_ge_at_top [of "nat (case fmax f of None \<Rightarrow> fmin f | Some h \<Rightarrow> h)"] show ?case
    by eventually_elim (auto simp: unroll_fits_def split: option.splits)
qed simp_all

lemma language_reaches:
  assumes "wf_node v" "w \<in> den None v"
  shows "\<exists>m k L. 1 \<le> k \<and> fits k v \<and> language v m k = Inr L \<and> w \<in> set L"
proof -
  from assms(2) den_limit [OF assms(1)] eventually_fits [OF assms(1)] eventually_ge_at_top [of "1 :: nat"]
  have "eventually (\<lambda>k. w \<in> den (Some k) v \<and> fits (int k) v \<and> 1 \<le> k) at_top"
    by (intro eventually_conj) auto
  then obtain k where k: "w \<in> den (Some k) v" "fits (int k) v" "1 \<le> k"
    by (auto simp: eventually_at_top_linorder)
  then obtain L m where "language v m (int k) = Inr L"
    using language_settles [OF assms(1), of "int k"] by (auto simp: settles_def eventually_at_top_linorder)
  moreover from this have "w \<in> set L" using language_computes [OF assms(1), of "int k" m] k(1) by (simp add: computes_Inr)
  moreover have "1 \<le> int k" using k(3) by simp
  ultimately show ?thesis using k(2) by blast
qed

lemma language_sound:
  assumes "wf_node v" "language v m k = Inr L" "w \<in> set L"
  shows "w \<in> den None v"
proof -
  have "w \<in> den (Some (nat k)) v" using language_computes [OF assms(1), of k m] assms(2,3) by (simp add: computes_Inr)
  with den_mono [OF assms(1)] show ?thesis by blast
qed

section \<open>Properties\<close>

text \<open>
  \<open>language\<close> never truncates: on an admitted model it either returns, without
  repetition and within the cap, exactly the traces of the specification in which unbounded
  repetitions and visits are limited to \<open>max_unrolls\<close>, or refuses with
  \<open>BOUND_EXHAUSTED\<close>; no other exception can occur.
\<close>

theorem language_never_truncates:
  assumes "wf_node v"
  shows "case language v max_traces max_unrolls of
      Inl x \<Rightarrow> x = PowlError BOUND_EXHAUSTED
    | Inr L \<Rightarrow> distinct L \<and> set L = den (Some (nat max_unrolls)) v \<and> int (length L) \<le> max_traces"
  using language_computes [OF assms, of max_unrolls max_traces] language_length [of v max_traces max_unrolls]
  by (auto simp: computes_def split: sum.splits)

theorem language_never_truncates_witness:
  "case language loop_graph 10 2 of
      Inl x \<Rightarrow> x = PowlError BOUND_EXHAUSTED
    | Inr L \<Rightarrow> distinct L \<and> set L = den (Some (nat 2)) loop_graph \<and> int (length L) \<le> 10"
  by (rule language_never_truncates) (rule loop_graph_wf)

text \<open>
  The bounds lose nothing in the limit: a trace is in the unbounded denotation of an
  admitted model exactly when some call of \<open>language\<close> returns it.
\<close>

theorem language_exhausts:
  assumes "wf_node v"
  shows "w \<in> den None v \<longleftrightarrow> (\<exists>m k L. language v m k = Inr L \<and> w \<in> set L)"
  using language_reaches [OF assms] language_sound [OF assms] by blast

theorem language_exhausts_witness:
  "[''a'', ''a''] \<in> den None loop_graph \<longleftrightarrow> (\<exists>m k L. language loop_graph m k = Inr L \<and> [''a'', ''a''] \<in> set L)"
  by (rule language_exhausts [OF loop_graph_wf])

text \<open>
  C34.  What \<open>language\<close> returns.  When every frequency of the model fits under \<open>max_unrolls\<close>, there is
  a cap on the number of traces from which on it returns one and the same language: the bounded
  denotation, in which unbounded repetitions and the visits of a walk are limited to
  \<open>max_unrolls\<close>.  These bounded languages lie in the unbounded denotation and exhaust it: a trace
  is in the denotation of the model exactly when some call with fitting bounds returns it.
\<close>

theorem language_enough_traces:
  assumes "wf_node v"
  shows "(\<forall>k \<ge> 1. fits k v \<longrightarrow> (\<exists>L enough. set L = den (Some (nat k)) v \<and> (\<forall>m \<ge> enough. language v m k = Inr L)))
    \<and> den None v = {w. \<exists>m k L. 1 \<le> k \<and> fits k v \<and> language v m k = Inr L \<and> w \<in> set L}"
proof (intro conjI allI impI)
  fix k assume k: "(1 :: int) \<le> k" "fits k v"
  obtain L enough where L: "\<forall>m \<ge> enough. language v m k = Inr L"
    using language_settles [OF assms k] by (auto simp: settles_def eventually_at_top_linorder)
  moreover have "set L = den (Some (nat k)) v"
    using language_computes [OF assms, of k enough] L by (simp add: computes_Inr)
  ultimately show "\<exists>L enough. set L = den (Some (nat k)) v \<and> (\<forall>m \<ge> enough. language v m k = Inr L)" by blast
next
  show "den None v = {w. \<exists>m k L. 1 \<le> k \<and> fits k v \<and> language v m k = Inr L \<and> w \<in> set L}"
    using language_reaches [OF assms] language_sound [OF assms] by blast
qed

theorem language_enough_traces_witness:
  "(\<exists>L enough. set L = den (Some (nat 3)) loop_graph \<and> (\<forall>m \<ge> enough. language loop_graph m 3 = Inr L))
    \<and> den None loop_graph = {w. \<exists>m k L. 1 \<le> k \<and> fits k loop_graph \<and> language loop_graph m k = Inr L \<and> w \<in> set L}"
proof -
  have "fits 3 loop_graph" by (simp add: loop_graph_def unroll_fits_def ONCE_def)
  then have "\<exists>L enough. set L = den (Some (nat 3)) loop_graph \<and> (\<forall>m \<ge> enough. language loop_graph m 3 = Inr L)"
    using conjunct1 [OF language_enough_traces [OF loop_graph_wf], rule_format, of 3] by simp
  then show ?thesis using conjunct2 [OF language_enough_traces [OF loop_graph_wf]] by (rule conjI)
qed

text \<open>
  \<open>interleavings\<close> yields every order-preserving shuffle of two traces and nothing else,
  each once for every way to choose the positions of the first trace.
\<close>

theorem interleavings_shuffles:
  "set (interleavings u v) = shuffles u v \<and> length (interleavings u v) = (length u + length v) choose length u"
proof (induction u v rule: interleavings.induct)
  case (2 a u)
  then show ?case by (auto simp: Cons_in_shuffles_iff)
qed (auto simp: choose_reduce_nat)

end
