(* ===== verification/Powl_Enabled.thy ===== *)
theory Powl_Enabled
  imports Powl_Semantics
begin

text \<open>
  \<^verbatim>\<open>powl/semantics.py\<close>, second part: whether a node can produce the empty trace, and the
  labels with which a trace of it may begin, both computed on the structure, without bounds.
\<close>

section \<open>Nullability\<close>

text \<open>The indices that \<^verbatim>\<open>children[i]\<close> accepts and that a traversal has not seen yet.\<close>

definition unseen :: "'a list \<Rightarrow> int list \<Rightarrow> nat" where
  "unseen xs seen = card ({- int (length xs)..<int (length xs)} - set seen)"

lemma unseen_decreases:
  assumes "child_at xs cur = Inr r" "cur \<notin> set seen" shows "unseen xs (cur # seen) < unseen xs seen"
proof -
  have "cur \<in> {- int (length xs)..<int (length xs)}"
    using assms(1) by (auto simp: child_at_def py_get_def Let_def split: if_splits)
  with assms(2) have "{- int (length xs)..<int (length xs)} - set (cur # seen)
      \<subset> {- int (length xs)..<int (length xs)} - set seen" by (auto simp del: atLeastLessThan_iff)
  then show ?thesis unfolding unseen_def by (rule psubset_card_mono [rotated]) simp
qed

text \<open>
  The recursion \<open>rec\<close> of \<^verbatim>\<open>_has_nullable_walk\<close> shares the set \<open>seen\<close> between its calls and
  stops at the first success, so it is a loop over the list of calls still to make.
\<close>

function nullable_loop :: "bool res list \<Rightarrow> edge list \<Rightarrow> int \<Rightarrow> int list \<Rightarrow> int list \<Rightarrow> bool res" where
  "nullable_loop nls es en [] seen = Inr False"
| "nullable_loop nls es en (cur # todo) seen =
     (if cur \<in> set seen then nullable_loop nls es en todo seen
      else bindE (child_at nls cur) (\<lambda>r. bindE r (\<lambda>b.
        if \<not> b then nullable_loop nls es en todo seen
        else if cur = en then Inr True
        else nullable_loop nls es en (succs es cur @ todo) (cur # seen))))"
  by pat_completeness auto
termination
  by (relation "measures [\<lambda>(nls, es, en, todo, seen). unseen nls seen,
      \<lambda>(nls, es, en, todo, seen). length todo]")
    (auto intro: unseen_decreases)

definition has_nullable_walk :: "bool res list \<Rightarrow> edge list \<Rightarrow> int \<Rightarrow> int \<Rightarrow> bool res" where
  "has_nullable_walk nls es st en = nullable_loop nls es en [st] []"

fun nullable :: "pnode \<Rightarrow> bool res" where
  "nullable (Atom l a b c) = Inr False"
| "nullable (PartialOrder cs es f cl d) = (if is_skippable f then Inr True else allE nullable cs)"
| "nullable (ChoiceGraph cs es st en f d) =
     (if is_skippable f then Inr True else has_nullable_walk (map nullable cs) es st en)"
| "nullable (Foreign nm) = refuse PROHIBITED_NODE_KIND"
| "nullable v = Inr True"

section \<open>First labels\<close>

lemma nth_size [termination_simp]: "i < length xs \<Longrightarrow> size (xs ! i) < Suc (size_list size xs)"
  by (rule le_imp_less_Suc) (rule size_list_estimation' [OF nth_mem order_refl])

definition union_labels :: "string list \<Rightarrow> string list \<Rightarrow> string list" where
  "union_labels out new = out @ filter (\<lambda>l. l \<notin> set out) new"

text \<open>The stack of the source has its top at the end, here it is the head.\<close>

function enabled_loop :: "string list res list \<Rightarrow> bool res list \<Rightarrow> edge list \<Rightarrow> int list \<Rightarrow> int list
    \<Rightarrow> string list \<Rightarrow> string list res" where
  "enabled_loop els nls es [] seen out = Inr out"
| "enabled_loop els nls es (cur # stack) seen out =
     (if cur \<in> set seen then enabled_loop els nls es stack seen out
      else bindE (child_at els cur) (\<lambda>r. bindE r (\<lambda>labels.
           bindE (child_at nls cur) (\<lambda>r. bindE r (\<lambda>b.
           enabled_loop els nls es (if b then rev (succs es cur) @ stack else stack) (cur # seen)
             (union_labels out labels))))))"
  by pat_completeness auto
termination
  by (relation "measures [\<lambda>(els, nls, es, stack, seen, out). unseen nls seen,
      \<lambda>(els, nls, es, stack, seen, out). length stack]")
    (auto intro: unseen_decreases)

fun enabled_labels :: "pnode \<Rightarrow> string list res" where
  "enabled_labels (Atom l a b c) = Inr [l]"
| "enabled_labels (PartialOrder cs es f cl d) =
     (if fmax f = Some 0 then Inr []
      else foldE (\<lambda>out i.
        bindE (allE (\<lambda>p. bindE (child_at cs p) nullable) (preds_of cl i)) (\<lambda>b.
          if b then bindE (enabled_labels (cs ! i)) (\<lambda>labels. Inr (union_labels out labels))
          else Inr out)) [] [0..<length cs])"
| "enabled_labels (ChoiceGraph cs es st en f d) =
     (if fmax f = Some 0 then Inr []
      else enabled_loop (map enabled_labels cs) (map nullable cs) es [st] [] [])"
| "enabled_labels (Foreign nm) = refuse PROHIBITED_NODE_KIND"
| "enabled_labels v = Inr []"

section \<open>Nullability is having the empty trace\<close>

lemma quiet_step: "(x, en) \<in> (quiet E Ls)\<^sup>* \<Longrightarrow> [] \<in> Ls ! nat en \<Longrightarrow> [] \<in> Ls ! nat x"
  by (erule converse_rtranclE) (simp_all add: quiet_def)

lemma quiet_decompose:
  "(x, en) \<in> (quiet E Ls)\<^sup>* \<longleftrightarrow> x = en \<or> ([] \<in> Ls ! nat x \<and> (\<exists>y. (x, y) \<in> E \<and> (y, en) \<in> (quiet E Ls)\<^sup>*))"
  by (auto simp: quiet_def elim: converse_rtranclE intro: converse_rtrancl_into_rtrancl)

definition quiet_to :: "edge list \<Rightarrow> int \<Rightarrow> 'a list set list \<Rightarrow> int \<Rightarrow> bool" where
  "quiet_to es en Ls x \<longleftrightarrow> (x, en) \<in> (quiet (erel es) Ls)\<^sup>* \<and> [] \<in> Ls ! nat en"

lemma nullable_loop_correct:
  assumes "nls = map (\<lambda>L. Inr ([] \<in> L)) Ls"
    and "\<And>e. e \<in> set es \<Longrightarrow> in_range (dst e) (length Ls)" and "\<And>x. x \<in> set todo \<Longrightarrow> in_range x (length Ls)"
    and "en \<notin> set seen" and "\<And>x y. x \<in> set seen \<Longrightarrow> (x, y) \<in> erel es \<Longrightarrow> quiet_to es en Ls y \<Longrightarrow> y \<in> set seen \<union> set todo"
  shows "nullable_loop nls es en todo seen = Inr (\<exists>x \<in> set seen \<union> set todo. quiet_to es en Ls x)"
  using assms
proof (induction nls es en todo seen rule: nullable_loop.induct [case_names stop loop])
  case (stop nls es en seen)
  have "x \<notin> set seen" if "quiet_to es en Ls x" for x
  proof
    assume "x \<in> set seen"
    have "(x, en) \<in> (quiet (erel es) Ls)\<^sup>*" using that by (simp add: quiet_to_def)
    then have "en \<in> set seen" using \<open>x \<in> set seen\<close>
    proof (induction rule: converse_rtrancl_induct)
      case (step y z)
      then have "quiet_to es en Ls z" "(y, z) \<in> erel es" using that by (simp_all add: quiet_to_def quiet_def)
      then show ?case using step stop(5) by auto
    qed simp
    then show False using stop(4) by simp
  qed
  then show ?case by auto
next
  case (loop nls es en cur todo seen)
  have r: "in_range cur (length Ls)" using loop.prems(3) by simp
  have ch: "child_at nls cur = Inr (Inr ([] \<in> Ls ! nat cur))" using r by (simp add: loop.prems(1) in_range_nat)
  have null: "[] \<in> Ls ! nat x" if "quiet_to es en Ls x" for x using that quiet_step unfolding quiet_to_def by blast
  consider (seen) "cur \<in> set seen" | (blocked) "cur \<notin> set seen" "[] \<notin> Ls ! nat cur"
    | (found) "cur \<notin> set seen" "[] \<in> Ls ! nat cur" "cur = en"
    | (go) "cur \<notin> set seen" "[] \<in> Ls ! nat cur" "cur \<noteq> en" by blast
  then show ?case
  proof cases
    case seen
    have "nullable_loop nls es en todo seen = Inr (\<exists>x \<in> set seen \<union> set todo. quiet_to es en Ls x)"
      by (rule loop.IH(1) [OF seen]) (use loop.prems seen in auto)
    then show ?thesis using seen by auto
  next
    case blocked
    have "nullable_loop nls es en todo seen = Inr (\<exists>x \<in> set seen \<union> set todo. quiet_to es en Ls x)"
      by (rule loop.IH(2) [OF blocked(1) ch refl]) (use loop.prems blocked null in \<open>auto, metis\<close>)
    moreover have "\<not> quiet_to es en Ls cur" using null blocked(2) by blast
    ultimately show ?thesis using blocked ch by simp
  next
    case found
    then have "quiet_to es en Ls cur" by (simp add: quiet_to_def)
    then show ?thesis using found ch by simp
  next
    case go
    have succs: "set (succs es cur) = {y. (cur, y) \<in> erel es}" by (auto simp: succs_def erel_def)
    have up: "quiet_to es en Ls cur" if "quiet_to es en Ls y" "(cur, y) \<in> erel es" for y
      using that go(2) by (auto simp: quiet_to_def quiet_def intro: converse_rtrancl_into_rtrancl)
    have "nullable_loop nls es en (succs es cur @ todo) (cur # seen)
        = Inr (\<exists>x \<in> set (cur # seen) \<union> set (succs es cur @ todo). quiet_to es en Ls x)"
    proof (rule loop.IH(3) [OF go(1) ch refl _ go(3)])
      show "in_range x (length Ls)" if "x \<in> set (succs es cur @ todo)" for x
        using that loop.prems(2,3) by (auto simp: succs_def)
      show "y \<in> set (cur # seen) \<union> set (succs es cur @ todo)"
        if "x \<in> set (cur # seen)" "(x, y) \<in> erel es" "quiet_to es en Ls y" for x y
        using that loop.prems(5) [of x y] by (auto simp: succs)
    qed (use loop.prems go in auto)
    then show ?thesis using go ch up by (auto simp: succs)
  qed
qed

lemma nullable_correct: "wf_node v \<Longrightarrow> nullable v = Inr ([] \<in> den None v)"
proof (induction v)
  case (PartialOrder cs es f cl d)
  note D = wf_partial_orderD [OF PartialOrder.prems]
  have "allE nullable cs = Inr (\<forall>c \<in> set cs. [] \<in> den None c)"
    using PartialOrder D by (intro allE_total) auto
  then show ?case using D(7) by (auto simp: Nil_bounded_powers_None Nil_merge_lang)
next
  case (ChoiceGraph cs es st en f d)
  note D = wf_choice_graphD [OF ChoiceGraph.prems]
  let ?Ls = "map (den None) cs"
  have "map nullable cs = map (\<lambda>L. Inr ([] \<in> L)) ?Ls" using ChoiceGraph D(7) by simp
  then have "has_nullable_walk (map nullable cs) es st en
      = Inr (\<exists>x \<in> set [] \<union> set [st]. quiet_to es en ?Ls x)"
    unfolding has_nullable_walk_def
    by (rule nullable_loop_correct) (use D(2,3) in \<open>auto simp: choice_edges_ok_def\<close>)
  then show ?case using D(6) by (auto simp: Nil_bounded_powers_None Nil_graph_lang quiet_to_def)
qed simp_all

section \<open>Enabled labels are the first symbols\<close>

lemma set_union_labels [simp]: "set (union_labels out new) = set out \<union> set new"
  by (auto simp: union_labels_def)

lemma closure_of_union: "R\<^sup>* `` (A \<union> B) = R\<^sup>* `` A \<union> R\<^sup>* `` B"
  by blast

lemma closed_image:
  assumes "\<And>x y. x \<in> A \<Longrightarrow> (x, y) \<in> R \<Longrightarrow> y \<in> A" shows "R\<^sup>* `` A = A"
proof -
  have "y \<in> A" if "(x, y) \<in> R\<^sup>*" "x \<in> A" for x y
    using that by (induction) (auto intro: assms)
  then show ?thesis by blast
qed

lemma enabled_loop_correct:
  assumes "nls = map (\<lambda>L. Inr ([] \<in> L)) Ls" "els = map Inr labels" "length labels = length Ls"
    and "\<And>e. e \<in> set es \<Longrightarrow> in_range (dst e) (length Ls)" and "\<And>x. x \<in> set stack \<Longrightarrow> in_range x (length Ls)"
    and "set out = (\<Union>x \<in> set seen. set (labels ! nat x))"
    and "\<And>x y. x \<in> set seen \<Longrightarrow> (x, y) \<in> quiet (erel es) Ls \<Longrightarrow> y \<in> set seen \<union> set stack"
  shows "\<exists>out'. enabled_loop els nls es stack seen out = Inr out'
    \<and> set out' = (\<Union>x \<in> (quiet (erel es) Ls)\<^sup>* `` (set seen \<union> set stack). set (labels ! nat x))"
  using assms
proof (induction els nls es stack seen out rule: enabled_loop.induct [case_names stop loop])
  case (stop els nls es seen out)
  have "(quiet (erel es) Ls)\<^sup>* `` set seen = set seen"
    by (rule closed_image) (use stop(7) in auto)
  with stop show ?case by simp
next
  case (loop els nls es cur stack seen out)
  let ?Q = "quiet (erel es) Ls"
  have r: "in_range cur (length Ls)" using loop.prems(5) by simp
  have ch: "child_at els cur = Inr (Inr (labels ! nat cur))" "child_at nls cur = Inr (Inr ([] \<in> Ls ! nat cur))"
    using r loop.prems(1-3) by (simp_all add: in_range_nat)
  show ?case
  proof (cases "cur \<in> set seen")
    case True
    have "\<exists>out'. enabled_loop els nls es stack seen out = Inr out'
      \<and> set out' = (\<Union>x \<in> ?Q\<^sup>* `` (set seen \<union> set stack). set (labels ! nat x))"
    proof (rule loop.IH(1) [OF True])
      show "y \<in> set seen \<union> set stack" if "x \<in> set seen" "(x, y) \<in> ?Q" for x y
        using loop.prems(7) [OF that] True by auto
    qed (use loop.prems in auto)
    moreover have "set seen \<union> set (cur # stack) = set seen \<union> set stack" using True by auto
    ultimately show ?thesis using True by simp
  next
    case False
    let ?stack = "if [] \<in> Ls ! nat cur then rev (succs es cur) @ stack else stack"
    have succs: "[] \<in> Ls ! nat cur \<Longrightarrow> set (succs es cur) = {y. (cur, y) \<in> ?Q}"
      "[] \<notin> Ls ! nat cur \<Longrightarrow> {y. (cur, y) \<in> ?Q} = {}"
      by (auto simp: succs_def erel_def quiet_def)
    then have set_stack: "set ?stack = {y. (cur, y) \<in> ?Q} \<union> set stack" by simp
    have "\<exists>out'. enabled_loop els nls es ?stack (cur # seen) (union_labels out (labels ! nat cur)) = Inr out'
      \<and> set out' = (\<Union>x \<in> ?Q\<^sup>* `` (set (cur # seen) \<union> set ?stack). set (labels ! nat x))"
    proof (rule loop.IH(2) [OF False ch(1) refl ch(2) refl])
      show "in_range x (length Ls)" if "x \<in> set ?stack" for x
        using that loop.prems(4,5) by (auto simp: succs_def split: if_splits)
      show "y \<in> set (cur # seen) \<union> set ?stack" if "x \<in> set (cur # seen)" "(x, y) \<in> ?Q" for x y
        unfolding set_stack using that loop.prems(7) [of x y] by auto
    qed (use loop.prems in auto)
    moreover have "?Q\<^sup>* `` (set (cur # seen) \<union> set ?stack) = ?Q\<^sup>* `` (set seen \<union> set (cur # stack))"
    proof -
      have "?Q\<^sup>* `` {y. (cur, y) \<in> ?Q} \<subseteq> ?Q\<^sup>* `` {cur}" by (auto intro: converse_rtrancl_into_rtrancl)
      then show ?thesis unfolding set_stack by (auto simp: closure_of_union)
    qed
    ultimately show ?thesis using False ch by simp
  qed
qed

lemma den_nonempty: "wf_node v \<Longrightarrow> choices_ok v \<Longrightarrow> den None v \<noteq> {}"
proof (induction v)
  case (PartialOrder cs es f cl d)
  note D = wf_partial_orderD [OF PartialOrder.prems(1)]
  have "merge_lang (before cl) (map (den None) cs) \<noteq> {}"
    using D(5,6) by (rule merge_lang_nonempty) (use PartialOrder D in auto)
  then show ?case using D(7) by (simp add: bounded_powers_nonempty)
next
  case (ChoiceGraph cs es st en f d)
  note D = wf_choice_graphD [OF ChoiceGraph.prems(1)]
  have "graph_lang None (erel es) st en (map (den None) cs) \<noteq> {}"
  proof (rule graph_lang_nonempty)
    show "(st, en) \<in> (erel es)\<^sup>*"
      using ChoiceGraph.prems(2) D(4) by (auto simp: graph_connected_def elim!: in_rangeE)
    show "\<forall>v. (st, v) \<in> (erel es)\<^sup>* \<longrightarrow> map (den None) cs ! nat v \<noteq> {}"
      using graph_reachable_range [OF D(2,3)] ChoiceGraph D(7) by (simp add: in_range_nat)
  qed
  then show ?case using D(6) by (simp add: bounded_powers_nonempty)
qed simp_all

lemma enabled_labels_partial_order:
  assumes "\<And>c. c \<in> set cs \<Longrightarrow> enabled_labels c = Inr (g c)" "\<And>c. c \<in> set cs \<Longrightarrow> nullable c = Inr (nl c)"
    and ok: "order_edges_ok cl (length cs)"
  shows "\<exists>L. foldE (\<lambda>out i.
        bindE (allE (\<lambda>p. bindE (child_at cs p) nullable) (preds_of cl i)) (\<lambda>b.
          if b then bindE (enabled_labels (cs ! i)) (\<lambda>labels. Inr (union_labels out labels))
          else Inr out)) [] [0..<length cs] = Inr L
    \<and> set L = (\<Union>i \<in> {i. i < length cs \<and> (\<forall>p < length cs. before cl p i \<longrightarrow> nl (cs ! p))}. set (g (cs ! i)))"
proof -
  let ?free = "\<lambda>i. \<forall>p < length cs. before cl p i \<longrightarrow> nl (cs ! p)"
  let ?step = "\<lambda>out i. bindE (allE (\<lambda>p. bindE (child_at cs p) nullable) (preds_of cl i)) (\<lambda>b.
          if b then bindE (enabled_labels (cs ! i)) (\<lambda>labels. Inr (union_labels out labels)) else Inr out)"
  have step: "?step out i = Inr (if ?free i then union_labels out (g (cs ! i)) else out)" if "i < length cs" for out i
  proof -
    have "allE (\<lambda>p. bindE (child_at cs p) nullable) (preds_of cl i) = Inr (\<forall>p \<in> set (preds_of cl i). nl (cs ! nat p))"
      by (rule allE_total) (use ok in \<open>auto simp: set_preds_of assms(2)\<close>)
    moreover have "(\<forall>p \<in> set (preds_of cl i). nl (cs ! nat p)) \<longleftrightarrow> ?free i" using ok by (auto simp: set_preds_of)
    ultimately show ?thesis using that assms(1) by (cases "?free i") (simp, simp, blast)
  qed
  have "\<exists>L. foldE ?step [] [0..<n] = Inr L \<and> set L = (\<Union>i \<in> {i. i < n \<and> ?free i}. set (g (cs ! i)))"
    if "n \<le> length cs" for n
    using that
  proof (induction n)
    case (Suc n)
    then obtain L where L: "foldE ?step [] [0..<n] = Inr L" "set L = (\<Union>i \<in> {i. i < n \<and> ?free i}. set (g (cs ! i)))"
      by auto
    have "foldE ?step [] [0..<Suc n] = Inr (if ?free n then union_labels L (g (cs ! n)) else L)"
      unfolding foldE_range_Suc L(1) bindE_simps using step Suc.prems by simp
    moreover have "{i. i < Suc n \<and> ?free i} = (if ?free n then insert n else id) {i. i < n \<and> ?free i}"
      by (auto simp: less_Suc_eq)
    ultimately show ?case using L(2) by auto
  qed simp
  from this [OF order_refl] show ?thesis by simp
qed

lemma enabled_labels_correct:
  "wf_node v \<Longrightarrow> choices_ok v \<Longrightarrow> \<exists>L. enabled_labels v = Inr L \<and> set L = firsts (den None v)"
proof (induction v)
  case (PartialOrder cs es f cl d)
  note D = wf_partial_orderD [OF PartialOrder.prems(1)]
  from PartialOrder D(8) have "\<forall>c \<in> set cs. \<exists>L. enabled_labels c = Inr L \<and> set L = firsts (den None c)" by simp
  then obtain g where g: "\<forall>c \<in> set cs. enabled_labels c = Inr (g c) \<and> set (g c) = firsts (den None c)" by metis
  have ne: "\<forall>L \<in> set (map (den None) cs). L \<noteq> {}" using PartialOrder.prems(2) D(8) by (auto simp: den_nonempty)
  note body = merge_lang_nonempty [OF D(5,6) ne] firsts_merge_lang [OF D(5,6) ne]
  show ?case
  proof (cases "fmax f = Some 0")
    case True
    then show ?thesis using firsts_bounded_powers [OF D(7) body(1)] by simp
  next
    case False
    obtain L where L: "enabled_labels (PartialOrder cs es f cl d) = Inr L"
      "set L = (\<Union>i \<in> {i. i < length cs \<and> (\<forall>p < length cs. before cl p i \<longrightarrow> [] \<in> den None (cs ! p))}. set (g (cs ! i)))"
      using enabled_labels_partial_order [of cs g "\<lambda>c. [] \<in> den None c" cl] g D(3,8) nullable_correct False by auto
    have "set L = firsts (merge_lang (before cl) (map (den None) cs))"
      unfolding L(2) body(2) by (rule SUP_cong) (use g in auto)
    then show ?thesis using L(1) firsts_bounded_powers [OF D(7) body(1)] False by auto
  qed
next
  case (ChoiceGraph cs es st en f d)
  note D = wf_choice_graphD [OF ChoiceGraph.prems(1)]
  let ?Ls = "map (den None) cs" and ?Q = "quiet (erel es) (map (den None) cs)"
  from ChoiceGraph D(7) have "\<forall>c \<in> set cs. \<exists>L. enabled_labels c = Inr L \<and> set L = firsts (den None c)" by simp
  then obtain g where g: "\<forall>c \<in> set cs. enabled_labels c = Inr (g c) \<and> set (g c) = firsts (den None c)" by metis
  have reach: "in_range v (length cs)" if "(st, v) \<in> (erel es)\<^sup>*" for v
    using D(2,3) that by (rule graph_reachable_range)
  then have ne: "\<forall>v. (st, v) \<in> (erel es)\<^sup>* \<longrightarrow> ?Ls ! nat v \<noteq> {}"
    using ChoiceGraph.prems(2) D(7) by (simp add: in_range_nat den_nonempty)
  have co: "(v, en) \<in> (erel es)\<^sup>*" if "in_range v (length cs)" for v
    using ChoiceGraph.prems(2) that by (auto simp: graph_connected_def elim!: in_rangeE)
  have sub: "(st, v) \<in> ?Q\<^sup>* \<Longrightarrow> (st, v) \<in> (erel es)\<^sup>*" for v
    by (erule rtrancl_mono [THEN subsetD, rotated]) (auto simp: quiet_def)
  have body: "graph_lang None (erel es) st en ?Ls \<noteq> {}"
    using co [OF D(3)] ne by (rule graph_lang_nonempty)
  show ?case
  proof (cases "fmax f = Some 0")
    case True
    then show ?thesis using firsts_bounded_powers [OF D(6) body] by simp
  next
    case False
    have "\<exists>out'. enabled_loop (map enabled_labels cs) (map nullable cs) es [st] [] [] = Inr out'
      \<and> set out' = (\<Union>x \<in> ?Q\<^sup>* `` (set [] \<union> set [st]). set (map g cs ! nat x))"
      by (rule enabled_loop_correct) (use g D(2,3,7) nullable_correct in \<open>auto simp: choice_edges_ok_def\<close>)
    then obtain L where L: "enabled_labels (ChoiceGraph cs es st en f d) = Inr L"
      "set L = (\<Union>x \<in> ?Q\<^sup>* `` {st}. set (map g cs ! nat x))" using False by auto
    have "set L = (\<Union>v \<in> {v. (st, v) \<in> ?Q\<^sup>* \<and> (v, en) \<in> (erel es)\<^sup>*}. firsts (?Ls ! nat v))"
      unfolding L(2)
    proof (rule SUP_cong)
      show "?Q\<^sup>* `` {st} = {v. (st, v) \<in> ?Q\<^sup>* \<and> (v, en) \<in> (erel es)\<^sup>*}"
        using sub reach co by blast
      fix v assume "v \<in> {v. (st, v) \<in> ?Q\<^sup>* \<and> (v, en) \<in> (erel es)\<^sup>*}"
      then have "nat v < length cs" using sub reach in_range_nat by blast
      then show "set (map g cs ! nat v) = firsts (?Ls ! nat v)" using g by simp
    qed
    then show ?thesis using L(1) firsts_bounded_powers [OF D(6) body] firsts_graph_lang [OF ne] False by simp
  qed
qed simp_all

section \<open>Properties\<close>

text \<open>
  \<open>enabled_labels\<close> on a validated model: it returns, with no bound needed, exactly the
  labels with which some trace of the model begins; and the empty trace is in its
  language exactly when \<open>nullable\<close> says so.
\<close>

theorem enabled_labels_are_first_symbols:
  assumes "wf_node v" "validate_model v = Inr ()"
  shows "(\<exists>L. enabled_labels v = Inr L \<and> set L = {a. \<exists>w. a # w \<in> den None v})
    \<and> nullable v = Inr ([] \<in> den None v)"
  using enabled_labels_correct [OF assms(1)] nullable_correct [OF assms(1)] assms
    validate_iff_choices [OF assms(1)]
  by (simp add: firsts_def)

theorem enabled_labels_are_first_symbols_witness:
  "(\<exists>L. enabled_labels loop_graph = Inr L \<and> set L = {a. \<exists>w. a # w \<in> den None loop_graph})
    \<and> nullable loop_graph = Inr ([] \<in> den None loop_graph)"
  by (rule enabled_labels_are_first_symbols [OF loop_graph_wf])
    (simp add: validate_iff_choices [OF loop_graph_wf] loop_graph_choices)

end
