(* ===== verification/Powl_Membership.thy ===== *)
theory Powl_Membership
  imports Powl_Enabled "HOL-Library.Multiset"
begin

text \<open>
  \<^verbatim>\<open>powl/membership.py\<close>: the independent membership check, which decides whether a
  trace is in the language of a model without enumerating the language.  The reasons it
  gives are a datatype in place of the source's texts.
\<close>

section \<open>Label options\<close>

definition MAX_LABEL_OPTIONS :: nat where "MAX_LABEL_OPTIONS = 512"

text \<open>\<open>TooManyOptions\<close> is the internal exception; \<open>Raised\<close> any other.\<close>

datatype option_exn = TooManyOptions | Raised exn

type_synonym 'a opt_res = "option_exn + 'a"

fun raised :: "'a res \<Rightarrow> 'a opt_res" where
  "raised (Inl x) = Inl (Raised x)"
| "raised (Inr y) = Inr y"

definition require_once :: "frequency \<Rightarrow> unit res" where
  "require_once f = (if f \<noteq> ONCE then refuse IRREDUCIBLE_PROJECTION else Inr ())"

text \<open>\<open>dict.fromkeys\<close> keeps the first occurrence of each element.\<close>

definition from_keys :: "'a list \<Rightarrow> 'a list" where
  "from_keys xs = rev (remdups (rev xs))"

definition extend_options :: "trace list \<Rightarrow> trace list \<Rightarrow> trace list opt_res" where
  "extend_options acc opts =
     foldE (\<lambda>nxt prefix. foldE (\<lambda>nxt opt.
         let nxt' = nxt @ [prefix @ opt]
         in if length nxt' > MAX_LABEL_OPTIONS then Inl TooManyOptions else Inr nxt')
       nxt opts) [] acc"

definition ordered_succs :: "edge list \<Rightarrow> int \<Rightarrow> int list" where
  "ordered_succs es cur = map dst (filter (\<lambda>e. src e = cur) (sorted_edges es))"

text \<open>
  \<open>option_walk\<close> is the inner function \<open>walk\<close>; the list \<open>out\<close> it extends is passed through.
  \<open>optss\<close> are the results that \<^verbatim>\<open>_label_options\<close> has on the children.
\<close>

function option_walk :: "trace list opt_res list \<Rightarrow> edge list \<Rightarrow> int \<Rightarrow> int \<Rightarrow> int list \<Rightarrow> trace list
    \<Rightarrow> trace list \<Rightarrow> trace list opt_res" where
  "option_walk optss es en cur visited prefixes out =
     bindE (raised (child_at optss cur)) (\<lambda>r. bindE r (\<lambda>opts.
       let here = concat (map (\<lambda>p. map (\<lambda>opt. p @ opt) opts) prefixes)
       in if length here > MAX_LABEL_OPTIONS then Inl TooManyOptions
          else if cur = en
          then let out' = out @ here
               in if length out' > MAX_LABEL_OPTIONS then Inl TooManyOptions else Inr out'
          else foldE (\<lambda>out d. if d \<in> set visited then Inr out
                 else option_walk optss es en d (d # visited) here out) out (ordered_succs es cur)))"
  by pat_completeness auto
termination
proof (relation "measure (\<lambda>(optss, es, en, cur, visited, prefixes, out). card (dst ` set es - set visited))")
  fix optss :: "trace list opt_res list" and es en cur visited prefixes out r opts here' out' and d :: int
  assume "d \<in> set (ordered_succs es cur)" "d \<notin> set visited"
  then have "dst ` set es - set (d # visited) \<subset> dst ` set es - set visited"
    by (auto simp: ordered_succs_def)
  then have "card (dst ` set es - set (d # visited)) < card (dst ` set es - set visited)"
    by (rule psubset_card_mono [rotated]) simp
  then show "((optss, es, en, d, d # visited, here', out'), optss, es, en, cur, visited, prefixes, out)
    \<in> measure (\<lambda>(optss, es, en, cur, visited, prefixes, out). card (dst ` set es - set visited))" by simp
qed simp

declare option_walk.simps [simp del]

fun inner_label_options :: "pnode \<Rightarrow> trace list opt_res" where
  "inner_label_options (Atom l a b c) = Inr [[l]]"
| "inner_label_options (PartialOrder cs es f cl d) =
     bindE (raised (require_once f)) (\<lambda>_.
     bindE (foldE (\<lambda>acc child. bindE (inner_label_options child) (extend_options acc)) [[]] cs) (\<lambda>acc.
       Inr (from_keys acc)))"
| "inner_label_options (ChoiceGraph cs es st en f d) =
     bindE (raised (require_once f)) (\<lambda>_.
     bindE (option_walk (map inner_label_options cs) es en st [st] [[]] []) (\<lambda>out.
       Inr (from_keys out)))"
| "inner_label_options (Foreign nm) = Inl (Raised (PowlError PROHIBITED_NODE_KIND))"
| "inner_label_options v = Inr [[]]"

definition label_options :: "pnode \<Rightarrow> trace list option res" where
  "label_options v = (case inner_label_options v of
       Inl TooManyOptions \<Rightarrow> Inr None
     | Inl (Raised x) \<Rightarrow> Inl x
     | Inr opts \<Rightarrow> Inr (Some opts))"

fun static_labels :: "pnode \<Rightarrow> string list res" where
  "static_labels (Atom l a b c) = Inr [l]"
| "static_labels (PartialOrder cs es f cl d) =
     bindE (require_once f) (\<lambda>_. foldE (\<lambda>out c. bindE (static_labels c) (\<lambda>ls. Inr (out @ ls))) [] cs)"
| "static_labels (ChoiceGraph cs es st en f d) =
     bindE (require_once f) (\<lambda>_. bindE (mapE static_labels cs) (\<lambda>_. Inr []))"
| "static_labels (Foreign nm) = refuse PROHIBITED_NODE_KIND"
| "static_labels v = Inr []"

definition fixed_length :: "pnode \<Rightarrow> nat option res" where
  "fixed_length v = bindE (label_options v) (\<lambda>opts. Inr (case opts of
       None \<Rightarrow> None
     | Some os \<Rightarrow> (case remdups (map length os) of [k] \<Rightarrow> Some k | _ \<Rightarrow> None)))"

section \<open>Partial orders\<close>

text \<open>\<open>py_index n i\<close> is the position that the index \<open>i\<close> addresses in a list of length \<open>n\<close>.\<close>

definition py_index :: "nat \<Rightarrow> int \<Rightarrow> nat res" where
  "py_index n i = (if 0 \<le> i \<and> i < int n then Inr (nat i)
     else if i < 0 \<and> 0 \<le> int n + i then Inr (nat (int n + i)) else Inl IndexError)"

lemma py_index_in_range [simp]: "in_range i n \<Longrightarrow> py_index n i = Inr (nat i)"
  by (simp add: py_index_def in_range_def)

definition index_pairs :: "nat \<Rightarrow> edge list \<Rightarrow> (nat \<times> nat) list res" where
  "index_pairs n es = mapE (\<lambda>e. bindE (py_index n (dst e)) (\<lambda>d.
     bindE (py_index n (src e)) (\<lambda>s. Inr (s, d)))) es"

text \<open>
  Kahn's algorithm.  \<open>drop_pred\<close> is the inner loop, which lowers the count of each successor
  and appends those that reach zero to the queue; the indices are resolved, so it finds
  every count.
\<close>

definition drop_pred :: "int list \<times> nat list \<Rightarrow> nat \<Rightarrow> int list \<times> nat list" where
  "drop_pred = (\<lambda>(preds, ready) j.
     if j < length preds
     then let preds' = preds[j := preds ! j - 1]
          in (preds', if preds' ! j = 0 then ready @ [j] else ready)
     else (preds, ready))"

definition pending :: "int list \<Rightarrow> nat" where
  "pending preds = length (filter (\<lambda>c. c > 0) preds)"

lemma pending_drop: "c \<le> preds ! j \<Longrightarrow> pending (preds[j := c]) \<le> pending preds"
  by (induction preds arbitrary: j) (auto simp: pending_def split: nat.splits)

lemma pending_zero: "j < length preds \<Longrightarrow> preds ! j > 0 \<Longrightarrow> pending (preds[j := 0]) < pending preds"
  by (induction preds arbitrary: j) (auto simp: pending_def split: nat.splits)

lemma drop_pred_decreases:
  "pending (fst (foldl drop_pred (preds, ready) js)) + length (snd (foldl drop_pred (preds, ready) js))
   \<le> pending preds + length ready"
proof (induction js arbitrary: preds ready)
  case (Cons j js)
  have "pending (fst (drop_pred (preds, ready) j)) + length (snd (drop_pred (preds, ready) j))
      \<le> pending preds + length ready"
    using pending_drop [of "preds ! j - 1" preds j] pending_zero [of j preds]
    by (cases "j < length preds"; cases "preds ! j = 1") (auto simp: drop_pred_def Let_def)
  with Cons.IH [of "fst (drop_pred (preds, ready) j)" "snd (drop_pred (preds, ready) j)"]
  show ?case by simp
qed simp

function kahn :: "(nat \<times> nat) list \<Rightarrow> int list \<Rightarrow> nat list \<Rightarrow> nat list \<Rightarrow> nat list" where
  "kahn ps preds [] acc = acc"
| "kahn ps preds (i # ready) acc =
     (let (preds', ready') = foldl drop_pred (preds, ready) (sort (map snd (filter (\<lambda>p. fst p = i) ps)))
      in kahn ps preds' ready' (acc @ [i]))"
  by pat_completeness auto
termination
proof (relation "measure (\<lambda>(ps, preds, ready, acc). pending preds + length ready)")
  fix ps :: "(nat \<times> nat) list" and preds i ready and acc :: "nat list" and x and preds' :: "int list" and ready'
  assume "x = foldl drop_pred (preds, ready) (sort (map snd (filter (\<lambda>p. fst p = i) ps)))" "(preds', ready') = x"
  then have "foldl drop_pred (preds, ready) (sort (map snd (filter (\<lambda>p. fst p = i) ps))) = (preds', ready')"
    by simp
  then show "((ps, preds', ready', acc @ [i]), ps, preds, i # ready, acc)
      \<in> measure (\<lambda>(ps, preds, ready, acc). pending preds + length ready)"
    using drop_pred_decreases [of preds ready "sort (map snd (filter (\<lambda>p. fst p = i) ps))"]
    by (simp add: le_imp_less_Suc)
qed simp

definition topological_order :: "nat \<Rightarrow> edge list \<Rightarrow> nat list res" where
  "topological_order n es = bindE (index_pairs n (sorted_edges es)) (\<lambda>ps.
     let preds = map (\<lambda>i. int (length (filter (\<lambda>p. snd p = i) ps))) [0..<n];
         ready = filter (\<lambda>i. preds ! i = 0) [0..<n]
     in Inr (kahn ps preds ready []))"

text \<open>Why a trace is rejected; the constructors carry what the texts report.\<close>

datatype reason = MultisetMismatch "string list" "string list"
  | OptionsExceeded nat | CombinationsExceeded | NoAssignment
  | PrecedenceViolated nat nat | InChild nat reason
  | BranchDependent | NoWalk
  | ExpectsLabel string | EmitsNoLabel

text \<open>
  \<open>take_slot\<close> is the body of the loop over the trace: it pops the first slot of the label and
  gives the position to that child.
\<close>

definition add_slot :: "(string \<times> nat list) list \<Rightarrow> nat \<Rightarrow> string \<Rightarrow> (string \<times> nat list) list" where
  "add_slot slots i lbl = dict_set lbl (dict_get slots lbl [] @ [i]) slots"

definition take_slot :: "(string \<times> nat list) list \<times> nat list list \<Rightarrow> nat \<times> string
    \<Rightarrow> ((string \<times> nat list) list \<times> nat list list) res" where
  "take_slot = (\<lambda>(slots, positions) (p, lbl). case map_of slots lbl of
       None \<Rightarrow> Inl KeyError
     | Some [] \<Rightarrow> Inl IndexError
     | Some (i # rest) \<Rightarrow> Inr (dict_set lbl rest slots, positions[i := positions ! i @ [p]]))"

definition assign_positions :: "nat \<Rightarrow> edge list \<Rightarrow> trace \<Rightarrow> trace list \<Rightarrow> (reason + nat list list) res" where
  "assign_positions n es trace child_labels =
     (let expected = mset (concat child_labels); seen = mset trace
      in if expected \<noteq> seen
         then Inr (Inl (MultisetMismatch (sorted_list_of_multiset (expected - seen))
                          (sorted_list_of_multiset (seen - expected))))
         else bindE (topological_order n es) (\<lambda>topo.
           let slots = foldl (\<lambda>slots i. foldl (\<lambda>slots lbl. add_slot slots i lbl) slots (child_labels ! i)) [] topo
           in bindE (foldE take_slot (slots, replicate n []) (zip [0..<length trace] trace))
                (\<lambda>(slots, positions). Inr (Inr positions))))"

text \<open>The loop over the sorted closure.\<close>

fun check_precedence :: "nat list list \<Rightarrow> (nat \<times> nat) list \<Rightarrow> reason option" where
  "check_precedence assigned [] = None"
| "check_precedence assigned ((s, d) # ps) =
     (if assigned ! s = [] \<or> assigned ! d = [] then check_precedence assigned ps
      else if Max (set (assigned ! s)) \<ge> Min (set (assigned ! d)) then Some (PrecedenceViolated s d)
      else check_precedence assigned ps)"

type_synonym verdict = "reason option res"

text \<open>\<open>check_children\<close> is the loop over the children; \<open>checks\<close> are their own checks.\<close>

fun check_children :: "(trace \<Rightarrow> verdict) list \<Rightarrow> nat list list \<Rightarrow> trace \<Rightarrow> nat \<Rightarrow> verdict" where
  "check_children [] assigned trace i = Inr None"
| "check_children (c # cs) assigned trace i =
     bindE (c (map (\<lambda>p. trace ! p) (assigned ! i))) (\<lambda>r. case r of
         Some why \<Rightarrow> Inr (Some (InChild i why))
       | None \<Rightarrow> check_children cs assigned trace (Suc i))"

definition check_partial_order_fixed :: "(trace \<Rightarrow> verdict) list \<Rightarrow> edge list \<Rightarrow> edge list \<Rightarrow> trace \<Rightarrow> trace list
    \<Rightarrow> verdict" where
  "check_partial_order_fixed checks es cl trace child_labels =
     (let n = length checks in
      bindE (assign_positions n es trace child_labels) (\<lambda>r. case r of
          Inl why \<Rightarrow> Inr (Some why)
        | Inr assigned \<Rightarrow> bindE (index_pairs n (sorted_edges cl)) (\<lambda>ps.
            case check_precedence assigned ps of
              Some why \<Rightarrow> Inr (Some why)
            | None \<Rightarrow> check_children checks assigned trace 0)))"

fun try_combos :: "(trace list \<Rightarrow> verdict) \<Rightarrow> nat \<Rightarrow> reason option \<Rightarrow> trace list list \<Rightarrow> verdict" where
  "try_combos check tried first [] = Inr (Some (case first of Some why \<Rightarrow> why | None \<Rightarrow> NoAssignment))"
| "try_combos check tried first (combo # combos) =
     (if tried \<ge> MAX_LABEL_OPTIONS then Inr (Some CombinationsExceeded)
      else bindE (check combo) (\<lambda>r. case r of
          None \<Rightarrow> Inr None
        | Some why \<Rightarrow> try_combos check (Suc tried) (case first of None \<Rightarrow> Some why | Some w \<Rightarrow> Some w) combos))"

text \<open>\<open>gather_options\<close> is the first loop: the options of every child, or the child that has too many.\<close>

fun gather_options :: "pnode list \<Rightarrow> nat \<Rightarrow> (nat + trace list list) res" where
  "gather_options [] i = Inr (Inr [])"
| "gather_options (c # cs) i =
     bindE (label_options c) (\<lambda>opts. case opts of
         None \<Rightarrow> Inr (Inl i)
       | Some os \<Rightarrow> bindE (gather_options cs (Suc i)) (\<lambda>r. Inr (case r of
             Inl j \<Rightarrow> Inl j | Inr rest \<Rightarrow> Inr (os # rest))))"

definition check_partial_order :: "(trace \<Rightarrow> verdict) list \<Rightarrow> pnode list \<Rightarrow> edge list \<Rightarrow> edge list \<Rightarrow> trace \<Rightarrow> verdict" where
  "check_partial_order checks cs es cl trace =
     bindE (gather_options cs 0) (\<lambda>r. case r of
         Inl i \<Rightarrow> Inr (Some (OptionsExceeded i))
       | Inr per_child \<Rightarrow> try_combos (check_partial_order_fixed checks es cl trace) 0 None
           (product_lists per_child))"

section \<open>Choice graphs\<close>

text \<open>
  The breadth-first search over states (position, child); \<open>new_states\<close> is the inner loop that
  queues the successors not seen before.
\<close>

fun new_states :: "nat \<Rightarrow> int list \<Rightarrow> (nat \<times> int) list \<Rightarrow> (nat \<times> int) list" where
  "new_states nxt [] seen = []"
| "new_states nxt (d # ds) seen =
     (if (nxt, d) \<in> set seen then new_states nxt ds seen
      else (nxt, d) # new_states nxt ds ((nxt, d) # seen))"

lemma new_states_fresh:
  "distinct (new_states nxt ds seen) \<and> set (new_states nxt ds seen) = Pair nxt ` set ds - set seen"
  by (induction nxt ds seen rule: new_states.induct) auto

function match_loop :: "(trace \<Rightarrow> verdict) list \<Rightarrow> nat option list \<Rightarrow> edge list \<Rightarrow> int \<Rightarrow> trace
    \<Rightarrow> (nat \<times> int) list \<Rightarrow> (nat \<times> int) list \<Rightarrow> verdict" where
  "match_loop checks lengths es en trace [] seen = Inr (Some NoWalk)"
| "match_loop checks lengths es en trace ((pos, c) # frontier) seen =
     bindE (child_at lengths c) (\<lambda>len.
       let nxt = pos + the len in
       if nxt > length trace then match_loop checks lengths es en trace frontier seen
       else bindE (child_at checks c) (\<lambda>check.
            bindE (check (take (the len) (drop pos trace))) (\<lambda>r.
              if r \<noteq> None then match_loop checks lengths es en trace frontier seen
              else if c = en
              then (if nxt = length trace then Inr None
                    else match_loop checks lengths es en trace frontier seen)
              else let new = new_states nxt (ordered_succs es c) seen
                   in match_loop checks lengths es en trace (frontier @ new) (rev new @ seen))))"
  by pat_completeness auto
termination
proof (relation "measures [\<lambda>(checks, lengths, es, en, trace, frontier, seen).
      2 * card ({..length trace} \<times> dst ` set es - set seen) + length frontier]")
  fix checks :: "(trace \<Rightarrow> verdict) list" and lengths :: "nat option list" and es en trace pos c frontier seen nxt new
  assume nxt: "\<not> length trace < nxt" and new: "new = new_states nxt (ordered_succs es c) seen"
  let ?U = "{..length trace} \<times> dst ` set es"
  have sub: "set new \<subseteq> ?U - set seen" and dist: "distinct new"
    using nxt new_states_fresh [of nxt "ordered_succs es c" seen] by (auto simp: new ordered_succs_def)
  have "?U - set (rev new @ seen) = (?U - set seen) - set new" by auto
  moreover have "card ((?U - set seen) - set new) = card (?U - set seen) - length new"
    using sub dist by (simp add: card_Diff_subset distinct_card)
  moreover have "length new \<le> card (?U - set seen)"
    using card_mono [OF _ sub] dist by (simp add: distinct_card)
  ultimately show "((checks, lengths, es, en, trace, frontier @ new, rev new @ seen),
      checks, lengths, es, en, trace, (pos, c) # frontier, seen)
    \<in> measures [\<lambda>(checks, lengths, es, en, trace, frontier, seen).
      2 * card ({..length trace} \<times> dst ` set es - set seen) + length frontier]" by simp
qed simp_all

definition check_choice_graph :: "(trace \<Rightarrow> verdict) list \<Rightarrow> pnode list \<Rightarrow> edge list \<Rightarrow> int \<Rightarrow> int \<Rightarrow> trace \<Rightarrow> verdict" where
  "check_choice_graph checks cs es st en trace =
     bindE (mapE fixed_length cs) (\<lambda>lengths.
       if None \<in> set lengths then Inr (Some BranchDependent)
       else bindE (mapE (\<lambda>e. py_index (length cs) (src e)) (sorted_edges es)) (\<lambda>_.
         match_loop checks lengths es en trace [(0, st)] [(0, st)]))"

section \<open>Dispatch\<close>

fun check :: "pnode \<Rightarrow> trace \<Rightarrow> verdict" where
  "check (Atom l a b c) trace = (if trace = [l] then Inr None else Inr (Some (ExpectsLabel l)))"
| "check (PartialOrder cs es f cl d) trace =
     bindE (require_once f) (\<lambda>_. check_partial_order (map (\<lambda>c t. check c t) cs) cs es cl trace)"
| "check (ChoiceGraph cs es st en f d) trace =
     bindE (require_once f) (\<lambda>_. check_choice_graph (map (\<lambda>c t. check c t) cs) cs es st en trace)"
| "check (Foreign nm) trace = refuse PROHIBITED_NODE_KIND"
| "check v trace = (if trace = [] then Inr None else Inr (Some EmitsNoLabel))"

definition trace_in_language :: "pnode \<Rightarrow> trace \<Rightarrow> bool res" where
  "trace_in_language v trace = bindE (check v trace) (\<lambda>r. Inr (r = None))"

text \<open>\<open>explain\<close>: \<open>None\<close> is the text that accepts, \<open>Some\<close> the one that rejects.\<close>

definition explain :: "pnode \<Rightarrow> trace \<Rightarrow> verdict" where
  "explain v trace = check v trace"

section \<open>The assignment of positions\<close>

lemma set_kahn:
  assumes "set ready \<subseteq> {..<length preds}" "set acc \<subseteq> {..<length preds}"
  shows "set (kahn ps preds ready acc) \<subseteq> {..<length preds}"
  using assms
proof (induction ps preds ready acc rule: kahn.induct)
  case (2 ps preds i ready acc)
  have inv: "set (snd (foldl drop_pred (preds, ready) js)) \<subseteq> {..<length preds}
      \<and> length (fst (foldl drop_pred (preds, ready) js)) = length preds"
    if "set ready \<subseteq> {..<length preds}" for js preds ready
    using that
  proof (induction js arbitrary: preds ready)
    case (Cons j js)
    obtain p r where dp: "drop_pred (preds, ready) j = (p, r)" by fastforce
    then have "set r \<subseteq> {..<length p}" "length p = length preds"
      using Cons.prems by (auto simp: drop_pred_def Let_def split: if_splits)
    then show ?case using Cons.IH [of r p] dp by simp
  qed simp
  obtain preds' ready' where step:
    "foldl drop_pred (preds, ready) (sort (map snd (filter (\<lambda>p. fst p = i) ps))) = (preds', ready')"
    by fastforce
  have "set ready' \<subseteq> {..<length preds}" "length preds' = length preds"
    using inv [of ready preds "sort (map snd (filter (\<lambda>p. fst p = i) ps))"] "2.prems"(1) step by simp_all
  then show ?case using "2.IH" [OF step [symmetric] refl] "2.prems" by (simp add: step)
qed simp

lemma set_topological_order: "topological_order n es = Inr topo \<Longrightarrow> set topo \<subseteq> {..<n}"
proof -
  assume "topological_order n es = Inr topo"
  then obtain ps where "topo = kahn ps (map (\<lambda>i. int (length (filter (\<lambda>p. snd p = i) ps))) [0..<n])
      (filter (\<lambda>i. map (\<lambda>i. int (length (filter (\<lambda>p. snd p = i) ps))) [0..<n] ! i = 0) [0..<n]) []"
    (is "_ = kahn ps ?preds ?ready []")
    by (auto simp: topological_order_def bindE_Inr_iff Let_def)
  moreover have "set ?ready \<subseteq> {..<length ?preds}" "set [] \<subseteq> {..<length ?preds}" by auto
  ultimately show ?thesis using set_kahn [of ?ready ?preds "[]" ps] by simp
qed

definition slots_ok :: "nat \<Rightarrow> (string \<times> nat list) list \<Rightarrow> bool" where
  "slots_ok n slots \<longleftrightarrow> (\<forall>lbl q. map_of slots lbl = Some q \<longrightarrow> set q \<subseteq> {..<n})"

lemma slots_okD: "slots_ok n slots \<Longrightarrow> map_of slots lbl = Some q \<Longrightarrow> x \<in> set q \<Longrightarrow> x < n"
  unfolding slots_ok_def by blast

lemma slots_okI: "(\<And>lbl q x. map_of slots lbl = Some q \<Longrightarrow> x \<in> set q \<Longrightarrow> x < n) \<Longrightarrow> slots_ok n slots"
  unfolding slots_ok_def by blast

lemma slots_ok_add: "slots_ok n slots \<Longrightarrow> i < n \<Longrightarrow> slots_ok n (add_slot slots i lbl)"
  by (rule slots_okI)
    (auto simp: add_slot_def dict_get_def dest: slots_okD split: option.splits if_splits)

lemma slots_ok_fold:
  "slots_ok n slots \<Longrightarrow> set topo \<subseteq> {..<n} \<Longrightarrow>
   slots_ok n (foldl (\<lambda>slots i. foldl (\<lambda>slots lbl. add_slot slots i lbl) slots (labels i)) slots topo)"
proof (induction topo arbitrary: slots)
  case (Cons i topo)
  have "slots_ok n (foldl (\<lambda>slots lbl. add_slot slots i lbl) slots ls)" if "slots_ok n slots" for slots ls
    using that Cons.prems(2) by (induction ls arbitrary: slots) (auto intro: slots_ok_add)
  then show ?case using Cons by simp
qed simp

lemma take_slots:
  assumes "foldE take_slot (slots, pos) (zip [a..<a + length t] t) = Inr (slots', pos')"
    and "slots_ok n slots" "length pos = n"
  shows "\<exists>os. length os = length t \<and> set os \<subseteq> {..<n} \<and> length pos' = n
    \<and> (\<forall>i < n. pos' ! i = pos ! i @ map ((+) a) (filter (\<lambda>p. os ! p = i) [0..<length t]))"
  using assms
proof (induction t arbitrary: a slots pos)
  case (Cons lbl t)
  have "zip [a..<a + length (lbl # t)] (lbl # t) = (a, lbl) # zip [Suc a..<Suc a + length t] t"
    by (simp add: upt_conv_Cons del: upt_Suc)
  with Cons.prems(1) obtain k rest where k: "map_of slots lbl = Some (k # rest)"
    "foldE take_slot (dict_set lbl rest slots, pos[k := pos ! k @ [a]]) (zip [Suc a..<Suc a + length t] t) = Inr (slots', pos')"
    by (auto simp: take_slot_def split: option.splits list.splits simp del: upt_Suc)
  have ok: "slots_ok n (dict_set lbl rest slots)" "k < n"
    using slots_okD [OF Cons.prems(2) k(1)]
    by (auto intro!: slots_okI dest: slots_okD [OF Cons.prems(2)] split: if_splits)
  obtain os where os: "length os = length t" "set os \<subseteq> {..<n}" "length pos' = n"
    "\<forall>i < n. pos' ! i = pos[k := pos ! k @ [a]] ! i @ map ((+) (Suc a)) (filter (\<lambda>p. os ! p = i) [0..<length t])"
    using Cons.IH [OF k(2) ok(1)] Cons.prems(3) by auto
  have "filter (\<lambda>p. (k # os) ! p = i) [0..<length (lbl # t)]
      = (if k = i then [0] else []) @ map Suc (filter (\<lambda>p. os ! p = i) [0..<length t])" for i
    by (simp add: upt_conv_Cons map_Suc_upt [symmetric] filter_map comp_def del: upt_Suc)
  then have "\<forall>i < n. pos' ! i = pos ! i @ map ((+) a) (filter (\<lambda>p. (k # os) ! p = i) [0..<length (lbl # t)])"
    using os(4) ok(2) Cons.prems(3) by (auto simp: nth_list_update comp_def)
  then show ?case using os ok(2) by (intro exI [of _ "k # os"]) simp
qed simp

lemma assign_positions_owners:
  assumes "assign_positions n es trace labels = Inr (Inr positions)"
  obtains os where "length os = length trace" "set os \<subseteq> {..<n}" "length positions = n"
    "\<And>i. i < n \<Longrightarrow> positions ! i = filter (\<lambda>p. os ! p = i) [0..<length trace]"
proof -
  from assms obtain topo slots' where topo: "topological_order n es = Inr topo"
    and run: "foldE take_slot (foldl (\<lambda>slots i. foldl (\<lambda>slots lbl. add_slot slots i lbl) slots (labels ! i)) [] topo,
        replicate n []) (zip [0..<0 + length trace] trace) = Inr (slots', positions)"
    by (auto simp: assign_positions_def Let_def bindE_Inr_iff split: if_splits prod.splits)
  have ok: "slots_ok n (foldl (\<lambda>slots i. foldl (\<lambda>slots lbl. add_slot slots i lbl) slots (labels ! i)) [] topo)"
    using set_topological_order [OF topo] by (intro slots_ok_fold) (simp_all add: slots_ok_def)
  have zero: "map ((+) 0) xs = xs" for xs :: "nat list" by (induction xs) simp_all
  obtain os where "length os = length trace" "set os \<subseteq> {..<n}" "length positions = n"
    "\<forall>i < n. positions ! i = replicate n [] ! i @ map ((+) 0) (filter (\<lambda>p. os ! p = i) [0..<length trace])"
    using take_slots [OF run ok] by (metis length_replicate)
  then show ?thesis using that by (simp add: zero)
qed

lemma check_precedence_None:
  "check_precedence assigned ps = None \<Longrightarrow> (s, d) \<in> set ps \<Longrightarrow> p \<in> set (assigned ! s) \<Longrightarrow>
   q \<in> set (assigned ! d) \<Longrightarrow> p < q"
proof (induction assigned ps rule: check_precedence.induct)
  case (2 assigned s' d' ps)
  show ?case
  proof (cases "(s', d') = (s, d)")
    case True
    with 2 have "\<not> Max (set (assigned ! s)) \<ge> Min (set (assigned ! d))" by (auto split: if_splits)
    moreover have "p \<le> Max (set (assigned ! s))" "Min (set (assigned ! d)) \<le> q" using 2 by simp_all
    ultimately show ?thesis by linarith
  qed (use 2 in \<open>auto split: if_splits\<close>)
qed simp

lemma check_children_None:
  "check_children checks assigned trace k = Inr None \<Longrightarrow> i < length checks \<Longrightarrow>
   (checks ! i) (map (\<lambda>p. trace ! p) (assigned ! (k + i))) = Inr None"
proof (induction checks assigned trace k arbitrary: i rule: check_children.induct)
  case (2 c cs assigned trace k)
  then show ?case by (cases i) (auto simp: bindE_Inr_iff split: option.splits)
qed simp

lemma index_pairs_in_range:
  "order_edges_ok es n \<Longrightarrow> index_pairs n es = Inr (map (\<lambda>e. (nat (src e), nat (dst e))) es)"
  unfolding index_pairs_def by (rule mapE_total) (simp add: order_edges_ok_def)

lemma strand_zip:
  assumes "length os = length trace"
  shows "strand i (zip os trace) = map (\<lambda>p. trace ! p) (filter (\<lambda>p. os ! p = i) [0..<length trace])"
proof -
  have "zip os trace = map (\<lambda>p. (os ! p, trace ! p)) [0..<length trace]"
    using assms by (intro nth_equalityI) simp_all
  then show ?thesis by (simp add: strand_def filter_map comp_def)
qed

lemma check_partial_order_fixed_sound:
  assumes "check_partial_order_fixed checks es cl trace labels = Inr None"
    and ok: "order_edges_ok cl n" and checks: "length checks = n" "length Ls = n"
      "\<And>i t. i < n \<Longrightarrow> (checks ! i) t = Inr None \<Longrightarrow> t \<in> Ls ! i"
  shows "trace \<in> merge_lang (before cl) Ls"
proof -
  have ok': "order_edges_ok (sorted_edges cl) n" using ok by (simp add: order_edges_ok_def)
  from assms(1) obtain assigned where a: "assign_positions n es trace labels = Inr (Inr assigned)"
    and prec: "check_precedence assigned (map (\<lambda>e. (nat (src e), nat (dst e))) (sorted_edges cl)) = None"
    and children: "check_children checks assigned trace 0 = Inr None"
  proof -
    from assms(1) obtain r where r: "assign_positions n es trace labels = Inr r"
      by (auto simp: check_partial_order_fixed_def checks(1) bindE_Inr_iff)
    show thesis
    proof (cases r)
      case (Inr assigned)
      with assms(1) r show thesis using that [of assigned]
        by (auto simp: check_partial_order_fixed_def checks(1) index_pairs_in_range [OF ok'] split: option.splits)
    qed (use assms(1) r in \<open>simp add: check_partial_order_fixed_def checks(1)\<close>)
  qed
  from a obtain os where os: "length os = length trace" "set os \<subseteq> {..<n}"
    "\<And>i. i < n \<Longrightarrow> assigned ! i = filter (\<lambda>p. os ! p = i) [0..<length trace]"
    by (rule assign_positions_owners) blast
  let ?zs = "zip os trace"
  have "map snd ?zs = trace" using os(1) by simp
  moreover have "\<forall>z \<in> set ?zs. fst z < length Ls" using os(2) checks(2) by (auto dest!: set_zip_leftD)
  moreover have "strand i ?zs \<in> Ls ! i" if "i < length Ls" for i
    using check_children_None [OF children, of i] that checks os by (simp add: strand_zip)
  moreover have "keeps_order (before cl) ?zs"
  proof -
    have "\<not> before cl (os ! q) (os ! p)" if pq: "p < q" "q < length trace" for p q
    proof
      assume b: "before cl (os ! q) (os ! p)"
      have in_n: "os ! q < n" "os ! p < n" using pq os(1,2) by (auto simp: subset_iff)
      have "(os ! q, os ! p) \<in> set (map (\<lambda>e. (nat (src e), nat (dst e))) (sorted_edges cl))"
        using b by (force simp: before_def erel_def)
      moreover have "q \<in> set (assigned ! (os ! q))" "p \<in> set (assigned ! (os ! p))"
        using os(3) in_n pq by simp_all
      ultimately have "q < p" using check_precedence_None [OF prec] by blast
      with pq show False by simp
    qed
    then show ?thesis unfolding keeps_order_def sorted_wrt_iff_nth_less using os(1) by simp
  qed
  ultimately show ?thesis unfolding merge_lang_def by (intro CollectI exI [of _ ?zs]) auto
qed

lemma try_combos_None:
  "try_combos chk tried first combos = Inr None \<Longrightarrow> \<exists>combo \<in> set combos. chk combo = Inr None"
proof (induction combos arbitrary: tried first)
  case (Cons combo combos)
  then obtain r where r: "chk combo = Inr r" by (auto simp: bindE_Inr_iff split: if_splits)
  show ?case
  proof (cases r)
    case (Some why)
    with Cons r show ?thesis by (simp split: if_splits)
  qed (use r in simp)
qed simp

lemma check_partial_order_sound:
  assumes "check_partial_order checks cs es cl trace = Inr None"
    and "order_edges_ok cl n" "length checks = n" "length Ls = n"
      "\<And>i t. i < n \<Longrightarrow> (checks ! i) t = Inr None \<Longrightarrow> t \<in> Ls ! i"
  shows "trace \<in> merge_lang (before cl) Ls"
proof -
  from assms(1) obtain per_child where "try_combos (check_partial_order_fixed checks es cl trace) 0 None
      (product_lists per_child) = Inr None"
  proof -
    from assms(1) obtain r where r: "gather_options cs 0 = Inr r" by (auto simp: check_partial_order_def bindE_Inr_iff)
    with assms(1) that show thesis by (cases r) (simp_all add: check_partial_order_def)
  qed
  then obtain combo where "check_partial_order_fixed checks es cl trace combo = Inr None"
    by (auto dest: try_combos_None)
  then show ?thesis using assms(2-) by (rule check_partial_order_fixed_sound)
qed

section \<open>The search over walks\<close>

definition matched :: "edge list \<Rightarrow> int \<Rightarrow> trace set list \<Rightarrow> trace \<Rightarrow> nat \<times> int \<Rightarrow> bool" where
  "matched es st Ls trace = (\<lambda>(pos, c). in_range c (length Ls) \<and>
     (\<exists>ws. walk (erel es) st c (ws @ [c]) \<and> take pos trace \<in> conc_list (map (\<lambda>i. Ls ! nat i) ws)))"

lemma match_loop_sound:
  assumes "match_loop checks lengths es en trace frontier seen = Inr None"
    and "length checks = length Ls" "length lengths = length Ls"
    and "\<And>i t. i < length Ls \<Longrightarrow> (checks ! i) t = Inr None \<Longrightarrow> t \<in> Ls ! i"
    and "choice_edges_ok es (length Ls) st en" "\<And>s. s \<in> set frontier \<Longrightarrow> matched es st Ls trace s"
  shows "trace \<in> graph_lang None (erel es) st en Ls"
  using assms
proof (induction checks lengths es en trace frontier seen rule: match_loop.induct [case_names stop loop])
  case (loop checks lengths es en trace pos c frontier seen)
  have m: "matched es st Ls trace (pos, c)" using loop.prems(6) by simp
  then have c: "in_range c (length Ls)" by (simp add: matched_def)
  let ?len = "the (lengths ! nat c)"
  have ch: "child_at lengths c = Inr (lengths ! nat c)" "child_at checks c = Inr (checks ! nat c)"
    using c loop.prems(2,3) by simp_all
  note IH = loop.IH [OF ch(1) refl, simplified] and rest = loop.prems(2-5)
  show ?case
  proof (cases "pos + ?len > length trace")
    case True
    then show ?thesis using loop.IH(1) [OF ch(1) refl True] loop.prems by (simp add: ch Let_def)
  next
    case False
    then obtain r where r: "(checks ! nat c) (take ?len (drop pos trace)) = Inr r"
      using loop.prems(1) by (auto simp: ch Let_def bindE_Inr_iff)
    show ?thesis
    proof (cases "r = None")
      case no: False
      then show ?thesis using loop.IH(2) [OF ch(1) refl False ch(2) r no] loop.prems False
        by (simp add: ch r Let_def)
    next
      case True
      have sub: "take ?len (drop pos trace) \<in> Ls ! nat c"
        using loop.prems(4) c r True in_range_nat by blast
      obtain ws where ws: "walk (erel es) st c (ws @ [c])" "take pos trace \<in> conc_list (map (\<lambda>i. Ls ! nat i) ws)"
        using m by (auto simp: matched_def)
      have next_part: "take (pos + ?len) trace \<in> conc_list (map (\<lambda>i. Ls ! nat i) (ws @ [c]))"
        using concI [OF ws(2) sub] by (simp add: conc_list_append take_add)
      show ?thesis
      proof (cases "c = en")
        case at_end: True
        show ?thesis
        proof (cases "pos + ?len = length trace")
          case True
          then have "trace \<in> conc_list (map (\<lambda>i. Ls ! nat i) (ws @ [c]))" using next_part by simp
          then show ?thesis using ws(1) at_end unfolding graph_lang_def
            by (intro UN_I [of "ws @ [c]"]) (simp_all add: within_def)
        next
          case short: False
          have "match_loop checks lengths es en trace frontier seen = Inr None"
            using loop.prems(1) False True short ch r unfolding at_end by (simp add: Let_def)
          moreover have "\<not> r \<noteq> None" using True by simp
          ultimately show ?thesis using loop.IH(3) [OF ch(1) refl False ch(2) r _ at_end short] loop.prems
            by simp
        qed
      next
        case go: False
        let ?new = "new_states (pos + ?len) (ordered_succs es c) seen"
        have "matched es st Ls trace s" if s: "s \<in> set ?new" for s
        proof -
          obtain d where d: "s = (pos + ?len, d)" "(c, d) \<in> erel es"
            using s new_states_fresh [of "pos + ?len" "ordered_succs es c" seen]
            by (auto simp: ordered_succs_def erel_def)
          moreover have "in_range d (length Ls)" using d(2) loop.prems(5) by (auto simp: choice_edges_ok_def erel_def)
          ultimately show ?thesis using walk_snoc [OF ws(1) d(2)] next_part
            by (auto simp: matched_def intro!: exI [of _ "ws @ [c]"])
        qed
        then have "\<And>s. s \<in> set (frontier @ ?new) \<Longrightarrow> matched es st Ls trace s" using loop.prems(6) by auto
        moreover have "match_loop checks lengths es en trace (frontier @ ?new) (rev ?new @ seen) = Inr None"
          using loop.prems(1) False True go by (simp add: ch r Let_def)
        ultimately show ?thesis using loop.IH(4) [OF ch(1) refl False ch(2) r _ go refl] True rest by blast
      qed
    qed
  qed
qed simp

lemma bounded_powers_ONCE [simp]: "bounded_powers None ONCE L = L"
proof -
  have "{n. allows ONCE (int n) \<and> (fmax ONCE = None \<longrightarrow> within None n)} = {1}" by (auto simp: within_def)
  then show ?thesis by (simp add: bounded_powers_def)
qed

lemma require_once_iff: "require_once f = Inr u \<longleftrightarrow> f = ONCE"
  by (simp add: require_once_def)

lemma check_sound: "wf_node v \<Longrightarrow> check v trace = Inr None \<Longrightarrow> trace \<in> den None v"
proof (induction v arbitrary: trace)
  case (PartialOrder cs es f cl d)
  note D = wf_partial_orderD [OF PartialOrder.prems(1)]
  have f: "f = ONCE" and acc: "check_partial_order (map (\<lambda>c t. check c t) cs) cs es cl trace = Inr None"
    using PartialOrder.prems(2) by (auto simp: bindE_Inr_iff require_once_iff)
  have "trace \<in> merge_lang (before cl) (map (den None) cs)"
    using acc D(3) by (rule check_partial_order_sound) (use PartialOrder.IH D(8) in auto)
  then show ?case by (simp add: f)
next
  case (ChoiceGraph cs es st en f d)
  note D = wf_choice_graphD [OF ChoiceGraph.prems(1)]
  let ?checks = "map (\<lambda>c t. check c t) cs" and ?Ls = "map (den None) cs"
  obtain lengths where f: "f = ONCE" and lengths: "mapE fixed_length cs = Inr lengths"
    and acc: "match_loop ?checks lengths es en trace [(0, st)] [(0, st)] = Inr None"
    using ChoiceGraph.prems(2)
    by (auto simp: bindE_Inr_iff require_once_iff check_choice_graph_def split: if_splits)
  have "matched es st ?Ls trace (0, st)" using D(3) by (auto simp: matched_def walk_def intro!: exI [of _ "[]"])
  moreover have "length lengths = length cs" using lengths by (auto simp: mapE_Inr_iff dest: list_all2_lengthD)
  ultimately have "trace \<in> graph_lang None (erel es) st en ?Ls"
    using D(2) ChoiceGraph.IH D(7) by (intro match_loop_sound [OF acc]) auto
  then show ?case by (simp add: f)
qed (auto split: if_splits)

end
