(* ===== verification/Powl_Decides.thy ===== *)
theory Powl_Decides
  imports Powl_Membership
begin

text \<open>
  The properties of \<^verbatim>\<open>powl/membership.py\<close>: Kahn's loop yields a topological order, the
  check always comes to a verdict on models whose frequencies are all \<open>ONCE\<close>, what it
  accepts is in the language, and a trace of the language that it rejects.
\<close>

section \<open>Kahn's order\<close>

lemma drop_preds:
  assumes "\<forall>j. int (count_list js j) \<le> (if j < length preds then preds ! j else 0)"
    and "distinct ready" "\<forall>j \<in> set ready. preds ! j = 0"
    and "foldl drop_pred (preds, ready) js = (preds', ready')"
  shows "length preds' = length preds \<and> (\<forall>j < length preds. preds' ! j = preds ! j - int (count_list js j))
    \<and> distinct ready' \<and> set ready' = set ready \<union> {j \<in> set js. preds' ! j = 0}"
  using assms
proof (induction js arbitrary: preds ready)
  case (Cons j js)
  let ?p = "preds[j := preds ! j - 1]" and ?r = "if preds ! j = 1 then ready @ [j] else ready"
  have j: "j < length preds" "1 \<le> preds ! j"
    using Cons.prems(1) [rule_format, of j] by (auto split: if_splits)
  then have fresh: "j \<notin> set ready" using Cons.prems(3) by auto
  have step: "foldl drop_pred (?p, ?r) js = (preds', ready')"
    using Cons.prems(4) j by (simp add: drop_pred_def Let_def)
  have "\<forall>x. int (count_list js x) \<le> (if x < length ?p then ?p ! x else 0)"
  proof
    fix x show "int (count_list js x) \<le> (if x < length ?p then ?p ! x else 0)"
      using Cons.prems(1) [rule_format, of x] j by (cases "x = j") (auto split: if_splits)
  qed
  moreover have "distinct ?r" "\<forall>x \<in> set ?r. ?p ! x = 0"
    using Cons.prems(2,3) fresh j by (auto simp: nth_list_update)
  ultimately have IH: "length preds' = length ?p" "\<forall>x < length ?p. preds' ! x = ?p ! x - int (count_list js x)"
    "distinct ready'" "set ready' = set ?r \<union> {x \<in> set js. preds' ! x = 0}"
    using Cons.IH [OF _ _ _ step] by blast+
  have pj: "preds' ! j = preds ! j - 1 - int (count_list js j)" using IH(2) j by simp
  have "set ?r \<union> {x \<in> set js. preds' ! x = 0} = set ready \<union> {x \<in> set (j # js). preds' ! x = 0}"
  proof (cases "preds ! j = 1")
    case True
    have "int (count_list js j) \<le> 0" using Cons.prems(1) [rule_format, of j] j True by simp
    with True pj show ?thesis by auto
  next
    case False
    have "j \<in> set js" if "preds' ! j = 0"
    proof (rule ccontr)
      assume "j \<notin> set js"
      then show False using pj that False by (simp add: count_notin)
    qed
    with False show ?thesis by auto
  qed
  with IH j show ?case by (auto simp: nth_list_update)
qed auto

definition kahn_inv :: "(nat \<times> nat) list \<Rightarrow> nat \<Rightarrow> int list \<Rightarrow> nat list \<Rightarrow> nat list \<Rightarrow> bool" where
  "kahn_inv ps n preds ready acc \<longleftrightarrow> length preds = n \<and> distinct (acc @ ready)
     \<and> (\<forall>j < n. preds ! j = int (length (filter (\<lambda>p. snd p = j \<and> fst p \<notin> set acc) ps)))
     \<and> set (acc @ ready) = {j. j < n \<and> preds ! j = 0}
     \<and> (\<forall>(s, d) \<in> set ps. \<forall>k < length acc. acc ! k = d \<longrightarrow> s \<in> set (take k acc))"

lemma count_sort [simp]: "count_list (sort xs) x = count_list xs x"
  by (simp flip: count_mset)

lemma count_list_map_snd:
  "count_list (map snd (filter (\<lambda>p. fst p = i) ps)) j = length (filter (\<lambda>p. snd p = j \<and> fst p = i) ps)"
  by (induction ps) auto

lemma length_filter_split:
  "length (filter (\<lambda>p. P p \<and> Q p) xs) + length (filter (\<lambda>p. P p \<and> \<not> Q p) xs) = length (filter P xs)"
  by (induction xs) auto

text \<open>One position is taken; its successors are visited in any order.\<close>

lemma kahn_step_any:
  assumes inv: "kahn_inv ps n preds (i # ready) acc" and ps: "\<forall>(s, d) \<in> set ps. s < n \<and> d < n"
    and any: "mset js = mset (map snd (filter (\<lambda>p. fst p = i) ps))"
    and step: "foldl drop_pred (preds, ready) js = (preds', ready')"
  shows "kahn_inv ps n preds' ready' (acc @ [i])"
proof -
  let ?js = js
  let ?pend = "\<lambda>acc j. length (filter (\<lambda>p. snd p = j \<and> fst p \<notin> set acc) ps)"
  have I: "length preds = n" "distinct (acc @ i # ready)" "\<And>j. j < n \<Longrightarrow> preds ! j = int (?pend acc j)"
    "set (acc @ i # ready) = {j. j < n \<and> preds ! j = 0}"
    "\<forall>(s, d) \<in> set ps. \<forall>k < length acc. acc ! k = d \<longrightarrow> s \<in> set (take k acc)"
    using inv by (simp_all add: kahn_inv_def)
  have count: "count_list ?js j = length (filter (\<lambda>p. snd p = j \<and> fst p = i) ps)" for j
    using any count_list_map_snd [of i ps j] by (simp flip: count_mset)
  have split: "count_list ?js j + ?pend (acc @ [i]) j = ?pend acc j" for j
  proof -
    have "filter (\<lambda>p. (snd p = j \<and> fst p \<notin> set acc) \<and> fst p = i) ps = filter (\<lambda>p. snd p = j \<and> fst p = i) ps"
      "filter (\<lambda>p. (snd p = j \<and> fst p \<notin> set acc) \<and> fst p \<noteq> i) ps = filter (\<lambda>p. snd p = j \<and> fst p \<notin> set (acc @ [i])) ps"
      using I(2) by (auto intro: filter_cong)
    then show ?thesis
      using length_filter_split [of "\<lambda>p. snd p = j \<and> fst p \<notin> set acc" "\<lambda>p. fst p = i" ps] count by simp
  qed
  have js: "set ?js \<subseteq> {..<n}" using ps mset_eq_setD [OF any] by auto
  have le: "\<forall>j. int (count_list ?js j) \<le> (if j < length preds then preds ! j else 0)"
  proof
    fix j show "int (count_list ?js j) \<le> (if j < length preds then preds ! j else 0)"
    proof (cases "j < n")
      case True
      then show ?thesis using split [of j] I(1,3) by simp
    next
      case False
      then have "j \<notin> set ?js" using js by auto
      then show ?thesis using False I(1) by (simp add: count_notin)
    qed
  qed
  have "distinct ready" "\<forall>j \<in> set ready. preds ! j = 0" using I(2,4) by auto
  from drop_preds [OF le this step]
  have R: "length preds' = n" "\<And>j. j < n \<Longrightarrow> preds' ! j = preds ! j - int (count_list ?js j)"
    "distinct ready'" "set ready' = set ready \<union> {j \<in> set ?js. preds' ! j = 0}"
    using I(1) by auto
  have p': "preds' ! j = int (?pend (acc @ [i]) j)" if "j < n" for j
    using R(2) [OF that] I(3) [OF that] split [of j] by simp
  have pos: "preds ! j > 0" if "j \<in> set ?js" for j
  proof -
    have "count_list ?js j > 0" using that by (metis count_list_0_iff gr0I)
    moreover have "j < n" using js that by blast
    ultimately show ?thesis using split [of j] I(3) [of j] by linarith
  qed
  have all: "set ((acc @ [i]) @ ready') = {j. j < n \<and> preds' ! j = 0}"
  proof -
    have old: "set (acc @ [i]) \<union> set ready = {j. j < n \<and> preds ! j = 0}" using I(4) by auto
    have "preds' ! j = 0 \<longleftrightarrow> preds ! j = 0 \<or> j \<in> set ?js \<and> preds' ! j = 0" if "j < n" for j
    proof -
      have "preds ! j = 0 \<Longrightarrow> preds' ! j = 0" using split [of j] I(3) [OF that] p' [OF that] by simp
      moreover have "preds' ! j = preds ! j" if "j \<notin> set ?js"
        using R(2) [OF \<open>j < n\<close>] that by (simp add: count_notin)
      ultimately show ?thesis by metis
    qed
    then have new: "{j. j < n \<and> preds' ! j = 0} = {j. j < n \<and> preds ! j = 0} \<union> {j \<in> set ?js. preds' ! j = 0}"
      using js by blast
    have "set ((acc @ [i]) @ ready') = set (acc @ [i]) \<union> set ready \<union> {j \<in> set ?js. preds' ! j = 0}"
      unfolding set_append R(4) by (simp only: Un_assoc)
    then show ?thesis unfolding old new .
  qed
  have dist: "distinct ((acc @ [i]) @ ready')"
  proof -
    have new: "j \<notin> set (acc @ [i])" if "j \<in> set ?js" for j
    proof
      assume "j \<in> set (acc @ [i])"
      then have "j \<in> set (acc @ i # ready)" by auto
      then have "preds ! j = 0" unfolding I(4) by simp
      with pos [OF that] show False by simp
    qed
    have "set (acc @ [i]) \<inter> set ready = {}" using I(2) by auto
    moreover have "set (acc @ [i]) \<inter> {j \<in> set ?js. preds' ! j = 0} = {}" using new by blast
    ultimately have "set (acc @ [i]) \<inter> set ready' = {}" unfolding R(4) by blast
    then show ?thesis using I(2) R(3) by simp
  qed
  have "\<forall>(s, d) \<in> set ps. \<forall>k < length (acc @ [i]). (acc @ [i]) ! k = d \<longrightarrow> s \<in> set (take k (acc @ [i]))"
  proof (intro ballI allI impI, clarify)
    fix s d k assume e: "(s, (acc @ [i]) ! k) \<in> set ps" and k: "k < length (acc @ [i])"
    show "s \<in> set (take k (acc @ [i]))"
    proof (cases "k < length acc")
      case True
      then show ?thesis using I(5) e by (auto simp: nth_append)
    next
      case False
      then have "k = length acc" using k by simp
      moreover have "i < n" "preds ! i = 0" using I(4) by auto
      then have "filter (\<lambda>p. snd p = i \<and> fst p \<notin> set acc) ps = []" using I(3) [of i] by simp
      then have "s \<in> set acc" if "(s, i) \<in> set ps" using that by (auto simp: filter_empty_conv)
      ultimately show ?thesis using e by simp
    qed
  qed
  with R(1) p' all dist show ?thesis unfolding kahn_inv_def by blast
qed

lemmas kahn_step = kahn_step_any [OF _ _ mset_sort]

lemma kahn_inv_perm: "kahn_inv ps n preds ready acc \<Longrightarrow> mset ready = mset ready' \<Longrightarrow> kahn_inv ps n preds ready' acc"
proof -
  assume inv: "kahn_inv ps n preds ready acc" and m: "mset ready = mset ready'"
  then have s: "set ready' = set ready" "distinct ready' = distinct ready"
    by (metis mset_eq_setD, metis mset_eq_imp_distinct_iff)
  show ?thesis using inv unfolding kahn_inv_def by (simp add: s)
qed

lemma kahn_inv_final:
  "kahn_inv ps n preds ready acc \<Longrightarrow> \<forall>(s, d) \<in> set ps. s < n \<and> d < n \<Longrightarrow>
   \<exists>preds'. kahn_inv ps n preds' [] (kahn ps preds ready acc)"
proof (induction ps preds ready acc rule: kahn.induct)
  case (2 ps preds i ready acc)
  obtain preds' ready' where step:
    "foldl drop_pred (preds, ready) (sort (map snd (filter (\<lambda>p. fst p = i) ps))) = (preds', ready')"
    by fastforce
  have "kahn_inv ps n preds' ready' (acc @ [i])" using kahn_step [OF "2.prems" step] .
  then show ?case using "2.IH" [OF step [symmetric] refl] "2.prems"(2) by (simp add: step)
qed auto

lemma kahn_inv_doneD:
  assumes "kahn_inv ps n preds [] acc"
  shows "distinct acc" "j < n \<Longrightarrow> preds ! j = int (length (filter (\<lambda>p. snd p = j \<and> fst p \<notin> set acc) ps))"
    "set acc = {j. j < n \<and> preds ! j = 0}"
    "\<forall>(s, d) \<in> set ps. \<forall>k < length acc. acc ! k = d \<longrightarrow> s \<in> set (take k acc)"
  using assms unfolding kahn_inv_def append_Nil2 by blast+

lemma kahn_all:
  assumes ok: "order_edges_ok es n" and acyc: "acyclic (erel es)"
    and fin: "kahn_inv ps n preds' [] topo" and ps: "set ps = (\<lambda>e. (nat (src e), nat (dst e))) ` set es"
  shows "set topo = {..<n}"
proof -
  let ?ps = ps
  note F = kahn_inv_doneD [OF fin]
  have "{..<n} - set topo = {}"
  proof (rule ccontr)
    assume "{..<n} - set topo \<noteq> {}"
    then obtain x where x: "x \<in> int ` ({..<n} - set topo)" by blast
    have "wf (erel es)" using acyc by (simp add: finite_acyclic_wf)
    then obtain m where m: "m \<in> int ` ({..<n} - set topo)"
      "\<And>y. (y, m) \<in> erel es \<Longrightarrow> y \<notin> int ` ({..<n} - set topo)"
      using x by (rule wfE_min) (rule that)
    then obtain j where j: "m = int j" "j < n" "j \<notin> set topo" by auto
    have "preds' ! j \<noteq> 0" using j(2,3) unfolding F(3) by blast
    then have "length (filter (\<lambda>p. snd p = j \<and> fst p \<notin> set topo) ?ps) \<noteq> 0" unfolding F(2) [OF j(2)] by simp
    then have "filter (\<lambda>p. snd p = j \<and> fst p \<notin> set topo) ?ps \<noteq> []" by blast
    then obtain p where "p \<in> set (filter (\<lambda>p. snd p = j \<and> fst p \<notin> set topo) ?ps)" by (meson last_in_set)
    then obtain e where e: "e \<in> set es" "nat (dst e) = j" "nat (src e) \<notin> set topo"
      using ps by auto
    have r: "in_range (src e) n" "in_range (dst e) n" using ok e(1) by (simp_all add: order_edges_ok_def)
    then have ends: "int (nat (src e)) = src e" "dst e = m" using e(2) j(1) by (auto simp: in_range_def)
    have "(src e, m) \<in> erel es" using e(1) unfolding ends(2) [symmetric] by (simp add: erel_def)
    from m(2) [OF this] have "src e \<notin> int ` ({..<n} - set topo)" .
    moreover have "nat (src e) \<in> {..<n} - set topo" using in_range_nat [OF r(1)] e(3) by blast
    then have "int (nat (src e)) \<in> int ` ({..<n} - set topo)" by (rule imageI)
    ultimately show False unfolding ends(1) by (rule notE)
  qed
  moreover have "set topo \<subseteq> {..<n}" unfolding F(3) by blast
  ultimately show ?thesis by blast
qed

lemma topological_order_Inr:
  assumes ok: "order_edges_ok es n" and acyc: "acyclic (erel es)"
  obtains topo where "topological_order n es = Inr topo" "distinct topo" "set topo = {..<n}"
    "\<And>e k. e \<in> set es \<Longrightarrow> k < length topo \<Longrightarrow> topo ! k = nat (dst e) \<Longrightarrow> nat (src e) \<in> set (take k topo)"
proof -
  let ?ps = "map (\<lambda>e. (nat (src e), nat (dst e))) (sorted_edges es)"
  let ?preds = "map (\<lambda>i. int (length (filter (\<lambda>p. snd p = i) ?ps))) [0..<n]"
  let ?ready = "filter (\<lambda>i. ?preds ! i = 0) [0..<n]"
  have ok': "order_edges_ok (sorted_edges es) n" using ok by (simp add: order_edges_ok_def)
  have ps: "\<forall>(s, d) \<in> set ?ps. s < n \<and> d < n" using ok by (auto simp: order_edges_ok_def in_range_nat)
  have "kahn_inv ?ps n ?preds ?ready []" unfolding kahn_inv_def by auto
  from kahn_inv_final [OF this ps] obtain preds' where fin: "kahn_inv ?ps n preds' [] (kahn ?ps ?preds ?ready [])"
    by blast
  let ?topo = "kahn ?ps ?preds ?ready []"
  note F = kahn_inv_doneD [OF fin]
  have run: "topological_order n es = Inr ?topo"
    unfolding topological_order_def index_pairs_in_range [OF ok'] by (simp add: Let_def)
  show ?thesis
  proof (rule that [OF run F(1) kahn_all [OF ok acyc fin]], simp)
    fix e k assume "e \<in> set es" "k < length ?topo" "?topo ! k = nat (dst e)"
    moreover from this(1) have "(nat (src e), nat (dst e)) \<in> set ?ps" by simp
    ultimately show "nat (src e) \<in> set (take k ?topo)" using F(4) by blast
  qed
qed

section \<open>A verdict is always reached\<close>

lemma take_slots_total:
  "\<forall>lbl. count_list t lbl \<le> length (dict_get slots lbl []) \<Longrightarrow>
   \<exists>r. foldE take_slot (slots, pos) (zip [a..<a + length t] t) = Inr r"
proof (induction t arbitrary: a slots pos)
  case (Cons lbl t)
  have zip: "zip [a..<a + length (lbl # t)] (lbl # t) = (a, lbl) # zip [Suc a..<Suc a + length t] t"
    by (simp add: upt_conv_Cons del: upt_Suc)
  have "1 \<le> length (dict_get slots lbl [])" using Cons.prems [rule_format, of lbl] by simp
  then obtain k rest where k: "map_of slots lbl = Some (k # rest)"
    by (cases "map_of slots lbl"; cases "the (map_of slots lbl)") (auto simp: dict_get_def)
  have "count_list t l \<le> length (dict_get (dict_set lbl rest slots) l [])" for l
    using Cons.prems [rule_format, of l] k by (auto simp: dict_get_def split: if_splits)
  then obtain r where "foldE take_slot (dict_set lbl rest slots, pos[k := pos ! k @ [a]]) (zip [Suc a..<Suc a + length t] t) = Inr r"
    using Cons.IH by metis
  then show ?case unfolding zip by (simp add: take_slot_def k)
qed simp

lemma length_slots:
  "length (dict_get (foldl (\<lambda>slots i. foldl (\<lambda>slots lbl. add_slot slots i lbl) slots (labels i)) slots topo) lbl [])
   = length (dict_get slots lbl []) + (\<Sum>i \<leftarrow> topo. count_list (labels i) lbl)"
proof (induction topo arbitrary: slots)
  case (Cons i topo)
  have "length (dict_get (foldl (\<lambda>slots l. add_slot slots i l) slots ls) lbl []) = length (dict_get slots lbl []) + count_list ls lbl"
    for slots ls
    by (induction ls arbitrary: slots) (simp_all add: add_slot_def)
  with Cons show ?case by simp
qed simp

lemma count_concat: "count_list (concat xss) x = (\<Sum>xs \<leftarrow> xss. count_list xs x)"
  by (induction xss) simp_all

lemma assign_positions_total:
  assumes "order_edges_ok es n" "acyclic (erel es)" "length labels = n"
  shows "\<exists>r. assign_positions n es trace labels = Inr r"
proof (cases "mset (concat labels) = mset trace")
  case True
  obtain topo where topo: "topological_order n es = Inr topo" "distinct topo" "set topo = {..<n}"
    using topological_order_Inr [OF assms(1,2)] by metis
  let ?slots = "foldl (\<lambda>slots i. foldl (\<lambda>slots lbl. add_slot slots i lbl) slots (labels ! i)) [] topo"
  have "mset topo = mset [0..<n]" using topo(2,3) by (simp only: set_eq_iff_mset_eq_distinct [symmetric] distinct_upt atLeast_upt)
  then have "(\<Sum>i \<leftarrow> topo. count_list (labels ! i) lbl) = (\<Sum>i \<leftarrow> [0..<n]. count_list (labels ! i) lbl)" for lbl
    by (simp only: sum_mset_sum_list [symmetric] mset_map \<open>mset topo = mset [0..<n]\<close>)
  moreover have "(\<Sum>i \<leftarrow> [0..<n]. count_list (labels ! i) lbl) = count_list (concat labels) lbl" for lbl
    unfolding count_concat by (rule arg_cong [where f = sum_list]) (rule nth_equalityI, simp_all add: assms(3))
  moreover have "count_list (concat labels) lbl = count_list trace lbl" for lbl
    by (simp only: count_mset [symmetric] True)
  ultimately have "\<forall>lbl. count_list trace lbl \<le> length (dict_get ?slots lbl [])"
    by (simp add: length_slots)
  from take_slots_total [OF this, of "replicate n []" 0]
  obtain r where "foldE take_slot (?slots, replicate n []) (zip [0..<length trace] trace) = Inr r" by auto
  then show ?thesis using True topo(1) by (cases r) (simp add: assign_positions_def Let_def)
qed (simp add: assign_positions_def Let_def)

fun all_once :: "pnode \<Rightarrow> bool" where
  "all_once (PartialOrder cs es f cl d) \<longleftrightarrow> f = ONCE \<and> (\<forall>c \<in> set cs. all_once c)"
| "all_once (ChoiceGraph cs es st en f d) \<longleftrightarrow> f = ONCE \<and> (\<forall>c \<in> set cs. all_once c)"
| "all_once _ \<longleftrightarrow> True"

text \<open>The only exception that may leave the enumeration of options is the internal one.\<close>

definition quiet_exn :: "'a opt_res \<Rightarrow> bool" where
  "quiet_exn r \<longleftrightarrow> (\<forall>x. r \<noteq> Inl (Raised x))"

lemma quiet_exn_simps [simp]: "quiet_exn (Inr y)" "quiet_exn (Inl TooManyOptions)" "\<not> quiet_exn (Inl (Raised x))"
  by (simp_all add: quiet_exn_def)

lemma quiet_exn_bind: "quiet_exn r \<Longrightarrow> (\<And>y. r = Inr y \<Longrightarrow> quiet_exn (f y)) \<Longrightarrow> quiet_exn (bindE r f)"
  by (cases r) (auto simp: quiet_exn_def)

lemma quiet_exn_foldE: "(\<And>s x. x \<in> set xs \<Longrightarrow> quiet_exn (f s x)) \<Longrightarrow> quiet_exn (foldE f s xs)"
  by (induction xs arbitrary: s) (auto intro!: quiet_exn_bind)

lemma quiet_extend: "quiet_exn (extend_options acc opts)"
  unfolding extend_options_def Let_def by (intro quiet_exn_foldE) simp

lemma quiet_option_walk:
  assumes "\<And>r. r \<in> set optss \<Longrightarrow> quiet_exn r" "\<And>e. e \<in> set es \<Longrightarrow> in_range (dst e) (length optss)"
    "in_range cur (length optss)"
  shows "quiet_exn (option_walk optss es en cur visited prefixes out)"
  using assms
proof (induction optss es en cur visited prefixes out rule: option_walk.induct)
  case (1 optss es en cur visited prefixes out)
  have ch: "child_at optss cur = Inr (optss ! nat cur)" and mem: "optss ! nat cur \<in> set optss"
    using 1(4) by (simp_all add: in_range_nat)
  show ?case
  proof (cases "optss ! nat cur")
    case (Inl x)
    then show ?thesis using 1(2) [OF mem] by (subst option_walk.simps) (simp add: ch)
  next
    case (Inr opts)
    let ?here = "concat (map (\<lambda>p. map (\<lambda>opt. p @ opt) opts) prefixes)"
    have "quiet_exn (foldE (\<lambda>out d. if d \<in> set visited then Inr out
        else option_walk optss es en d (d # visited) ?here out) out (ordered_succs es cur))"
      if "\<not> length ?here > MAX_LABEL_OPTIONS" "cur \<noteq> en"
    proof (rule quiet_exn_foldE)
      fix o' d assume d: "d \<in> set (ordered_succs es cur)"
      then have "in_range d (length optss)" using 1(3) by (auto simp: ordered_succs_def)
      then show "quiet_exn (if d \<in> set visited then Inr o'
          else option_walk optss es en d (d # visited) ?here o')"
        using 1(1) [OF _ _ refl that d] ch Inr 1(2,3) by simp
    qed
    then show ?thesis by (subst option_walk.simps) (simp add: ch Inr Let_def)
  qed
qed

lemma quiet_label_options: "wf_node v \<Longrightarrow> all_once v \<Longrightarrow> quiet_exn (inner_label_options v)"
proof (induction v)
  case (PartialOrder cs es f cl d)
  have "quiet_exn (foldE (\<lambda>acc child. bindE (inner_label_options child) (extend_options acc)) [[]] cs)"
    using PartialOrder wf_partial_orderD(8) [OF PartialOrder.prems(1)]
    by (intro quiet_exn_foldE quiet_exn_bind quiet_extend) auto
  then show ?case using PartialOrder.prems(2) by (auto simp: require_once_def intro!: quiet_exn_bind)
next
  case (ChoiceGraph cs es st en f d)
  note D = wf_choice_graphD [OF ChoiceGraph.prems(1)]
  have "quiet_exn (option_walk (map inner_label_options cs) es en st [st] [[]] [])"
    by (rule quiet_option_walk) (use ChoiceGraph D in \<open>auto simp: choice_edges_ok_def\<close>)
  then show ?case using ChoiceGraph.prems(2) by (auto simp: require_once_def intro!: quiet_exn_bind)
qed simp_all

lemma label_options_total: "wf_node v \<Longrightarrow> all_once v \<Longrightarrow> \<exists>r. label_options v = Inr r"
  using quiet_label_options [of v] by (auto simp: label_options_def quiet_exn_def split: sum.splits option_exn.splits)

lemma gather_options_total:
  "\<forall>c \<in> set cs. wf_node c \<and> all_once c \<Longrightarrow> \<exists>r. gather_options cs i = Inr r"
proof (induction cs arbitrary: i)
  case (Cons c cs)
  obtain opts where "label_options c = Inr opts" using label_options_total Cons.prems by fastforce
  moreover obtain r where "gather_options cs (Suc i) = Inr r" using Cons by fastforce
  ultimately show ?case by (cases opts) simp_all
qed simp

lemma gather_options_length: "gather_options cs i = Inr (Inr os) \<Longrightarrow> length os = length cs"
proof (induction cs arbitrary: i os)
  case (Cons c cs)
  then obtain opts r where "label_options c = Inr (Some opts)" "gather_options cs (Suc i) = Inr r"
    by (auto simp: bindE_Inr_iff split: option.splits)
  with Cons show ?case by (cases r) auto
qed simp

lemma check_children_total:
  "\<forall>c \<in> set checks. \<forall>t. \<exists>r. c t = Inr r \<Longrightarrow> \<exists>r. check_children checks assigned trace i = Inr r"
proof (induction checks arbitrary: i)
  case (Cons c checks)
  then obtain r where "c (map (\<lambda>p. trace ! p) (assigned ! i)) = Inr r" by fastforce
  then show ?case using Cons by (cases r) simp_all
qed simp

lemma try_combos_total:
  "\<forall>combo \<in> set combos. \<exists>r. chk combo = Inr r \<Longrightarrow> \<exists>r. try_combos chk tried first combos = Inr r"
proof (induction combos arbitrary: tried first)
  case (Cons combo combos)
  then obtain r where "chk combo = Inr r" by auto
  then show ?case using Cons by (cases r) simp_all
qed simp

lemma check_partial_order_total:
  assumes "\<forall>c \<in> set cs. wf_node c \<and> all_once c" "length checks = length cs"
    and "\<forall>c \<in> set checks. \<forall>t. \<exists>r. c t = Inr r"
    and es: "order_edges_ok es (length cs)" "acyclic (erel es)" and cl: "order_edges_ok cl (length cs)"
  shows "\<exists>r. check_partial_order checks cs es cl trace = Inr r"
proof -
  have fixed: "\<exists>r. check_partial_order_fixed checks es cl trace labels = Inr r" if len: "length labels = length cs" for labels
  proof -
    obtain r where r: "assign_positions (length cs) es trace labels = Inr r"
      using assign_positions_total [OF es len] by metis
    have cl': "order_edges_ok (sorted_edges cl) (length cs)" using cl by (simp add: order_edges_ok_def)
    show ?thesis
    proof (cases r)
      case (Inr assigned)
      then show ?thesis
        using r check_children_total [OF assms(3)]
        by (cases "check_precedence assigned (map (\<lambda>e. (nat (src e), nat (dst e))) (sorted_edges cl))")
          (simp_all add: check_partial_order_fixed_def assms(2) index_pairs_in_range [OF cl'])
    qed (use r in \<open>simp add: check_partial_order_fixed_def assms(2)\<close>)
  qed
  obtain r where r: "gather_options cs 0 = Inr r" using gather_options_total [OF assms(1)] by metis
  show ?thesis
  proof (cases r)
    case (Inr per_child)
    have "\<forall>combo \<in> set (product_lists per_child). \<exists>r. check_partial_order_fixed checks es cl trace combo = Inr r"
      using fixed gather_options_length r Inr by (auto simp: in_product_lists dest!: list_all2_lengthD)
    from try_combos_total [OF this] show ?thesis using r Inr by (simp add: check_partial_order_def)
  qed (use r in \<open>simp add: check_partial_order_def\<close>)
qed

lemma match_loop_total:
  assumes "\<forall>c \<in> set checks. \<forall>t. \<exists>r. c t = Inr r" "length lengths = length checks"
    and "\<And>e. e \<in> set es \<Longrightarrow> in_range (dst e) (length checks)" "\<And>s. s \<in> set frontier \<Longrightarrow> in_range (snd s) (length checks)"
  shows "\<exists>r. match_loop checks lengths es en trace frontier seen = Inr r"
  using assms
proof (induction checks lengths es en trace frontier seen rule: match_loop.induct [case_names stop loop])
  case (loop checks lengths es en trace pos c frontier seen)
  have c: "in_range c (length checks)" using loop.prems(4) [of "(pos, c)"] by simp
  let ?len = "the (lengths ! nat c)"
  have ch: "child_at lengths c = Inr (lengths ! nat c)" "child_at checks c = Inr (checks ! nat c)"
    using c loop.prems(2) by simp_all
  have "checks ! nat c \<in> set checks" using c in_range_nat by simp
  then obtain r where r: "(checks ! nat c) (take ?len (drop pos trace)) = Inr r" using loop.prems(1) by blast
  let ?new = "new_states (pos + ?len) (ordered_succs es c) seen"
  have new: "\<And>s. s \<in> set (frontier @ ?new) \<Longrightarrow> in_range (snd s) (length checks)"
    using loop.prems(3,4) new_states_fresh [of "pos + ?len" "ordered_succs es c" seen]
    by (auto simp: ordered_succs_def)
  have rest: "\<And>s. s \<in> set frontier \<Longrightarrow> in_range (snd s) (length checks)" using loop.prems(4) by simp
  note P = loop.prems(1-3)
  consider (over) "pos + ?len > length trace" | (no) "\<not> pos + ?len > length trace" "r \<noteq> None"
    | (at_end) "\<not> pos + ?len > length trace" "\<not> r \<noteq> None" "c = en"
    | (go) "\<not> pos + ?len > length trace" "\<not> r \<noteq> None" "c \<noteq> en" by blast
  then show ?case
  proof cases
    case over
    from loop.IH(1) [OF ch(1) refl over P rest] over show ?thesis by (simp add: ch Let_def)
  next
    case no
    from loop.IH(2) [OF ch(1) refl no(1) ch(2) r no(2) P rest] no r show ?thesis by (simp add: ch Let_def)
  next
    case at_end
    show ?thesis
    proof (cases "pos + ?len = length trace")
      case True
      then show ?thesis using at_end ch r by (simp add: Let_def)
    next
      case False
      from loop.IH(3) [OF ch(1) refl at_end(1) ch(2) r at_end(2,3) False P rest] at_end False ch r
      show ?thesis by (simp add: Let_def)
    qed
  next
    case go
    from loop.IH(4) [OF ch(1) refl go(1) ch(2) r go(2,3) refl P new] go r show ?thesis by (simp add: ch Let_def)
  qed
qed simp

lemma check_total: "wf_node v \<Longrightarrow> all_once v \<Longrightarrow> \<exists>r. check v trace = Inr r"
proof (induction v arbitrary: trace)
  case (PartialOrder cs es f cl d)
  note D = wf_partial_orderD [OF PartialOrder.prems(1)]
  have "\<exists>r. check_partial_order (map (\<lambda>c t. check c t) cs) cs es cl trace = Inr r"
    using PartialOrder D(2,3,8) transitive_closure_InrD(2) [OF D(10)] by (intro check_partial_order_total) auto
  then show ?case using PartialOrder.prems(2) by (simp add: require_once_def)
next
  case (ChoiceGraph cs es st en f d)
  note D = wf_choice_graphD [OF ChoiceGraph.prems(1)]
  have "\<forall>c \<in> set cs. \<exists>k. fixed_length c = Inr k"
  proof
    fix c assume "c \<in> set cs"
    then obtain opts where "label_options c = Inr opts"
      using label_options_total [of c] D(7) ChoiceGraph.prems(2) by auto
    then show "\<exists>k. fixed_length c = Inr k" by (simp add: fixed_length_def)
  qed
  then obtain g where "\<forall>c \<in> set cs. fixed_length c = Inr (g c)" by metis
  then have lengths: "mapE fixed_length cs = Inr (map g cs)" by (intro mapE_total) simp
  have idx: "mapE (\<lambda>e. py_index (length cs) (src e)) (sorted_edges es) = Inr (map (\<lambda>e. nat (src e)) (sorted_edges es))"
    by (rule mapE_total) (use D(2) in \<open>simp add: choice_edges_ok_def\<close>)
  have "\<exists>r. match_loop (map (\<lambda>c t. check c t) cs) (map g cs) es en trace [(0, st)] [(0, st)] = Inr r"
    using ChoiceGraph D(2,3,7) by (intro match_loop_total) (auto simp: choice_edges_ok_def)
  then show ?case using ChoiceGraph.prems(2) by (simp add: require_once_def check_choice_graph_def lengths idx)
qed auto

section \<open>A rejected trace of the language\<close>

text \<open>
  Two unordered children, a sequence \<open>a b\<close> and a sequence \<open>a c\<close>.  The label \<open>a\<close> occurs in both,
  and its first occurrence is always given to the first child.
\<close>

abbreviation plain :: "string \<Rightarrow> pnode" where
  "plain l \<equiv> Atom l NoAction (JObj []) PURE"

definition pair_of :: "string \<Rightarrow> string \<Rightarrow> pnode" where
  "pair_of l m = PartialOrder [plain l, plain m] [OrderEdge 0 1] ONCE [OrderEdge 0 1] 2"

definition shared_label :: pnode where
  "shared_label = PartialOrder [pair_of ''a'' ''b'', pair_of ''a'' ''c''] [] ONCE [] 3"

lemma pair_of_wf: "wf_node (pair_of l m)"
proof -
  have "mk_partial_order [plain l, plain m] [OrderEdge 0 1] ONCE = Inr (pair_of l m)"
    unfolding pair_of_def by (rule mk_sequence) (simp add: composite_depth_def node_depth_def MAX_POWL_DEPTH_def)
  then show ?thesis by (simp add: pair_of_def)
qed

lemma shared_label_wf: "wf_node shared_label"
proof -
  have "mk_partial_order [pair_of ''a'' ''b'', pair_of ''a'' ''c''] [] ONCE = Inr shared_label"
    unfolding shared_label_def
    by (rule mk_parallel) (simp_all add: composite_depth_def node_depth_def MAX_POWL_DEPTH_def pair_of_def)
  then show ?thesis by (simp add: shared_label_def pair_of_wf)
qed

lemma pair_of_den: "[l, m] \<in> den None (pair_of l m)"
proof -
  have "[l, m] = map snd [(0 :: nat, l), (1, m)]" by simp
  moreover have "keeps_order (before [OrderEdge 0 1]) [(0, l), (1, m)]"
    by (simp add: keeps_order_def before_def erel_def)
  ultimately have "[l, m] \<in> merge_lang (before [OrderEdge 0 1]) [{[l]}, {[m]}]"
    unfolding merge_lang_def
    by (intro CollectI exI [of _ "[(0, l), (1, m)]"]) (auto simp: strand_Cons less_Suc_eq numeral_2_eq_2)
  then show ?thesis by (simp add: pair_of_def)
qed

lemma pair_of_options: "l \<noteq> m \<Longrightarrow> label_options (pair_of l m) = Inr (Some [[l, m]])"
  by (simp add: label_options_def pair_of_def require_once_def extend_options_def MAX_LABEL_OPTIONS_def from_keys_def)

lemma shared_label_den: "[''a'', ''c'', ''a'', ''b''] \<in> den None shared_label"
proof -
  let ?zs = "[(1 :: nat, ''a''), (1, ''c''), (0, ''a''), (0, ''b'')]"
  let ?Ls = "[den None (pair_of ''a'' ''b''), den None (pair_of ''a'' ''c'')]"
  have "keeps_order (before []) ?zs" by (simp add: keeps_order_def before_def erel_def)
  moreover have "strand i ?zs \<in> ?Ls ! i" if "i < 2" for i
    using that pair_of_den [of "''a''" "''b''"] pair_of_den [of "''a''" "''c''"]
    by (auto simp: less_Suc_eq numeral_2_eq_2 strand_Cons)
  ultimately have "map snd ?zs \<in> merge_lang (before []) ?Ls"
    unfolding merge_lang_def by (intro CollectI exI [of _ ?zs]) (auto simp: numeral_2_eq_2)
  then show ?thesis by (simp add: shared_label_def)
qed

lemmas check_eval = assign_positions_def topological_order_def index_pairs_def py_index_def sorted_edges_def
  edge_key_def guard_key_or_empty_def add_slot_def take_slot_def dict_get_def drop_pred_def
  check_partial_order_fixed_def Let_def upt_rec numeral_eq_Suc

lemma topo_2:
  "topological_order 2 [] = Inr [0, 1]" "topological_order 2 [OrderEdge 0 1] = Inr [0, 1]"
  by (simp_all add: check_eval)

lemmas topo_Suc = topo_2 [unfolded numeral_2_eq_2]

lemma assign_pair:
  assumes "l \<noteq> m"
  shows "assign_positions 2 [OrderEdge 0 1] [l, m] [[l], [m]] = Inr (Inr [[0], [1]])"
    "assign_positions 2 [OrderEdge 0 1] [m, l] [[l], [m]] = Inr (Inr [[1], [0]])"
  using assms by (simp_all add: assign_positions_def topo_Suc Let_def add_slot_def take_slot_def dict_get_def
      add_mset_commute numeral_2_eq_2)

lemma index_01: "index_pairs 2 (sorted_edges [OrderEdge 0 1]) = Inr [(0, 1)]"
  by (simp add: index_pairs_def py_index_def sorted_edges_def)

lemma check_pair:
  assumes "l \<noteq> m"
  shows "check (pair_of l m) [l, m] = Inr None" "check (pair_of l m) [m, l] = Inr (Some (PrecedenceViolated 0 1))"
proof -
  have opts: "label_options (plain x) = Inr (Some [[x]])" for x by (simp add: label_options_def)
  have fixed: "check_partial_order_fixed [\<lambda>t. check (plain l) t, \<lambda>t. check (plain m) t] [OrderEdge 0 1] [OrderEdge 0 1] [l, m] [[l], [m]] = Inr None"
    "check_partial_order_fixed [\<lambda>t. check (plain l) t, \<lambda>t. check (plain m) t] [OrderEdge 0 1] [OrderEdge 0 1] [m, l] [[l], [m]]
      = Inr (Some (PrecedenceViolated 0 1))"
    unfolding check_partial_order_fixed_def
    using assign_pair [OF assms] index_01 by (simp_all add: Let_def numeral_2_eq_2)
  show "check (pair_of l m) [l, m] = Inr None" "check (pair_of l m) [m, l] = Inr (Some (PrecedenceViolated 0 1))"
    using fixed by (simp_all add: pair_of_def require_once_def check_partial_order_def opts MAX_LABEL_OPTIONS_def del: check.simps(1))
qed

lemma assign_shared:
  "assign_positions 2 [] [''a'', ''c'', ''a'', ''b''] [[''a'', ''b''], [''a'', ''c'']] = Inr (Inr [[0, 3], [1, 2]])"
  by (simp add: assign_positions_def topo_Suc Let_def add_slot_def take_slot_def dict_get_def
      add_mset_commute numeral_2_eq_2)

lemma check_shared_label:
  "check shared_label [''a'', ''c'', ''a'', ''b''] = Inr (Some (InChild 1 (PrecedenceViolated 0 1)))"
proof -
  let ?ab = "pair_of ''a'' ''b''" and ?ac = "pair_of ''a'' ''c''"
  have idx: "index_pairs 2 (sorted_edges []) = Inr []" by (simp add: index_pairs_def sorted_edges_def)
  have pick: "map (\<lambda>p. [''a'', ''c'', ''a'', ''b''] ! p) [0, 3] = [''a'', ''b'']"
    "map (\<lambda>p. [''a'', ''c'', ''a'', ''b''] ! p) [1, 2] = [''c'', ''a'']"
    by (simp_all add: numeral_eq_Suc)
  have "check_partial_order_fixed [\<lambda>t. check ?ab t, \<lambda>t. check ?ac t] [] [] [''a'', ''c'', ''a'', ''b'']
      [[''a'', ''b''], [''a'', ''c'']] = Inr (Some (InChild 1 (PrecedenceViolated 0 1)))"
    unfolding check_partial_order_fixed_def
    using assign_shared idx pick check_pair [of "''a''" "''b''"] check_pair [of "''a''" "''c''"]
    by (simp add: Let_def numeral_2_eq_2 del: list.map)
  then show ?thesis
    by (simp add: shared_label_def require_once_def check_partial_order_def pair_of_options MAX_LABEL_OPTIONS_def)
qed

section \<open>The properties\<close>

text \<open>
  On an acyclic order over positions in range the topological sort never raises; it lists
  every position once, and no edge is listed against its direction.
\<close>

theorem topological_order_correct:
  assumes "order_edges_ok es n" "acyclic (erel es)"
  shows "\<exists>topo. topological_order n es = Inr topo \<and> distinct topo \<and> set topo = {..<n}
    \<and> (\<forall>e \<in> set es. \<forall>k < length topo. topo ! k = nat (dst e) \<longrightarrow> nat (src e) \<in> set (take k topo))"
  using topological_order_Inr [OF assms] by metis

theorem topological_order_correct_witness:
  "\<exists>topo. topological_order 3 [OrderEdge 0 1] = Inr topo \<and> distinct topo \<and> set topo = {..<3}
    \<and> (\<forall>e \<in> set [OrderEdge 0 1]. \<forall>k < length topo. topo ! k = nat (dst e) \<longrightarrow> nat (src e) \<in> set (take k topo))"
proof (rule topological_order_correct)
  show "order_edges_ok [OrderEdge 0 1] 3" by (simp add: order_edges_ok_def in_range_def)
  have "erel [OrderEdge 0 1] = {(0, 1)}" by (simp add: erel_def)
  moreover have "acyclic {(0 :: int, 1 :: int)}" by (rule acyclicI_order [of _ uminus]) auto
  ultimately show "acyclic (erel [OrderEdge 0 1])" by simp
qed

text \<open>
  C35.  Soundness of the membership check: a trace it accepts belongs to the denotation of the
  model, with choice graphs walked and frequencies repeated without any bound.
\<close>

theorem membership_sound:
  assumes "wf_node v" "trace_in_language v trace = Inr True"
  shows "trace \<in> den None v"
  using assms by (intro check_sound) (auto simp: trace_in_language_def bindE_Inr_iff)

theorem membership_sound_witness: "[''a'', ''b''] \<in> den None (pair_of ''a'' ''b'')"
  by (rule membership_sound) (simp_all add: pair_of_wf trace_in_language_def check_pair)

text \<open>
  C36.  The membership check comes to a verdict on every trace of every lawful model whose
  composites run exactly once: no exception escapes and the search over walks ends, cyclic
  choice graphs included.
\<close>

theorem membership_decides:
  assumes "wf_node v" "all_once v"
  shows "\<exists>b. trace_in_language v trace = Inr b"
  using check_total [OF assms, of trace] by (auto simp: trace_in_language_def)

theorem membership_decides_witness: "\<exists>b. trace_in_language shared_label [''b'', ''a''] = Inr b"
  by (rule membership_decides) (simp_all add: shared_label_wf, simp add: shared_label_def pair_of_def)

text \<open>
  The check is not complete: two unordered sequences \<open>a b\<close> and \<open>a c\<close> generate the trace
  \<open>a c a b\<close>, and the check rejects it, because it hands the first \<open>a\<close> to the first child.
\<close>

theorem membership_rejects_shared_label:
  "wf_node shared_label \<and> [''a'', ''c'', ''a'', ''b''] \<in> den None shared_label
    \<and> trace_in_language shared_label [''a'', ''c'', ''a'', ''b''] = Inr False"
  by (simp_all add: shared_label_wf shared_label_den trace_in_language_def check_shared_label)

end
