(* ===== verification/Powl_Executor.thy ===== *)
theory Powl_Executor
  imports Powl_Identity Powl_Enabled
begin

text \<open>
  \<^verbatim>\<open>powl/executor.py\<close>: the bounded reference executor.  A \<open>marking\<close> is a position inside a
  model; \<open>enabled\<close> is the set of leaf paths that may advance, \<open>fire\<close> advances past one of
  them, \<open>replay\<close> checks a recorded run.  The hash is the parameter \<open>sha\<close>.
\<close>

section \<open>Markings\<close>

text \<open>A path is the sequence of child indices from the root.\<close>

type_synonym path = "int list"

datatype deadlock_kind = DEADLOCK | STALLED_BY_BOUND | REPLAY_DIVERGED

text \<open>
  \<open>completed\<close> and \<open>completed_paths\<close> are frozensets, the other three collections dictionaries.
  A cursor entry may hold \<^verbatim>\<open>None\<close>, which is read like an absent one.
\<close>

record marking =
  completed :: "occurrence_key list"
  cursor :: "(path \<times> int option) list"
  visits :: "((path \<times> int) \<times> nat) list"
  fires :: nat
  completed_paths :: "path list"
  rounds :: "(path \<times> nat) list"

definition INITIAL_MARKING :: marking where
  "INITIAL_MARKING = \<lparr>completed = [], cursor = [], visits = [], fires = 0, completed_paths = [], rounds = []\<rparr>"

text \<open>Equality of dictionaries ignores order, as \<^verbatim>\<open>Marking.__eq__\<close> does.\<close>

definition same_dict :: "('k \<times> 'v) list \<Rightarrow> ('k \<times> 'v) list \<Rightarrow> bool" where
  "same_dict d d' \<longleftrightarrow> (\<forall>k \<in> set (map fst (d @ d')). map_of d k = map_of d' k)"

definition marking_eq :: "marking \<Rightarrow> marking \<Rightarrow> bool" where
  "marking_eq m m' \<longleftrightarrow> set (completed m) = set (completed m') \<and> same_dict (cursor m) (cursor m')
     \<and> same_dict (visits m) (visits m') \<and> fires m = fires m'
     \<and> set (completed_paths m) = set (completed_paths m') \<and> same_dict (rounds m) (rounds m')"

definition path_json :: "path \<Rightarrow> json" where
  "path_json p = JList (map JInt p)"

text \<open>
  The sort key \<^verbatim>\<open>[path, child]\<close> of a cursor entry; a \<^verbatim>\<open>None\<close> child is compared only when two
  paths are equal, which the keys of a dictionary are not.
\<close>

definition digest_material :: "marking \<Rightarrow> json" where
  "digest_material m = JObj
     [(''completed'', JList (map (\<lambda>(a, i, c). JList [JStr a, JInt i, JStr c])
        (sort (map (\<lambda>k. (ok_activity k, int (ok_index k), ok_context k)) (completed m))))),
      (''completed_paths'', JList (map path_json (sort (completed_paths m)))),
      (''cursor'', JList (map (\<lambda>(p, c). JList [path_json p, json_int_option c]) (sort_key fst (cursor m)))),
      (''visits'', JList (map (\<lambda>(p, i, n). JList [path_json p, JInt i, JInt n])
        (sort (map (\<lambda>((p, i), n). (p, i, int n)) (visits m))))),
      (''rounds'', JList (map (\<lambda>(p, n). JList [path_json p, JInt n])
        (sort (map (\<lambda>(p, n). (p, int n)) (rounds m))))),
      (''fires'', JInt (int (fires m)))]"

text \<open>One recorded step: the whole enabled set, stored sorted, beside the pick.\<close>

record choice_record =
  cr_step :: nat
  cr_path :: path
  cr_enabled :: "path list"
  cr_chosen :: path
  cr_decided_by :: string
  cr_context :: string

section \<open>Addressing\<close>

fun node_at :: "pnode \<Rightarrow> path \<Rightarrow> pnode res" where
  "node_at v [] = Inr v"
| "node_at (PartialOrder cs es f cl d) (i # p) =
     (if in_range i (length cs) then node_at (cs ! nat i) p else refuse DANGLING_REFERENCE)"
| "node_at (ChoiceGraph cs es st en f d) (i # p) =
     (if in_range i (length cs) then node_at (cs ! nat i) p else refuse DANGLING_REFERENCE)"
| "node_at v (i # p) = refuse DANGLING_REFERENCE"

fun is_leaf :: "pnode \<Rightarrow> bool" where
  "is_leaf (PartialOrder cs es f cl d) = False"
| "is_leaf (ChoiceGraph cs es st en f d) = False"
| "is_leaf (Foreign nm) = False"
| "is_leaf v = True"

section \<open>Completion\<close>

text \<open>\<open>under root p\<close> is \<^verbatim>\<open>p[:k] == root\<close>.\<close>

definition under :: "path \<Rightarrow> path \<Rightarrow> bool" where
  "under root p \<longleftrightarrow> take (length root) p = root"

definition cursor_at :: "marking \<Rightarrow> path \<Rightarrow> int option" where
  "cursor_at m p = (case map_of (cursor m) p of None \<Rightarrow> None | Some c \<Rightarrow> c)"

definition purged :: "marking \<Rightarrow> path \<Rightarrow> bool \<Rightarrow> marking" where
  "purged m root reset_root_rounds =
     (let paths = filter (\<lambda>p. \<not> under root p) (completed_paths m);
          cur = filter (\<lambda>(p, c). \<not> under root p) (cursor m);
          rds = filter (\<lambda>(p, n). \<not> under root p \<or> (\<not> reset_root_rounds \<and> p = root)) (rounds m)
      in if set paths = set (completed_paths m) \<and> length cur = length (cursor m) \<and> length rds = length (rounds m)
         then m else m\<lparr>completed_paths := paths, cursor := cur, rounds := rds\<rparr>)"

definition in_progress :: "path \<Rightarrow> marking \<Rightarrow> bool" where
  "in_progress path m \<longleftrightarrow>
     (\<exists>p \<in> set (completed_paths m). length p > length path \<and> under path p)
   \<or> (\<exists>(p, c) \<in> set (cursor m). under path p)
   \<or> (\<exists>(p, n) \<in> set (rounds m). length p > length path \<and> under path p \<and> n > 0)"

text \<open>
  \<open>order_body_complete\<close> and \<open>graph_body_complete\<close> are the two branches of \<^verbatim>\<open>_body_complete\<close>
  over the completion tests of the children.
\<close>

definition order_body_complete :: "(path \<Rightarrow> marking \<Rightarrow> bool res) list \<Rightarrow> path \<Rightarrow> marking \<Rightarrow> bool res" where
  "order_body_complete tests path m = allE (\<lambda>i. (tests ! i) (path @ [int i]) m) [0..<length tests]"

definition graph_body_complete :: "(path \<Rightarrow> marking \<Rightarrow> bool res) list \<Rightarrow> int \<Rightarrow> path \<Rightarrow> marking \<Rightarrow> bool res" where
  "graph_body_complete tests en path m = (case cursor_at m path of
       None \<Rightarrow> Inr False
     | Some c \<Rightarrow> if c = en then bindE (child_at tests c) (\<lambda>test. test (path @ [c]) m) else Inr False)"

definition rounds_done :: "marking \<Rightarrow> path \<Rightarrow> nat" where
  "rounds_done m p = dict_get (rounds m) p 0"

definition composite_complete :: "frequency \<Rightarrow> bool res \<Rightarrow> path \<Rightarrow> marking \<Rightarrow> bool res" where
  "composite_complete f body path m =
     (let n = int (rounds_done m path)
      in if allows f n \<and> \<not> in_progress path m then Inr True
         else if allows f (n + 1) then body else Inr False)"

fun is_complete :: "pnode \<Rightarrow> path \<Rightarrow> marking \<Rightarrow> bool res" where
  "is_complete (PartialOrder cs es f cl d) path m =
     composite_complete f (order_body_complete (map (\<lambda>c p m. is_complete c p m) cs) path m) path m"
| "is_complete (ChoiceGraph cs es st en f d) path m =
     composite_complete f (graph_body_complete (map (\<lambda>c p m. is_complete c p m) cs) en path m) path m"
| "is_complete (Foreign nm) path m = refuse PROHIBITED_NODE_KIND"
| "is_complete v path m = Inr (path \<in> set (completed_paths m))"

fun body_complete :: "pnode \<Rightarrow> path \<Rightarrow> marking \<Rightarrow> bool res" where
  "body_complete (PartialOrder cs es f cl d) path m = order_body_complete (map is_complete cs) path m"
| "body_complete (ChoiceGraph cs es st en f d) path m = graph_body_complete (map is_complete cs) en path m"
| "body_complete v path m = refuse PROHIBITED_NODE_KIND"

section \<open>Enabling\<close>

text \<open>\<open>out |= more\<close> on sets kept as lists.\<close>

definition list_union :: "'a list \<Rightarrow> 'a list \<Rightarrow> 'a list" where
  "list_union out new = out @ filter (\<lambda>x. x \<notin> set out) (remdups new)"

lemma set_list_union [simp]: "set (list_union xs ys) = set xs \<union> set ys"
  by (auto simp: list_union_def)

text \<open>
  \<open>no_more_rounds\<close> is the test before the two branches: every permitted repetition has run,
  or another one would start and its counter, at index -1, has reached the cap.
\<close>

definition no_more_rounds :: "bound \<Rightarrow> bool \<Rightarrow> frequency \<Rightarrow> path \<Rightarrow> marking \<Rightarrow> bool" where
  "no_more_rounds b cap f path m \<longleftrightarrow>
     (case fmax f of None \<Rightarrow> False | Some h \<Rightarrow> int (rounds_done m path) \<ge> h)
   \<or> (rounds_done m path > 0 \<and> \<not> in_progress path m \<and> cap
        \<and> dict_get (visits m) (path, -1) 0 \<ge> max_node_visits b)"

definition closure_preds :: "edge list \<Rightarrow> nat \<Rightarrow> int list" where
  "closure_preds cl i = map src (filter (\<lambda>e. dst e = int i) cl)"

type_synonym enabler = "path \<Rightarrow> marking \<Rightarrow> path list res"

definition order_enabled :: "pnode list \<Rightarrow> enabler list \<Rightarrow> edge list \<Rightarrow> path \<Rightarrow> marking \<Rightarrow> path list res" where
  "order_enabled cs ens cl path m =
     foldE (\<lambda>out i.
       bindE (is_complete (cs ! i) (path @ [int i]) m) (\<lambda>complete.
         if complete then Inr out
         else bindE (allE (\<lambda>j. bindE (child_at cs j) (\<lambda>c. is_complete c (path @ [j]) m)) (closure_preds cl i)) (\<lambda>ready.
           if \<not> ready then Inr out
           else bindE ((ens ! i) (path @ [int i]) m) (\<lambda>found. Inr (list_union out found)))))
     [] [0..<length cs]"

text \<open>
  \<open>offer\<close> is the loop over the candidates of a choice graph: a candidate at its visit cap is
  skipped, the others are entered afresh.
\<close>

definition offer :: "bound \<Rightarrow> bool \<Rightarrow> enabler list \<Rightarrow> path \<Rightarrow> marking \<Rightarrow> int list \<Rightarrow> path list res" where
  "offer b cap ens path m candidates =
     foldE (\<lambda>out c.
       if cap \<and> dict_get (visits m) (path, c) 0 \<ge> max_node_visits b then Inr out
       else bindE (child_at ens c) (\<lambda>en.
            bindE (en (path @ [c]) (purged m (path @ [c]) True)) (\<lambda>found. Inr (list_union out found))))
     [] candidates"

definition graph_enabled :: "bound \<Rightarrow> bool \<Rightarrow> pnode list \<Rightarrow> enabler list \<Rightarrow> edge list \<Rightarrow> int \<Rightarrow> int \<Rightarrow> path
    \<Rightarrow> marking \<Rightarrow> path list res" where
  "graph_enabled b cap cs ens es st en path m = (case cursor_at m path of
       None \<Rightarrow> offer b cap ens path m [st]
     | Some c \<Rightarrow> bindE (child_at cs c) (\<lambda>child.
         bindE (is_complete child (path @ [c]) m) (\<lambda>complete.
           if \<not> complete then bindE (child_at ens c) (\<lambda>inner. inner (path @ [c]) m)
           else if c = en then Inr []
           else offer b cap ens path m (remdups (map dst (filter (\<lambda>e. src e = c) es))))))"

fun enabled_in :: "bound \<Rightarrow> bool \<Rightarrow> pnode \<Rightarrow> path \<Rightarrow> marking \<Rightarrow> path list res" where
  "enabled_in b cap (PartialOrder cs es f cl d) path m =
     (if no_more_rounds b cap f path m then Inr []
      else order_enabled cs (map (\<lambda>c p m. enabled_in b cap c p m) cs) cl path m)"
| "enabled_in b cap (ChoiceGraph cs es st en f d) path m =
     (if no_more_rounds b cap f path m then Inr []
      else graph_enabled b cap cs (map (\<lambda>c p m. enabled_in b cap c p m) cs) es st en path m)"
| "enabled_in b cap (Foreign nm) path m = refuse PROHIBITED_NODE_KIND"
| "enabled_in b cap v path m = Inr (if path \<in> set (completed_paths m) then [] else [path])"

definition enabled :: "pnode \<Rightarrow> marking \<Rightarrow> bound \<Rightarrow> path list res" where
  "enabled model m b = enabled_in b True model [] m"

section \<open>Firing\<close>

definition activity_of :: "(string \<Rightarrow> string) \<Rightarrow> pnode \<Rightarrow> string res" where
  "activity_of sha v = (case v of Atom _ _ _ _ \<Rightarrow> activity_sha256 sha v | _ \<Rightarrow> node_id sha v)"

text \<open>
  \<open>enter\<close> is the body of the loop down the path: at a choice graph ancestor whose cursor is
  elsewhere, or whose selected child is complete, the child is entered afresh and counted.
\<close>

definition enter :: "pnode \<Rightarrow> path \<Rightarrow> marking \<times> ((path \<times> int) \<times> nat) list \<Rightarrow> nat
    \<Rightarrow> (marking \<times> ((path \<times> int) \<times> nat) list) res" where
  "enter model path = (\<lambda>(working, vis) depth.
     let prefix = take depth path; idx = path ! depth; child_path = prefix @ [idx] in
     bindE (node_at model prefix) (\<lambda>ancestor. case ancestor of
         ChoiceGraph cs es st en f d \<Rightarrow>
           bindE (if cursor_at working prefix \<noteq> Some idx then Inr True
                  else bindE (child_at cs idx) (\<lambda>c. is_complete c child_path working)) (\<lambda>entering.
             if entering
             then let w = purged working child_path True
                  in Inr (w\<lparr>cursor := dict_set prefix (Some idx) (cursor w)\<rparr>,
                          dict_set (prefix, idx) (dict_get vis (prefix, idx) 0 + 1) vis)
             else Inr (working, vis))
       | _ \<Rightarrow> Inr (working, vis)))"

text \<open>\<open>close_round\<close> is the body of the loop of \<^verbatim>\<open>_close_rounds\<close>, which runs deepest first.\<close>

definition close_round :: "pnode \<Rightarrow> path \<Rightarrow> marking \<Rightarrow> nat \<Rightarrow> marking res" where
  "close_round model path m depth =
     (let prefix = take depth path in
      bindE (node_at model prefix) (\<lambda>v.
        if is_leaf v then Inr m
        else bindE (body_complete v prefix m) (\<lambda>complete.
          if \<not> complete then Inr m
          else let n = rounds_done m prefix + 1; w = purged m prefix False
               in Inr (w\<lparr>rounds := dict_set prefix n (rounds w),
                         visits := dict_set (prefix, -1) (dict_get (visits w) (prefix, -1) 0 + 1) (visits w)\<rparr>))))"

definition close_rounds :: "pnode \<Rightarrow> path \<Rightarrow> marking \<Rightarrow> marking res" where
  "close_rounds model path m = foldE (close_round model path) m (rev [0..<length path])"

definition add_elem :: "'a \<Rightarrow> 'a list \<Rightarrow> 'a list" where
  "add_elem x xs = (if x \<in> set xs then xs else xs @ [x])"

definition fire :: "(string \<Rightarrow> string) \<Rightarrow> pnode \<Rightarrow> marking \<Rightarrow> path \<Rightarrow> string \<Rightarrow> bound \<Rightarrow> marking res" where
  "fire sha model m path context b =
     bindE (enabled model m b) (\<lambda>live.
     if path \<notin> set live then refuse LANGUAGE_MISMATCH
     else if fires m + 1 > max_activity_fires b then refuse BOUND_EXHAUSTED
     else bindE (node_at model path) (\<lambda>v.
     bindE (activity_of sha v) (\<lambda>activity.
     let index = length (filter (\<lambda>k. ok_activity k = activity) (completed m)) in
     bindE (foldE (enter model path) (m, visits m) [0..<length path]) (\<lambda>(working, vis).
     if length (completed_paths working) + 1 > max_marking_states b then refuse BOUND_EXHAUSTED
     else close_rounds model path (working\<lparr>
            completed := add_elem \<lparr>ok_activity = activity, ok_index = index, ok_context = context\<rparr> (completed working),
            completed_paths := add_elem path (completed_paths working),
            visits := vis,
            fires := fires m + 1\<rparr>)))))"

definition is_final :: "pnode \<Rightarrow> marking \<Rightarrow> bool res" where
  "is_final model m = is_complete model [] m"

definition classify_stall :: "pnode \<Rightarrow> marking \<Rightarrow> bound \<Rightarrow> deadlock_kind res" where
  "classify_stall model m b =
     (if fires m \<ge> max_activity_fires b then Inr STALLED_BY_BOUND
      else if length (completed_paths m) \<ge> max_marking_states b then Inr STALLED_BY_BOUND
      else bindE (enabled_in b False model [] m) (\<lambda>uncapped.
           if uncapped \<noteq> [] then Inr STALLED_BY_BOUND else Inr DEADLOCK))"

section \<open>Replay\<close>

text \<open>
  \<^verbatim>\<open>ReplayDivergedError\<close> is a subclass of \<^verbatim>\<open>PowlError\<close>; \<open>Diverged\<close> keeps it apart from what
  \<open>enabled\<close> and \<open>fire\<close> raise.
\<close>

datatype replay_exn = Diverged | Replay_Raised exn

fun replay_raised :: "'a res \<Rightarrow> replay_exn + 'a" where
  "replay_raised (Inl x) = Inl (Replay_Raised x)"
| "replay_raised (Inr y) = Inr y"

definition replay_step :: "(string \<Rightarrow> string) \<Rightarrow> pnode \<Rightarrow> bound \<Rightarrow> marking \<Rightarrow> choice_record \<Rightarrow> replay_exn + marking" where
  "replay_step sha model b m r =
     bindE (replay_raised (enabled model m b)) (\<lambda>live.
       if cr_chosen r \<notin> set live then Inl Diverged
       else if sort (cr_enabled r) \<noteq> sort live then Inl Diverged
       else replay_raised (fire sha model m (cr_chosen r) (cr_context r) b))"

definition replay :: "(string \<Rightarrow> string) \<Rightarrow> pnode \<Rightarrow> choice_record list \<Rightarrow> bound \<Rightarrow> marking \<Rightarrow> replay_exn + marking" where
  "replay sha model choices b initial = foldE (replay_step sha model b) initial choices"

fun label_of :: "pnode \<Rightarrow> string list" where
  "label_of (Atom l a b c) = [l]"
| "label_of v = []"

definition trace_of :: "pnode \<Rightarrow> choice_record list \<Rightarrow> trace res" where
  "trace_of model choices =
     foldE (\<lambda>out r. bindE (node_at model (cr_chosen r)) (\<lambda>v. Inr (out @ label_of v))) [] choices"

end
