(* ===== verification/Powl_Run.thy ===== *)
theory Powl_Run
  imports Powl_Executor
begin

text \<open>
  What a run of the executor emits.  \<open>emitted v p m t\<close> says that the marking \<open>m\<close>, read at
  the subtree \<open>v\<close> with path \<open>p\<close>, is one in which the labels \<open>t\<close> have been emitted since that
  subtree was last entered; firing an enabled path extends \<open>t\<close> by the label fired.
\<close>

section \<open>Paths\<close>

lemma under_iff: "under r p \<longleftrightarrow> (\<exists>s. p = r @ s)"
  unfolding under_def by (metis append_eq_conv_conj append_take_drop_id)

lemma under_refl [simp]: "under p p" and under_append [simp]: "under p (p @ s)" and under_root [simp]: "under [] p"
  by (simp_all add: under_def)

lemma under_trans: "under r q \<Longrightarrow> under q p \<Longrightarrow> under r p"
  by (auto simp: under_iff)

lemma not_under_parent [simp]: "\<not> under (p @ [i]) p"
  by (auto simp: under_iff)

lemma under_snoc [simp]: "under (p @ [i]) (p @ j # s) \<longleftrightarrow> i = j"
  by (auto simp: under_iff)

lemma under_strict: "under p q \<and> length q > length p \<longleftrightarrow> (\<exists>i s. q = p @ i # s)"
  by (auto simp: under_iff) (metis append_Nil2 length_greater_0_conv neq_Nil_conv)

lemma node_at_append: "node_at v (p @ q) = bindE (node_at v p) (\<lambda>w. node_at w q)"
  by (induction v p rule: node_at.induct) auto

section \<open>Locality\<close>

text \<open>
  \<open>agree r m m'\<close>: the positional collections coincide at and below \<open>r\<close>.  \<open>frame r m m'\<close>: they
  coincide everywhere else.
\<close>

definition agree_on :: "(path \<Rightarrow> bool) \<Rightarrow> marking \<Rightarrow> marking \<Rightarrow> bool" where
  "agree_on P m m' \<longleftrightarrow> filter P (completed_paths m) = filter P (completed_paths m')
     \<and> filter (\<lambda>e. P (fst e)) (cursor m) = filter (\<lambda>e. P (fst e)) (cursor m')
     \<and> filter (\<lambda>e. P (fst e)) (rounds m) = filter (\<lambda>e. P (fst e)) (rounds m')"

abbreviation agree :: "path \<Rightarrow> marking \<Rightarrow> marking \<Rightarrow> bool" where
  "agree r \<equiv> agree_on (under r)"

abbreviation frame :: "path \<Rightarrow> marking \<Rightarrow> marking \<Rightarrow> bool" where
  "frame r \<equiv> agree_on (\<lambda>p. \<not> under r p)"

lemma agree_on_refl [simp]: "agree_on P m m"
  by (simp add: agree_on_def)

lemma agree_on_sym: "agree_on P m m' \<Longrightarrow> agree_on P m' m"
  by (simp add: agree_on_def)

lemma agree_on_trans: "agree_on P m m' \<Longrightarrow> agree_on P m' m'' \<Longrightarrow> agree_on P m m''"
  by (simp add: agree_on_def)

lemma filter_weaken: "filter P xs = filter P ys \<Longrightarrow> (\<And>x. Q x \<Longrightarrow> P x) \<Longrightarrow> filter Q xs = filter Q ys"
proof -
  assume eq: "filter P xs = filter P ys" and sub: "\<And>x. Q x \<Longrightarrow> P x"
  have "filter Q (filter P zs) = filter Q zs" for zs using sub by (auto intro: filter_cong)
  then show ?thesis using eq by metis
qed

lemma agree_on_mono: "agree_on P m m' \<Longrightarrow> (\<And>p. Q p \<Longrightarrow> P p) \<Longrightarrow> agree_on Q m m'"
  unfolding agree_on_def by (blast intro: filter_weaken)

lemma agree_below: "agree r m m' \<Longrightarrow> agree (r @ s) m m'"
  by (erule agree_on_mono) (auto simp: under_iff)

lemma agree_beside: "frame (r @ [i]) m m' \<Longrightarrow> i \<noteq> j \<Longrightarrow> agree (r @ [j]) m m'"
  by (erule agree_on_mono) (auto simp: under_iff)

lemma frame_up: "frame (r @ [i]) m m' \<Longrightarrow> frame r m m'"
  by (erule agree_on_mono) (auto simp: under_iff)

lemma agree_on_mem: "agree_on P m m' \<Longrightarrow> P p \<Longrightarrow> p \<in> set (completed_paths m) \<longleftrightarrow> p \<in> set (completed_paths m')"
proof -
  assume "agree_on P m m'" "P p"
  then have "p \<in> set (filter P (completed_paths m)) \<longleftrightarrow> p \<in> set (filter P (completed_paths m'))"
    by (simp add: agree_on_def)
  with \<open>P p\<close> show ?thesis by simp
qed

lemma map_of_agree: "filter (\<lambda>e. P (fst e)) d = filter (\<lambda>e. P (fst e)) d' \<Longrightarrow> P k \<Longrightarrow> map_of d k = map_of d' k"
  by (metis map_of_filter_key)

lemma agree_on_cursor: "agree_on P m m' \<Longrightarrow> P p \<Longrightarrow> cursor_at m p = cursor_at m' p"
  unfolding agree_on_def cursor_at_def using map_of_agree by metis

lemma agree_on_rounds: "agree_on P m m' \<Longrightarrow> P p \<Longrightarrow> rounds_done m p = rounds_done m' p"
  unfolding agree_on_def rounds_done_def dict_get_def using map_of_agree by metis

lemma ex_filter: "(\<exists>x \<in> set xs. P x \<and> Q x) \<longleftrightarrow> (\<exists>x \<in> set (filter P xs). Q x)"
  by auto

lemma in_progress_filter:
  "in_progress path m \<longleftrightarrow> (\<exists>p \<in> set (filter (under path) (completed_paths m)). length p > length path)
   \<or> filter (\<lambda>e. under path (fst e)) (cursor m) \<noteq> []
   \<or> (\<exists>e \<in> set (filter (\<lambda>e. under path (fst e)) (rounds m)). length (fst e) > length path \<and> snd e > 0)"
proof -
  have "(\<exists>(p, c) \<in> set (cursor m). under path p) \<longleftrightarrow> filter (\<lambda>e. under path (fst e)) (cursor m) \<noteq> []"
    by (force simp: filter_empty_conv)
  then show ?thesis unfolding in_progress_def by auto
qed

lemma agree_in_progress: "agree p m m' \<Longrightarrow> in_progress p m = in_progress p m'"
  unfolding in_progress_filter agree_on_def by simp

lemma purged_eq: "purged m r b = m\<lparr>completed_paths := filter (\<lambda>p. \<not> under r p) (completed_paths m),
   cursor := filter (\<lambda>e. \<not> under r (fst e)) (cursor m),
   rounds := filter (\<lambda>e. \<not> under r (fst e) \<or> (\<not> b \<and> fst e = r)) (rounds m)\<rparr>"
proof -
  let ?ps = "filter (\<lambda>p. \<not> under r p) (completed_paths m)" and ?cur = "filter (\<lambda>e. \<not> under r (fst e)) (cursor m)"
    and ?rds = "filter (\<lambda>e. \<not> under r (fst e) \<or> (\<not> b \<and> fst e = r)) (rounds m)"
  have f: "filter P xs = xs" if "length (filter P xs) = length xs" for P and xs :: "'x list"
    using that by (metis filter_True length_filter_less nat_neq_iff)
  have p: "purged m r b = (if set ?ps = set (completed_paths m) \<and> length ?cur = length (cursor m)
      \<and> length ?rds = length (rounds m) then m else m\<lparr>completed_paths := ?ps, cursor := ?cur, rounds := ?rds\<rparr>)"
    unfolding purged_def Let_def case_prod_unfold ..
  show ?thesis
  proof (cases "set ?ps = set (completed_paths m) \<and> length ?cur = length (cursor m) \<and> length ?rds = length (rounds m)")
    case True
    then have "?cur = cursor m" "?rds = rounds m" by (blast intro: f)+
    moreover have "?ps = completed_paths m" by (rule filter_True) (use True in auto)
    ultimately show ?thesis unfolding p by simp
  next
    case False
    then show ?thesis unfolding p by (rule if_not_P)
  qed
qed

lemma purged_visits [simp]: "visits (purged m r b) = visits m"
  by (simp add: purged_eq)

lemma purged_frame: "frame r m (purged m r b)"
  by (simp add: agree_on_def purged_eq case_prod_unfold) (auto intro: filter_cong)

lemma filter_under_filter: "filter P xs = filter P ys \<Longrightarrow> filter P (filter Q xs) = filter P (filter Q ys)"
proof -
  assume eq: "filter P xs = filter P ys"
  have comm: "filter P (filter Q zs) = filter Q (filter P zs)" for zs by (induction zs) auto
  show ?thesis unfolding comm eq ..
qed

lemma purged_agree: "agree r m m' \<Longrightarrow> agree r (purged m q b) (purged m' q b)"
  unfolding agree_on_def purged_eq
  by (intro conjI; simp del: filter_filter) (blast intro: filter_under_filter)+

lemma filter_dict_set [simp]: "\<not> P k \<Longrightarrow> filter (\<lambda>e. P (fst e)) (dict_set k v d) = filter (\<lambda>e. P (fst e)) d"
  by (induction d) auto

lemma set_cursor_agree [simp]: "\<not> P p \<Longrightarrow> agree_on P (m\<lparr>cursor := dict_set p c (cursor m)\<rparr>) m"
  by (simp add: agree_on_def)

lemma is_complete_local: "agree p m m' \<Longrightarrow> is_complete v p m = is_complete v p m'"
proof (induction v arbitrary: p)
  case (PartialOrder cs es f cl d)
  have "order_body_complete (map (\<lambda>c p m. is_complete c p m) cs) p m
      = order_body_complete (map (\<lambda>c p m. is_complete c p m) cs) p m'"
    unfolding order_body_complete_def
    by (rule allE_cong) (use PartialOrder.IH agree_below [OF PartialOrder.prems] in auto)
  then show ?case
    using agree_in_progress [OF PartialOrder.prems] agree_on_rounds [OF PartialOrder.prems under_refl]
    by (simp add: composite_complete_def)
next
  case (ChoiceGraph cs es st en f d)
  have "child_at (map is_complete cs) c = Inr test \<Longrightarrow> test (p @ [c]) m = test (p @ [c]) m'" for c test
    using ChoiceGraph.IH agree_below [OF ChoiceGraph.prems] by (auto dest!: child_at_InrD)
  then have "graph_body_complete (map (\<lambda>c p m. is_complete c p m) cs) en p m
      = graph_body_complete (map (\<lambda>c p m. is_complete c p m) cs) en p m'"
    unfolding graph_body_complete_def
    by (auto simp: agree_on_cursor [OF ChoiceGraph.prems] intro!: bindE_cong split: option.splits)
  then show ?case
    using agree_in_progress [OF ChoiceGraph.prems] agree_on_rounds [OF ChoiceGraph.prems under_refl]
    by (simp add: composite_complete_def)
qed (auto simp: agree_on_mem)

lemma no_more_rounds_local:
  "agree p m m' \<Longrightarrow> visits m = visits m' \<Longrightarrow> no_more_rounds b cap f p m = no_more_rounds b cap f p m'"
  using agree_in_progress [of p m m'] agree_on_rounds [of "under p" m m' p]
  by (simp add: no_more_rounds_def split: option.splits)

lemma enabled_local:
  "agree p m m' \<Longrightarrow> visits m = visits m' \<Longrightarrow> enabled_in b cap v p m = enabled_in b cap v p m'"
proof (induction v arbitrary: p m m')
  case (PartialOrder cs es f cl d)
  note loc = is_complete_local [OF agree_below [OF PartialOrder.prems(1)]]
  have "order_enabled cs (map (\<lambda>c p m. enabled_in b cap c p m) cs) cl p m
      = order_enabled cs (map (\<lambda>c p m. enabled_in b cap c p m) cs) cl p m'"
    unfolding order_enabled_def loc
    by (rule foldE_cong [OF refl refl])
      (use PartialOrder in \<open>auto intro!: bindE_cong PartialOrder.IH agree_below\<close>)
  then show ?case using no_more_rounds_local [OF PartialOrder.prems] by simp
next
  case (ChoiceGraph cs es st en f d)
  let ?ens = "map (\<lambda>c p m. enabled_in b cap c p m) cs"
  note loc = is_complete_local [OF agree_below [OF ChoiceGraph.prems(1)]]
  have en: "child_at ?ens c = Inr e \<Longrightarrow> agree (p @ [c]) k k' \<Longrightarrow> visits k = visits k' \<Longrightarrow> e (p @ [c]) k = e (p @ [c]) k'"
    for c e k k' using ChoiceGraph.IH by (auto dest!: child_at_InrD)
  have "offer b cap ?ens p m cands = offer b cap ?ens p m' cands" for cands
    unfolding offer_def ChoiceGraph.prems(2)
  proof (rule foldE_cong [OF refl refl])
    fix out c
    have "agree (p @ [c]) (purged m (p @ [c]) True) (purged m' (p @ [c]) True)"
      using agree_below [OF purged_agree [OF ChoiceGraph.prems(1)]] .
    then show "(if cap \<and> dict_get (visits m') (p, c) 0 \<ge> max_node_visits b then Inr out
         else bindE (child_at ?ens c) (\<lambda>e. bindE (e (p @ [c]) (purged m (p @ [c]) True))
            (\<lambda>found. Inr (list_union out found))))
      = (if cap \<and> dict_get (visits m') (p, c) 0 \<ge> max_node_visits b then Inr out
         else bindE (child_at ?ens c) (\<lambda>e. bindE (e (p @ [c]) (purged m' (p @ [c]) True))
            (\<lambda>found. Inr (list_union out found))))"
      using en [of c] ChoiceGraph.prems(2) by (auto intro!: bindE_cong)
  qed
  then have "graph_enabled b cap cs ?ens es st en p m = graph_enabled b cap cs ?ens es st en p m'"
    unfolding graph_enabled_def loc agree_on_cursor [OF ChoiceGraph.prems(1) under_refl]
    using en agree_below [OF ChoiceGraph.prems(1)] ChoiceGraph.prems(2)
    by (auto intro!: bindE_cong split: option.splits)
  then show ?case using no_more_rounds_local [OF ChoiceGraph.prems] by simp
qed (auto simp: agree_on_mem)

section \<open>The loops of \<open>fire\<close>, one level at a time\<close>

definition enter_node :: "pnode \<Rightarrow> path \<Rightarrow> int \<Rightarrow> marking \<times> ((path \<times> int) \<times> nat) list
    \<Rightarrow> (marking \<times> ((path \<times> int) \<times> nat) list) res" where
  "enter_node v p i = (\<lambda>(w, vis). case v of
       ChoiceGraph cs es st en f d \<Rightarrow>
         bindE (if cursor_at w p \<noteq> Some i then Inr True
                else bindE (child_at cs i) (\<lambda>c. is_complete c (p @ [i]) w)) (\<lambda>entering.
           if entering
           then let w' = purged w (p @ [i]) True
                in Inr (w'\<lparr>cursor := dict_set p (Some i) (cursor w')\<rparr>,
                        dict_set (p, i) (dict_get vis (p, i) 0 + 1) vis)
           else Inr (w, vis))
     | _ \<Rightarrow> Inr (w, vis))"

definition close_node :: "pnode \<Rightarrow> path \<Rightarrow> marking \<Rightarrow> marking res" where
  "close_node v p m = (if is_leaf v then Inr m
     else bindE (body_complete v p m) (\<lambda>complete.
       if \<not> complete then Inr m
       else let n = rounds_done m p + 1; w = purged m p False
            in Inr (w\<lparr>rounds := dict_set p n (rounds w),
                      visits := dict_set (p, -1) (dict_get (visits w) (p, -1) 0 + 1) (visits w)\<rparr>)))"

fun descend :: "pnode \<Rightarrow> path \<Rightarrow> path \<Rightarrow> marking \<times> ((path \<times> int) \<times> nat) list
    \<Rightarrow> (marking \<times> ((path \<times> int) \<times> nat) list) res" where
  "descend v p [] s = Inr s"
| "descend v p (i # q) s = bindE (enter_node v p i s) (\<lambda>s. bindE (node_at v [i]) (\<lambda>c. descend c (p @ [i]) q s))"

fun ascend :: "pnode \<Rightarrow> path \<Rightarrow> path \<Rightarrow> marking \<Rightarrow> marking res" where
  "ascend v p [] m = Inr m"
| "ascend v p (i # q) m = bindE (node_at v [i]) (\<lambda>c. bindE (ascend c (p @ [i]) q m) (close_node v p))"

lemma node_at_Cons: "node_at v (i # q) = bindE (node_at v [i]) (\<lambda>c. node_at c q)"
  using node_at_append [of v "[i]" q] by simp

lemma enter_at: "node_at model p = Inr v \<Longrightarrow> enter model (p @ i # q) s (length p) = enter_node v p i s"
  unfolding enter_def enter_node_def by (cases s; cases v) (simp_all add: Let_def cong: if_cong)

lemma foldE_enter:
  "node_at model p = Inr v \<Longrightarrow> node_at v q = Inr w \<Longrightarrow>
   foldE (enter model (p @ q)) s [length p..<length p + length q] = descend v p q s"
proof (induction q arbitrary: v p s)
  case (Cons i q)
  obtain c where c: "node_at v [i] = Inr c" "node_at c q = Inr w"
    using Cons.prems(2) by (auto simp: node_at_Cons [of v i q] bindE_Inr_iff)
  have pi: "node_at model (p @ [i]) = Inr c" using Cons.prems(1) c(1) by (simp add: node_at_append)
  have "[length p..<length p + length (i # q)] = length p # [length (p @ [i])..<length (p @ [i]) + length q]"
    by (simp add: upt_conv_Cons del: upt_Suc)
  then show ?case using Cons.IH [OF pi c(2)] c(1) enter_at [OF Cons.prems(1), of i q] by simp
qed simp

lemma close_at: "node_at model p = Inr v \<Longrightarrow> close_round model (p @ q) m (length p) = close_node v p m"
  unfolding close_round_def close_node_def by (simp add: Let_def)

lemma foldE_close:
  "node_at model p = Inr v \<Longrightarrow> node_at v q = Inr w \<Longrightarrow>
   foldE (close_round model (p @ q)) m (rev [length p..<length p + length q]) = ascend v p q m"
proof (induction q arbitrary: v p m)
  case (Cons i q)
  obtain c where c: "node_at v [i] = Inr c" "node_at c q = Inr w"
    using Cons.prems(2) by (auto simp: node_at_Cons [of v i q] bindE_Inr_iff)
  have pi: "node_at model (p @ [i]) = Inr c" using Cons.prems(1) c(1) by (simp add: node_at_append)
  have "rev [length p..<length p + length (i # q)] = rev [length (p @ [i])..<length (p @ [i]) + length q] @ [length p]"
    by (simp add: upt_conv_Cons del: upt_Suc)
  then show ?case using Cons.IH [OF pi c(2)] c(1) close_at [OF Cons.prems(1), of "i # q"] by (simp add: foldE_append)
qed simp

text \<open>What a successful \<open>fire\<close> did.\<close>

lemma fireE:
  assumes "fire sha model m p ctx b = Inr m'"
  obtains live v act w vis k where "enabled model m b = Inr live" "p \<in> set live" "fires m + 1 \<le> max_activity_fires b"
    "node_at model p = Inr v" "descend model [] p (m, visits m) = Inr (w, vis)"
    "length (completed_paths w) + 1 \<le> max_marking_states b"
    "ascend model [] p (w\<lparr>completed := k, completed_paths := add_elem p (completed_paths w), visits := vis,
       fires := fires m + 1\<rparr>) = Inr m'"
proof -
  from assms obtain live v act where live: "enabled model m b = Inr live" "p \<in> set live" "fires m + 1 \<le> max_activity_fires b"
    and v: "node_at model p = Inr v"
    by (auto simp: fire_def bindE_Inr_iff split: if_splits)
  from assms live v obtain w vis k where w: "foldE (enter model p) (m, visits m) [0..<length p] = Inr (w, vis)"
    "length (completed_paths w) + 1 \<le> max_marking_states b"
    "close_rounds model p (w\<lparr>completed := k, completed_paths := add_elem p (completed_paths w), visits := vis,
       fires := fires m + 1\<rparr>) = Inr m'"
    by (auto simp: fire_def bindE_Inr_iff Let_def split: if_splits)
  note d = foldE_enter [of model "[]" model p v, simplified, OF v]
    and a = foldE_close [of model "[]" model p v, simplified, OF v]
  show thesis by (rule that [OF live v w(1) [unfolded d] w(2) w(3) [unfolded close_rounds_def a]])
qed

section \<open>What is enabled\<close>

lemma foldE_union_mem:
  assumes "foldE (\<lambda>out x. bindE (g x) (\<lambda>r. Inr (case r of None \<Rightarrow> out | Some new \<Rightarrow> list_union out new))) out xs = Inr res"
    and "q \<in> set res"
  shows "q \<in> set out \<or> (\<exists>x \<in> set xs. \<exists>new. g x = Inr (Some new) \<and> q \<in> set new)"
  using assms
proof (induction xs arbitrary: out)
  case (Cons x xs)
  then obtain r where r: "g x = Inr r" by (auto simp: bindE_Inr_iff)
  with Cons.IH [of "case r of None \<Rightarrow> out | Some new \<Rightarrow> list_union out new"] Cons.prems show ?case
    by (cases r) auto
qed simp

lemma order_enabled_mem:
  assumes "order_enabled cs ens cl p m = Inr out" "q \<in> set out"
  obtains k new where "k < length cs" "is_complete (cs ! k) (p @ [int k]) m = Inr False"
    "\<And>j c. j \<in> set (closure_preds cl k) \<Longrightarrow> child_at cs j = Inr c \<Longrightarrow> is_complete c (p @ [j]) m = Inr True"
    "(ens ! k) (p @ [int k]) m = Inr new" "q \<in> set new"
proof -
  let ?g = "\<lambda>i. bindE (is_complete (cs ! i) (p @ [int i]) m) (\<lambda>complete.
         if complete then Inr None
         else bindE (allE (\<lambda>j. bindE (child_at cs j) (\<lambda>c. is_complete c (p @ [j]) m)) (closure_preds cl i)) (\<lambda>ready.
           if \<not> ready then Inr None
           else bindE ((ens ! i) (p @ [int i]) m) (\<lambda>new. Inr (Some new))))"
  have eq: "order_enabled cs ens cl p m = foldE (\<lambda>out i. bindE (?g i)
      (\<lambda>r. Inr (case r of None \<Rightarrow> out | Some new \<Rightarrow> list_union out new))) [] [0..<length cs]"
    unfolding order_enabled_def bindE_assoc
    by (intro foldE_cong refl bindE_cong) (auto simp: bindE_assoc intro!: bindE_cong)
  obtain k new where k: "k < length cs" "?g k = Inr (Some new)" "q \<in> set new"
    using foldE_union_mem [OF trans [OF eq [symmetric] assms(1)] assms(2)] that by auto
  from k(2) have "is_complete (cs ! k) (p @ [int k]) m = Inr False" "(ens ! k) (p @ [int k]) m = Inr new"
    and all: "allE (\<lambda>j. bindE (child_at cs j) (\<lambda>c. is_complete c (p @ [j]) m)) (closure_preds cl k) = Inr True"
    by (auto simp: bindE_Inr_iff split: if_splits)
  moreover have "f x = Inr True" if "allE f xs = Inr True" "x \<in> set xs" for f :: "int \<Rightarrow> bool res" and x xs
    using that by (induction xs) (auto simp: bindE_Inr_iff split: if_splits)
  from this [OF all] have "is_complete c (p @ [j]) m = Inr True" if "j \<in> set (closure_preds cl k)" "child_at cs j = Inr c" for j c
    using that by fastforce
  ultimately show thesis using that k by blast
qed

lemma offer_mem:
  assumes "offer b cap ens p m cands = Inr out" "q \<in> set out"
  obtains c e new where "c \<in> set cands" "\<not> (cap \<and> dict_get (visits m) (p, c) 0 \<ge> max_node_visits b)"
    "child_at ens c = Inr e" "e (p @ [c]) (purged m (p @ [c]) True) = Inr new" "q \<in> set new"
proof -
  let ?g = "\<lambda>c. if cap \<and> dict_get (visits m) (p, c) 0 \<ge> max_node_visits b then Inr None
       else bindE (child_at ens c) (\<lambda>en. bindE (en (p @ [c]) (purged m (p @ [c]) True)) (\<lambda>new. Inr (Some new)))"
  have eq: "offer b cap ens p m cands = foldE (\<lambda>out c. bindE (?g c)
      (\<lambda>r. Inr (case r of None \<Rightarrow> out | Some new \<Rightarrow> list_union out new))) [] cands"
    unfolding offer_def by (intro foldE_cong refl) (auto simp: bindE_assoc)
  obtain c new where "c \<in> set cands" "?g c = Inr (Some new)" "q \<in> set new"
    using foldE_union_mem [OF trans [OF eq [symmetric] assms(1)] assms(2)] that by auto
  then show thesis using that by (auto simp: bindE_Inr_iff split: if_splits)
qed

text \<open>The two ways in which a path of a choice graph is enabled: inside the child, or entering it.\<close>

lemma graph_enabled_mem:
  assumes "graph_enabled b cap cs ens es st en p m = Inr out" "q \<in> set out"
  obtains (inside) c child e where "cursor_at m p = Some c" "child_at cs c = Inr child"
      "is_complete child (p @ [c]) m = Inr False" "child_at ens c = Inr e" "e (p @ [c]) m = Inr out"
  | (entering) c e new where "cursor_at m p = None \<and> c = st
        \<or> (\<exists>cur child. cursor_at m p = Some cur \<and> child_at cs cur = Inr child
             \<and> is_complete child (p @ [cur]) m = Inr True \<and> cur \<noteq> en \<and> (cur, c) \<in> erel es)"
      "\<not> (cap \<and> dict_get (visits m) (p, c) 0 \<ge> max_node_visits b)"
      "child_at ens c = Inr e" "e (p @ [c]) (purged m (p @ [c]) True) = Inr new" "q \<in> set new"
proof (cases "cursor_at m p")
  case None
  then have "offer b cap ens p m [st] = Inr out" using assms by (simp add: graph_enabled_def)
  from offer_mem [OF this assms(2)] show thesis using None entering by (metis empty_iff list.set(1) set_ConsD)
next
  case (Some cur)
  then obtain child complete where ch: "child_at cs cur = Inr child" "is_complete child (p @ [cur]) m = Inr complete"
    using assms by (auto simp: graph_enabled_def bindE_Inr_iff)
  show thesis
  proof (cases complete)
    case False
    then show thesis using assms Some ch by (auto simp: graph_enabled_def bindE_Inr_iff intro: inside)
  next
    case True
    with assms Some ch have o: "offer b cap ens p m (remdups (map dst (filter (\<lambda>e. src e = cur) es))) = Inr out" "cur \<noteq> en"
      by (auto simp: graph_enabled_def split: if_splits)
    from offer_mem [OF o(1) assms(2)] obtain c e new where c: "c \<in> set (remdups (map dst (filter (\<lambda>e. src e = cur) es)))"
      "\<not> (cap \<and> dict_get (visits m) (p, c) 0 \<ge> max_node_visits b)" "child_at ens c = Inr e"
      "e (p @ [c]) (purged m (p @ [c]) True) = Inr new" "q \<in> set new" .
    from c(1) have "(cur, c) \<in> erel es" by (auto simp: erel_def)
    moreover have "is_complete child (p @ [cur]) m = Inr True" using ch(2) True by simp
    ultimately have "\<exists>cur child. cursor_at m p = Some cur \<and> child_at cs cur = Inr child
        \<and> is_complete child (p @ [cur]) m = Inr True \<and> cur \<noteq> en \<and> (cur, c) \<in> erel es"
      using Some ch(1) o(2) by blast
    then show thesis using entering [OF _ c(2-)] by blast
  qed
qed

end
