(* ===== verification/Powl_Emission.thy ===== *)
theory Powl_Emission
  imports Powl_Run
begin

text \<open>
  The executor implements the denotation: the labels emitted by a run that reaches a final
  marking form a trace of the model's language.  \<open>emitted v p m t\<close> is the simulation
  relation between a marking, read at the subtree \<open>v\<close> with path \<open>p\<close>, and the labels \<open>t\<close>
  emitted there so far: finished rounds, then a round in progress.
\<close>

section \<open>The simulation relation\<close>

definition order_lang :: "pnode list \<Rightarrow> edge list \<Rightarrow> trace set" where
  "order_lang cs cl = merge_lang (before cl) (map (den None) cs)"

definition choice_lang :: "pnode list \<Rightarrow> edge list \<Rightarrow> int \<Rightarrow> int \<Rightarrow> trace set" where
  "choice_lang cs es st en = graph_lang None (erel es) st en (map (den None) cs)"

definition repeats :: "nat \<Rightarrow> trace set \<Rightarrow> trace set" where
  "repeats n L = conc_list (replicate n L)"

lemma repeats_0 [simp]: "repeats 0 L = {[]}" by (simp add: repeats_def)

lemma repeats_Suc: "u \<in> repeats n L \<Longrightarrow> v \<in> L \<Longrightarrow> u @ v \<in> repeats (Suc n) L"
proof -
  assume u: "u \<in> repeats n L" and v: "v \<in> L"
  have "repeats (Suc n) L = conc (repeats n L) L"
    unfolding repeats_def replicate_Suc replicate_append_same [symmetric] by (simp add: conc_list_append)
  with u v show ?thesis by (simp add: concI)
qed

lemma den_composite:
  "allows f (int n) \<Longrightarrow> t \<in> repeats n (order_lang cs cl) \<Longrightarrow> t \<in> den None (PartialOrder cs es f cl d)"
  "allows f (int n) \<Longrightarrow> t \<in> repeats n (choice_lang cs es st en) \<Longrightarrow> t \<in> den None (ChoiceGraph cs es st en f d)"
  by (auto simp: bounded_powers_def within_def repeats_def order_lang_def choice_lang_def)

text \<open>The round in progress of a partial order, as symbols with their owners.\<close>

definition order_round :: "(int \<Rightarrow> trace \<Rightarrow> bool) \<Rightarrow> (int \<Rightarrow> bool) \<Rightarrow> nat \<Rightarrow> edge list \<Rightarrow> (nat \<times> string) list \<Rightarrow> bool" where
  "order_round child full n cl zs \<longleftrightarrow> (\<forall>z \<in> set zs. fst z < n) \<and> keeps_order (before cl) zs
     \<and> (\<forall>i < n. child (int i) (strand i zs))
     \<and> (\<forall>i < n. \<forall>k. before cl i k \<longrightarrow> strand k zs \<noteq> [] \<longrightarrow> full (int i))"

text \<open>The round in progress of a choice graph whose cursor is at \<open>c\<close>.\<close>

definition graph_round :: "(int \<Rightarrow> trace \<Rightarrow> bool) \<Rightarrow> pnode list \<Rightarrow> edge list \<Rightarrow> int \<Rightarrow> int \<Rightarrow> trace \<Rightarrow> bool" where
  "graph_round child cs es st c t \<longleftrightarrow> in_range c (length cs) \<and> (\<exists>ws ts tc. walk (erel es) st c (ws @ [c])
     \<and> ts \<in> conc_list (map (\<lambda>i. map (den None) cs ! nat i) ws) \<and> t = ts @ tc \<and> child c tc)"

fun emitted :: "pnode \<Rightarrow> path \<Rightarrow> marking \<Rightarrow> trace \<Rightarrow> bool" where
  "emitted (PartialOrder cs es f cl d) p m t \<longleftrightarrow> (\<exists>t0 zs. t = t0 @ map snd zs
     \<and> t0 \<in> repeats (rounds_done m p) (order_lang cs cl)
     \<and> order_round (\<lambda>i u. (map (\<lambda>c p u. emitted c p m u) cs ! nat i) (p @ [i]) u)
         (\<lambda>i. is_complete (cs ! nat i) (p @ [i]) m = Inr True) (length cs) cl zs)"
| "emitted (ChoiceGraph cs es st en f d) p m t \<longleftrightarrow> (\<exists>t0 t1. t = t0 @ t1
     \<and> t0 \<in> repeats (rounds_done m p) (choice_lang cs es st en)
     \<and> (case cursor_at m p of None \<Rightarrow> t1 = []
        | Some c \<Rightarrow> graph_round (\<lambda>i u. in_range i (length cs)
            \<and> (map (\<lambda>c p u. emitted c p m u) cs ! nat i) (p @ [i]) u) cs es st c t1))"
| "emitted v p m t \<longleftrightarrow> t = (if p \<in> set (completed_paths m) then label_of v else [])"

lemma order_round_cong:
  assumes "\<And>i u. i < n \<Longrightarrow> child (int i) u = child' (int i) u" "\<And>i. i < n \<Longrightarrow> full (int i) = full' (int i)"
  shows "order_round child full n cl zs = order_round child' full' n cl zs"
  unfolding order_round_def by (simp add: assms)

lemma graph_round_cong:
  assumes "\<And>u. in_range c (length cs) \<Longrightarrow> child c u = child' c u"
  shows "graph_round child cs es st c t = graph_round child' cs es st c t"
  using assms unfolding graph_round_def by (cases "in_range c (length cs)") simp_all

lemma emitted_order:
  "emitted (PartialOrder cs es f cl d) p m t \<longleftrightarrow> (\<exists>t0 zs. t = t0 @ map snd zs
     \<and> t0 \<in> repeats (rounds_done m p) (order_lang cs cl)
     \<and> order_round (\<lambda>i u. emitted (cs ! nat i) (p @ [i]) m u)
         (\<lambda>i. is_complete (cs ! nat i) (p @ [i]) m = Inr True) (length cs) cl zs)"
proof -
  have "order_round (\<lambda>i u. (map (\<lambda>c p u. emitted c p m u) cs ! nat i) (p @ [i]) u) g (length cs) cl zs
      = order_round (\<lambda>i u. emitted (cs ! nat i) (p @ [i]) m u) g (length cs) cl zs" for g zs
    by (rule order_round_cong) simp_all
  then show ?thesis by simp
qed

lemma emitted_choice:
  "emitted (ChoiceGraph cs es st en f d) p m t \<longleftrightarrow> (\<exists>t0 t1. t = t0 @ t1
     \<and> t0 \<in> repeats (rounds_done m p) (choice_lang cs es st en)
     \<and> (case cursor_at m p of None \<Rightarrow> t1 = []
        | Some c \<Rightarrow> graph_round (\<lambda>i u. emitted (cs ! nat i) (p @ [i]) m u) cs es st c t1))"
proof -
  have "graph_round (\<lambda>i u. in_range i (length cs) \<and> (map (\<lambda>c p u. emitted c p m u) cs ! nat i) (p @ [i]) u) cs es st c t1
      = graph_round (\<lambda>i u. emitted (cs ! nat i) (p @ [i]) m u) cs es st c t1" for c t1
    by (rule graph_round_cong) (simp add: in_range_nat)
  then show ?thesis by (cases "cursor_at m p") simp_all
qed

declare emitted.simps(1,2) [simp del]

lemma emitted_local: "agree p m m' \<Longrightarrow> emitted v p m t = emitted v p m' t"
proof (induction v arbitrary: p t)
  case (PartialOrder cs es f cl d)
  note below = agree_below [OF PartialOrder.prems]
  have "order_round (\<lambda>i u. emitted (cs ! nat i) (p @ [i]) m u) (\<lambda>i. is_complete (cs ! nat i) (p @ [i]) m = Inr True) (length cs) cl zs
      = order_round (\<lambda>i u. emitted (cs ! nat i) (p @ [i]) m' u) (\<lambda>i. is_complete (cs ! nat i) (p @ [i]) m' = Inr True) (length cs) cl zs"
    for zs
    by (rule order_round_cong) (simp_all add: PartialOrder.IH below is_complete_local [OF below])
  then show ?case
    unfolding emitted_order agree_on_rounds [OF PartialOrder.prems under_refl] by simp
next
  case (ChoiceGraph cs es st en f d)
  note below = agree_below [OF ChoiceGraph.prems]
  have "graph_round (\<lambda>i u. emitted (cs ! nat i) (p @ [i]) m u) cs es st c u
      = graph_round (\<lambda>i u. emitted (cs ! nat i) (p @ [i]) m' u) cs es st c u" for c u
    by (rule graph_round_cong) (simp add: ChoiceGraph.IH below in_range_nat)
  then show ?case
    unfolding emitted_choice agree_on_rounds [OF ChoiceGraph.prems under_refl]
      agree_on_cursor [OF ChoiceGraph.prems under_refl] by (cases "cursor_at m' p") simp_all
qed (simp_all add: agree_on_mem)

section \<open>Fresh and complete subtrees\<close>

definition idle :: "path \<Rightarrow> marking \<Rightarrow> bool" where
  "idle p m \<longleftrightarrow> (\<forall>q \<in> set (completed_paths m). \<not> under p q) \<and> (\<forall>e \<in> set (cursor m). \<not> under p (fst e))
     \<and> (\<forall>e \<in> set (rounds m). under p (fst e) \<longrightarrow> snd e = 0)"

lemma idle_below: "idle p m \<Longrightarrow> idle (p @ q) m"
  by (auto simp: idle_def under_iff)

lemma idle_rounds: "idle p m \<Longrightarrow> rounds_done m p = 0"
  by (auto simp: idle_def rounds_done_def dict_get_def split: option.splits dest!: map_of_SomeD)

lemma idle_cursor: "idle p m \<Longrightarrow> cursor_at m p = None"
  by (auto simp: idle_def cursor_at_def split: option.splits dest!: map_of_SomeD)

lemma idle_purged: "idle p (purged m p True)"
  by (simp add: idle_def purged_eq)

lemma not_in_progress_idle: "\<not> in_progress p m \<Longrightarrow> idle (p @ [i]) m"
proof -
  assume no: "\<not> in_progress p m"
  have "length q > length p \<and> under p q" if "under (p @ [i]) q" for q using that by (auto simp: under_iff)
  with no show ?thesis by (fastforce simp: in_progress_def idle_def)
qed

lemma not_in_progress_cursor: "\<not> in_progress p m \<Longrightarrow> cursor_at m p = None"
  by (fastforce simp: in_progress_def cursor_at_def split: option.splits dest!: map_of_SomeD)

lemma strands_Nil: "(\<forall>z \<in> set zs. fst z < n) \<Longrightarrow> (\<forall>i < n. strand i zs = []) \<Longrightarrow> zs = []"
  by (cases zs) (auto simp: strand_Cons split: if_splits)

lemma order_round_Nil [simp]: "order_round child full n cl [] \<longleftrightarrow> (\<forall>i < n. child (int i) [])"
  by (simp add: order_round_def keeps_order_def)

lemma emitted_idle: "idle p m \<Longrightarrow> emitted v p m t \<longleftrightarrow> t = []"
proof (induction v arbitrary: p t)
  case (PartialOrder cs es f cl d)
  have c: "emitted (cs ! i) (p @ [int i]) m u \<longleftrightarrow> u = []" if "i < length cs" for i u
    using PartialOrder that idle_below by auto
  have "order_round (\<lambda>i u. emitted (cs ! nat i) (p @ [i]) m u)
         (\<lambda>i. is_complete (cs ! nat i) (p @ [i]) m = Inr True) (length cs) cl zs \<longleftrightarrow> zs = []" for zs
  proof
    assume "order_round (\<lambda>i u. emitted (cs ! nat i) (p @ [i]) m u)
         (\<lambda>i. is_complete (cs ! nat i) (p @ [i]) m = Inr True) (length cs) cl zs"
    then have "\<forall>i < length cs. strand i zs = []" "\<forall>z \<in> set zs. fst z < length cs"
      using c by (simp_all add: order_round_def)
    then show "zs = []" by (rule strands_Nil [rotated])
  qed (use c in simp)
  then show ?case by (simp add: emitted_order idle_rounds [OF PartialOrder.prems])
next
  case (ChoiceGraph cs es st en f d)
  then show ?case by (simp add: emitted_choice idle_rounds idle_cursor)
qed (auto simp: idle_def)

lemma order_body:
  assumes er: "order_round (\<lambda>i u. emitted (cs ! nat i) (p @ [i]) m u) full (length cs) cl zs"
    and body: "order_body_complete (map is_complete cs) p m = Inr True"
    and child: "\<And>c q t. c \<in> set cs \<Longrightarrow> emitted c q m t \<Longrightarrow> is_complete c q m = Inr True \<Longrightarrow> t \<in> den None c"
  shows "map snd zs \<in> order_lang cs cl"
proof -
  have all: "allE f xs = Inr True \<Longrightarrow> x \<in> set xs \<Longrightarrow> f x = Inr True" for f :: "nat \<Rightarrow> bool res" and xs x
    by (induction xs) (auto simp: bindE_Inr_iff split: if_splits)
  have full: "is_complete (cs ! i) (p @ [int i]) m = Inr True" if "i < length cs" for i
    using all [OF body [unfolded order_body_complete_def], of i] that by simp
  have "strand i zs \<in> map (den None) cs ! i" if "i < length cs" for i
    using er child [OF _ _ full [OF that], of "strand i zs"] that by (simp add: order_round_def)
  then show ?thesis using er unfolding order_lang_def merge_lang_def order_round_def
    by (intro CollectI exI [of _ zs]) simp
qed

lemma choice_body:
  assumes er: "graph_round (\<lambda>i u. emitted (cs ! nat i) (p @ [i]) m u) cs es st en t"
    and full: "is_complete (cs ! nat en) (p @ [en]) m = Inr True"
    and child: "\<And>c q t. c \<in> set cs \<Longrightarrow> emitted c q m t \<Longrightarrow> is_complete c q m = Inr True \<Longrightarrow> t \<in> den None c"
  shows "t \<in> choice_lang cs es st en"
proof -
  obtain ws ts tc where w: "walk (erel es) st en (ws @ [en])" "ts \<in> conc_list (map (\<lambda>i. map (den None) cs ! nat i) ws)"
    "t = ts @ tc" "emitted (cs ! nat en) (p @ [en]) m tc" and r: "in_range en (length cs)"
    using er by (auto simp: graph_round_def)
  have "tc \<in> map (den None) cs ! nat en" using child [OF _ w(4) full] in_range_nat [OF r] by simp
  then have "t \<in> conc_list (map (\<lambda>i. map (den None) cs ! nat i) (ws @ [en]))"
    unfolding w(3) by (simp add: conc_list_append concI [OF w(2)])
  then show ?thesis unfolding choice_lang_def graph_lang_def using w(1)
    by (intro UN_I [of "ws @ [en]"]) (simp_all add: within_def)
qed

lemma emitted_body:
  assumes "emitted v p m t" "body_complete v p m = Inr True"
    and child: "\<And>c q t. c \<in> set (children v) \<Longrightarrow> emitted c q m t \<Longrightarrow> is_complete c q m = Inr True \<Longrightarrow> t \<in> den None c"
  shows "(\<exists>cs es f cl d. v = PartialOrder cs es f cl d \<and> t \<in> repeats (Suc (rounds_done m p)) (order_lang cs cl))
    \<or> (\<exists>cs es st en f d. v = ChoiceGraph cs es st en f d \<and> t \<in> repeats (Suc (rounds_done m p)) (choice_lang cs es st en))"
proof (cases v)
  case (PartialOrder cs es f cl d)
  then show ?thesis using assms(1,2) order_body child repeats_Suc unfolding emitted_order
    by (fastforce simp: emitted_order)
next
  case (ChoiceGraph cs es st en f d)
  then have cur: "cursor_at m p = Some en" "bindE (child_at cs en) (\<lambda>c. is_complete c (p @ [en]) m) = Inr True"
    using assms(2) by (auto simp: graph_body_complete_def child_at_def py_get_def Let_def split: option.splits if_splits)
  obtain t0 t1 where t: "t = t0 @ t1" "t0 \<in> repeats (rounds_done m p) (choice_lang cs es st en)"
    "graph_round (\<lambda>i u. emitted (cs ! nat i) (p @ [i]) m u) cs es st en t1"
    using assms(1) cur(1) ChoiceGraph by (auto simp: emitted_choice)
  have "in_range en (length cs)" using t(3) by (simp add: graph_round_def)
  then have "is_complete (cs ! nat en) (p @ [en]) m = Inr True" using cur(2) by simp
  then have "t1 \<in> choice_lang cs es st en" using choice_body [OF t(3)] child ChoiceGraph by simp
  then show ?thesis using ChoiceGraph t repeats_Suc by auto
qed (use assms(2) in auto)

lemma emitted_complete: "emitted v p m t \<Longrightarrow> is_complete v p m = Inr True \<Longrightarrow> t \<in> den None v"
proof (induction v arbitrary: p t)
  case (PartialOrder cs es f cl d)
  let ?n = "rounds_done m p"
  show ?case
  proof (cases "allows f (int ?n) \<and> \<not> in_progress p m")
    case True
    obtain t0 zs where t: "t = t0 @ map snd zs" "t0 \<in> repeats ?n (order_lang cs cl)"
      "order_round (\<lambda>i u. emitted (cs ! nat i) (p @ [i]) m u) (\<lambda>i. is_complete (cs ! nat i) (p @ [i]) m = Inr True) (length cs) cl zs"
      using PartialOrder.prems(1) unfolding emitted_order by blast
    have "\<forall>i < length cs. strand i zs = []"
      using t(3) emitted_idle [OF not_in_progress_idle] True by (simp add: order_round_def)
    then have "zs = []" using t(3) strands_Nil [of zs "length cs"] by (simp add: order_round_def)
    then have "t \<in> repeats ?n (order_lang cs cl)" using t by simp
    with True show ?thesis by (blast intro: den_composite(1))
  next
    case False
    with PartialOrder.prems(2) have a: "allows f (int (Suc ?n))" and b: "body_complete (PartialOrder cs es f cl d) p m = Inr True"
      by (auto simp: composite_complete_def Let_def add.commute split: if_splits)
    have "t \<in> repeats (Suc ?n) (order_lang cs cl)"
      using emitted_body [OF PartialOrder.prems(1) b] PartialOrder.IH by fastforce
    then show ?thesis by (rule den_composite(1) [OF a])
  qed
next
  case (ChoiceGraph cs es st en f d)
  let ?n = "rounds_done m p"
  show ?case
  proof (cases "allows f (int ?n) \<and> \<not> in_progress p m")
    case True
    then have "t \<in> repeats ?n (choice_lang cs es st en)"
      using ChoiceGraph.prems(1) not_in_progress_cursor by (auto simp: emitted_choice)
    then show ?thesis using True den_composite(2) by blast
  next
    case False
    with ChoiceGraph.prems(2) have a: "allows f (int (Suc ?n))" and b: "body_complete (ChoiceGraph cs es st en f d) p m = Inr True"
      by (auto simp: composite_complete_def Let_def add.commute split: if_splits)
    have "t \<in> repeats (Suc ?n) (choice_lang cs es st en)"
      using emitted_body [OF ChoiceGraph.prems(1) b] ChoiceGraph.IH by fastforce
    then show ?thesis by (rule den_composite(2) [OF a])
  qed
qed (auto split: if_splits)

section \<open>Closing a round\<close>

lemma dict_setE: "e \<in> set (dict_set k v d) \<Longrightarrow> e = (k, v) \<or> e \<in> set d"
  by (induction d) (auto split: if_splits)

definition banked :: "path \<Rightarrow> marking \<Rightarrow> marking" where
  "banked p m = (let w = purged m p False
     in w\<lparr>rounds := dict_set p (rounds_done m p + 1) (rounds w),
          visits := dict_set (p, -1) (dict_get (visits w) (p, -1) 0 + 1) (visits w)\<rparr>)"

lemma close_nodeE:
  assumes "close_node v p m = Inr m'"
  obtains (same) "m' = m" | (close) "body_complete v p m = Inr True" "m' = banked p m"
proof (cases "is_leaf v")
  case True
  then show thesis using assms same by (simp add: close_node_def)
next
  case False
  then obtain complete where c: "body_complete v p m = Inr complete"
    using assms by (auto simp: close_node_def bindE_Inr_iff)
  then have m': "m' = (if complete then banked p m else m)"
    using assms False by (auto simp: close_node_def banked_def Let_def split: if_splits)
  show thesis
  proof (cases complete)
    case True
    then show thesis using close c m' by simp
  qed (use same m' in simp)
qed

lemma banked_frame: "frame p m (banked p m)"
  using purged_frame [of p m False]
  by (simp add: agree_on_def banked_def Let_def filter_dict_set [of "\<lambda>q. \<not> under p q" p])

lemma banked_rounds: "rounds_done (banked p m) p = Suc (rounds_done m p)"
  by (simp add: banked_def Let_def rounds_done_def)

lemma banked_cursor: "cursor_at (banked p m) p = None"
  by (simp add: banked_def Let_def cursor_at_def purged_eq map_of_filter_key [of "\<lambda>q. \<not> under p q"])

lemma banked_idle: "idle (p @ [i]) (banked p m)"
proof -
  have "\<not> under p q \<Longrightarrow> \<not> under (p @ [i]) q" for q by (auto simp: under_iff)
  then show ?thesis by (auto simp: idle_def banked_def Let_def purged_eq dest!: dict_setE)
qed

lemma emitted_round:
  assumes "emitted v p m t" "body_complete v p m = Inr True"
  shows "(\<exists>cs es f cl d. v = PartialOrder cs es f cl d \<and> t \<in> repeats (Suc (rounds_done m p)) (order_lang cs cl))
    \<or> (\<exists>cs es st en f d. v = ChoiceGraph cs es st en f d \<and> t \<in> repeats (Suc (rounds_done m p)) (choice_lang cs es st en))"
  using assms emitted_complete by (rule emitted_body)

lemma close_node_emitted:
  assumes em: "emitted v p m t" and cl: "close_node v p m = Inr m'"
  shows "emitted v p m' t \<and> frame p m m'"
  using cl
proof (cases rule: close_nodeE)
  case close
  from emitted_round [OF em close(1)] have "emitted v p (banked p m) t"
  proof (elim disjE exE conjE)
    fix cs es f cl d assume "v = PartialOrder cs es f cl d" "t \<in> repeats (Suc (rounds_done m p)) (order_lang cs cl)"
    then show ?thesis
      unfolding \<open>v = PartialOrder cs es f cl d\<close> emitted_order
      by (intro exI [of _ t] exI [of _ "[]"]) (simp add: banked_rounds emitted_idle [OF banked_idle])
  next
    fix cs es st en f d assume "v = ChoiceGraph cs es st en f d" "t \<in> repeats (Suc (rounds_done m p)) (choice_lang cs es st en)"
    then show ?thesis by (simp add: emitted_choice banked_rounds banked_cursor)
  qed
  then show ?thesis using close(2) banked_frame by simp
qed (use em in simp)

section \<open>Firing inside a subtree\<close>

lemma enabled_leaf:
  "enabled_in b cap v p m = Inr live \<Longrightarrow> q \<in> set live \<Longrightarrow> under p q \<and> (q = p \<longrightarrow> is_leaf v)"
proof (induction v arbitrary: p m live)
  case (PartialOrder cs es f cl d)
  then have "order_enabled cs (map (\<lambda>c p m. enabled_in b cap c p m) cs) cl p m = Inr live"
    by (auto split: if_splits)
  from order_enabled_mem [OF this PartialOrder.prems(2)] obtain k new where k: "k < length cs"
    "enabled_in b cap (cs ! k) (p @ [int k]) m = Inr new" "q \<in> set new" by (metis (no_types, lifting) length_map nth_map)
  then have "under (p @ [int k]) q" using PartialOrder.IH [of "cs ! k"] by auto
  then show ?case by (auto simp: under_iff)
next
  case (ChoiceGraph cs es st en f d)
  let ?ens = "map (\<lambda>c p m. enabled_in b cap c p m) cs"
  have e: "child_at ?ens c = Inr e \<Longrightarrow> e (p @ [c]) w = Inr new \<Longrightarrow> q \<in> set new \<Longrightarrow> under (p @ [c]) q" for c e w new
    using ChoiceGraph.IH by (auto dest!: child_at_InrD)
  have "graph_enabled b cap cs ?ens es st en p m = Inr live" using ChoiceGraph.prems by (auto split: if_splits)
  then show ?case
  proof (cases rule: graph_enabled_mem [OF _ ChoiceGraph.prems(2), consumes 1, case_names inside entering])
    case (inside c child en')
    then have "under (p @ [c]) q" using e ChoiceGraph.prems(2) by blast
    then show ?thesis by (auto simp: under_iff)
  next
    case (entering c en' new)
    then have "under (p @ [c]) q" using e by blast
    then show ?thesis by (auto simp: under_iff)
  qed
qed (auto split: if_splits)

text \<open>Marking the leaf, the step between the two loops; the other fields do not matter.\<close>

definition marked :: "path \<Rightarrow> marking \<Rightarrow> marking" where
  "marked q w = w\<lparr>completed_paths := add_elem q (completed_paths w)\<rparr>"

lemma marked_frame: "under p q \<Longrightarrow> frame p w (marked q w)"
  by (simp add: agree_on_def marked_def add_elem_def)

lemma order_step:
  assumes em: "emitted (PartialOrder cs es f cl d) p m t" and irr: "irrefl (erel cl)" and k: "k < length cs"
    and open_k: "is_complete (cs ! k) (p @ [int k]) m = Inr False"
    and ready: "\<And>j. before cl j k \<Longrightarrow> j < length cs \<Longrightarrow> is_complete (cs ! j) (p @ [int j]) m = Inr True"
    and step: "\<And>u. emitted (cs ! k) (p @ [int k]) m u \<Longrightarrow> emitted (cs ! k) (p @ [int k]) m1 (u @ lab)"
    and fr: "frame (p @ [int k]) m m1"
  shows "emitted (PartialOrder cs es f cl d) p m1 (t @ lab)"
proof -
  obtain t0 zs where t: "t = t0 @ map snd zs" "t0 \<in> repeats (rounds_done m p) (order_lang cs cl)"
    and zs: "order_round (\<lambda>i u. emitted (cs ! nat i) (p @ [i]) m u)
         (\<lambda>i. is_complete (cs ! nat i) (p @ [i]) m = Inr True) (length cs) cl zs"
    using em unfolding emitted_order by blast
  let ?zs = "zs @ map (Pair k) lab"
  have nk: "\<not> before cl k k" using irr by (rule before_irrefl)
  have beside: "agree (p @ [int i]) m m1" if "i \<noteq> k" for i using agree_beside [OF fr, of "int i"] that by simp
  have same: "emitted (cs ! i) (p @ [int i]) m1 u = emitted (cs ! i) (p @ [int i]) m u"
    "is_complete (cs ! i) (p @ [int i]) m1 = is_complete (cs ! i) (p @ [int i]) m" if "i \<noteq> k" for i u
    using emitted_local [OF beside [OF that]] is_complete_local [OF beside [OF that]] by metis+
  have full: "before cl i j \<Longrightarrow> strand j zs \<noteq> [] \<Longrightarrow> i < length cs \<Longrightarrow> is_complete (cs ! i) (p @ [int i]) m = Inr True" for i j
    using zs by (simp add: order_round_def)
  have "keeps_order (before cl) ?zs"
  proof -
    have "\<not> before cl k (fst z)" if "z \<in> set zs" for z
    proof
      assume "before cl k (fst z)"
      moreover have "strand (fst z) zs \<noteq> []" using that by (auto simp: strand_def filter_empty_conv)
      ultimately show False using full k open_k by fastforce
    qed
    then show ?thesis using zs by (auto simp: order_round_def keeps_order_append keeps_order_pairs nk)
  qed
  moreover have "emitted (cs ! i) (p @ [int i]) m1 (strand i ?zs)" if "i < length cs" for i
    using zs that step same by (cases "i = k") (auto simp: order_round_def strand_pairs)
  moreover have "is_complete (cs ! i) (p @ [int i]) m1 = Inr True"
    if "i < length cs" "before cl i j" "strand j ?zs \<noteq> []" for i j
  proof -
    have "i \<noteq> k"
    proof
      assume "i = k"
      with that nk have "strand j zs \<noteq> []" by (auto simp: strand_pairs split: if_splits)
      with full [OF that(2)] \<open>i = k\<close> k open_k show False by simp
    qed
    moreover have "is_complete (cs ! i) (p @ [int i]) m = Inr True"
    proof (cases "j = k")
      case True
      then show ?thesis using ready that by simp
    next
      case False
      then have "strand j zs \<noteq> []" using that(3) by (auto simp: strand_pairs split: if_splits)
      then show ?thesis using full that by blast
    qed
    ultimately show ?thesis using same by simp
  qed
  moreover have "\<forall>z \<in> set ?zs. fst z < length cs" using zs k by (auto simp: order_round_def)
  ultimately have "order_round (\<lambda>i u. emitted (cs ! nat i) (p @ [i]) m1 u)
         (\<lambda>i. is_complete (cs ! nat i) (p @ [i]) m1 = Inr True) (length cs) cl ?zs"
    by (simp add: order_round_def)
  moreover have "rounds_done m1 p = rounds_done m p" using agree_on_rounds [OF fr] by simp
  ultimately show ?thesis
    unfolding emitted_order using t by (intro exI [of _ t0] exI [of _ ?zs]) (simp add: comp_def)
qed

lemma inside_step:
  assumes em: "emitted (ChoiceGraph cs es st en f d) p m t" and c: "cursor_at m p = Some c"
    and step: "\<And>u. in_range c (length cs) \<Longrightarrow> emitted (cs ! nat c) (p @ [c]) m u \<Longrightarrow> emitted (cs ! nat c) (p @ [c]) m1 (u @ lab)"
    and fr: "frame (p @ [c]) m m1"
  shows "emitted (ChoiceGraph cs es st en f d) p m1 (t @ lab)"
proof -
  obtain t0 t1 where t: "t = t0 @ t1" "t0 \<in> repeats (rounds_done m p) (choice_lang cs es st en)"
    "graph_round (\<lambda>i u. emitted (cs ! nat i) (p @ [i]) m u) cs es st c t1"
    using em c by (auto simp: emitted_choice)
  then obtain ws ts tc where w: "in_range c (length cs)" "walk (erel es) st c (ws @ [c])"
    "ts \<in> conc_list (map (\<lambda>i. map (den None) cs ! nat i) ws)" "t1 = ts @ tc" "emitted (cs ! nat c) (p @ [c]) m tc"
    unfolding graph_round_def by blast
  have "graph_round (\<lambda>i u. emitted (cs ! nat i) (p @ [i]) m1 u) cs es st c (t1 @ lab)"
    unfolding graph_round_def using w step
    by (intro conjI exI [of _ ws] exI [of _ ts] exI [of _ "tc @ lab"]) simp_all
  moreover have "rounds_done m1 p = rounds_done m p" "cursor_at m1 p = Some c"
    using agree_on_rounds [OF fr, of p] agree_on_cursor [OF fr, of p] c by simp_all
  ultimately show ?thesis unfolding emitted_choice using t
    by (intro exI [of _ t0] exI [of _ "t1 @ lab"]) simp
qed

lemma entering_step:
  assumes em: "emitted (ChoiceGraph cs es st en f d) p m t" and ok: "choice_edges_ok es (length cs) st en" "in_range st (length cs)"
    and c: "cursor_at m p = None \<and> c = st \<or> (\<exists>cur child. cursor_at m p = Some cur \<and> child_at cs cur = Inr child
             \<and> is_complete child (p @ [cur]) m = Inr True \<and> cur \<noteq> en \<and> (cur, c) \<in> erel es)"
    and step: "emitted (cs ! nat c) (p @ [c]) m1 lab"
    and m1: "cursor_at m1 p = Some c" "rounds_done m1 p = rounds_done m p"
  shows "emitted (ChoiceGraph cs es st en f d) p m1 (t @ lab)"
proof -
  obtain t0 t1 where t: "t = t0 @ t1" "t0 \<in> repeats (rounds_done m p) (choice_lang cs es st en)"
    "case cursor_at m p of None \<Rightarrow> t1 = [] | Some c \<Rightarrow> graph_round (\<lambda>i u. emitted (cs ! nat i) (p @ [i]) m u) cs es st c t1"
    using em by (auto simp: emitted_choice)
  have "\<exists>ws. walk (erel es) st c (ws @ [c]) \<and> t1 \<in> conc_list (map (\<lambda>i. map (den None) cs ! nat i) ws) \<and> in_range c (length cs)"
    using c
  proof (elim disjE exE conjE)
    assume "cursor_at m p = None" "c = st"
    then show ?thesis using t(3) ok(2) by (intro exI [of _ "[]"]) (simp add: walk_def)
  next
    fix cur child assume cur: "cursor_at m p = Some cur" "child_at cs cur = Inr child"
      "is_complete child (p @ [cur]) m = Inr True" "(cur, c) \<in> erel es"
    then obtain ws ts tc where w: "in_range cur (length cs)" "walk (erel es) st cur (ws @ [cur])"
      "ts \<in> conc_list (map (\<lambda>i. map (den None) cs ! nat i) ws)" "t1 = ts @ tc" "emitted (cs ! nat cur) (p @ [cur]) m tc"
      using t(3) unfolding graph_round_def by auto
    have "tc \<in> map (den None) cs ! nat cur"
      using emitted_complete [OF w(5)] cur(2,3) w(1) in_range_nat [OF w(1)] by simp
    then have "t1 \<in> conc_list (map (\<lambda>i. map (den None) cs ! nat i) (ws @ [cur]))"
      unfolding w(4) by (simp add: conc_list_append concI [OF w(3)])
    moreover have "in_range c (length cs)" using ok(1) cur(4) by (auto simp: choice_edges_ok_def erel_def)
    ultimately show ?thesis using walk_snoc [OF w(2) cur(4)] by (intro exI [of _ "ws @ [cur]"]) simp
  qed
  then have "graph_round (\<lambda>i u. emitted (cs ! nat i) (p @ [i]) m1 u) cs es st c (t1 @ lab)"
    unfolding graph_round_def using step by blast
  then show ?thesis unfolding emitted_choice using t m1 by (intro exI [of _ t0] exI [of _ "t1 @ lab"]) simp
qed

text \<open>What \<open>enter_node\<close> does at a choice graph.\<close>

definition entered :: "path \<Rightarrow> int \<Rightarrow> marking \<Rightarrow> marking" where
  "entered p c m = (let w = purged m (p @ [c]) True in w\<lparr>cursor := dict_set p (Some c) (cursor w)\<rparr>)"

lemma entered_agree: "agree (p @ [c]) (entered p c m) (purged m (p @ [c]) True)"
  by (simp add: entered_def Let_def)

lemma entered_facts [simp]: "visits (entered p c m) = visits m" "cursor_at (entered p c m) p = Some c"
  by (simp_all add: entered_def Let_def cursor_at_def)

lemma entered_frame: "frame p m (entered p c m)"
proof -
  have "frame p m (purged m (p @ [c]) True)" by (rule frame_up [OF purged_frame])
  then show ?thesis
    by (simp add: agree_on_def entered_def Let_def filter_dict_set [of "\<lambda>q. \<not> under p q" p])
qed

lemma entered_rounds: "rounds_done (entered p c m) p = rounds_done m p"
proof -
  have "rounds_done (entered p c m) p = rounds_done (purged m (p @ [c]) True) p"
    by (simp add: rounds_done_def entered_def Let_def)
  then show ?thesis using agree_on_rounds [OF purged_frame, of "p @ [c]" p m True] by simp
qed

lemma enter_node_inside:
  "cursor_at m p = Some c \<Longrightarrow> child_at cs c = Inr child \<Longrightarrow> is_complete child (p @ [c]) m = Inr False \<Longrightarrow>
   enter_node (ChoiceGraph cs es st en f d) p c (m, vis) = Inr (m, vis)"
  by (simp add: enter_node_def)

lemma enter_node_entering:
  assumes "cursor_at m p = None \<or> (\<exists>cur child. cursor_at m p = Some cur \<and> child_at cs cur = Inr child
             \<and> is_complete child (p @ [cur]) m = Inr True)"
  shows "enter_node (ChoiceGraph cs es st en f d) p c (m, vis)
    = Inr (entered p c m, dict_set (p, c) (dict_get vis (p, c) 0 + 1) vis)"
  using assms by (auto simp: enter_node_def entered_def Let_def)

lemma advance:
  assumes "wf_node v" "node_at v q = Inr leaf" "enabled_in b True v p m = Inr live" "p @ q \<in> set live"
    "descend v p q (m, vis) = Inr (w, vis')" "agree_on (\<lambda>_. True) M (marked (p @ q) w)"
    "ascend v p q M = Inr m'" "emitted v p m t"
  shows "emitted v p m' (t @ label_of leaf) \<and> frame p m m'"
  using assms
proof (induction q arbitrary: v p m live vis w t m')
  case Nil
  have "is_leaf v" using enabled_leaf [OF Nil.prems(3), of p] Nil.prems(4) by simp
  have w: "w = m" "m' = M" "leaf = v" using Nil.prems(2,5,7) by simp_all
  have ag: "agree_on P M (marked p m)" for P using agree_on_mono [OF Nil.prems(6)] w(1) by simp
  have "p \<in> set (completed_paths M)" using agree_on_mem [OF ag [of "\<lambda>_. True"]] by (simp add: marked_def add_elem_def)
  then have "emitted v p M (t @ label_of v)"
    using \<open>is_leaf v\<close> Nil.prems(3,4,8) by (cases v) (auto split: if_splits)
  moreover have "frame p m M" using agree_on_trans [OF marked_frame [OF under_refl] agree_on_sym [OF ag]] .
  ultimately show ?case by (simp add: w)
next
  case (Cons i q)
  obtain c where c: "node_at v [i] = Inr c" "node_at c q = Inr leaf"
    using Cons.prems(2) by (auto simp: node_at_Cons [of v i q] bindE_Inr_iff)
  obtain m0 vis0 where ent: "enter_node v p i (m, vis) = Inr (m0, vis0)"
    and desc: "descend c (p @ [i]) q (m0, vis0) = Inr (w, vis')"
    using Cons.prems(5) c by (auto simp: bindE_Inr_iff)
  obtain m1 where asc: "ascend c (p @ [i]) q M = Inr m1" and cl: "close_node v p m1 = Inr m'"
    using Cons.prems(7) c by (auto simp: bindE_Inr_iff)
  have path: "p @ i # q = (p @ [i]) @ q" by simp
  note M = Cons.prems(6) [unfolded path]
  have "emitted v p m1 (t @ label_of leaf) \<and> frame p m m1"
  proof (cases v)
    case (PartialOrder cs es f clo d)
    note D = wf_partial_orderD [OF Cons.prems(1) [unfolded PartialOrder]]
    let ?ens = "map (\<lambda>c p m. enabled_in b True c p m) cs"
    have i: "in_range i (length cs)" and ci: "c = cs ! nat i" using c(1) PartialOrder by (auto split: if_splits)
    have "order_enabled cs ?ens clo p m = Inr live" using Cons.prems(3,4) PartialOrder by (auto split: if_splits)
    from this Cons.prems(4) obtain k new where k: "k < length cs" "is_complete (cs ! k) (p @ [int k]) m = Inr False"
      "\<And>j c. j \<in> set (closure_preds clo k) \<Longrightarrow> child_at cs j = Inr c \<Longrightarrow> is_complete c (p @ [j]) m = Inr True"
      "(?ens ! k) (p @ [int k]) m = Inr new" "p @ i # q \<in> set new"
      by (rule order_enabled_mem) blast
    have new: "enabled_in b True (cs ! k) (p @ [int k]) m = Inr new" using k(1,4) by simp
    then have ik: "i = int k" using enabled_leaf [OF new k(5)] by simp
    have m0: "m0 = m" using ent PartialOrder by (simp add: enter_node_def)
    have child: "emitted (cs ! k) (p @ [int k]) m u \<Longrightarrow>
        emitted (cs ! k) (p @ [int k]) m1 (u @ label_of leaf) \<and> frame (p @ [int k]) m m1" for u
      using Cons.IH [of "cs ! k" "p @ [int k]" m new vis0 w m1 u] D(8) k(1,5) c(2) ci new desc M asc ik m0 by simp
    obtain zs where "\<forall>j < length cs. emitted (cs ! j) (p @ [int j]) m (strand j zs)"
      using Cons.prems(8) unfolding PartialOrder emitted_order order_round_def by auto
    then have fr: "frame (p @ [int k]) m m1" using child k(1) by blast
    have "is_complete (cs ! j) (p @ [int j]) m = Inr True" if "before clo j k" "j < length cs" for j
    proof -
      have "int j \<in> set (closure_preds clo k)"
        using that(1) by (force simp: before_def erel_def closure_preds_def)
      then show ?thesis using k(3) [of "int j" "cs ! j"] that(2) by simp
    qed
    from order_step [OF Cons.prems(8) [unfolded PartialOrder] D(6) k(1,2) this _ fr] child
    show ?thesis unfolding PartialOrder using frame_up [OF fr] by blast
  next
    case (ChoiceGraph cs es st en f d)
    note D = wf_choice_graphD [OF Cons.prems(1) [unfolded ChoiceGraph]]
    let ?ens = "map (\<lambda>c p m. enabled_in b True c p m) cs"
    have i: "in_range i (length cs)" and ci: "c = cs ! nat i" using c(1) ChoiceGraph by (auto split: if_splits)
    have wf: "wf_node c" using D(7) ci in_range_nat [OF i] by simp
    have en: "child_at ?ens a = Inr e \<Longrightarrow> e (p @ [a]) k = Inr new \<Longrightarrow> p @ i # q \<in> set new \<Longrightarrow>
        a = i \<and> enabled_in b True c (p @ [i]) k = Inr new" for a e k new
    proof -
      assume a: "child_at ?ens a = Inr e" "e (p @ [a]) k = Inr new" "p @ i # q \<in> set new"
      then obtain y where y: "y \<in> set cs" "e = enabled_in b True y" by (auto dest!: child_at_InrD)
      then have "a = i" using enabled_leaf [of b True y "p @ [a]" k new "p @ i # q"] a by simp
      moreover have "e = enabled_in b True c" using a(1) i ci in_range_nat [OF i] \<open>a = i\<close> by simp
      ultimately show "a = i \<and> enabled_in b True c (p @ [i]) k = Inr new" using a(2) by simp
    qed
    have "graph_enabled b True cs ?ens es st en p m = Inr live" using Cons.prems(3,4) ChoiceGraph by (auto split: if_splits)
    then show ?thesis
    proof (cases rule: graph_enabled_mem [OF _ Cons.prems(4), consumes 1, case_names inside entering])
      case (inside a child e)
      have a: "a = i" "enabled_in b True c (p @ [i]) m = Inr live" using en [OF inside(4,5) Cons.prems(4)] by simp_all
      have m0: "m0 = m" using ent enter_node_inside [OF inside(1-3)] a(1) ChoiceGraph by simp
      have child: "emitted c (p @ [i]) m u \<Longrightarrow> emitted c (p @ [i]) m1 (u @ label_of leaf) \<and> frame (p @ [i]) m m1" for u
        using Cons.IH [of c "p @ [i]" m live vis0 w m1 u] wf c(2) a(2) Cons.prems(4) desc M asc m0 by simp
      have "\<exists>u. emitted c (p @ [i]) m u"
        using Cons.prems(8) inside(1) a(1) ci unfolding ChoiceGraph emitted_choice graph_round_def by auto
      then have fr: "frame (p @ [i]) m m1" using child by blast
      have "emitted v p m1 (t @ label_of leaf)" unfolding ChoiceGraph
        by (rule inside_step [OF Cons.prems(8) [unfolded ChoiceGraph] inside(1) [unfolded a(1)] _ fr])
          (use child ci in simp)
      then show ?thesis using frame_up [OF fr] by simp
    next
      case (entering a e new)
      have a: "a = i" "enabled_in b True c (p @ [i]) (purged m (p @ [i]) True) = Inr new"
        using en [OF entering(3,4,5)] by auto
      have "m0 = entered p i m"
        using ent enter_node_entering [of m p cs es st en f d i vis] entering(1) ChoiceGraph by auto
      moreover have "enabled_in b True c (p @ [i]) (entered p i m) = Inr new"
        using a(2) enabled_local [OF entered_agree, of p i m b True c] by simp
      moreover have "emitted c (p @ [i]) (entered p i m) []"
        using emitted_local [OF entered_agree, of c p i m "[]"] emitted_idle [OF idle_purged] by simp
      ultimately have child: "emitted c (p @ [i]) m1 ([] @ label_of leaf) \<and> frame (p @ [i]) (entered p i m) m1"
        using Cons.IH [of c "p @ [i]" "entered p i m" new vis0 w m1 "[]"] wf c(2) entering(5) desc M asc by simp
      then have fr: "frame (p @ [i]) (entered p i m) m1" by blast
      have "emitted v p m1 (t @ label_of leaf)" unfolding ChoiceGraph
        by (rule entering_step [OF Cons.prems(8) [unfolded ChoiceGraph] D(2,3) entering(1) [unfolded a(1)]])
          (use child ci agree_on_cursor [OF fr, of p] agree_on_rounds [OF fr, of p] entered_rounds in simp_all)
      then show ?thesis using agree_on_trans [OF entered_frame frame_up [OF fr]] by simp
    qed
  qed (use c(1) in simp_all)
  then show ?case using close_node_emitted [OF _ cl] agree_on_trans by blast
qed

section \<open>Runs\<close>

lemma fire_emitted:
  assumes wf: "wf_node model" and run: "fire sha model m p ctx b = Inr m'" and em: "emitted model [] m t"
  shows "\<exists>v. node_at model p = Inr v \<and> emitted model [] m' (t @ label_of v)"
  using run
proof (rule fireE)
  fix live v act w vis k
  assume f: "enabled model m b = Inr live" "p \<in> set live" "node_at model p = Inr v"
    "descend model [] p (m, visits m) = Inr (w, vis)"
    and asc: "ascend model [] p (w\<lparr>completed := k, completed_paths := add_elem p (completed_paths w), visits := vis,
       fires := fires m + 1\<rparr>) = Inr m'"
  let ?M = "w\<lparr>completed := k, completed_paths := add_elem p (completed_paths w), visits := vis, fires := fires m + 1\<rparr>"
  have "agree_on (\<lambda>_. True) ?M (marked ([] @ p) w)" by (simp add: agree_on_def marked_def)
  then show ?thesis
    using advance [OF wf f(3) f(1) [unfolded enabled_def] _ f(4) _ asc em] f(2,3) by simp
qed

lemma replay_emitted:
  assumes wf: "wf_node model"
  shows "foldE (replay_step sha model b) m choices = Inr m' \<Longrightarrow> emitted model [] m t \<Longrightarrow>
    \<exists>u. foldE (\<lambda>out r. bindE (node_at model (cr_chosen r)) (\<lambda>v. Inr (out @ label_of v))) t choices = Inr u
      \<and> emitted model [] m' u"
proof (induction choices arbitrary: m t)
  case (Cons r choices)
  obtain m1 where m1: "replay_step sha model b m r = Inr m1" "foldE (replay_step sha model b) m1 choices = Inr m'"
    using Cons.prems(1) by (auto simp: bindE_Inr_iff)
  have raisedD: "replay_raised x = Inr y \<Longrightarrow> x = Inr y" for x :: "'z res" and y by (cases x) simp_all
  have "fire sha model m (cr_chosen r) (cr_context r) b = Inr m1"
    using m1(1) by (auto simp: replay_step_def bindE_Inr_iff split: if_splits dest!: raisedD)
  from fire_emitted [OF wf this Cons.prems(2)] obtain v where v: "node_at model (cr_chosen r) = Inr v"
    "emitted model [] m1 (t @ label_of v)" by blast
  from Cons.IH [OF m1(2) v(2)] show ?case using v(1) by simp
qed simp

text \<open>
  C1.  Refinement of the denotation: when a recorded run replays from the initial marking
  to a final one, the labels it emitted form a trace of the model's language, whatever the
  hash, the bound and the choices made.  Nested repetition, re-entry of cyclic choice graphs
  and the interleaving of concurrent children are all included.
\<close>

theorem executor_refines_denotation:
  assumes "wf_node model" "replay sha model choices b INITIAL_MARKING = Inr m" "is_final model m = Inr True"
  shows "\<exists>t. trace_of model choices = Inr t \<and> t \<in> den None model"
proof -
  have "idle [] INITIAL_MARKING" by (simp add: idle_def INITIAL_MARKING_def)
  then have "emitted model [] INITIAL_MARKING []" by (simp add: emitted_idle)
  from replay_emitted [OF assms(1) assms(2) [unfolded replay_def] this] show ?thesis
    using emitted_complete assms(3) by (auto simp: trace_of_def is_final_def)
qed

section \<open>A run\<close>

abbreviation act :: "string \<Rightarrow> pnode" where
  "act l \<equiv> Atom l NoAction (JObj []) PURE"

definition two_steps :: pnode where
  "two_steps = PartialOrder [act ''a'', act ''b''] [OrderEdge 0 1] ONCE [OrderEdge 0 1] 2"

lemma two_steps_wf: "wf_node two_steps"
proof -
  have "mk_partial_order [act ''a'', act ''b''] [OrderEdge 0 1] ONCE = Inr two_steps"
    unfolding two_steps_def by (rule mk_sequence) (simp add: composite_depth_def node_depth_def MAX_POWL_DEPTH_def)
  then show ?thesis by (simp add: two_steps_def)
qed

text \<open>Runs of closed models evaluate by \<open>simp add: run_eval\<close>.\<close>

lemmas run_eval = enabled_def order_enabled_def graph_enabled_def offer_def no_more_rounds_def closure_preds_def
  composite_complete_def order_body_complete_def graph_body_complete_def in_progress_def rounds_done_def dict_get_def
  cursor_at_def purged_eq under_def list_union_def child_at_def py_get_def in_range_def Let_def INITIAL_MARKING_def
  fire_def activity_of_def activity_sha256_def sha256_def enter_def close_rounds_def close_round_def add_elem_def
  replay_def replay_step_def is_final_def ONCE_def allows_def DEFAULT_BOUND_def upt_rec numeral_2_eq_2

abbreviation pick :: "path list \<Rightarrow> path \<Rightarrow> choice_record" where
  "pick live p \<equiv> \<lparr>cr_step = 0, cr_path = [], cr_enabled = live, cr_chosen = p, cr_decided_by = '''', cr_context = ''''\<rparr>"

lemma two_steps_run:
  "\<exists>m. replay (\<lambda>_. '''') two_steps [pick [[0]] [0], pick [[1]] [1]] DEFAULT_BOUND INITIAL_MARKING = Inr m
     \<and> is_final two_steps m = Inr True"
  by (simp add: run_eval two_steps_def)

theorem executor_refines_denotation_witness:
  "\<exists>t. trace_of two_steps [pick [[0]] [0], pick [[1]] [1]] = Inr t \<and> t \<in> den None two_steps"
  using executor_refines_denotation [OF two_steps_wf] two_steps_run by blast

end
