(* ===== verification/Powl_Executor_Facts.thy ===== *)
theory Powl_Executor_Facts
  imports Powl_Emission
begin

text \<open>
  Safety of the executor: no step raises anything but a spent bound, every reachable marking
  is within the bounds, visit counters are never lowered; and what the executor does not do.
\<close>

section \<open>Nothing raises\<close>

lemma two_steps_fire: "\<exists>m. fire (\<lambda>_. '''') two_steps INITIAL_MARKING [0] '''' DEFAULT_BOUND = Inr m"
  by (simp add: run_eval two_steps_def)

text \<open>Every cursor entry selects a child of a choice graph of the model.\<close>

definition cursor_ok :: "pnode \<Rightarrow> marking \<Rightarrow> bool" where
  "cursor_ok model m \<longleftrightarrow> (\<forall>(p, c) \<in> set (cursor m). \<forall>i. c = Some i \<longrightarrow>
     (\<exists>cs es st en f d. node_at model p = Inr (ChoiceGraph cs es st en f d) \<and> in_range i (length cs)))"

lemma cursor_okD:
  "cursor_ok model m \<Longrightarrow> node_at model p = Inr (ChoiceGraph cs es st en f d) \<Longrightarrow> cursor_at m p = Some i \<Longrightarrow> in_range i (length cs)"
  by (fastforce simp: cursor_ok_def cursor_at_def split: option.splits dest!: map_of_SomeD)

lemma cursor_ok_sub: "set (cursor m') \<subseteq> set (cursor m) \<Longrightarrow> cursor_ok model m \<Longrightarrow> cursor_ok model m'"
  unfolding cursor_ok_def by blast

lemma cursor_ok_purged: "cursor_ok model m \<Longrightarrow> cursor_ok model (purged m r b)"
  by (erule cursor_ok_sub [rotated]) (auto simp: purged_eq)

lemma node_at_wf: "wf_node v \<Longrightarrow> node_at v p = Inr w \<Longrightarrow> wf_node w"
proof (induction v p rule: node_at.induct)
  case (2 cs es f cl d i p)
  then show ?case using in_range_nat by (auto dest: wf_partial_orderD(8) split: if_splits)
next
  case (3 cs es st en f d i p)
  then show ?case using in_range_nat by (auto dest: wf_choice_graphD(7) split: if_splits)
qed auto

lemma node_at_child:
  "node_at model p = Inr (PartialOrder cs es f cl d) \<Longrightarrow> i < length cs \<Longrightarrow> node_at model (p @ [int i]) = Inr (cs ! i)"
  "node_at model p = Inr (ChoiceGraph cs es st en f d) \<Longrightarrow> in_range c (length cs) \<Longrightarrow> node_at model (p @ [c]) = Inr (cs ! nat c)"
  by (simp_all add: node_at_append)

lemma allE_ex: "(\<And>x. x \<in> set xs \<Longrightarrow> \<exists>b. f x = Inr b) \<Longrightarrow> \<exists>b. allE f xs = Inr b"
proof (induction xs)
  case (Cons x xs)
  then obtain b where "f x = Inr b" by fastforce
  moreover obtain b' where "allE f xs = Inr b'" using Cons by fastforce
  ultimately show ?case by (cases b) auto
qed auto

lemma order_body_total:
  "(\<And>i. i < length tests \<Longrightarrow> \<exists>b. (tests ! i) (p @ [int i]) m = Inr b) \<Longrightarrow> \<exists>b. order_body_complete tests p m = Inr b"
  unfolding order_body_complete_def by (rule allE_ex) simp

lemma graph_body_total:
  "(\<And>c. cursor_at m p = Some c \<Longrightarrow> in_range c (length tests) \<and> (\<exists>b. (tests ! nat c) (p @ [c]) m = Inr b)) \<Longrightarrow>
   \<exists>b. graph_body_complete tests en p m = Inr b"
  by (cases "cursor_at m p") (fastforce simp: graph_body_complete_def)+

lemma is_complete_total:
  "wf_node v \<Longrightarrow> node_at model p = Inr v \<Longrightarrow> cursor_ok model m \<Longrightarrow> \<exists>b. is_complete v p m = Inr b"
proof (induction v arbitrary: p)
  case (PartialOrder cs es f cl d)
  have "\<exists>b. order_body_complete (map (\<lambda>c p m. is_complete c p m) cs) p m = Inr b"
    by (rule order_body_total)
      (use PartialOrder.IH PartialOrder.prems node_at_child(1) wf_partial_orderD(8) [OF PartialOrder.prems(1)] in force)
  then show ?case by (auto simp: composite_complete_def Let_def)
next
  case (ChoiceGraph cs es st en f d)
  have "\<exists>b. graph_body_complete (map (\<lambda>c p m. is_complete c p m) cs) en p m = Inr b"
  proof (rule graph_body_total)
    fix c assume "cursor_at m p = Some c"
    then have c: "in_range c (length cs)" using cursor_okD ChoiceGraph.prems by blast
    then show "in_range c (length (map (\<lambda>c p m. is_complete c p m) cs))
      \<and> (\<exists>b. (map (\<lambda>c p m. is_complete c p m) cs ! nat c) (p @ [c]) m = Inr b)"
      using ChoiceGraph.IH ChoiceGraph.prems(3) node_at_child(2) [OF ChoiceGraph.prems(2) c]
        wf_choice_graphD(7) [OF ChoiceGraph.prems(1)] in_range_nat [OF c] by simp
  qed
  then show ?case by (auto simp: composite_complete_def Let_def)
qed auto

lemma body_complete_total:
  assumes "wf_node v" "node_at model p = Inr v" "cursor_ok model m" "\<not> is_leaf v"
  shows "\<exists>b. body_complete v p m = Inr b"
proof (cases v)
  case (PartialOrder cs es f cl d)
  have "\<exists>b. order_body_complete (map is_complete cs) p m = Inr b"
  proof (rule order_body_total)
    fix i assume "i < length (map is_complete cs)"
    then have i: "i < length cs" by simp
    have "wf_node (cs ! i)" using wf_partial_orderD(8) [of cs es f cl d "cs ! i"] assms(1) PartialOrder i by simp
    from is_complete_total [OF this node_at_child(1) [OF assms(2) [unfolded PartialOrder] i] assms(3)]
    show "\<exists>b. (map is_complete cs ! i) (p @ [int i]) m = Inr b" using i by simp
  qed
  then show ?thesis using PartialOrder by simp
next
  case (ChoiceGraph cs es st en f d)
  have "\<exists>b. graph_body_complete (map is_complete cs) en p m = Inr b"
  proof (rule graph_body_total)
    fix c assume "cursor_at m p = Some c"
    then have c: "in_range c (length cs)" using cursor_okD assms ChoiceGraph by blast
    then have "wf_node (cs ! nat c)" "node_at model (p @ [c]) = Inr (cs ! nat c)"
      using wf_choice_graphD(7) assms(1,2) ChoiceGraph in_range_nat node_at_child(2) by (metis nth_mem)+
    then show "in_range c (length (map is_complete cs)) \<and> (\<exists>b. (map is_complete cs ! nat c) (p @ [c]) m = Inr b)"
      using is_complete_total [OF _ _ assms(3)] c in_range_nat [OF c] by simp
  qed
  then show ?thesis using ChoiceGraph by simp
qed (use assms in auto)

lemma foldE_total:
  "(\<And>s x. x \<in> set xs \<Longrightarrow> \<exists>s'. f s x = Inr s') \<Longrightarrow> \<exists>t. foldE f s xs = Inr t"
proof (induction xs arbitrary: s)
  case (Cons x xs)
  then obtain s' where "f s x = Inr s'" by fastforce
  moreover obtain t where "foldE f s' xs = Inr t" using Cons by fastforce
  ultimately show ?case by simp
qed simp

lemma enabled_in_total:
  "wf_node v \<Longrightarrow> node_at model p = Inr v \<Longrightarrow> cursor_ok model m \<Longrightarrow> \<exists>live. enabled_in b cap v p m = Inr live"
proof (induction v arbitrary: p m)
  case (PartialOrder cs es f cl d)
  note D = wf_partial_orderD [OF PartialOrder.prems(1)] and at = node_at_child(1) [OF PartialOrder.prems(2)]
  have comp: "\<exists>b. is_complete (cs ! i) (p @ [int i]) m = Inr b" if "i < length cs" for i
    using is_complete_total D(8) at PartialOrder.prems(3) that by (metis nth_mem)
  have "\<exists>out. order_enabled cs (map (\<lambda>c p m. enabled_in b cap c p m) cs) cl p m = Inr out"
    unfolding order_enabled_def
  proof (rule foldE_total)
    fix out i assume "i \<in> set [0..<length cs]"
    then have i: "i < length cs" by simp
    obtain complete where c: "is_complete (cs ! i) (p @ [int i]) m = Inr complete" using comp i by blast
    have "\<exists>ready. bindE (child_at cs j) (\<lambda>c. is_complete c (p @ [j]) m) = Inr ready" if "j \<in> set (closure_preds cl i)" for j
    proof -
      have "in_range j (length cs)" using that D(3) by (auto simp: closure_preds_def order_edges_ok_def)
      then show ?thesis by (rule in_rangeE) (use comp in auto)
    qed
    then obtain ready where r: "allE (\<lambda>j. bindE (child_at cs j) (\<lambda>c. is_complete c (p @ [j]) m)) (closure_preds cl i) = Inr ready"
      using allE_ex [of "closure_preds cl i" "\<lambda>j. bindE (child_at cs j) (\<lambda>c. is_complete c (p @ [j]) m)"] by blast
    have "cs ! i \<in> set cs" using i by simp
    from PartialOrder.IH [OF this D(8) [OF this] at [OF i] PartialOrder.prems(3)]
    obtain new where "enabled_in b cap (cs ! i) (p @ [int i]) m = Inr new" by blast
    then show "\<exists>s'. bindE (is_complete (cs ! i) (p @ [int i]) m) (\<lambda>complete. if complete then Inr out
        else bindE (allE (\<lambda>j. bindE (child_at cs j) (\<lambda>c. is_complete c (p @ [j]) m)) (closure_preds cl i)) (\<lambda>ready.
          if \<not> ready then Inr out
          else bindE ((map (\<lambda>c p m. enabled_in b cap c p m) cs ! i) (p @ [int i]) m) (\<lambda>found. Inr (list_union out found)))) = Inr s'"
      using c r i by (cases complete; cases ready) simp_all
  qed
  then show ?case by auto
next
  case (ChoiceGraph cs es st en f d)
  let ?ens = "map (\<lambda>c p m. enabled_in b cap c p m) cs"
  note D = wf_choice_graphD [OF ChoiceGraph.prems(1)] and at = node_at_child(2) [OF ChoiceGraph.prems(2)]
  have inner: "\<exists>new. (?ens ! nat c) (p @ [c]) k = Inr new" if "in_range c (length cs)" "cursor_ok model k" for c k
    using ChoiceGraph.IH [of "cs ! nat c"] D(7) at that in_range_nat by simp
  have offer: "\<exists>out. offer b cap ?ens p m cands = Inr out" if r: "\<And>c. c \<in> set cands \<Longrightarrow> in_range c (length cs)" for cands
    unfolding offer_def
  proof (rule foldE_total)
    fix out c assume "c \<in> set cands"
    then have c: "in_range c (length cs)" using r by blast
    obtain new where "(?ens ! nat c) (p @ [c]) (purged m (p @ [c]) True) = Inr new"
      using inner [OF c cursor_ok_purged [OF ChoiceGraph.prems(3)]] by blast
    then show "\<exists>s'. (if cap \<and> max_node_visits b \<le> dict_get (visits m) (p, c) 0 then Inr out
        else bindE (child_at ?ens c) (\<lambda>en. bindE (en (p @ [c]) (purged m (p @ [c]) True))
            (\<lambda>found. Inr (list_union out found)))) = Inr s'"
      using c by simp
  qed
  have "\<exists>out. graph_enabled b cap cs ?ens es st en p m = Inr out"
  proof (cases "cursor_at m p")
    case None
    then show ?thesis using offer [of "[st]"] D(3) by (simp add: graph_enabled_def)
  next
    case (Some c)
    then have c: "in_range c (length cs)" using cursor_okD ChoiceGraph.prems by blast
    then obtain complete where "is_complete (cs ! nat c) (p @ [c]) m = Inr complete"
      using is_complete_total D(7) at ChoiceGraph.prems(3) in_range_nat by (metis nth_mem)
    moreover have "in_range a (length cs)" if "a \<in> set (remdups (map dst (filter (\<lambda>e. src e = c) es)))" for a
      using that D(2) by (auto simp: choice_edges_ok_def)
    ultimately show ?thesis
      using offer [of "remdups (map dst (filter (\<lambda>e. src e = c) es))"] inner [OF c ChoiceGraph.prems(3)] Some c
      by (cases complete; cases "c = en") (simp_all add: graph_enabled_def)
  qed
  then show ?case by auto
qed auto

lemma cursor_ok_entered:
  assumes "cursor_ok model m" "node_at model p = Inr (ChoiceGraph cs es st en f d)" "in_range i (length cs)"
  shows "cursor_ok model (entered p i m)"
  using cursor_ok_purged [OF assms(1), of "p @ [i]" True] assms(2,3)
  by (fastforce simp: cursor_ok_def entered_def Let_def dest!: dict_setE)

lemma enter_node_total:
  assumes "wf_node v" "node_at model p = Inr v" "node_at v [i] = Inr c" "cursor_ok model m"
  shows "\<exists>w vis'. enter_node v p i (m, vis) = Inr (w, vis') \<and> cursor_ok model w"
proof (cases v)
  case (ChoiceGraph cs es st en f d)
  then have i: "in_range i (length cs)" using assms(3) by (auto split: if_splits)
  have "wf_node (cs ! nat i)" using assms(1) ChoiceGraph in_range_nat [OF i] by auto
  then obtain b where b: "is_complete (cs ! nat i) (p @ [i]) m = Inr b"
    using is_complete_total node_at_child(2) assms(2,4) ChoiceGraph i by blast
  have "enter_node v p i (m, vis) = Inr (m, vis)
      \<or> enter_node v p i (m, vis) = Inr (entered p i m, dict_set (p, i) (dict_get vis (p, i) 0 + 1) vis)"
    using ChoiceGraph i b by (cases b) (auto simp: enter_node_def entered_def Let_def)
  then show ?thesis using assms(4) cursor_ok_entered [OF assms(4) assms(2) [unfolded ChoiceGraph] i] by auto
qed (use assms(4) in \<open>simp_all add: enter_node_def\<close>)

lemma descend_total:
  "wf_node v \<Longrightarrow> node_at model p = Inr v \<Longrightarrow> node_at v q = Inr leaf \<Longrightarrow> cursor_ok model m \<Longrightarrow>
   \<exists>w vis'. descend v p q (m, vis) = Inr (w, vis') \<and> cursor_ok model w"
proof (induction q arbitrary: v p m vis)
  case (Cons i q)
  obtain c where c: "node_at v [i] = Inr c" "node_at c q = Inr leaf"
    using Cons.prems(3) by (auto simp: node_at_Cons [of v i q] bindE_Inr_iff)
  obtain w vis' where w: "enter_node v p i (m, vis) = Inr (w, vis')" "cursor_ok model w"
    using enter_node_total [OF Cons.prems(1,2) c(1) Cons.prems(4)] by blast
  have "node_at model (p @ [i]) = Inr c" using Cons.prems(2) c(1) by (simp add: node_at_append)
  from Cons.IH [OF node_at_wf [OF Cons.prems(1) c(1)] this c(2) w(2)] show ?case using c(1) w(1) by simp
qed simp

lemma cursor_ok_banked: "cursor_ok model m \<Longrightarrow> cursor_ok model (banked p m)"
  using cursor_ok_purged [of model m p False] by (simp add: cursor_ok_def banked_def Let_def)

lemma close_node_total:
  assumes "wf_node v" "node_at model p = Inr v" "cursor_ok model m"
  shows "\<exists>m'. close_node v p m = Inr m' \<and> cursor_ok model m'"
proof (cases "is_leaf v")
  case False
  then obtain b where "body_complete v p m = Inr b" using body_complete_total assms by blast
  then have "close_node v p m = Inr (if b then banked p m else m)"
    using False by (simp add: close_node_def banked_def Let_def)
  then show ?thesis using assms(3) cursor_ok_banked by (cases b) auto
qed (use assms(3) in \<open>simp add: close_node_def\<close>)

lemma ascend_total:
  "wf_node v \<Longrightarrow> node_at model p = Inr v \<Longrightarrow> node_at v q = Inr leaf \<Longrightarrow> cursor_ok model m \<Longrightarrow>
   \<exists>m'. ascend v p q m = Inr m' \<and> cursor_ok model m'"
proof (induction q arbitrary: v p m)
  case (Cons i q)
  obtain c where c: "node_at v [i] = Inr c" "node_at c q = Inr leaf"
    using Cons.prems(3) by (auto simp: node_at_Cons [of v i q] bindE_Inr_iff)
  have "node_at model (p @ [i]) = Inr c" using Cons.prems(2) c(1) by (simp add: node_at_append)
  from Cons.IH [OF node_at_wf [OF Cons.prems(1) c(1)] this c(2) Cons.prems(4)]
  obtain m1 where "ascend c (p @ [i]) q m = Inr m1" "cursor_ok model m1" by blast
  with close_node_total [OF Cons.prems(1,2), of m1] show ?case using c(1) by auto
qed simp

lemma enabled_addresses:
  "wf_node v \<Longrightarrow> node_at model p = Inr v \<Longrightarrow> cursor_ok model m \<Longrightarrow> enabled_in b cap v p m = Inr live \<Longrightarrow> q \<in> set live \<Longrightarrow>
   \<exists>leaf. node_at model q = Inr leaf \<and> is_leaf leaf"
proof (induction v arbitrary: p m live)
  case (PartialOrder cs es f cl d)
  let ?ens = "map (\<lambda>c p m. enabled_in b cap c p m) cs"
  have "order_enabled cs ?ens cl p m = Inr live" using PartialOrder.prems(4,5) by (auto split: if_splits)
  from this PartialOrder.prems(5) obtain k new where k: "k < length cs" "(?ens ! k) (p @ [int k]) m = Inr new" "q \<in> set new"
    by (rule order_enabled_mem) blast
  have e: "enabled_in b cap (cs ! k) (p @ [int k]) m = Inr new" using k(1,2) by simp
  have w: "wf_node (cs ! k)" using wf_partial_orderD(8) [OF PartialOrder.prems(1)] k(1) by simp
  from PartialOrder.IH [OF nth_mem [OF k(1)] w node_at_child(1) [OF PartialOrder.prems(2) k(1)] PartialOrder.prems(3) e k(3)]
  show ?case .
next
  case (ChoiceGraph cs es st en f d)
  let ?ens = "map (\<lambda>c p m. enabled_in b cap c p m) cs"
  note D = wf_choice_graphD [OF ChoiceGraph.prems(1)]
  have sub: "\<exists>leaf. node_at model q = Inr leaf \<and> is_leaf leaf"
    if "child_at ?ens c = Inr e" "e (p @ [c]) k = Inr new" "q \<in> set new" "in_range c (length cs)" "cursor_ok model k" for c e k new
  proof -
    note r = in_range_nat [OF that(4)]
    have "enabled_in b cap (cs ! nat c) (p @ [c]) k = Inr new" using that r by simp
    from ChoiceGraph.IH [OF nth_mem [OF r] D(7) [OF nth_mem [OF r]] node_at_child(2) [OF ChoiceGraph.prems(2) that(4)]
        that(5) this that(3)] show ?thesis .
  qed
  have "graph_enabled b cap cs ?ens es st en p m = Inr live" using ChoiceGraph.prems(4,5) by (auto split: if_splits)
  then show ?case
  proof (cases rule: graph_enabled_mem [OF _ ChoiceGraph.prems(5), consumes 1, case_names inside entering])
    case (inside c child e)
    then show ?thesis using sub cursor_okD [OF ChoiceGraph.prems(3,2)] ChoiceGraph.prems(3,5) by blast
  next
    case (entering c e new)
    have "in_range c (length cs)" using entering(1) D(2,3) by (auto simp: choice_edges_ok_def erel_def)
    then show ?thesis using sub entering(3-5) cursor_ok_purged [OF ChoiceGraph.prems(3)] by blast
  qed
qed (auto split: if_splits)

lemma activity_total: "wf_node v \<Longrightarrow> \<exists>a. activity_of sha v = Inr a"
  using node_id_total [of v sha] by (cases v) (auto simp: activity_of_def activity_sha256_def)

lemma fire_total:
  assumes wf: "wf_node model" and ok: "cursor_ok model m" and live: "enabled model m b = Inr live" "p \<in> set live"
  shows "(\<exists>m'. fire sha model m p ctx b = Inr m' \<and> cursor_ok model m') \<or> fire sha model m p ctx b = refuse BOUND_EXHAUSTED"
proof -
  have root: "node_at model [] = Inr model" by simp
  obtain leaf where leaf: "node_at model p = Inr leaf"
    using enabled_addresses [OF wf root ok live(1) [unfolded enabled_def] live(2)] by blast
  obtain act where act: "activity_of sha leaf = Inr act" using activity_total node_at_wf [OF wf leaf] by blast
  obtain w vis where "descend model [] p (m, visits m) = Inr (w, vis)" and w: "cursor_ok model w"
    using descend_total [OF wf root leaf ok] by blast
  then have d: "foldE (enter model p) (m, visits m) [0..<length p] = Inr (w, vis)"
    using foldE_enter [of model "[]" model p leaf] leaf by simp
  have a: "\<exists>m'. close_rounds model p M = Inr m' \<and> cursor_ok model m'" if "cursor_ok model M" for M
    using ascend_total [OF wf root leaf that] foldE_close [of model "[]" model p leaf] leaf by (simp add: close_rounds_def)
  have "cursor_ok model (w\<lparr>completed := k, completed_paths := ps, visits := vis, fires := n\<rparr>)" for k ps n
    using w by (simp add: cursor_ok_def)
  with a show ?thesis using live leaf act d by (simp add: fire_def Let_def)
qed

text \<open>
  C2.  Progress and type safety of a step: on a lawful model, from any marking whose cursors
  select children of its choice graphs, computing the enabled set raises nothing, every path
  in it addresses a leaf, and firing it either yields a marking of the same kind or is refused
  for a spent bound, never for any other reason.
\<close>

theorem executor_step_safe:
  assumes "wf_node model" "cursor_ok model m"
  shows "\<exists>live. enabled model m b = Inr live \<and> (\<forall>p \<in> set live.
     (\<exists>leaf. node_at model p = Inr leaf \<and> is_leaf leaf)
     \<and> ((\<exists>m'. fire sha model m p ctx b = Inr m' \<and> cursor_ok model m') \<or> fire sha model m p ctx b = refuse BOUND_EXHAUSTED))"
proof -
  obtain live where live: "enabled_in b True model [] m = Inr live"
    using enabled_in_total [OF assms(1) _ assms(2), of "[]"] by auto
  then show ?thesis
    using enabled_addresses [OF assms(1) _ assms(2) live] fire_total [OF assms] by (auto simp: enabled_def)
qed

theorem executor_step_safe_witness:
  "\<exists>live. enabled two_steps INITIAL_MARKING DEFAULT_BOUND = Inr live \<and> (\<forall>p \<in> set live.
     (\<exists>leaf. node_at two_steps p = Inr leaf \<and> is_leaf leaf)
     \<and> ((\<exists>m'. fire (\<lambda>_. '''') two_steps INITIAL_MARKING p '''' DEFAULT_BOUND = Inr m' \<and> cursor_ok two_steps m')
        \<or> fire (\<lambda>_. '''') two_steps INITIAL_MARKING p '''' DEFAULT_BOUND = refuse BOUND_EXHAUSTED))"
  by (rule executor_step_safe [OF two_steps_wf]) (simp add: cursor_ok_def INITIAL_MARKING_def)

section \<open>Bounds\<close>

text \<open>\<open>n\<close> fires in sequence.\<close>

inductive steps :: "(string \<Rightarrow> string) \<Rightarrow> pnode \<Rightarrow> bound \<Rightarrow> marking \<Rightarrow> nat \<Rightarrow> marking \<Rightarrow> bool"
  for sha model b m0 where
  none: "steps sha model b m0 0 m0"
| one_more: "steps sha model b m0 n m \<Longrightarrow> fire sha model m p ctx b = Inr m' \<Longrightarrow> steps sha model b m0 (Suc n) m'"

text \<open>The counter of every child of a choice graph is within the visit cap.\<close>

definition visits_capped :: "bound \<Rightarrow> ((path \<times> int) \<times> nat) list \<Rightarrow> bool" where
  "visits_capped b vis \<longleftrightarrow> (\<forall>p i. 0 \<le> i \<longrightarrow> dict_get vis (p, i) 0 \<le> max_node_visits b)"

definition visits_grow :: "((path \<times> int) \<times> nat) list \<Rightarrow> ((path \<times> int) \<times> nat) list \<Rightarrow> bool" where
  "visits_grow vis vis' \<longleftrightarrow> (\<forall>k. dict_get vis k 0 \<le> dict_get vis' k 0)"

lemma visits_grow_refl [simp]: "visits_grow vis vis"
  by (simp add: visits_grow_def)

lemma visits_grow_trans: "visits_grow u v \<Longrightarrow> visits_grow v w \<Longrightarrow> visits_grow u w"
  unfolding visits_grow_def using le_trans by blast

lemma visits_grow_set [simp]: "visits_grow vis (dict_set k (Suc (dict_get vis k 0)) vis)"
  by (simp add: visits_grow_def)

lemma visits_capped_set:
  "visits_capped b vis \<Longrightarrow> i < 0 \<or> n \<le> max_node_visits b \<Longrightarrow> visits_capped b (dict_set (p, i) n vis)"
  by (auto simp: visits_capped_def)

lemma ascend_visits:
  "ascend v p q m = Inr m' \<Longrightarrow> fires m' = fires m \<and> length (completed_paths m') \<le> length (completed_paths m)
     \<and> visits_grow (visits m) (visits m') \<and> (visits_capped b (visits m) \<longrightarrow> visits_capped b (visits m'))"
proof (induction q arbitrary: v p m')
  case (Cons i q)
  obtain c m1 where m1: "ascend c (p @ [i]) q m = Inr m1" "close_node v p m1 = Inr m'"
    using Cons.prems by (auto simp: bindE_Inr_iff)
  note IH = Cons.IH [OF m1(1)]
  from m1(2) show ?case
  proof (cases rule: close_nodeE)
    case close
    have "visits m' = dict_set (p, -1) (Suc (dict_get (visits m1) (p, -1) 0)) (visits m1)"
      "fires m' = fires m1" "length (completed_paths m') \<le> length (completed_paths m1)"
      by (simp_all add: close(2) banked_def Let_def purged_eq)
    then show ?thesis using IH visits_grow_trans visits_capped_set [of b "visits m1" "-1"] by auto
  qed (use IH in simp)
qed simp

lemma child_enabled:
  assumes "child_at (map (\<lambda>c p m. enabled_in b cap c p m) cs) a = Inr e" "e (p @ [a]) k = Inr new"
    "p @ i # q \<in> set new" "in_range i (length cs)"
  shows "a = i \<and> enabled_in b cap (cs ! nat i) (p @ [i]) k = Inr new"
proof -
  obtain y where y: "y \<in> set cs" "e = enabled_in b cap y" using assms(1) by (auto dest!: child_at_InrD)
  then have "a = i" using enabled_leaf [of b cap y "p @ [a]" k new "p @ i # q"] assms by simp
  moreover have "e = enabled_in b cap (cs ! nat i)" using assms(1,4) in_range_nat \<open>a = i\<close> by simp
  ultimately show ?thesis using assms(2) by simp
qed

lemma descend_grow: "descend v p q (m, vis) = Inr (w, vis') \<Longrightarrow> visits_grow vis vis'"
proof (induction q arbitrary: v p m vis)
  case (Cons i q)
  then obtain c m0 vis0 where ent: "enter_node v p i (m, vis) = Inr (m0, vis0)"
    and desc: "descend c (p @ [i]) q (m0, vis0) = Inr (w, vis')" by (auto simp: bindE_Inr_iff)
  have "vis0 = vis \<or> vis0 = dict_set (p, i) (Suc (dict_get vis (p, i) 0)) vis"
    using ent by (auto simp: enter_node_def bindE_Inr_iff Let_def split: pnode.splits if_splits)
  then have "visits_grow vis vis0" by auto
  then show ?case using Cons.IH [OF desc] by (rule visits_grow_trans)
qed simp

lemma descend_visits:
  assumes "node_at v q = Inr leaf" "enabled_in b True v p m = Inr live" "p @ q \<in> set live"
    "descend v p q (m, vis) = Inr (w, vis')" "visits_capped b vis"
    "\<And>r i. under p r \<Longrightarrow> dict_get vis (r, i) 0 = dict_get (visits m) (r, i) 0"
  shows "visits_capped b vis'"
  using assms
proof (induction q arbitrary: v p m live vis)
  case (Cons i q)
  obtain c where c: "node_at v [i] = Inr c" "node_at c q = Inr leaf"
    using Cons.prems(1) by (auto simp: node_at_Cons [of v i q] bindE_Inr_iff)
  obtain m0 vis0 where ent: "enter_node v p i (m, vis) = Inr (m0, vis0)"
    and desc: "descend c (p @ [i]) q (m0, vis0) = Inr (w, vis')"
    using Cons.prems(4) c by (auto simp: bindE_Inr_iff)
  have sub: "dict_get vis (r, j) 0 = dict_get (visits m) (r, j) 0" if "under (p @ [i]) r" for r j
    using Cons.prems(6) that by (auto simp: under_iff)
  show ?case
  proof (cases v)
    case (PartialOrder cs es f clo d)
    let ?ens = "map (\<lambda>c p m. enabled_in b True c p m) cs"
    have i: "in_range i (length cs)" and ci: "c = cs ! nat i" using c(1) PartialOrder by (auto split: if_splits)
    have "order_enabled cs ?ens clo p m = Inr live" using Cons.prems(2,3) PartialOrder by (auto split: if_splits)
    from this Cons.prems(3) obtain k new where k: "k < length cs" "(?ens ! k) (p @ [int k]) m = Inr new" "p @ i # q \<in> set new"
      by (rule order_enabled_mem) blast
    have "int k = i \<and> enabled_in b True (cs ! nat i) (p @ [i]) m = Inr new"
      using child_enabled [of b True cs "int k" "?ens ! k" p m new i q] k i by simp
    moreover have "m0 = m" "vis0 = vis" using ent PartialOrder by (simp_all add: enter_node_def)
    ultimately show ?thesis
      using Cons.IH [OF c(2) _ _ desc [unfolded \<open>m0 = m\<close> \<open>vis0 = vis\<close>] Cons.prems(5) sub, of new] ci k(3) by simp
  next
    case (ChoiceGraph cs es st en f d)
    let ?ens = "map (\<lambda>c p m. enabled_in b True c p m) cs"
    have i: "in_range i (length cs)" and ci: "c = cs ! nat i" using c(1) ChoiceGraph by (auto split: if_splits)
    have "graph_enabled b True cs ?ens es st en p m = Inr live" using Cons.prems(2,3) ChoiceGraph by (auto split: if_splits)
    then show ?thesis
    proof (cases rule: graph_enabled_mem [OF _ Cons.prems(3), consumes 1, case_names inside entering])
      case (inside a child e)
      have a: "a = i" "enabled_in b True c (p @ [i]) m = Inr live"
        using child_enabled [OF inside(4,5) Cons.prems(3) i] ci by simp_all
      have "m0 = m" "vis0 = vis" using ent enter_node_inside [OF inside(1-3)] a(1) ChoiceGraph by simp_all
      then show ?thesis
        using Cons.IH [OF c(2) a(2) _ desc [unfolded \<open>m0 = m\<close> \<open>vis0 = vis\<close>] Cons.prems(5) sub] Cons.prems(3) by simp
    next
      case (entering a e new)
      have a: "a = i" "enabled_in b True c (p @ [i]) (purged m (p @ [i]) True) = Inr new"
        using child_enabled [OF entering(3,4,5) i] ci by auto
      have 0: "m0 = entered p i m" "vis0 = dict_set (p, i) (dict_get vis (p, i) 0 + 1) vis"
        using ent enter_node_entering [of m p cs es st en f d i vis] entering(1) ChoiceGraph by auto
      have en: "enabled_in b True c (p @ [i]) m0 = Inr new"
        using a(2) enabled_local [OF entered_agree, of p i m b True c] 0(1) by simp
      have "dict_get vis (p, i) 0 + 1 \<le> max_node_visits b"
        using entering(2) Cons.prems(6) [OF under_refl] a(1) by simp
      then have cap: "visits_capped b vis0" unfolding 0(2) by (intro visits_capped_set [OF Cons.prems(5)]) simp
      have "dict_get vis0 (r, j) 0 = dict_get (visits m0) (r, j) 0" if "under (p @ [i]) r" for r j
        using sub [OF that] that 0 by auto
      from Cons.IH [OF c(2) en _ desc cap this] entering(5) 0(1) show ?thesis by simp
    qed
  qed (use c(1) in simp_all)
qed simp

lemma fire_bounds:
  assumes "fire sha model m p ctx b = Inr m'"
  shows "fires m' = Suc (fires m) \<and> fires m' \<le> max_activity_fires b \<and> length (completed_paths m') \<le> max_marking_states b
    \<and> (visits_capped b (visits m) \<longrightarrow> visits_capped b (visits m')) \<and> visits_grow (visits m) (visits m')"
  using assms(1)
proof (rule fireE)
  fix live v act w vis k
  assume f: "enabled model m b = Inr live" "p \<in> set live" "fires m + 1 \<le> max_activity_fires b" "node_at model p = Inr v"
    "descend model [] p (m, visits m) = Inr (w, vis)" "length (completed_paths w) + 1 \<le> max_marking_states b"
    and asc: "ascend model [] p (w\<lparr>completed := k, completed_paths := add_elem p (completed_paths w), visits := vis,
       fires := fires m + 1\<rparr>) = Inr m'"
  have "visits_capped b vis" if "visits_capped b (visits m)"
    using descend_visits [OF f(4) f(1) [unfolded enabled_def] _ f(5) that] f(2) by simp
  moreover have "length (add_elem p (completed_paths w)) \<le> max_marking_states b"
    using f(6) by (simp add: add_elem_def)
  ultimately show ?thesis
    using ascend_visits [OF asc, of b] f(3) descend_grow [OF f(5)] by (auto intro: visits_grow_trans)
qed

text \<open>
  C3.  The declared bounds hold of every marking that fires can reach: the fire counter counts
  the fires and stays within its budget, so no run is longer; the structural ledger stays
  within the marking budget; and no child of a choice graph, however nested and however often
  its graph is entered again, has been entered more often than the visit cap.
\<close>

theorem executor_within_bounds:
  assumes "steps sha model b INITIAL_MARKING n m"
  shows "fires m = n \<and> n \<le> max_activity_fires b
    \<and> (n = 0 \<or> length (completed_paths m) \<le> max_marking_states b) \<and> visits_capped b (visits m)"
  using assms
proof (induction rule: steps.induct)
  case none
  then show ?case by (simp add: INITIAL_MARKING_def visits_capped_def dict_get_def)
next
  case (one_more n m p ctx m')
  with fire_bounds [OF one_more.hyps(2)] show ?case by auto
qed

theorem executor_within_bounds_witness:
  "\<exists>m. steps (\<lambda>_. '''') two_steps DEFAULT_BOUND INITIAL_MARKING 1 m \<and> fires m = 1 \<and> visits_capped DEFAULT_BOUND (visits m)"
proof -
  obtain m where "fire (\<lambda>_. '''') two_steps INITIAL_MARKING [0] '''' DEFAULT_BOUND = Inr m" using two_steps_fire by blast
  then have "steps (\<lambda>_. '''') two_steps DEFAULT_BOUND INITIAL_MARKING 1 m"
    using steps.one_more [OF steps.none] by simp
  with executor_within_bounds [OF this] show ?thesis by blast
qed

text \<open>
  Law 2 of the module: from any marking, a fire never lowers a visit counter, the round
  counters at index -1 included.
\<close>

theorem visits_never_reset:
  assumes "fire sha model m p ctx b = Inr m'"
  shows "\<forall>k. dict_get (visits m) k 0 \<le> dict_get (visits m') k 0"
  using fire_bounds [OF assms] by (simp add: visits_grow_def)

theorem visits_never_reset_witness:
  "\<exists>m. fire (\<lambda>_. '''') two_steps INITIAL_MARKING [0] '''' DEFAULT_BOUND = Inr m
     \<and> (\<forall>k. dict_get (visits INITIAL_MARKING) k 0 \<le> dict_get (visits m) k 0)"
  using two_steps_fire visits_never_reset by blast

section \<open>Stalls\<close>

lemma foldE_union_intro:
  assumes "foldE (\<lambda>out x. bindE (g x) (\<lambda>r. Inr (case r of None \<Rightarrow> out | Some new \<Rightarrow> list_union out new))) out xs = Inr res"
  shows "set out \<subseteq> set res" "x \<in> set xs \<Longrightarrow> g x = Inr (Some new) \<Longrightarrow> set new \<subseteq> set res"
proof -
  have "set out \<subseteq> set res \<and> (x \<in> set xs \<longrightarrow> g x = Inr (Some new) \<longrightarrow> set new \<subseteq> set res)"
    using assms
  proof (induction xs arbitrary: out)
    case (Cons y xs)
    then obtain r where r: "g y = Inr r" by (auto simp: bindE_Inr_iff)
    with Cons.IH [of "case r of None \<Rightarrow> out | Some new \<Rightarrow> list_union out new"] Cons.prems show ?case
      by (cases r) auto
  qed simp
  then show "set out \<subseteq> set res" "x \<in> set xs \<Longrightarrow> g x = Inr (Some new) \<Longrightarrow> set new \<subseteq> set res" by blast+
qed

lemma offer_intro:
  assumes "offer b False ens p m cands = Inr out" "c \<in> set cands" "child_at ens c = Inr e"
    "e (p @ [c]) (purged m (p @ [c]) True) = Inr new"
  shows "set new \<subseteq> set out"
proof -
  let ?g = "\<lambda>c. bindE (child_at ens c) (\<lambda>en. bindE (en (p @ [c]) (purged m (p @ [c]) True)) (\<lambda>new. Inr (Some new)))"
  have eq: "offer b False ens p m cands = foldE (\<lambda>out c. bindE (?g c)
      (\<lambda>r. Inr (case r of None \<Rightarrow> out | Some new \<Rightarrow> list_union out new))) [] cands"
    unfolding offer_def by (rule foldE_cong [OF refl refl]) (simp add: bindE_assoc)
  have "?g c = Inr (Some new)" using assms(3,4) by simp
  from foldE_union_intro(2) [OF trans [OF eq [symmetric] assms(1)] assms(2) this] show ?thesis .
qed

lemma offer_mono:
  assumes "offer b cap ens p m cands = Inr out" "offer b' False ens' p m cands = Inr out'" "q \<in> set out"
    and "\<And>c e e' new. child_at ens c = Inr e \<Longrightarrow> e (p @ [c]) (purged m (p @ [c]) True) = Inr new \<Longrightarrow> c \<in> set cands \<Longrightarrow>
      \<exists>e' new'. child_at ens' c = Inr e' \<and> e' (p @ [c]) (purged m (p @ [c]) True) = Inr new' \<and> set new \<subseteq> set new'"
  shows "q \<in> set out'"
proof -
  obtain c e new where c: "c \<in> set cands" "child_at ens c = Inr e" "e (p @ [c]) (purged m (p @ [c]) True) = Inr new" "q \<in> set new"
    using offer_mem [OF assms(1,3)] by metis
  from assms(4) [OF c(2,3,1)] obtain e' new' where "child_at ens' c = Inr e'"
    "e' (p @ [c]) (purged m (p @ [c]) True) = Inr new'" "set new \<subseteq> set new'" by blast
  with offer_intro [OF assms(2) c(1)] c(4) show ?thesis by blast
qed

lemma order_enabled_intro:
  assumes "order_enabled cs ens cl p m = Inr out" "k < length cs" "is_complete (cs ! k) (p @ [int k]) m = Inr False"
    "allE (\<lambda>j. bindE (child_at cs j) (\<lambda>c. is_complete c (p @ [j]) m)) (closure_preds cl k) = Inr True"
    "(ens ! k) (p @ [int k]) m = Inr new"
  shows "set new \<subseteq> set out"
proof -
  let ?g = "\<lambda>i. bindE (is_complete (cs ! i) (p @ [int i]) m) (\<lambda>complete.
         if complete then Inr None
         else bindE (allE (\<lambda>j. bindE (child_at cs j) (\<lambda>c. is_complete c (p @ [j]) m)) (closure_preds cl i)) (\<lambda>ready.
           if \<not> ready then Inr None
           else bindE ((ens ! i) (p @ [int i]) m) (\<lambda>new. Inr (Some new))))"
  have eq: "order_enabled cs ens cl p m = foldE (\<lambda>out i. bindE (?g i)
      (\<lambda>r. Inr (case r of None \<Rightarrow> out | Some new \<Rightarrow> list_union out new))) [] [0..<length cs]"
    unfolding order_enabled_def bindE_assoc
    by (intro foldE_cong refl bindE_cong) (auto simp: bindE_assoc intro!: bindE_cong)
  have "?g k = Inr (Some new)" using assms(3-5) by simp
  from foldE_union_intro(2) [OF trans [OF eq [symmetric] assms(1)] _ this] assms(2) show ?thesis by simp
qed

text \<open>The visit cap only removes paths from the enabled set.\<close>

lemma uncapped_enables_more:
  "wf_node v \<Longrightarrow> node_at model p = Inr v \<Longrightarrow> cursor_ok model m \<Longrightarrow> enabled_in b True v p m = Inr live \<Longrightarrow>
   enabled_in b' False v p m = Inr live' \<Longrightarrow> set live \<subseteq> set live'"
proof (induction v arbitrary: p m live live')
  case (PartialOrder cs es f cl d)
  note D = wf_partial_orderD [OF PartialOrder.prems(1)] and at = node_at_child(1) [OF PartialOrder.prems(2)]
  show ?case
  proof
    fix q assume q: "q \<in> set live"
    let ?ens = "\<lambda>b cap. map (\<lambda>c p m. enabled_in b cap c p m) cs"
    have no: "\<not> no_more_rounds b True f p m" and o: "order_enabled cs (?ens b True) cl p m = Inr live"
      using PartialOrder.prems(4) q by (auto split: if_splits)
    have "\<not> no_more_rounds b' False f p m" using no by (simp add: no_more_rounds_def split: option.splits)
    then have o': "order_enabled cs (?ens b' False) cl p m = Inr live'" using PartialOrder.prems(5) by simp
    from o q obtain k new where k: "k < length cs" "is_complete (cs ! k) (p @ [int k]) m = Inr False"
      "\<And>j c. j \<in> set (closure_preds cl k) \<Longrightarrow> child_at cs j = Inr c \<Longrightarrow> is_complete c (p @ [j]) m = Inr True"
      "(?ens b True ! k) (p @ [int k]) m = Inr new" "q \<in> set new"
      by (rule order_enabled_mem) blast
    have "bindE (child_at cs j) (\<lambda>c. is_complete c (p @ [j]) m) = Inr True" if "j \<in> set (closure_preds cl k)" for j
    proof -
      have "in_range j (length cs)" using that D(3) by (auto simp: closure_preds_def order_edges_ok_def)
      then show ?thesis using k(3) [OF that] by simp
    qed
    then have ready: "allE (\<lambda>j. bindE (child_at cs j) (\<lambda>c. is_complete c (p @ [j]) m)) (closure_preds cl k) = Inr True"
      using allE_total [of "closure_preds cl k" "\<lambda>j. bindE (child_at cs j) (\<lambda>c. is_complete c (p @ [j]) m)" "\<lambda>_. True"] by simp
    have wk: "wf_node (cs ! k)" "node_at model (p @ [int k]) = Inr (cs ! k)" using D(8) at k(1) by simp_all
    obtain new' where new': "enabled_in b' False (cs ! k) (p @ [int k]) m = Inr new'"
      using enabled_in_total [OF wk PartialOrder.prems(3)] by blast
    have "set new \<subseteq> set new'"
      using PartialOrder.IH [OF nth_mem [OF k(1)] wk PartialOrder.prems(3) _ new'] k(1,4) by simp
    moreover have "set new' \<subseteq> set live'"
      using order_enabled_intro [OF o' k(1,2) ready] new' k(1) by simp
    ultimately show "q \<in> set live'" using k(5) by blast
  qed
next
  case (ChoiceGraph cs es st en f d)
  note D = wf_choice_graphD [OF ChoiceGraph.prems(1)] and at = node_at_child(2) [OF ChoiceGraph.prems(2)]
  let ?ens = "\<lambda>b cap. map (\<lambda>c p m. enabled_in b cap c p m) cs"
  have sub: "\<exists>e' new'. child_at (?ens b' False) c = Inr e' \<and> e' (p @ [c]) k = Inr new' \<and> set new \<subseteq> set new'"
    if c: "in_range c (length cs)" and k: "cursor_ok model k" and e: "child_at (?ens b True) c = Inr e" "e (p @ [c]) k = Inr new"
    for c k e new
  proof -
    note r = in_range_nat [OF c]
    have wk: "wf_node (cs ! nat c)" "node_at model (p @ [c]) = Inr (cs ! nat c)" using D(7) at c r by simp_all
    obtain new' where new': "enabled_in b' False (cs ! nat c) (p @ [c]) k = Inr new'"
      using enabled_in_total [OF wk k] by blast
    have "set new \<subseteq> set new'" using ChoiceGraph.IH [OF nth_mem [OF r] wk k _ new'] e c r by simp
    then show ?thesis using c r new' by simp
  qed
  show ?case
  proof
    fix q assume q: "q \<in> set live"
    have no: "\<not> no_more_rounds b True f p m" and o: "graph_enabled b True cs (?ens b True) es st en p m = Inr live"
      using ChoiceGraph.prems(4) q by (auto split: if_splits)
    have "\<not> no_more_rounds b' False f p m" using no by (simp add: no_more_rounds_def split: option.splits)
    then have o': "graph_enabled b' False cs (?ens b' False) es st en p m = Inr live'" using ChoiceGraph.prems(5) by simp
    have sub': "\<exists>e' new'. child_at (?ens b' False) c = Inr e' \<and> e' (p @ [c]) (purged m (p @ [c]) True) = Inr new' \<and> set new \<subseteq> set new'"
      if "in_range c (length cs)" "child_at (?ens b True) c = Inr e" "e (p @ [c]) (purged m (p @ [c]) True) = Inr new" for c e new
      using sub [OF that(1) cursor_ok_purged [OF ChoiceGraph.prems(3)] that(2,3)] .
    show "q \<in> set live'"
    proof (cases "cursor_at m p")
      case None
      then have "offer b True (?ens b True) p m [st] = Inr live" "offer b' False (?ens b' False) p m [st] = Inr live'"
        using o o' by (simp_all add: graph_enabled_def)
      moreover have "in_range c (length cs)" if "c \<in> set [st]" for c using that D(3) by simp
      ultimately show ?thesis using sub' by (intro offer_mono [OF _ _ q]) blast+
    next
      case (Some cur)
      then have cur: "in_range cur (length cs)" using cursor_okD ChoiceGraph.prems by blast
      then obtain complete where complete: "is_complete (cs ! nat cur) (p @ [cur]) m = Inr complete"
        using o Some by (auto simp: graph_enabled_def bindE_Inr_iff)
      let ?cands = "remdups (map dst (filter (\<lambda>e. src e = cur) es))"
      show ?thesis
      proof (cases complete)
        case False
        then have "enabled_in b True (cs ! nat cur) (p @ [cur]) m = Inr live" "enabled_in b' False (cs ! nat cur) (p @ [cur]) m = Inr live'"
          using o o' Some complete cur in_range_nat [OF cur] by (simp_all add: graph_enabled_def)
        then show ?thesis
          using ChoiceGraph.IH [OF nth_mem [OF in_range_nat [OF cur]] D(7) [OF nth_mem [OF in_range_nat [OF cur]]] at [OF cur]
            ChoiceGraph.prems(3)] q by blast
      next
        case True
        then have oo: "offer b True (?ens b True) p m ?cands = Inr live" "offer b' False (?ens b' False) p m ?cands = Inr live'"
          using o o' Some complete cur q by (auto simp: graph_enabled_def split: if_splits)
        have "in_range c (length cs)" if "c \<in> set ?cands" for c using that D(2) by (auto simp: choice_edges_ok_def)
        then show ?thesis using sub' by (intro offer_mono [OF oo q]) blast
      qed
    qed
  qed
qed (auto split: if_splits)

text \<open>
  C15.  A stall reported as a deadlock is structural: when \<open>classify_stall\<close> answers
  \<open>DEADLOCK\<close>, no bound however large would enable anything at that marking.
\<close>

theorem deadlock_is_structural:
  assumes "wf_node model" "cursor_ok model m" "classify_stall model m b = Inr DEADLOCK"
  shows "enabled model m b' = Inr []"
proof -
  have none: "enabled_in b False model [] m = Inr []"
    using assms(3) by (auto simp: classify_stall_def bindE_Inr_iff split: if_splits)
  obtain live where live: "enabled_in b' True model [] m = Inr live"
    using enabled_in_total [OF assms(1) _ assms(2), of "[]"] by auto
  with uncapped_enables_more [OF assms(1) _ assms(2) live none] show ?thesis by (simp add: enabled_def)
qed

theorem deadlock_is_structural_witness:
  "enabled two_steps (INITIAL_MARKING\<lparr>rounds := [([], 1)]\<rparr>) \<lparr>max_activity_fires = 9, max_node_visits = 9, max_marking_states = 9\<rparr> = Inr []"
  by (rule deadlock_is_structural [where b = DEFAULT_BOUND, OF two_steps_wf])
    (simp add: cursor_ok_def INITIAL_MARKING_def, simp add: classify_stall_def run_eval two_steps_def)

section \<open>Children that never run\<close>

lemma idle_not_in_progress: "idle p m \<Longrightarrow> \<not> in_progress p m"
  by (fastforce simp: idle_def in_progress_def)

lemma skippable_complete:
  assumes "wf_node v" "\<not> is_leaf v" "is_skippable (freq v)" "idle p m"
  shows "is_complete v p m = Inr True"
proof -
  have "wf_frequency (freq v)" using assms(1,2) by (cases v) auto
  then have "allows (freq v) 0" using assms(3) by (simp add: allows_0)
  then show ?thesis using assms idle_rounds idle_not_in_progress
    by (cases v) (simp_all add: composite_complete_def)
qed

text \<open>What lies under a path keeps idle when a step touches only other paths and their prefixes.\<close>

lemma idle_purged_other: "idle r m \<Longrightarrow> idle r (purged m p b)"
  by (auto simp: idle_def purged_eq)

lemma idle_entered: "idle r m \<Longrightarrow> \<not> under r p \<Longrightarrow> idle r (entered p c m)"
  using idle_purged_other [of r m "p @ [c]" True] by (auto simp: idle_def entered_def Let_def dest!: dict_setE)

lemma idle_banked: "idle r m \<Longrightarrow> \<not> under r p \<Longrightarrow> idle r (banked p m)"
  using idle_purged_other [of r m p False] by (auto simp: idle_def banked_def Let_def dest!: dict_setE)

lemma not_under_prefix: "\<not> under r (p @ q) \<Longrightarrow> \<not> under r p"
  by (auto simp: under_iff)

lemma idle_descend:
  "descend v p q (m, vis) = Inr (w, vis') \<Longrightarrow> idle r m \<Longrightarrow> \<not> under r (p @ q) \<Longrightarrow> idle r w"
proof (induction q arbitrary: v p m vis)
  case (Cons i q)
  then obtain c m0 vis0 where ent: "enter_node v p i (m, vis) = Inr (m0, vis0)"
    and desc: "descend c (p @ [i]) q (m0, vis0) = Inr (w, vis')" by (auto simp: bindE_Inr_iff)
  have "m0 = m \<or> m0 = entered p i m"
    using ent by (auto simp: enter_node_def entered_def bindE_Inr_iff Let_def split: pnode.splits if_splits)
  then have "idle r m0" using Cons.prems(2,3) idle_entered not_under_prefix by blast
  then show ?case using Cons.IH [OF desc] Cons.prems(3) by simp
qed simp

lemma idle_ascend: "ascend v p q m = Inr m' \<Longrightarrow> idle r m \<Longrightarrow> \<not> under r (p @ q) \<Longrightarrow> idle r m'"
proof (induction q arbitrary: v p m')
  case (Cons i q)
  then obtain c m1 where up: "ascend c (p @ [i]) q m = Inr m1" "close_node v p m1 = Inr m'"
    by (auto simp: bindE_Inr_iff)
  have "idle r m1" using Cons.IH [OF up(1) Cons.prems(2)] Cons.prems(3) by simp
  moreover have "\<not> under r p" using Cons.prems(3) by (rule not_under_prefix)
  ultimately show ?case using up(2) by (auto elim: close_nodeE intro: idle_banked)
qed simp

lemma idle_fire:
  assumes "fire sha model m q ctx b = Inr m'" "idle r m" "\<not> under r q"
  shows "idle r m'"
  using assms(1)
proof (rule fireE)
  fix live u act w vis c
  assume d: "descend model [] q (m, visits m) = Inr (w, vis)"
    and asc: "ascend model [] q (w\<lparr>completed := c, completed_paths := add_elem q (completed_paths w), visits := vis,
       fires := fires m + 1\<rparr>) = Inr m'"
  have "idle r w" using idle_descend [OF d assms(2)] assms(3) by simp
  then have "idle r (w\<lparr>completed := c, completed_paths := add_elem q (completed_paths w), visits := vis, fires := fires m + 1\<rparr>)"
    using assms(3) by (auto simp: idle_def add_elem_def)
  from idle_ascend [OF asc this] show ?thesis using assms(3) by simp
qed

text \<open>An idle child that may be skipped is never offered, wherever its partial order stands.\<close>

lemma skippable_not_offered:
  assumes "wf_node v" "node_at v q = Inr (PartialOrder cs es f cl d)"
    and "k < length cs" "\<not> is_leaf (cs ! k)" "is_skippable (freq (cs ! k))"
    and "idle (p @ q @ [int k]) m" "enabled_in b cap v p m = Inr live" "s \<in> set live"
  shows "\<not> under (p @ q @ [int k]) s"
  using assms(1,2,6-8)
proof (induction q arbitrary: v p m live)
  case Nil
  then have v: "v = PartialOrder cs es f cl d" by simp
  have wk: "wf_node (cs ! k)" using wf_partial_orderD(8) [of cs es f cl d] Nil.prems(1) v assms(3) by simp
  have complete: "is_complete (cs ! k) (p @ [int k]) m = Inr True"
    using skippable_complete [OF wk assms(4,5)] Nil.prems(3) by simp
  have "order_enabled cs (map (\<lambda>c p m. enabled_in b cap c p m) cs) cl p m = Inr live"
    using Nil.prems(4,5) v by (auto split: if_splits)
  from this Nil.prems(5) obtain j new where j: "j < length cs" "is_complete (cs ! j) (p @ [int j]) m = Inr False"
    "enabled_in b cap (cs ! j) (p @ [int j]) m = Inr new" "s \<in> set new" by (rule order_enabled_mem) auto
  then have "j \<noteq> k" "under (p @ [int j]) s" using complete enabled_leaf [OF j(3,4)] by auto
  then show ?case by (auto simp: under_iff)
next
  case (Cons i q)
  obtain c where c: "node_at v [i] = Inr c" "node_at c q = Inr (PartialOrder cs es f cl d)"
    using Cons.prems(2) by (auto simp: node_at_Cons [of v i q] bindE_Inr_iff)
  have wc: "wf_node c" by (rule node_at_wf [OF Cons.prems(1) c(1)])
  have inside: "\<not> under (p @ (i # q) @ [int k]) s"
    if "enabled_in b cap c (p @ [i]) m' = Inr new" "s \<in> set new" "idle (p @ (i # q) @ [int k]) m'" for m' new
    using Cons.IH [OF wc c(2) _ that(1,2)] that(3) by simp
  have beside: "\<not> under (p @ (i # q) @ [int k]) s" if "enabled_in b cap c' (p @ [j]) m' = Inr new" "s \<in> set new" "j \<noteq> i" for c' j m' new
    using enabled_leaf [OF that(1,2)] that(3) by (auto simp: under_iff)
  show ?case
  proof (cases v)
    case (PartialOrder cs' es' f' cl' d')
    then have "order_enabled cs' (map (\<lambda>c p m. enabled_in b cap c p m) cs') cl' p m = Inr live"
      using Cons.prems(4,5) by (auto split: if_splits)
    from this Cons.prems(5) obtain j new where j: "j < length cs'"
      "enabled_in b cap (cs' ! j) (p @ [int j]) m = Inr new" "s \<in> set new" by (rule order_enabled_mem) auto
    show ?thesis
    proof (cases "int j = i")
      case True
      then have "cs' ! j = c" using c(1) PartialOrder j(1) by auto
      with j(2,3) True inside Cons.prems(3) show ?thesis by blast
    qed (use beside [OF j(2,3)] in blast)
  next
    case (ChoiceGraph cs' es' st en f' d')
    then have g: "graph_enabled b cap cs' (map (\<lambda>c p m. enabled_in b cap c p m) cs') es' st en p m = Inr live"
      using Cons.prems(4,5) by (auto split: if_splits)
    have i: "in_range i (length cs')" "cs' ! nat i = c" using c(1) ChoiceGraph by (auto split: if_splits)
    have ens: "e (p @ [j]) m' = Inr new \<Longrightarrow> s \<in> set new \<Longrightarrow> idle (p @ (i # q) @ [int k]) m' \<Longrightarrow> \<not> under (p @ (i # q) @ [int k]) s"
      if e: "child_at (map (\<lambda>c p m. enabled_in b cap c p m) cs') j = Inr e" for j e m' new
    proof -
      obtain c' where "e = (\<lambda>p m. enabled_in b cap c' p m)" "j = i \<longrightarrow> c' = c"
        using e i by (auto simp: child_at_def py_get_def in_range_def Let_def split: if_splits)
      then show "e (p @ [j]) m' = Inr new \<Longrightarrow> s \<in> set new \<Longrightarrow> idle (p @ (i # q) @ [int k]) m' \<Longrightarrow> \<not> under (p @ (i # q) @ [int k]) s"
        using inside [of m' new] beside [of c' j m' new] by (cases "j = i") auto
    qed
    from g Cons.prems(5) show ?thesis
    proof (cases rule: graph_enabled_mem)
      case (inside j child e)
      then show ?thesis using ens [OF inside(4) _ Cons.prems(5,3)] by simp
    next
      case (entering j e new)
      then show ?thesis using ens [OF entering(3,4,5)] idle_purged_other [OF Cons.prems(3)] by blast
    qed
  qed (use c(1) in auto)
qed

text \<open>
  C37.  Take a partial order anywhere in an admitted model, at the root, in another partial order or in
  a choice graph, repeated or not, and a composite child of it whose frequency allows zero
  repetitions.  The child is complete before it starts, so no marking that a run from the initial
  marking reaches enables a path inside it.
\<close>

theorem skippable_child_never_runs:
  assumes "wf_node model" "node_at model p = Inr (PartialOrder cs es f cl d)"
    and "k < length cs" "\<not> is_leaf (cs ! k)" "is_skippable (freq (cs ! k))"
    and "steps sha model b INITIAL_MARKING n m" "enabled model m b = Inr live" "q \<in> set live"
  shows "\<not> under (p @ [int k]) q"
proof -
  note away = skippable_not_offered [OF assms(1-5), where p = "[]", simplified]
  have "idle (p @ [int k]) m"
    using assms(6)
  proof (induction rule: steps.induct)
    case none
    then show ?case by (simp add: idle_def INITIAL_MARKING_def)
  next
    case (one_more n m q ctx m')
    from one_more.hyps(2) obtain live where "enabled model m b = Inr live" "q \<in> set live" by (rule fireE)
    then have "\<not> under (p @ [int k]) q" using away [OF one_more.IH] by (simp add: enabled_def)
    with one_more show ?case by (auto intro: idle_fire)
  qed
  then show ?thesis using away [of m] assms(7,8) by (simp add: enabled_def)
qed

definition optional_first :: pnode where
  "optional_first = PartialOrder [PartialOrder [act ''a'', act ''b''] [OrderEdge 0 1] OPTIONAL [OrderEdge 0 1] 2, act ''c''] [] ONCE [] 3"

lemma optional_first_wf: "wf_node optional_first"
proof -
  have "mk_partial_order [act ''a'', act ''b''] [OrderEdge 0 1] OPTIONAL
      = Inr (PartialOrder [act ''a'', act ''b''] [OrderEdge 0 1] OPTIONAL [OrderEdge 0 1] 2)"
    by (rule mk_sequence) (simp add: composite_depth_def node_depth_def MAX_POWL_DEPTH_def)
  moreover have "mk_partial_order [PartialOrder [act ''a'', act ''b''] [OrderEdge 0 1] OPTIONAL [OrderEdge 0 1] 2, act ''c''] [] ONCE
      = Inr optional_first"
    unfolding optional_first_def
    by (rule mk_parallel) (simp_all add: composite_depth_def node_depth_def MAX_POWL_DEPTH_def)
  ultimately show ?thesis by (simp add: optional_first_def)
qed

text \<open>The same order as a branch of a choice graph.\<close>

definition optional_inside :: pnode where
  "optional_inside = ChoiceGraph [Start, optional_first, End] [ChoiceGraphEdge 0 1 None, ChoiceGraphEdge 1 2 None] 0 2 ONCE 4"

lemma optional_inside_wf: "wf_node optional_inside"
  by (simp add: optional_inside_def mk_choice_graph_Inr_iff choice_edges_ok_def in_range_def optional_first_wf
      composite_depth_def node_depth_def MAX_POWL_DEPTH_def) (simp add: optional_first_def)

lemma optional_inside_runs:
  "\<exists>m. fire (\<lambda>_. '''') optional_inside INITIAL_MARKING [0] '''' DEFAULT_BOUND = Inr m \<and> enabled optional_inside m DEFAULT_BOUND = Inr [[1, 1]]"
  by (simp add: run_eval optional_inside_def optional_first_def OPTIONAL_def node_id.simps)

theorem skippable_child_never_runs_witness: "\<not> under ([1] @ [int 0]) [1, 1]"
proof -
  obtain m where m: "fire (\<lambda>_. '''') optional_inside INITIAL_MARKING [0] '''' DEFAULT_BOUND = Inr m"
    "enabled optional_inside m DEFAULT_BOUND = Inr [[1, 1]]" using optional_inside_runs by blast
  have "steps (\<lambda>_. '''') optional_inside DEFAULT_BOUND INITIAL_MARKING (Suc 0) m"
    by (rule steps.one_more [OF steps.none m(1)])
  moreover have "node_at optional_inside [1] = Inr optional_first"
    by (simp add: optional_inside_def in_range_def)
  ultimately show ?thesis
    using skippable_child_never_runs [OF optional_inside_wf, of "[1]" _ _ _ _ _ 0 _ DEFAULT_BOUND 1 m "[[1, 1]]" "[1, 1]"] m(2)
    unfolding optional_first_def by (simp add: is_skippable_def OPTIONAL_def)
qed

end
