(* ===== verification/Powl_Conformance.thy ===== *)
theory Powl_Conformance
  imports Powl_Executor_Facts
begin

text \<open>
  \<^verbatim>\<open>powl/conformance.py\<close>: conformance of an observed event log to a model, by replaying the
  observed labels through \<open>enabled\<close> and \<open>fire\<close>.
\<close>

section \<open>Events and labels\<close>

text \<open>
  Of an event the module reads the activity and the attribute \<^verbatim>\<open>detail\<close>; an attribute is its
  key with \<^verbatim>\<open>str\<close> of its value, or \<^verbatim>\<open>None\<close>.
\<close>

record ocel_event =
  activity :: string
  attributes :: "(string \<times> string option) list"

definition FIRE_ACTIVITIES :: "string list" where
  "FIRE_ACTIVITIES = [''powl_structural_fire'', ''powl_action_binding_error'']"

definition detail_of :: "ocel_event \<Rightarrow> string option" where
  "detail_of e = (case filter (\<lambda>a. fst a = ''detail'') (attributes e) of [] \<Rightarrow> None | a # _ \<Rightarrow> snd a)"

definition observed_labels_from_events :: "ocel_event list \<Rightarrow> string list" where
  "observed_labels_from_events es = concat (map (\<lambda>e.
     if activity e \<notin> set FIRE_ACTIVITIES then []
     else (case detail_of e of None \<Rightarrow> [] | Some l \<Rightarrow> [l])) es)"

record conformance_result =
  conforms :: bool
  fired_count :: nat
  observed_count :: nat
  reached_final :: bool
  divergence_index :: "nat option"
  divergence_label :: "string option"
  divergence_enabled_labels :: "string list option"

text \<open>The text of a tuple of integers.\<close>

fun joined :: "string list \<Rightarrow> string" where
  "joined [] = ''''"
| "joined [x] = x"
| "joined (x # y # zs) = x @ '', '' @ joined (y # zs)"

definition path_text :: "path \<Rightarrow> string" where
  "path_text p = (case p of [i] \<Rightarrow> ''('' @ string_of_int i @ '',)'' | _ \<Rightarrow> ''('' @ joined (map string_of_int p) @ '')'')"

definition fire_label :: "pnode \<Rightarrow> path \<Rightarrow> string" where
  "fire_label v p = (case v of Atom l _ _ _ \<Rightarrow> l | _ \<Rightarrow> ''path:'' @ path_text p)"

definition labelled :: "pnode \<Rightarrow> path list \<Rightarrow> (path \<times> string) list res" where
  "labelled model live = mapE (\<lambda>p. bindE (node_at model p) (\<lambda>v. Inr (p, fire_label v p))) live"

section \<open>The replay\<close>

text \<open>\<open>replay_labels\<close> is the loop; \<open>n\<close> is the length of the whole observation, \<open>k\<close> the index.\<close>

fun replay_labels :: "(string \<Rightarrow> string) \<Rightarrow> pnode \<Rightarrow> bound \<Rightarrow> nat \<Rightarrow> nat \<Rightarrow> marking \<Rightarrow> string list
    \<Rightarrow> (conformance_result + marking) res" where
  "replay_labels sha model b n k m [] = Inr (Inr m)"
| "replay_labels sha model b n k m (lbl # rest) =
     bindE (enabled model m b) (\<lambda>live.
     bindE (labelled model live) (\<lambda>pairs.
     case sort (map fst (filter (\<lambda>(p, l). l = lbl) pairs)) of
         [] \<Rightarrow> Inr (Inl \<lparr>conforms = False, fired_count = k, observed_count = n, reached_final = False,
                 divergence_index = Some k, divergence_label = Some lbl,
                 divergence_enabled_labels = Some (sort (map snd pairs))\<rparr>)
       | chosen # _ \<Rightarrow> bindE (fire sha model m chosen '''' b) (\<lambda>m'. replay_labels sha model b n (Suc k) m' rest)))"

definition check_ocel_conformance :: "(string \<Rightarrow> string) \<Rightarrow> pnode \<Rightarrow> ocel_event list \<Rightarrow> bound \<Rightarrow> conformance_result res" where
  "check_ocel_conformance sha model events b =
     (let observed = observed_labels_from_events events; n = length observed in
      bindE (replay_labels sha model b n 0 INITIAL_MARKING observed) (\<lambda>r. case r of
          Inl divergence \<Rightarrow> Inr divergence
        | Inr m \<Rightarrow> bindE (is_final model m) (\<lambda>final.
            Inr \<lparr>conforms = final, fired_count = n, observed_count = n, reached_final = final,
              divergence_index = (if final then None else Some n), divergence_label = None,
              divergence_enabled_labels = None\<rparr>)))"

section \<open>Soundness\<close>

lemma labelled_mem:
  "labelled model live = Inr pairs \<Longrightarrow> (p, l) \<in> set pairs \<longleftrightarrow> p \<in> set live \<and> (\<exists>v. node_at model p = Inr v \<and> l = fire_label v p)"
  unfolding labelled_def
  by (induction live arbitrary: pairs) (auto simp: bindE_Inr_iff)

text \<open>The labels an observer reads off a list of leaves, and the trace of its atoms.\<close>

definition observes :: "pnode \<Rightarrow> path list \<Rightarrow> string list \<Rightarrow> trace \<Rightarrow> bool" where
  "observes model ps ls t \<longleftrightarrow> (\<exists>vs. list_all2 (\<lambda>p v. node_at model p = Inr v) ps vs
     \<and> ls = map2 fire_label vs ps \<and> t = concat (map label_of vs))"

lemma replay_labels_Cons:
  assumes "replay_labels sha model b n k m (l # ls) = Inr x"
  obtains (diverged) live pairs d where "enabled model m b = Inr live" "labelled model live = Inr pairs" "x = Inl d"
      "filter (\<lambda>(p, y). y = l) pairs = []" "\<not> conforms d" "fired_count d = k" "divergence_index d = Some k"
      "divergence_label d = Some l"
  | (fired) live pairs chosen m1 where "enabled model m b = Inr live" "labelled model live = Inr pairs"
      "(chosen, l) \<in> set pairs" "fire sha model m chosen '''' b = Inr m1"
      "replay_labels sha model b n (Suc k) m1 ls = Inr x"
proof -
  obtain live pairs where e: "enabled model m b = Inr live" "labelled model live = Inr pairs"
    using assms by (auto simp: bindE_Inr_iff)
  let ?c = "sort (map fst (filter (\<lambda>(p, y). y = l) pairs))"
  show thesis
  proof (cases ?c)
    case Nil
    then have "filter (\<lambda>(p, y). y = l) pairs = []" by (metis length_0_conv length_map length_sort)
    with Nil show thesis using assms e diverged by (auto simp: Nil)
  next
    case (Cons chosen more)
    then have "chosen \<in> set ?c" by simp
    then have "(chosen, l) \<in> set pairs" by auto
    with Cons show thesis using assms e fired by (auto simp: bindE_Inr_iff)
  qed
qed

text \<open>Firing a list of paths one after the other, each where the one before has led.\<close>

definition fire_all :: "(string \<Rightarrow> string) \<Rightarrow> pnode \<Rightarrow> bound \<Rightarrow> marking \<Rightarrow> path list \<Rightarrow> marking res" where
  "fire_all sha model b m ps = foldE (\<lambda>m p. fire sha model m p '''' b) m ps"

lemma replay_labels_emitted:
  assumes wf: "wf_node model"
  shows "replay_labels sha model b n k m ls = Inr (Inr m') \<Longrightarrow> emitted model [] m t \<Longrightarrow>
    \<exists>ps u. fire_all sha model b m ps = Inr m' \<and> observes model ps ls u \<and> emitted model [] m' (t @ u)"
proof (induction ls arbitrary: k m t)
  case Nil
  then show ?case by (intro exI [of _ "[]"]) (simp add: observes_def fire_all_def)
next
  case (Cons l ls)
  from Cons.prems(1) obtain live pairs chosen m1 where e: "labelled model live = Inr pairs" "(chosen, l) \<in> set pairs"
    and f: "fire sha model m chosen '''' b = Inr m1" and r: "replay_labels sha model b n (Suc k) m1 ls = Inr (Inr m')"
    by (rule replay_labels_Cons) auto
  obtain v where v: "node_at model chosen = Inr v" "l = fire_label v chosen" using labelled_mem [OF e(1)] e(2) by blast
  from fire_emitted [OF wf f Cons.prems(2)] v(1) have em: "emitted model [] m1 (t @ label_of v)" by simp
  from Cons.IH [OF r em] obtain ps u vs where run: "fire_all sha model b m1 ps = Inr m'"
    and "list_all2 (\<lambda>p v. node_at model p = Inr v) ps vs"
    "ls = map2 fire_label vs ps" "u = concat (map label_of vs)" "emitted model [] m' ((t @ label_of v) @ u)"
    unfolding observes_def by blast
  then have "observes model (chosen # ps) (l # ls) (label_of v @ u)" "emitted model [] m' (t @ label_of v @ u)"
    using v unfolding observes_def by (auto intro!: exI [of _ "v # vs"])
  moreover have "fire_all sha model b m (chosen # ps) = Inr m'" using f run by (simp add: fire_all_def)
  ultimately show ?case by blast
qed

text \<open>
  C4.  A log that is reported to conform does: there is a run of the executor, a list of paths that
  can be fired one after the other from the initial marking within the bound, that ends in a
  final marking; the fire labels of the log are those of the leaves fired, atoms by their label
  and silent leaves by their path; and the labels of the atoms fired form a trace of the
  model's language.
\<close>

theorem conformance_sound:
  assumes "wf_node model" "check_ocel_conformance sha model events b = Inr r" "conforms r"
  shows "\<exists>ps m t. fire_all sha model b INITIAL_MARKING ps = Inr m \<and> is_final model m = Inr True
    \<and> observes model ps (observed_labels_from_events events) t \<and> t \<in> den None model"
proof -
  let ?ls = "observed_labels_from_events events"
  obtain m where m: "replay_labels sha model b (length ?ls) 0 INITIAL_MARKING ?ls = Inr (Inr m)" "is_final model m = Inr True"
  proof -
    obtain x where x: "replay_labels sha model b (length ?ls) 0 INITIAL_MARKING ?ls = Inr x"
      using assms(2) by (auto simp: check_ocel_conformance_def Let_def bindE_Inr_iff)
    have dv: "replay_labels sha model b n k m ls = Inr (Inl d) \<Longrightarrow> \<not> conforms d" for n k m ls d
    proof (induction ls arbitrary: k m)
      case (Cons l ls)
      from Cons.prems show ?case by (rule replay_labels_Cons) (use Cons.IH in auto)
    qed simp
    show thesis
    proof (cases x)
      case (Inl d)
      then show thesis using assms(2,3) x dv by (simp add: check_ocel_conformance_def Let_def)
    next
      case (Inr m)
      then show thesis using assms(2,3) x that by (auto simp: check_ocel_conformance_def Let_def bindE_Inr_iff)
    qed
  qed
  have "idle [] INITIAL_MARKING" by (simp add: idle_def INITIAL_MARKING_def)
  then have "emitted model [] INITIAL_MARKING []" by (simp add: emitted_idle)
  from replay_labels_emitted [OF assms(1) m(1) this] obtain ps u where
    u: "fire_all sha model b INITIAL_MARKING ps = Inr m" "observes model ps ?ls u" "emitted model [] m ([] @ u)" by blast
  have "u \<in> den None model" using emitted_complete u(3) m(2) by (simp add: is_final_def)
  with u(1,2) m(2) show ?thesis by blast
qed

definition fired :: "string \<Rightarrow> ocel_event" where
  "fired l = \<lparr>activity = ''powl_structural_fire'', attributes = [(''detail'', Some l)]\<rparr>"

lemma two_steps_conforms:
  "\<exists>r. check_ocel_conformance (\<lambda>_. '''') two_steps [fired ''a'', fired ''b''] DEFAULT_BOUND = Inr r \<and> conforms r"
  by (simp add: check_ocel_conformance_def observed_labels_from_events_def fired_def FIRE_ACTIVITIES_def detail_of_def
      labelled_def fire_label_def run_eval two_steps_def)

theorem conformance_sound_witness:
  "\<exists>ps m t. fire_all (\<lambda>_. '''') two_steps DEFAULT_BOUND INITIAL_MARKING ps = Inr m \<and> is_final two_steps m = Inr True
    \<and> observes two_steps ps (observed_labels_from_events [fired ''a'', fired ''b'']) t \<and> t \<in> den None two_steps"
  using conformance_sound [OF two_steps_wf] two_steps_conforms by blast

section \<open>Divergence\<close>

lemma replay_labels_diverges:
  "replay_labels sha model b n k m ls = Inr (Inl d) \<Longrightarrow> steps sha model b INITIAL_MARKING k m \<Longrightarrow>
   \<exists>j m' live. j < length ls \<and> divergence_index d = Some (k + j) \<and> fired_count d = k + j \<and> divergence_label d = Some (ls ! j)
     \<and> \<not> conforms d \<and> steps sha model b INITIAL_MARKING (k + j) m' \<and> enabled model m' b = Inr live
     \<and> (\<forall>p \<in> set live. \<forall>v. node_at model p = Inr v \<longrightarrow> fire_label v p \<noteq> ls ! j)"
proof (induction ls arbitrary: k m)
  case (Cons l ls)
  from Cons.prems(1) show ?case
  proof (cases rule: replay_labels_Cons)
    case (diverged live pairs d')
    have "fire_label v p \<noteq> l" if "p \<in> set live" "node_at model p = Inr v" for p v
      using labelled_mem [OF diverged(2), of p l] diverged(4) that by (auto simp: filter_empty_conv)
    then show ?thesis using diverged Cons.prems(2) by (intro exI [of _ 0] exI [of _ m] exI [of _ live]) auto
  next
    case (fired live pairs chosen m1)
    from Cons.IH [OF fired(5) steps.one_more [OF Cons.prems(2) fired(4)]] obtain j m' live' where
      "j < length ls" "divergence_index d = Some (Suc k + j)" "fired_count d = Suc k + j" "divergence_label d = Some (ls ! j)"
      "\<not> conforms d" "steps sha model b INITIAL_MARKING (Suc k + j) m'" "enabled model m' b = Inr live'"
      "\<forall>p \<in> set live'. \<forall>v. node_at model p = Inr v \<longrightarrow> fire_label v p \<noteq> ls ! j" by blast
    then show ?thesis by (intro exI [of _ "Suc j"] exI [of _ m'] exI [of _ live']) auto
  qed
qed simp

text \<open>
  A reported divergence is exact: the verdict names the index and the label at which the
  replay stopped, the model was brought there by as many fires, and no path enabled there
  carries that label.
\<close>

theorem divergence_exact:
  assumes "check_ocel_conformance sha model events b = Inr r" "divergence_label r = Some l"
  shows "\<exists>k m live. divergence_index r = Some k \<and> fired_count r = k \<and> k < length (observed_labels_from_events events)
    \<and> observed_labels_from_events events ! k = l \<and> \<not> conforms r \<and> steps sha model b INITIAL_MARKING k m
    \<and> enabled model m b = Inr live \<and> (\<forall>p \<in> set live. \<forall>v. node_at model p = Inr v \<longrightarrow> fire_label v p \<noteq> l)"
proof -
  let ?ls = "observed_labels_from_events events"
  obtain x where x: "replay_labels sha model b (length ?ls) 0 INITIAL_MARKING ?ls = Inr x"
    using assms(1) by (auto simp: check_ocel_conformance_def Let_def bindE_Inr_iff)
  have "x = Inl r" using assms x by (cases x) (auto simp: check_ocel_conformance_def Let_def bindE_Inr_iff)
  then show ?thesis using replay_labels_diverges [of sha model b _ 0 INITIAL_MARKING ?ls r] x steps.none assms(2) by fastforce
qed

lemma two_steps_diverges:
  "\<exists>r. check_ocel_conformance (\<lambda>_. '''') two_steps [fired ''b''] DEFAULT_BOUND = Inr r \<and> divergence_label r = Some ''b''"
  by (simp add: check_ocel_conformance_def observed_labels_from_events_def fired_def FIRE_ACTIVITIES_def detail_of_def
      labelled_def fire_label_def run_eval two_steps_def)

theorem divergence_exact_witness:
  "\<exists>m live. steps (\<lambda>_. '''') two_steps DEFAULT_BOUND INITIAL_MARKING 0 m \<and> enabled two_steps m DEFAULT_BOUND = Inr live
     \<and> (\<forall>p \<in> set live. \<forall>v. node_at two_steps p = Inr v \<longrightarrow> fire_label v p \<noteq> ''b'')"
proof -
  obtain r where r: "check_ocel_conformance (\<lambda>_. '''') two_steps [fired ''b''] DEFAULT_BOUND = Inr r" "divergence_label r = Some ''b''"
    using two_steps_diverges by blast
  have "length (observed_labels_from_events [fired ''b'']) = 1"
    by (simp add: observed_labels_from_events_def fired_def FIRE_ACTIVITIES_def detail_of_def)
  with divergence_exact [OF r] show ?thesis by auto
qed

section \<open>A conforming log that is rejected\<close>

text \<open>
  A choice between \<open>a b\<close> and \<open>a c\<close>.  The first \<open>a\<close> is always taken on the branch with the
  smaller path.
\<close>

definition seq2 :: "string \<Rightarrow> string \<Rightarrow> pnode" where
  "seq2 l l' = PartialOrder [act l, act l'] [OrderEdge 0 1] ONCE [OrderEdge 0 1] 2"

definition same_start :: pnode where
  "same_start = ChoiceGraph [Start, seq2 ''a'' ''b'', seq2 ''a'' ''c'', End]
     [ChoiceGraphEdge 0 1 None, ChoiceGraphEdge 0 2 None, ChoiceGraphEdge 1 3 None, ChoiceGraphEdge 2 3 None] 0 3 ONCE 3"

lemma same_start_wf: "wf_node same_start"
proof -
  have "mk_partial_order [act l, act l'] [OrderEdge 0 1] ONCE = Inr (seq2 l l')" for l l'
    unfolding seq2_def by (rule mk_sequence) (simp add: composite_depth_def node_depth_def MAX_POWL_DEPTH_def)
  then have "wf_node (seq2 l l')" for l l' by (simp add: seq2_def)
  moreover have "composite_depth [Start, seq2 ''a'' ''b'', seq2 ''a'' ''c'', End] = Inr 3"
    by (simp add: composite_depth_def node_depth_def seq2_def MAX_POWL_DEPTH_def)
  ultimately show ?thesis
    by (simp add: same_start_def mk_choice_graph_def check_choice_edge_def check_boundary_def in_range_def Let_def)
qed

lemma digit_chars: "digit 0 = CHR ''0''" "digit 3 = CHR ''3''"
  by code_simp+

lemmas log_eval = check_ocel_conformance_def observed_labels_from_events_def fired_def FIRE_ACTIVITIES_def detail_of_def
  labelled_def fire_label_def path_text_def string_of_int_def string_of_nat.simps digit_chars node_id.simps text_digest_def

lemma same_start_diverges:
  "\<exists>r. check_ocel_conformance (\<lambda>_. '''') same_start
       [fired ''path:(0,)'', fired ''a'', fired ''c'', fired ''path:(3,)''] DEFAULT_BOUND = Inr r
     \<and> \<not> conforms r \<and> divergence_index r = Some 2"
  by (simp add: log_eval run_eval same_start_def seq2_def)

lemma same_start_run:
  "\<exists>m. replay (\<lambda>_. '''') same_start
       [pick [[0]] [0], pick [[1, 0], [2, 0]] [2, 0], pick [[2, 1]] [2, 1], pick [[3]] [3]] DEFAULT_BOUND INITIAL_MARKING = Inr m
     \<and> is_final same_start m = Inr True"
  by (simp add: run_eval same_start_def seq2_def node_id.simps)

lemma same_start_labels:
  "observes same_start [[0], [2, 0], [2, 1], [3]] [''path:(0,)'', ''a'', ''c'', ''path:(3,)''] [''a'', ''c'']"
  unfolding observes_def
  by (intro exI [of _ "[Start, act ''a'', act ''c'', End]"])
    (simp add: same_start_def seq2_def in_range_def fire_label_def path_text_def string_of_int_def string_of_nat.simps digit_chars)

text \<open>
  A log of the model's own executor may be rejected: a run that replays to a final
  marking, whose fire labels are exactly the log, is reported to diverge at its third event,
  because the first \<open>a\<close> was given to the other branch.
\<close>

theorem conformance_rejects_own_run:
  "wf_node same_start
   \<and> (\<exists>m. replay (\<lambda>_. '''') same_start
       [pick [[0]] [0], pick [[1, 0], [2, 0]] [2, 0], pick [[2, 1]] [2, 1], pick [[3]] [3]] DEFAULT_BOUND INITIAL_MARKING = Inr m
     \<and> is_final same_start m = Inr True)
   \<and> observes same_start [[0], [2, 0], [2, 1], [3]] [''path:(0,)'', ''a'', ''c'', ''path:(3,)''] [''a'', ''c'']
   \<and> (\<exists>r. check_ocel_conformance (\<lambda>_. '''') same_start
       [fired ''path:(0,)'', fired ''a'', fired ''c'', fired ''path:(3,)''] DEFAULT_BOUND = Inr r
     \<and> \<not> conforms r \<and> divergence_index r = Some 2)"
  using same_start_wf same_start_run same_start_labels same_start_diverges by blast

end
