(* ===== verification/Powl_Witness.thy ===== *)
theory Powl_Witness
  imports Powl_Decides
begin

text \<open>
  \<^verbatim>\<open>powl/witness.py\<close>: seeded sampling of linearizations, exact counting where it is cheap, and
  the report.  The pseudo-random generator is a parameter: \<open>randrange g n\<close> is a number with the
  next state, \<open>seeded\<close> the state for a digest, \<open>digest\<close> the SHA-256 of a seed as a number.
\<close>

unbundle bit_operations_syntax

section \<open>Sampling\<close>

definition MAX_WALK_STEPS :: nat where "MAX_WALK_STEPS = 256"

definition rng_for_seed :: "(string \<Rightarrow> nat) \<Rightarrow> (nat \<Rightarrow> 'g) \<Rightarrow> string \<Rightarrow> 'g" where
  "rng_for_seed digest seeded seed = seeded (digest seed)"

text \<open>
  \<open>random_kahn\<close> is the loop of \<^verbatim>\<open>_random_topological_order\<close>: \<open>ready.pop(k)\<close> at a random index,
  then the successors, then \<open>ready.sort()\<close>.
\<close>

function random_kahn :: "('g \<Rightarrow> nat \<Rightarrow> nat \<times> 'g) \<Rightarrow> (nat \<times> nat) list \<Rightarrow> int list \<Rightarrow> nat list \<Rightarrow> nat list \<Rightarrow> 'g
    \<Rightarrow> (nat list \<times> 'g) res" where
  "random_kahn randrange ps preds ready out g =
     (if ready = [] then Inr (out, g)
      else let (k, g') = randrange g (length ready) in
        if k \<ge> length ready then Inl IndexError
        else let i = ready ! k;
                 (preds', ready') = foldl drop_pred (preds, take k ready @ drop (Suc k) ready)
                                      (sort (map snd (filter (\<lambda>p. fst p = i) ps)))
             in random_kahn randrange ps preds' (sort ready') (out @ [i]) g')"
  by pat_completeness auto
termination
proof (relation "measure (\<lambda>(randrange, ps, preds, ready, out, g). pending preds + length ready)")
  fix randrange :: "'g \<Rightarrow> nat \<Rightarrow> nat \<times> 'g" and ps :: "(nat \<times> nat) list" and preds :: "int list" and ready out :: "nat list"
    and g x k g' i y preds' ready'
  assume "ready \<noteq> []" "\<not> length ready \<le> k"
    and y: "y = foldl drop_pred (preds, take k ready @ drop (Suc k) ready) (sort (map snd (filter (\<lambda>p. fst p = i) ps)))"
    "(preds', ready') = y"
  then have "length (take k ready @ drop (Suc k) ready) < length ready" by simp
  with drop_pred_decreases [of preds "take k ready @ drop (Suc k) ready" "sort (map snd (filter (\<lambda>p. fst p = i) ps))"]
  show "((randrange, ps, preds', sort ready', out @ [i], g'), randrange, ps, preds, ready, out, g)
    \<in> measure (\<lambda>(randrange, ps, preds, ready, out, g). pending preds + length ready)"
    unfolding y(1) [symmetric] y(2) [symmetric] by simp
qed simp

declare random_kahn.simps [simp del]

definition random_topological_order :: "('g \<Rightarrow> nat \<Rightarrow> nat \<times> 'g) \<Rightarrow> nat \<Rightarrow> edge list \<Rightarrow> 'g \<Rightarrow> (nat list \<times> 'g) res" where
  "random_topological_order randrange n es g = bindE (index_pairs n (sorted_edges es)) (\<lambda>ps.
     let preds = map (\<lambda>i. int (length (filter (\<lambda>p. snd p = i) ps))) [0..<n];
         ready = filter (\<lambda>i. preds ! i = 0) [0..<n]
     in random_kahn randrange ps preds ready [] g)"

text \<open>
  \<open>random_walk\<close> is the bounded loop over a choice graph; \<open>samplers\<close> are the samplers of the
  children.
\<close>

fun random_walk :: "('g \<Rightarrow> nat \<Rightarrow> nat \<times> 'g) \<Rightarrow> ('g \<Rightarrow> (trace \<times> 'g) res) list \<Rightarrow> edge list \<Rightarrow> int \<Rightarrow> nat \<Rightarrow> int \<Rightarrow> trace
    \<Rightarrow> 'g \<Rightarrow> (trace \<times> 'g) res" where
  "random_walk randrange samplers es en 0 cur out g = refuse CHOICE_GRAPH_DISCONNECTED"
| "random_walk randrange samplers es en (Suc n) cur out g =
     bindE (child_at samplers cur) (\<lambda>sampler.
     bindE (sampler g) (\<lambda>(t, g').
       let out' = out @ t in
       if cur = en then Inr (out', g')
       else let options = ordered_succs es cur in
         if options = [] then refuse CHOICE_GRAPH_DISCONNECTED
         else let (k, g'') = randrange g' (length options) in
           if k \<ge> length options then Inl IndexError
           else random_walk randrange samplers es en n (options ! k) out' g''))"

fun one_linearization :: "('g \<Rightarrow> nat \<Rightarrow> nat \<times> 'g) \<Rightarrow> pnode \<Rightarrow> 'g \<Rightarrow> (trace \<times> 'g) res" where
  "one_linearization randrange (Atom l a b c) g = Inr ([l], g)"
| "one_linearization randrange (PartialOrder cs es f cl d) g =
     bindE (random_topological_order randrange (length cs) es g) (\<lambda>(topo, g').
       foldE (\<lambda>(out, g) i. bindE ((map (\<lambda>c g. one_linearization randrange c g) cs ! i) g) (\<lambda>(t, g). Inr (out @ t, g)))
         ([], g') topo)"
| "one_linearization randrange (ChoiceGraph cs es st en f d) g =
     random_walk randrange (map (\<lambda>c g. one_linearization randrange c g) cs) es en MAX_WALK_STEPS st [] g"
| "one_linearization randrange (Foreign nm) g = refuse PROHIBITED_NODE_KIND"
| "one_linearization randrange v g = Inr ([], g)"

text \<open>\<open>sample_linearizations\<close> yields its samples in order; an exception ends the list.\<close>

fun samples_from :: "('g \<Rightarrow> (trace \<times> 'g) res) \<Rightarrow> nat \<Rightarrow> 'g \<Rightarrow> trace res list" where
  "samples_from sampler 0 g = []"
| "samples_from sampler (Suc n) g = (case sampler g of
       Inl x \<Rightarrow> [Inl x]
     | Inr (t, g') \<Rightarrow> Inr t # samples_from sampler n g')"

definition sample_linearizations :: "('g \<Rightarrow> nat \<Rightarrow> nat \<times> 'g) \<Rightarrow> (string \<Rightarrow> nat) \<Rightarrow> (nat \<Rightarrow> 'g) \<Rightarrow> pnode \<Rightarrow> int \<Rightarrow> string
    \<Rightarrow> trace res list" where
  "sample_linearizations randrange digest seeded v samples seed =
     (if samples < 0 then [Inl ValueError]
      else samples_from (one_linearization randrange v) (nat samples) (rng_for_seed digest seeded seed))"

section \<open>Counting\<close>

definition required_masks :: "nat \<Rightarrow> edge list \<Rightarrow> int list res" where
  "required_masks n cl = foldE (\<lambda>req e. bindE (py_index n (dst e)) (\<lambda>d.
     if src e < 0 then Inl ValueError
     else Inr (req[d := req ! d OR push_bit (nat (src e)) 1]))) (replicate n 0) cl"

text \<open>
  The subset dynamic program.  A mask is the set of the children already placed; \<open>push_counts\<close>
  is the inner loop, which adds the count of a mask to those that extend it by one child.
\<close>

definition push_count :: "int list \<Rightarrow> nat \<Rightarrow> nat list \<Rightarrow> nat \<Rightarrow> nat list" where
  "push_count req done_set counts j =
     (if done_set AND push_bit j 1 \<noteq> 0 then counts
      else if (req ! j) AND (NOT (int done_set)) \<noteq> 0 then counts
      else let m = done_set OR push_bit j 1 in counts[m := counts ! m + counts ! done_set])"

definition push_counts :: "nat \<Rightarrow> int list \<Rightarrow> nat list \<Rightarrow> nat \<Rightarrow> nat list" where
  "push_counts n req counts done_set =
     (if counts ! done_set = 0 then counts else foldl (push_count req done_set) counts [0..<n])"

definition count_orders :: "nat \<Rightarrow> int list \<Rightarrow> nat" where
  "count_orders n req =
     foldl (push_counts n req) ((replicate (2 ^ n) 0)[0 := 1]) [0..<2 ^ n] ! (2 ^ n - 1)"

definition is_composite :: "pnode \<Rightarrow> bool" where
  "is_composite v \<longleftrightarrow> (case v of PartialOrder _ _ _ _ _ \<Rightarrow> True | ChoiceGraph _ _ _ _ _ _ \<Rightarrow> True | _ \<Rightarrow> False)"

fun count_linearizations :: "pnode \<Rightarrow> int \<Rightarrow> nat option res" where
  "count_linearizations (ChoiceGraph cs es st en f d) limit = Inr None"
| "count_linearizations (Foreign nm) limit = refuse PROHIBITED_NODE_KIND"
| "count_linearizations (PartialOrder cs es f cl d) limit =
     (let n = length cs in
      if int n > limit then Inr None
      else if \<exists>c \<in> set cs. is_composite c then Inr None
      else bindE (required_masks n cl) (\<lambda>req. Inr (Some (count_orders n req))))"
| "count_linearizations v limit = Inr (Some 1)"

section \<open>Reporting\<close>

record witness_report =
  wr_samples :: "trace list"
  wr_seed :: string
  wr_counterexamples :: "trace list"
  wr_total :: "nat option"

definition coverage_statement :: "witness_report \<Rightarrow> string" where
  "coverage_statement r =
     (let n = string_of_nat (length (wr_samples r));
          head = (case wr_total r of
              None \<Rightarrow> ''sampled '' @ n @ '' of an UNKNOWN total (counting is #P-complete)''
            | Some t \<Rightarrow> ''sampled '' @ n @ '' of '' @ string_of_nat t @ '' total linearizations'');
          tail = (if wr_counterexamples r \<noteq> []
            then string_of_nat (length (wr_counterexamples r)) @ '' counterexample(s) found''
            else ''no counterexample found'')
      in head @ ''; '' @ tail)"

section \<open>Random orders are topological\<close>

lemma mset_pop: "k < length xs \<Longrightarrow> mset xs = mset (xs ! k # take k xs @ drop (Suc k) xs)"
proof -
  assume k: "k < length xs"
  have "mset xs = mset (take k xs @ xs ! k # drop (Suc k) xs)" using id_take_nth_drop [OF k] by simp
  then show ?thesis by simp
qed

definition fair :: "('g \<Rightarrow> nat \<Rightarrow> nat \<times> 'g) \<Rightarrow> bool" where
  "fair randrange \<longleftrightarrow> (\<forall>g n. 0 < n \<longrightarrow> fst (randrange g n) < n)"

lemma random_kahn_final:
  assumes f: "fair randrange"
  shows "kahn_inv ps n preds ready acc \<Longrightarrow> \<forall>(s, d) \<in> set ps. s < n \<and> d < n \<Longrightarrow>
   \<exists>preds' topo g'. random_kahn randrange ps preds ready acc g = Inr (topo, g') \<and> kahn_inv ps n preds' [] topo"
proof (induction "pending preds + length ready" arbitrary: preds ready acc g rule: less_induct)
  case less
  show ?case
  proof (cases "ready = []")
    case True
    then show ?thesis using less.prems by (subst random_kahn.simps) auto
  next
    case False
    obtain k g' where k: "randrange g (length ready) = (k, g')" by fastforce
    then have kl: "k < length ready" using f False unfolding fair_def by (metis fst_conv length_greater_0_conv)
    let ?rest = "take k ready @ drop (Suc k) ready" and ?js = "sort (map snd (filter (\<lambda>p. fst p = ready ! k) ps))"
    obtain preds' ready' where step: "foldl drop_pred (preds, ?rest) ?js = (preds', ready')" by fastforce
    have "kahn_inv ps n preds (ready ! k # ?rest) acc" using kahn_inv_perm [OF less.prems(1) mset_pop [OF kl]] .
    from kahn_step [OF this less.prems(2) step] have "kahn_inv ps n preds' ready' (acc @ [ready ! k])" .
    then have inv: "kahn_inv ps n preds' (sort ready') (acc @ [ready ! k])" by (rule kahn_inv_perm) simp
    have "pending preds' + length (sort ready') < pending preds + length ready"
      using drop_pred_decreases [of preds ?rest ?js] step kl by simp
    from less.hyps [OF this inv less.prems(2)] show ?thesis
      using False k kl step by (subst random_kahn.simps) (simp add: Let_def)
  qed
qed

lemma random_topological_order_Inr:
  assumes f: "fair randrange" and ok: "order_edges_ok es n" and acyc: "acyclic (erel es)"
  obtains topo g' where "random_topological_order randrange n es g = Inr (topo, g')" "distinct topo" "set topo = {..<n}"
    "\<And>e k. e \<in> set es \<Longrightarrow> k < length topo \<Longrightarrow> topo ! k = nat (dst e) \<Longrightarrow> nat (src e) \<in> set (take k topo)"
proof -
  let ?ps = "map (\<lambda>e. (nat (src e), nat (dst e))) (sorted_edges es)"
  let ?preds = "map (\<lambda>i. int (length (filter (\<lambda>p. snd p = i) ?ps))) [0..<n]"
  let ?ready = "filter (\<lambda>i. ?preds ! i = 0) [0..<n]"
  have ok': "order_edges_ok (sorted_edges es) n" using ok by (simp add: order_edges_ok_def)
  have ps: "\<forall>(s, d) \<in> set ?ps. s < n \<and> d < n" using ok by (auto simp: order_edges_ok_def in_range_nat)
  have "kahn_inv ?ps n ?preds ?ready []" unfolding kahn_inv_def by auto
  from random_kahn_final [OF f this ps] obtain preds' topo g' where
    run: "random_kahn randrange ?ps ?preds ?ready [] g = Inr (topo, g')" and fin: "kahn_inv ?ps n preds' [] topo"
    by blast
  note F = kahn_inv_doneD [OF fin]
  have "random_topological_order randrange n es g = Inr (topo, g')"
    using run unfolding random_topological_order_def index_pairs_in_range [OF ok'] by (simp add: Let_def)
  then show ?thesis
  proof (rule that [OF _ F(1) kahn_all [OF ok acyc fin]], simp)
    fix e k assume "e \<in> set es" "k < length topo" "topo ! k = nat (dst e)"
    moreover from this(1) have "(nat (src e), nat (dst e)) \<in> set ?ps" by simp
    ultimately show "nat (src e) \<in> set (take k topo)" using F(4) by blast
  qed
qed

text \<open>A list in which every direct predecessor comes first is a linear extension of the closure.\<close>

lemma linear_of_direct:
  assumes "distinct topo" "set topo = {..<n}" "order_edges_ok es n" "erel cl = (erel es)\<^sup>+"
    and direct: "\<And>e k. e \<in> set es \<Longrightarrow> k < length topo \<Longrightarrow> topo ! k = nat (dst e) \<Longrightarrow> nat (src e) \<in> set (take k topo)"
  shows "sorted_wrt (\<lambda>x y. \<not> before cl y x) topo"
proof -
  let ?pos = "\<lambda>x i. i < length topo \<and> int (topo ! i) = x"
  have earlier: "\<exists>i. ?pos x i \<and> i < j" if "(x, y) \<in> (erel es)\<^sup>+" "?pos y j" for x y j
    using that
  proof (induction arbitrary: j rule: trancl_induct)
    case (base y)
    then obtain e where e: "e \<in> set es" "src e = x" "dst e = y" by (auto simp: erel_def)
    have "topo ! j = nat (dst e)" using base.prems e(3) by auto
    from direct [OF e(1) _ this] base.prems have "nat (src e) \<in> set (take j topo)" by blast
    then obtain i where "i < j" "i < length topo" "topo ! i = nat (src e)" by (auto simp: in_set_conv_nth)
    moreover have "0 \<le> src e" using assms(3) e(1) by (auto simp: order_edges_ok_def in_range_def)
    ultimately show ?case using e(2) by (intro exI [of _ i]) auto
  next
    case (step y z)
    then obtain e where e: "e \<in> set es" "src e = y" "dst e = z" by (auto simp: erel_def)
    have "topo ! j = nat (dst e)" using step.prems e(3) by auto
    from direct [OF e(1) _ this] step.prems have "nat (src e) \<in> set (take j topo)" by blast
    then obtain i where i: "i < j" "i < length topo" "topo ! i = nat (src e)" by (auto simp: in_set_conv_nth)
    moreover have "0 \<le> src e" using assms(3) e(1) by (auto simp: order_edges_ok_def in_range_def)
    ultimately have "?pos y i" using e(2) by auto
    from step.IH [OF this] obtain k where "?pos x k" "k < i" by blast
    with i(1) show ?case by (intro exI [of _ k]) simp
  qed
  show ?thesis unfolding sorted_wrt_iff_nth_less
  proof (intro allI impI)
    fix i j assume ij: "i < j" "j < length topo"
    show "\<not> before cl (topo ! j) (topo ! i)"
    proof
      assume "before cl (topo ! j) (topo ! i)"
      then have "(int (topo ! j), int (topo ! i)) \<in> (erel es)\<^sup>+" by (simp add: before_def assms(4))
      from earlier [OF this, of i] ij obtain k where "k < i" "k < length topo" "topo ! k = topo ! j" by auto
      with assms(1) ij show False by (metis nth_eq_iff_index_eq less_trans less_irrefl)
    qed
  qed
qed

section \<open>Samples are traces of the language\<close>

lemma series_mem:
  assumes "distinct xs" "set xs = {..<length Ls}" "sorted_wrt (\<lambda>x y. \<not> before cl y x) xs" "irrefl (erel cl)"
    and "\<forall>i < length Ls. t i \<in> Ls ! i"
  shows "concat (map t xs) \<in> merge_lang (before cl) Ls"
proof -
  let ?zs = "in_series xs t"
  have "map snd ?zs = concat (map t xs)" by (simp add: in_series_def map_concat comp_def)
  moreover have "\<forall>z \<in> set ?zs. fst z < length Ls" using owners_series [of xs t] assms(2) by auto
  moreover have "keeps_order (before cl) ?zs"
    using assms(3) by (rule keeps_order_series) (simp add: before_irrefl [OF assms(4)])
  moreover have "\<forall>i < length Ls. strand i ?zs \<in> Ls ! i" using assms by (simp add: strand_series)
  ultimately show ?thesis unfolding merge_lang_def by (intro CollectI exI [of _ ?zs]) simp
qed

lemma foldE_series:
  assumes "foldE (\<lambda>(out, g) i. bindE (f i g) (\<lambda>(t, g). Inr (out @ t, g))) (out, g) xs = Inr (u, g')" "distinct xs"
  shows "\<exists>t. u = out @ concat (map t xs) \<and> (\<forall>i \<in> set xs. \<exists>g g'. f i g = Inr (t i, g'))"
  using assms
proof (induction xs arbitrary: out g)
  case (Cons x xs)
  then obtain t0 g0 where x: "f x g = Inr (t0, g0)" by (auto simp: bindE_Inr_iff)
  with Cons obtain t where t: "u = (out @ t0) @ concat (map t xs)" "\<forall>i \<in> set xs. \<exists>g g'. f i g = Inr (t i, g')"
    by fastforce
  let ?t = "t(x := t0)"
  have m: "map ?t xs = map t xs" by (rule map_cong) (use Cons.prems(2) in auto)
  have "u = out @ concat (map ?t (x # xs))"
    by (simp only: t(1) list.map concat.simps m fun_upd_same append_assoc)
  moreover have "\<forall>i \<in> set (x # xs). \<exists>g g'. f i g = Inr (?t i, g')" using t(2) x by auto
  ultimately show ?case by (intro exI [of _ ?t] conjI)
qed simp

lemma random_walk_sound:
  assumes "random_walk randrange samplers es en n cur out g = Inr (u, g')"
    and "length samplers = length Ls" "choice_edges_ok es (length Ls) st en" "in_range cur (length Ls)"
    and "\<And>i g t g'. i < length Ls \<Longrightarrow> (samplers ! i) g = Inr (t, g') \<Longrightarrow> t \<in> Ls ! i"
    and "walk (erel es) st cur (ws @ [cur])" "out \<in> conc_list (map (\<lambda>i. Ls ! nat i) ws)"
  shows "u \<in> graph_lang None (erel es) st en Ls"
  using assms
proof (induction n arbitrary: cur out g ws)
  case (Suc n)
  have cl: "nat cur < length Ls" using Suc.prems(4) by (rule in_range_nat)
  obtain t g1 where t: "(samplers ! nat cur) g = Inr (t, g1)"
    using Suc.prems(1,2,4) by (auto simp: bindE_Inr_iff)
  have out: "out @ t \<in> conc_list (map (\<lambda>i. Ls ! nat i) (ws @ [cur]))"
    using concI [OF Suc.prems(7) Suc.prems(5) [OF cl t]] by (simp add: conc_list_append)
  show ?case
  proof (cases "cur = en")
    case True
    then have "u = out @ t" using Suc.prems(1,2,4) t by (simp add: Let_def)
    then show ?thesis using Suc.prems(6) out True unfolding graph_lang_def
      by (intro UN_I [of "ws @ [cur]"]) (simp_all add: within_def)
  next
    case False
    let ?opts = "ordered_succs es cur"
    obtain k g2 where k: "randrange g1 (length ?opts) = (k, g2)" by fastforce
    have ne: "?opts \<noteq> []" and kl: "k < length ?opts"
      and rest: "random_walk randrange samplers es en n (?opts ! k) (out @ t) g2 = Inr (u, g')"
      using Suc.prems(1,2,4) t False k by (auto simp: Let_def split: if_splits)
    have "?opts ! k \<in> set ?opts" using kl by simp
    then have e: "(cur, ?opts ! k) \<in> erel es" "in_range (?opts ! k) (length Ls)"
      using Suc.prems(3) by (auto simp: ordered_succs_def erel_def choice_edges_ok_def)
    have w: "walk (erel es) st (?opts ! k) ((ws @ [cur]) @ [?opts ! k])"
      using walk_snoc [OF Suc.prems(6) e(1)] by simp
    show ?thesis by (rule Suc.IH [OF rest Suc.prems(2,3) e(2) Suc.prems(5) w out])
  qed
qed simp

lemma one_linearization_den:
  assumes f: "fair randrange"
  shows "wf_node v \<Longrightarrow> all_once v \<Longrightarrow> one_linearization randrange v g = Inr (t, g') \<Longrightarrow> t \<in> den None v"
proof (induction v arbitrary: g t g')
  case (PartialOrder cs es f cl d)
  note D = wf_partial_orderD [OF PartialOrder.prems(1)]
  obtain topo g1 where topo: "random_topological_order randrange (length cs) es g = Inr (topo, g1)" "distinct topo"
    "set topo = {..<length cs}"
    "\<And>e k. e \<in> set es \<Longrightarrow> k < length topo \<Longrightarrow> topo ! k = nat (dst e) \<Longrightarrow> nat (src e) \<in> set (take k topo)"
    using random_topological_order_Inr [OF f D(2) transitive_closure_InrD(2) [OF D(10)]] by blast
  let ?f = "\<lambda>i. map (\<lambda>c g. one_linearization randrange c g) cs ! i"
  have "foldE (\<lambda>(out, g) i. bindE (?f i g) (\<lambda>(t, g). Inr (out @ t, g))) ([], g1) topo = Inr (t, g')"
    using PartialOrder.prems(3) topo(1) by simp
  from foldE_series [OF this topo(2)] obtain u where u: "t = concat (map u topo)"
    "\<forall>i \<in> set topo. \<exists>g g'. ?f i g = Inr (u i, g')" by auto
  have "u i \<in> map (den None) cs ! i" if i: "i < length (map (den None) cs)" for i
  proof -
    have "i \<in> set topo" using i topo(3) by simp
    then obtain h h' where "?f i h = Inr (u i, h')" using u(2) by blast
    then have "one_linearization randrange (cs ! i) h = Inr (u i, h')" using i by simp
    from PartialOrder.IH [OF _ D(8) _ this] show ?thesis using i PartialOrder.prems(2) by simp
  qed
  then have "\<forall>i < length (map (den None) cs). u i \<in> map (den None) cs ! i" by blast
  moreover have "sorted_wrt (\<lambda>x y. \<not> before cl y x) topo"
    by (rule linear_of_direct [OF topo(2,3) D(2,4)]) (rule topo(4))
  ultimately have "t \<in> merge_lang (before cl) (map (den None) cs)"
    unfolding u(1) using topo(2,3) D(6) by (intro series_mem) simp_all
  then show ?case using PartialOrder.prems(2) by simp
next
  case (ChoiceGraph cs es st en f d)
  note D = wf_choice_graphD [OF ChoiceGraph.prems(1)]
  let ?s = "map (\<lambda>c g. one_linearization randrange c g) cs"
  have run: "random_walk randrange ?s es en MAX_WALK_STEPS st [] g = Inr (t, g')" using ChoiceGraph.prems(3) by simp
  have smp: "u \<in> map (den None) cs ! i"
    if "i < length (map (den None) cs)" "(?s ! i) h = Inr (u, h')" for i h u h'
    using ChoiceGraph.IH [OF _ D(7)] ChoiceGraph.prems(2) that by simp
  have "t \<in> graph_lang None (erel es) st en (map (den None) cs)"
    by (rule random_walk_sound [OF run _ _ _ smp, where ws = "[]"]) (use D(2,3) in \<open>simp_all add: walk_def\<close>)
  then show ?case using ChoiceGraph.prems(2) by simp
qed simp_all

text \<open>
  Every sample is a trace of the model's language, when all composites run exactly once
  and the generator draws within range: for each seed and sample count the list yields only
  such traces, until a walk that exceeds its step limit ends it with a refusal.
\<close>

theorem samples_in_language:
  assumes "fair randrange" "wf_node v" "all_once v"
    and "Inr t \<in> set (sample_linearizations randrange digest seeded v samples seed)"
  shows "t \<in> den None v"
proof -
  have "Inr t \<in> set (samples_from (one_linearization randrange v) n g) \<Longrightarrow> t \<in> den None v" for n g
    by (induction n arbitrary: g) (auto split: sum.splits dest: one_linearization_den [OF assms(1-3)])
  then show ?thesis using assms(4) by (auto simp: sample_linearizations_def split: if_splits)
qed

section \<open>The count is the number of linear extensions\<close>

text \<open>
  \<open>respecting R xs\<close>: everything in \<open>R x\<close> stands before \<open>x\<close> in \<open>xs\<close>.  An extension of a set is
  an extension of the set without its last element.
\<close>

definition respecting :: "(nat \<Rightarrow> nat set) \<Rightarrow> nat list \<Rightarrow> bool" where
  "respecting R xs \<longleftrightarrow> (\<forall>k < length xs. R (xs ! k) \<subseteq> set (take k xs))"

definition extensions :: "(nat \<Rightarrow> nat set) \<Rightarrow> nat set \<Rightarrow> nat list set" where
  "extensions R S = {xs. distinct xs \<and> set xs = S \<and> respecting R xs}"

lemma respecting_snoc: "respecting R (xs @ [x]) \<longleftrightarrow> respecting R xs \<and> R x \<subseteq> set xs"
  by (auto simp: respecting_def less_Suc_eq nth_append)

lemma finite_extensions: "finite S \<Longrightarrow> finite (extensions R S)"
  by (rule finite_subset [OF _ finite_subset_distinct [of S]]) (auto simp: extensions_def)

lemma extensions_empty: "extensions R {} = {[]}"
  by (auto simp: extensions_def respecting_def)

definition lasts :: "(nat \<Rightarrow> nat set) \<Rightarrow> nat set \<Rightarrow> nat set" where
  "lasts R S = {j \<in> S. R j \<subseteq> S - {j}}"

lemma extensions_split:
  assumes "S \<noteq> {}"
  shows "extensions R S = (\<Union>j \<in> lasts R S. (\<lambda>xs. xs @ [j]) ` extensions R (S - {j}))" (is "?l = ?r")
proof
  show "?l \<subseteq> ?r"
  proof
    fix xs assume xs: "xs \<in> ?l"
    then have "xs \<noteq> []" using assms by (auto simp: extensions_def)
    then obtain ys j where e: "xs = ys @ [j]" by (metis append_butlast_last_id)
    then have "set ys = S - {j}" "distinct ys" "j \<in> S" "respecting R ys" "R j \<subseteq> set ys"
      using xs by (auto simp: extensions_def respecting_snoc)
    then show "xs \<in> ?r" using e by (auto simp: lasts_def extensions_def)
  qed
  show "?r \<subseteq> ?l" by (auto simp: lasts_def extensions_def respecting_snoc)
qed

lemma card_extensions:
  assumes "finite S" "S \<noteq> {}"
  shows "card (extensions R S) = (\<Sum>j \<in> lasts R S. card (extensions R (S - {j})))"
proof -
  have "card (extensions R S) = (\<Sum>j \<in> lasts R S. card ((\<lambda>xs. xs @ [j]) ` extensions R (S - {j})))"
    unfolding extensions_split [OF assms(2)]
    by (rule card_UN_disjoint) (use assms(1) in \<open>auto simp: lasts_def intro!: finite_imageI finite_extensions\<close>)
  also have "\<dots> = (\<Sum>j \<in> lasts R S. card (extensions R (S - {j})))"
    by (intro sum.cong refl card_image inj_onI) simp
  finally show ?thesis .
qed

definition bits :: "nat \<Rightarrow> nat set" where "bits m = {j. bit m j}"

lemma bits_0 [simp]: "bits 0 = {}" by (simp add: bits_def)

lemma bits_inj: "bits a = bits b \<Longrightarrow> a = b"
  by (auto simp: bits_def bit_eq_iff)

lemma bits_add: "bits (m OR push_bit j 1) = insert j (bits m)"
  by (auto simp: bits_def bit_or_iff bit_exp_iff)

lemma bits_less: "m < 2 ^ n \<longleftrightarrow> bits m \<subseteq> {..<n}"
proof -
  have "m < 2 ^ n \<longleftrightarrow> take_bit n m = m" by (simp add: take_bit_nat_eq_self_iff)
  also have "\<dots> \<longleftrightarrow> bits m \<subseteq> {..<n}" by (auto simp: bit_eq_iff bit_take_bit_iff bits_def)
  finally show ?thesis .
qed

lemma add_bit: "j \<notin> bits m \<Longrightarrow> m OR push_bit j 1 = m + 2 ^ j"
proof -
  assume "j \<notin> bits m"
  then have "m OR push_bit j 1 = m + push_bit j 1"
    by (intro disjunctive_add [symmetric]) (auto simp: bits_def bit_exp_iff)
  then show ?thesis by (simp add: push_bit_eq_mult)
qed

lemma bits_all: "bits (2 ^ n - 1) = {..<n}"
  unfolding mask_eq_exp_minus_1 [symmetric] by (auto simp: bits_def bit_mask_iff)
definition mask_preds :: "int list \<Rightarrow> nat \<Rightarrow> nat set" where
  "mask_preds req j = {b. bit (req ! j) b}"

definition extends :: "int list \<Rightarrow> nat \<Rightarrow> nat \<Rightarrow> bool" where
  "extends req m j \<longleftrightarrow> j \<notin> bits m \<and> mask_preds req j \<subseteq> bits m"

lemma push_count_eq:
  "push_count req m counts j = (if extends req m j then counts[m + 2 ^ j := counts ! (m + 2 ^ j) + counts ! m] else counts)"
proof -
  have 1: "m AND push_bit j 1 \<noteq> 0 \<longleftrightarrow> j \<in> bits m"
    using bit_iff_and_push_bit_not_eq_0 [of m j] by (simp add: bits_def)
  have 2: "(req ! j) AND (NOT (int m)) \<noteq> 0 \<longleftrightarrow> \<not> mask_preds req j \<subseteq> bits m"
    by (auto simp: bit_eq_iff bit_and_iff bit_not_iff bit_of_nat_iff_bit mask_preds_def bits_def)
  show ?thesis unfolding push_count_def 1 2 extends_def Let_def using add_bit [of j m] by auto
qed

lemma push_fold:
  assumes "m < length counts" "\<forall>j < k. extends req m j \<longrightarrow> m + 2 ^ j < length counts"
  shows "length (foldl (push_count req m) counts [0..<k]) = length counts \<and>
    (\<forall>x < length counts. foldl (push_count req m) counts [0..<k] ! x
      = counts ! x + (if \<exists>j < k. extends req m j \<and> x = m + 2 ^ j then counts ! m else 0))"
  using assms(2)
proof (induction k)
  case (Suc k)
  let ?c = "foldl (push_count req m) counts [0..<k]"
  have IH: "length ?c = length counts"
    "\<And>x. x < length counts \<Longrightarrow> ?c ! x = counts ! x + (if \<exists>j < k. extends req m j \<and> x = m + 2 ^ j then counts ! m else 0)"
    using Suc by auto
  have cm: "?c ! m = counts ! m" using IH(2) [OF assms(1)] by simp
  have cons: "foldl (push_count req m) counts [0..<Suc k] = push_count req m ?c k" by simp
  show ?case
  proof (cases "extends req m k")
    case True
    then have b: "m + 2 ^ k < length counts" using Suc.prems by simp
    have "?c ! (m + 2 ^ k) = counts ! (m + 2 ^ k)" using IH(2) [OF b] by simp
    then have step: "push_count req m ?c k = ?c[m + 2 ^ k := counts ! (m + 2 ^ k) + counts ! m]"
      using True cm push_count_eq [of req m ?c k] by simp
    have "?c[m + 2 ^ k := counts ! (m + 2 ^ k) + counts ! m] ! x
        = counts ! x + (if \<exists>j < Suc k. extends req m j \<and> x = m + 2 ^ j then counts ! m else 0)"
      if x: "x < length counts" for x
    proof (cases "x = m + 2 ^ k")
      case True
      then show ?thesis using IH(1) b \<open>extends req m k\<close> by auto
    next
      case False
      then have "(\<exists>j < Suc k. extends req m j \<and> x = m + 2 ^ j) \<longleftrightarrow> (\<exists>j < k. extends req m j \<and> x = m + 2 ^ j)"
        by (auto simp: less_Suc_eq)
      then show ?thesis using IH(2) [OF x] False by simp
    qed
    then show ?thesis unfolding cons step using IH(1) by simp
  next
    case False
    then have "(\<exists>j < Suc k. extends req m j \<and> x = m + 2 ^ j) \<longleftrightarrow> (\<exists>j < k. extends req m j \<and> x = m + 2 ^ j)" for x
      by (auto simp: less_Suc_eq)
    moreover have "push_count req m ?c k = ?c" using False push_count_eq [of req m ?c k] by simp
    ultimately show ?thesis unfolding cons using IH by simp
  qed
qed simp

definition share :: "int list \<Rightarrow> nat \<Rightarrow> nat \<Rightarrow> nat \<Rightarrow> nat" where
  "share req n x y = (if \<exists>j < n. extends req y j \<and> x = y + 2 ^ j
     then card (extensions (mask_preds req) (bits y)) else 0)"

definition counted :: "nat \<Rightarrow> int list \<Rightarrow> nat \<Rightarrow> nat list \<Rightarrow> bool" where
  "counted n req k counts \<longleftrightarrow> length counts = 2 ^ n
     \<and> (\<forall>x < 2 ^ n. counts ! x = (if x = 0 then 1 else 0) + (\<Sum>y < k. share req n x y))"

lemma share_sum:
  assumes "0 < m" "m < 2 ^ n"
  shows "(\<Sum>y < m. share req n m y) = card (extensions (mask_preds req) (bits m))"
proof -
  let ?R = "mask_preds req" and ?y = "\<lambda>j. unset_bit j m"
  have ybits: "bits (?y j) = bits m - {j}" for j by (auto simp: bits_def bit_unset_bit_iff)
  have m: "m = ?y j + 2 ^ j" if "j \<in> bits m" for j
  proof -
    have "bits (?y j OR push_bit j 1) = bits m" unfolding bits_add ybits using that by auto
    then have "?y j OR push_bit j 1 = m" by (rule bits_inj)
    then show ?thesis using add_bit [of j "?y j"] ybits by simp
  qed
  have less: "?y j < m" if "j \<in> bits m" for j
  proof -
    have "0 < (2 :: nat) ^ j" by simp
    with m [OF that] show ?thesis by linarith
  qed
  have fin: "finite (bits m)" "bits m \<noteq> {}" using assms bits_less [of m n] finite_subset bits_inj [of m 0] by auto
  have eq: "{y \<in> {..<m}. \<exists>j < n. extends req y j \<and> m = y + 2 ^ j} = ?y ` lasts ?R (bits m)"
  proof (intro equalityI subsetI)
    fix y assume "y \<in> {y \<in> {..<m}. \<exists>j < n. extends req y j \<and> m = y + 2 ^ j}"
    then obtain j where j: "extends req y j" "m = y + 2 ^ j" by auto
    have "m = y OR push_bit j 1" using j add_bit [of j y] by (simp add: extends_def)
    then have bm: "bits m = insert j (bits y)" using bits_add [of y j] by metis
    have "bits y = bits (?y j)" unfolding ybits bm using j(1) by (auto simp: extends_def)
    then have "y = ?y j" by (rule bits_inj)
    moreover have "j \<in> lasts ?R (bits m)" using j(1) bm by (auto simp: lasts_def extends_def)
    ultimately show "y \<in> ?y ` lasts ?R (bits m)" by blast
  next
    fix y assume "y \<in> ?y ` lasts ?R (bits m)"
    then obtain j where j: "j \<in> bits m" "?R j \<subseteq> bits m - {j}" "y = ?y j" by (auto simp: lasts_def)
    have "j < n" using j(1) assms(2) bits_less [of m n] by auto
    moreover have "extends req y j" using j ybits by (simp add: extends_def)
    ultimately show "y \<in> {y \<in> {..<m}. \<exists>j < n. extends req y j \<and> m = y + 2 ^ j}"
      using m [OF j(1)] less [OF j(1)] j(3) by blast
  qed
  have "(\<Sum>y < m. share req n m y) = (\<Sum>y \<in> ?y ` lasts ?R (bits m). card (extensions ?R (bits y)))"
    unfolding share_def eq [symmetric] by (rule sum.inter_filter [symmetric]) simp
  also have "\<dots> = (\<Sum>j \<in> lasts ?R (bits m). card (extensions ?R (bits (?y j))))"
  proof (rule sum.reindex_cong [OF _ refl refl])
    show "inj_on ?y (lasts ?R (bits m))"
    proof (rule inj_onI)
      fix i j assume "i \<in> lasts ?R (bits m)" "j \<in> lasts ?R (bits m)" "?y i = ?y j"
      then have "bits m - {i} = bits m - {j}" "i \<in> bits m" "j \<in> bits m" using ybits by (metis, auto simp: lasts_def)
      then show "i = j" by blast
    qed
  qed
  also have "\<dots> = card (extensions ?R (bits m))" unfolding ybits card_extensions [OF fin] ..
  finally show ?thesis .
qed

lemma counted_step:
  assumes c: "counted n req k counts" and k: "k < 2 ^ n"
  shows "counted n req (Suc k) (push_counts n req counts k)"
proof -
  have len: "length counts = 2 ^ n" and val: "\<And>x. x < 2 ^ n \<Longrightarrow>
      counts ! x = (if x = 0 then 1 else 0) + (\<Sum>y < k. share req n x y)"
    using c by (auto simp: counted_def)
  have ck: "counts ! k = card (extensions (mask_preds req) (bits k))"
    using val [OF k] share_sum [of k n req] k by (cases "k = 0") (simp_all add: extensions_empty)
  show ?thesis
  proof (cases "counts ! k = 0")
    case True
    then have "share req n x k = 0" for x using ck by (simp add: share_def)
    then show ?thesis using c True by (simp add: push_counts_def counted_def)
  next
    case False
    have "k + 2 ^ j < length counts" if "j < n" "extends req k j" for j
    proof -
      have "bits (k OR push_bit j 1) \<subseteq> {..<n}" unfolding bits_add using that(1) k bits_less [of k n] by auto
      then have "k OR push_bit j 1 < 2 ^ n" unfolding bits_less .
      then show ?thesis using add_bit [of j k] that(2) len by (simp add: extends_def)
    qed
    then have "\<forall>j < n. extends req k j \<longrightarrow> k + 2 ^ j < length counts" by blast
    from push_fold [OF _ this] k len have "length (push_counts n req counts k) = 2 ^ n"
      "\<And>x. x < 2 ^ n \<Longrightarrow> push_counts n req counts k ! x = counts ! x + share req n x k"
      unfolding push_counts_def share_def ck [symmetric] using False by auto
    then show ?thesis using val by (simp add: counted_def)
  qed
qed

lemma count_orders_correct: "count_orders n req = card (extensions (mask_preds req) {..<n})"
proof -
  let ?c0 = "(replicate (2 ^ n) 0)[0 := 1] :: nat list"
  have loop: "k \<le> 2 ^ n \<Longrightarrow> counted n req k (foldl (push_counts n req) ?c0 [0..<k])" for k
  proof (induction k)
    case 0
    then show ?case by (simp add: counted_def nth_list_update)
  next
    case (Suc k)
    then show ?case using counted_step [of n req k] by simp
  qed
  let ?m = "2 ^ n - 1 :: nat"
  have mn: "?m < 2 ^ n" by simp
  let ?c = "foldl (push_counts n req) ?c0 [0..<2 ^ n]"
  have val: "?c ! ?m = (if ?m = 0 then 1 else 0) + (\<Sum>y < 2 ^ n. share req n ?m y)"
    using loop [of "2 ^ n"] mn by (simp add: counted_def)
  have "share req n x x = 0" for x by (simp add: share_def)
  then have "share req n ?m ?m = 0" .
  moreover have "(\<Sum>y < 2 ^ n. share req n ?m y) = (\<Sum>y < Suc ?m. share req n ?m y)" by simp
  ultimately have "(\<Sum>y < 2 ^ n. share req n ?m y) = (\<Sum>y < ?m. share req n ?m y)"
    unfolding sum.lessThan_Suc by (simp only: add_0_right)
  then have "?c ! ?m = (if ?m = 0 then 1 else 0) + (\<Sum>y < ?m. share req n ?m y)" using val by simp
  then show ?thesis using share_sum [of ?m n req] mn bits_all [of n]
    by (cases "?m = 0") (simp_all add: count_orders_def extensions_empty)
qed

lemma required_masks_Inr:
  assumes ok: "order_edges_ok cl n"
  obtains req where "required_masks n cl = Inr req" "\<And>j. j < n \<Longrightarrow> mask_preds req j = {b. before cl b j}"
proof -
  let ?f = "\<lambda>req e. bindE (py_index n (dst e)) (\<lambda>d.
     if src e < 0 then Inl ValueError else Inr (req[d := req ! d OR push_bit (nat (src e)) 1]))"
  have "\<exists>req. foldE ?f req0 cl = Inr req \<and> (\<forall>j < n. mask_preds req j = mask_preds req0 j \<union> {b. before cl b j})"
    if "length req0 = n" for req0 :: "int list"
    using ok that
  proof (induction cl arbitrary: req0)
    case Nil
    then show ?case by (simp add: before_def erel_def)
  next
    case (Cons e cl)
    have r: "in_range (src e) n" "in_range (dst e) n" using Cons.prems(1) by (simp_all add: order_edges_ok_def)
    let ?d = "nat (dst e)" and ?req1 = "req0[nat (dst e) := req0 ! nat (dst e) OR push_bit (nat (src e)) 1]"
    have d: "?d < n" using in_range_nat [OF r(2)] .
    have step: "?f req0 e = Inr ?req1" using r by (simp add: in_range_def py_index_def)
    obtain req where req: "foldE ?f ?req1 cl = Inr req"
      "\<forall>j < n. mask_preds req j = mask_preds ?req1 j \<union> {b. before cl b j}"
      using Cons.IH [of ?req1] Cons.prems by (auto simp: order_edges_ok_def)
    have "mask_preds ?req1 j = mask_preds req0 j \<union> {b. (int b, int j) = ends e}" if "j < n" for j
    proof (cases "j = ?d")
      case True
      have "bit (req0 ! ?d OR push_bit (nat (src e)) 1) b \<longleftrightarrow> bit (req0 ! ?d) b \<or> b = nat (src e)" for b
        by (auto simp: bit_or_iff bit_exp_iff)
      moreover have "int b = src e \<longleftrightarrow> b = nat (src e)" for b using r(1) by (auto simp: in_range_def)
      moreover have "int j = dst e" using True r(2) by (simp add: in_range_def)
      ultimately show ?thesis using True d Cons.prems(2) by (auto simp: mask_preds_def)
    next
      case False
      then have "int j \<noteq> dst e" by auto
      then show ?thesis using False by (auto simp: mask_preds_def)
    qed
    then have "\<forall>j < n. mask_preds req j = mask_preds req0 j \<union> {b. before (e # cl) b j}"
      using req(2) by (auto simp: before_def erel_def)
    then show ?case using req(1) step by auto
  qed
  from this [of "replicate n 0"] obtain req where "required_masks n cl = Inr req"
    "\<forall>j < n. mask_preds req j = mask_preds (replicate n 0) j \<union> {b. before cl b j}"
    unfolding required_masks_def by auto
  then show ?thesis using that [of req] by (simp add: mask_preds_def)
qed

lemma respecting_linear:
  assumes "distinct xs" "set xs = {..<n}" "irrefl (erel cl)" "order_edges_ok cl n"
    and R: "\<And>j. j < n \<Longrightarrow> R j = {b. before cl b j}"
  shows "respecting R xs \<longleftrightarrow> sorted_wrt (\<lambda>x y. \<not> before cl y x) xs"
proof -
  have len: "length xs = n" using assms(1,2) distinct_card [of xs] by simp
  have Rk: "R (xs ! k) = {b. before cl b (xs ! k)}" if "k < n" for k
    using R [of "xs ! k"] assms(2) len that nth_mem by blast
  show ?thesis unfolding respecting_def sorted_wrt_iff_nth_less len
  proof (intro iffI allI impI)
    fix i j assume a: "\<forall>k < n. R (xs ! k) \<subseteq> set (take k xs)" and ij: "i < j" "j < n"
    show "\<not> before cl (xs ! j) (xs ! i)"
    proof
      assume "before cl (xs ! j) (xs ! i)"
      then have "xs ! j \<in> R (xs ! i)" using Rk [of i] ij by simp
      moreover have "R (xs ! i) \<subseteq> set (take i xs)" using a ij by simp
      ultimately have "xs ! j \<in> set (take i xs)" by blast
      then obtain k where "k < i" "xs ! k = xs ! j" using ij len by (auto simp: in_set_conv_nth)
      then show False using assms(1) ij len by (simp add: nth_eq_iff_index_eq)
    qed
  next
    fix k assume a: "\<forall>i j. i < j \<longrightarrow> j < n \<longrightarrow> \<not> before cl (xs ! j) (xs ! i)" and k: "k < n"
    show "R (xs ! k) \<subseteq> set (take k xs)"
    proof
      fix b assume "b \<in> R (xs ! k)"
      then have b: "before cl b (xs ! k)" using Rk [OF k] by simp
      then have "b \<in> set xs" using erel_range [OF assms(4), of "int b"] assms(2) by (fastforce simp: before_def in_range_def)
      then obtain i where i: "i < n" "xs ! i = b" using len by (auto simp: in_set_conv_nth)
      have "i \<noteq> k" using b i(2) before_irrefl [OF assms(3)] by auto
      moreover have "\<not> k < i" using a i b by auto
      ultimately show "b \<in> set (take k xs)" using i k len by (auto simp: in_set_conv_nth intro!: exI [of _ i])
    qed
  qed
qed

text \<open>
  C29.  The subset dynamic program counts exactly: for a partial order within the limit whose
  children are leaves, the result is the number of linear extensions of its precedence.
\<close>

theorem count_linearizations_exact:
  assumes "wf_node (PartialOrder cs es f cl d)" "int (length cs) \<le> limit" "\<forall>c \<in> set cs. \<not> is_composite c"
  shows "count_linearizations (PartialOrder cs es f cl d) limit
    = Inr (Some (card {xs. distinct xs \<and> set xs = {..<length cs} \<and> sorted_wrt (\<lambda>x y. \<not> before cl y x) xs}))"
proof -
  note D = wf_partial_orderD [OF assms(1)]
  obtain req where req: "required_masks (length cs) cl = Inr req"
    "\<And>j. j < length cs \<Longrightarrow> mask_preds req j = {b. before cl b j}"
    using required_masks_Inr [OF D(3)] by blast
  have "extensions (mask_preds req) {..<length cs}
      = {xs. distinct xs \<and> set xs = {..<length cs} \<and> sorted_wrt (\<lambda>x y. \<not> before cl y x) xs}"
    unfolding extensions_def using respecting_linear [OF _ _ D(6,3) req(2)] by blast
  then show ?thesis using assms(2,3) req(1) by (simp add: count_orders_correct)
qed

theorem count_linearizations_exact_witness:
  "count_linearizations (pair_of ''a'' ''b'') 10
    = Inr (Some (card {xs. distinct xs \<and> set xs = {..<2} \<and> sorted_wrt (\<lambda>x y. \<not> before [OrderEdge 0 1] y x) xs}))"
  using count_linearizations_exact [OF pair_of_wf [unfolded pair_of_def], where limit = 10]
  by (simp add: pair_of_def is_composite_def numeral_2_eq_2)

section \<open>Frequencies are ignored\<close>

definition first_choice :: "unit \<Rightarrow> nat \<Rightarrow> nat \<times> unit" where
  "first_choice g n = (0, g)"

lemma first_choice_fair: "fair first_choice"
  by (simp add: fair_def first_choice_def)

lemmas sample_eval = sample_linearizations_def rng_for_seed_def random_topological_order_def index_pairs_def py_index_def
  sorted_edges_def edge_key_def guard_key_or_empty_def drop_pred_def first_choice_def Let_def upt_rec

lemma pair_sample:
  "one_linearization first_choice (PartialOrder [plain l, plain m] [OrderEdge 0 1] f [OrderEdge 0 1] 2) () = Inr ([l, m], ())"
  by (simp add: sample_eval random_kahn.simps numeral_2_eq_2)

theorem samples_in_language_witness: "[''a'', ''b''] \<in> den None (pair_of ''a'' ''b'')"
proof (rule samples_in_language [OF first_choice_fair pair_of_wf])
  show "all_once (pair_of ''a'' ''b'')" by (simp add: pair_of_def)
  show "Inr [''a'', ''b''] \<in> set (sample_linearizations first_choice (\<lambda>_. 0) (\<lambda>_. ()) (pair_of ''a'' ''b'') 1 ''seed'')"
    by (simp add: sample_linearizations_def pair_of_def pair_sample del: one_linearization.simps)
qed

definition never :: pnode where
  "never = PartialOrder [plain ''a'', plain ''b''] [OrderEdge 0 1] \<lparr>fmin = 0, fmax = Some 0\<rparr> [OrderEdge 0 1] 2"

lemma never_wf: "wf_node never"
proof -
  have "mk_partial_order [plain ''a'', plain ''b''] [OrderEdge 0 1] \<lparr>fmin = 0, fmax = Some 0\<rparr> = Inr never"
    unfolding never_def by (rule mk_sequence) (simp add: composite_depth_def node_depth_def MAX_POWL_DEPTH_def)
  then show ?thesis by (simp add: never_def wf_frequency_def)
qed

text \<open>
  Sampling does not look at frequencies: for a composite whose frequency allows no
  repetition at all, whose language is the empty trace alone, it yields the trace of one round.
\<close>

theorem sampling_ignores_frequency:
  "wf_node never \<and> den None never = {[]}
   \<and> sample_linearizations first_choice digest seeded never 1 seed = [Inr [''a'', ''b'']]"
proof -
  have "{n. allows \<lparr>fmin = 0, fmax = Some 0\<rparr> (int n) \<and> (fmax \<lparr>fmin = 0, fmax = Some 0\<rparr> = None \<longrightarrow> within None n)} = {0}"
    by (auto simp: allows_def)
  then have "den None never = {[]}" by (simp add: never_def bounded_powers_def)
  moreover have "sample_linearizations first_choice digest seeded never 1 seed = [Inr [''a'', ''b'']]"
    by (simp add: sample_linearizations_def never_def pair_sample del: one_linearization.simps)
  ultimately show ?thesis using never_wf by blast
qed

end
