(* ===== verification/Powl_Guard_Executor.thy ===== *)
theory Powl_Guard_Executor
  imports Powl_Witness Powl_Executor
begin

text \<open>
  \<^verbatim>\<open>powl/guard_executor.py\<close>: walking a model once, with the caller's guards, actions and
  repetition decisions, with a budget of choice transitions and with checkpoints.  The serial
  mode (\<^verbatim>\<open>max_workers\<close> at most 1) is modelled.

  The callbacks are parameters over a world \<open>'w\<close> that they read and change, an
  \<^verbatim>\<open>ExecutionContext\<close> included; \<open>None\<close> is an exception.  \<^verbatim>\<open>on_step\<close> is the list of the
  checkpoints it is called with.  A walk returns the new state and how it ended, so what a
  raised error carries as its partial trace is read off the state.
\<close>

section \<open>State\<close>

record 'r execution_step =
  es_kind :: string
  es_label :: "string option"
  es_consequence :: "consequence option"
  es_result :: "'r option"
  es_repetition :: nat
  es_failed :: bool

record 'r execution_trace =
  et_steps :: "'r execution_step list"
  et_transitions :: int

text \<open>Where the walk of the top-level node has reached.\<close>

datatype cursor_mark = Leaf_mark | Choice_mark int | Order_mark "int list"

record 'r execution_checkpoint =
  ck_steps :: "'r execution_step list"
  ck_transitions :: int
  ck_cursor :: cursor_mark
  ck_node_key :: string

text \<open>
  \<open>sink_steps\<close> and \<open>reported\<close> are the two sides of a \<^verbatim>\<open>_StepSink\<close>, \<open>taken\<close> the transition counter
  and \<open>top_cursor\<close> what \<^verbatim>\<open>top_cursor_holder\<close> holds.
\<close>

record ('w, 'r) walk_state =
  world :: 'w
  sink_steps :: "'r execution_step list"
  taken :: int
  top_cursor :: cursor_mark
  reported :: "'r execution_checkpoint list"

record ('w, 'r) callbacks =
  guard_evaluator :: "string \<Rightarrow> json \<Rightarrow> 'w \<Rightarrow> bool option \<times> 'w"
  atom_invoker :: "pnode \<Rightarrow> 'w \<Rightarrow> 'r option \<times> 'w"
  repeat_evaluator :: "(nat \<Rightarrow> 'w \<Rightarrow> bool option \<times> 'w) option"

datatype ended = Returned | Refused refusal | Raised exn | Callback_Raised | Out_of_fuel

type_synonym 's run = "'s \<times> ended"

text \<open>Sequencing: the second part runs when the first one returned.\<close>

definition and_then :: "'s run \<Rightarrow> ('s \<Rightarrow> 's run) \<Rightarrow> 's run" where
  "and_then r k = (case r of (s, e) \<Rightarrow> if e = Returned then k s else (s, e))"

lemma and_then_simps [simp]:
  "and_then (s, Returned) k = k s"
  "e \<noteq> Returned \<Longrightarrow> and_then (s, e) k = (s, e)"
  by (simp_all add: and_then_def)

lemma and_then_cong [fundef_cong]:
  "r = r' \<Longrightarrow> (\<And>s. r' = (s, Returned) \<Longrightarrow> k s = k' s) \<Longrightarrow> and_then r k = and_then r' k'"
  by (cases r') (auto simp: and_then_def)

fun run_all :: "('s \<Rightarrow> 's run) list \<Rightarrow> 's \<Rightarrow> 's run" where
  "run_all [] s = (s, Returned)"
| "run_all (f # fs) s = and_then (f s) (run_all fs)"

section \<open>Fingerprints\<close>

text \<open>
  The edges of a choice graph are sorted as lists \<^verbatim>\<open>[src, dst, key]\<close> whose last entry is \<^verbatim>\<open>None\<close>
  for an unguarded edge.  Two entries that differ there only, one of them \<^verbatim>\<open>None\<close>, cannot be
  compared, and a sort of a list with such a pair raises a \<^verbatim>\<open>TypeError\<close>.
\<close>

definition incomparable :: "edge list \<Rightarrow> bool" where
  "incomparable es \<longleftrightarrow> (\<exists>e \<in> set es. \<exists>e' \<in> set es. ends e = ends e' \<and> guard_of e = None \<and> guard_of e' \<noteq> None)"

definition edge_json :: "edge \<Rightarrow> json" where
  "edge_json e = JList [JInt (src e), JInt (dst e),
     (case guard_of e of None \<Rightarrow> JNull | Some g \<Rightarrow> JStr (guard_key g))]"

definition frequency_json :: "frequency \<Rightarrow> json" where
  "frequency_json f = JList [JInt (fmin f), json_int_option (fmax f)]"

fun node_fingerprint :: "pnode \<Rightarrow> json res" where
  "node_fingerprint Start = Inr (JObj [(''kind'', JStr ''Start'')])"
| "node_fingerprint End = Inr (JObj [(''kind'', JStr ''End'')])"
| "node_fingerprint Silent = Inr (JObj [(''kind'', JStr ''Silent'')])"
| "node_fingerprint (Atom l a b c) =
     Inr (JObj [(''kind'', JStr ''Atom''), (''key'', JStr (atom_key (Atom l a b c)))])"
| "node_fingerprint (PartialOrder cs es f cl d) =
     bindE (mapE node_fingerprint cs) (\<lambda>kids. Inr (JObj
       [(''kind'', JStr ''PartialOrder''), (''children'', JList kids),
        (''order'', JList (map (\<lambda>(s, t). JList [JInt s, JInt t]) (sort (map ends es)))),
        (''frequency'', frequency_json f)]))"
| "node_fingerprint (ChoiceGraph cs es st en f d) =
     bindE (mapE node_fingerprint cs) (\<lambda>kids.
       if incomparable es then Inl TypeError
       else Inr (JObj
         [(''kind'', JStr ''ChoiceGraph''), (''children'', JList kids),
          (''edges'', JList (map edge_json (sorted_edges es))), (''start'', JInt st), (''end'', JInt en),
          (''frequency'', frequency_json f)]))"
| "node_fingerprint (Foreign nm) = refuse PROHIBITED_NODE_KIND"

definition node_key :: "pnode \<Rightarrow> string res" where
  "node_key v = bindE (node_fingerprint v) (\<lambda>j. Inr (canonical_json j))"

section \<open>Recording\<close>

definition sink_append :: "string \<Rightarrow> 'r execution_step \<Rightarrow> ('w, 'r) walk_state \<Rightarrow> ('w, 'r) walk_state" where
  "sink_append key st s =
     (let all = sink_steps s @ [st]
      in s\<lparr>sink_steps := all,
           reported := reported s @ [\<lparr>ck_steps = all, ck_transitions = taken s,
             ck_cursor = top_cursor s, ck_node_key = key\<rparr>]\<rparr>)"

definition snapshot :: "('w, 'r) walk_state \<Rightarrow> 'r execution_trace" where
  "snapshot s = \<lparr>et_steps = sink_steps s, et_transitions = taken s\<rparr>"

definition plain_step :: "string \<Rightarrow> nat \<Rightarrow> 'r execution_step" where
  "plain_step k rep = \<lparr>es_kind = k, es_label = None, es_consequence = None, es_result = None,
     es_repetition = rep, es_failed = False\<rparr>"

definition invoke_atom :: "('w, 'r) callbacks \<Rightarrow> string \<Rightarrow> pnode \<Rightarrow> nat \<Rightarrow> ('w, 'r) walk_state
    \<Rightarrow> ('w, 'r) walk_state run" where
  "invoke_atom cb key a rep s =
     (let (outcome, w) = atom_invoker cb a (world s);
          st = \<lparr>es_kind = ''Atom'', es_label = Some (label a), es_consequence = Some (consequence a),
                es_result = outcome, es_repetition = rep, es_failed = outcome = None\<rparr>
      in (sink_append key st (s\<lparr>world := w\<rparr>),
          if outcome = None then Refused ATOM_INVOCATION_FAILED else Returned))"

section \<open>Repetition\<close>

definition should_run_repetition :: "('w, 'r) callbacks \<Rightarrow> frequency \<Rightarrow> nat \<Rightarrow> 'w \<Rightarrow> bool option \<times> 'w" where
  "should_run_repetition cb f finished w =
     (if int finished < fmin f then (Some True, w)
      else if (case fmax f of None \<Rightarrow> False | Some h \<Rightarrow> int finished \<ge> h) then (Some False, w)
      else case repeat_evaluator cb of
          None \<Rightarrow> (Some (finished = 0), w)
        | Some decide \<Rightarrow> decide finished w)"

text \<open>
  The \<^verbatim>\<open>while\<close> loop of both composites.  An evaluator may ask for ever another repetition, so
  the loop has fuel; running out of it is an end of its own.
\<close>

fun repetitions :: "('w, 'r) callbacks \<Rightarrow> nat \<Rightarrow> frequency \<Rightarrow> (nat \<Rightarrow> ('w, 'r) walk_state \<Rightarrow> ('w, 'r) walk_state run)
    \<Rightarrow> nat \<Rightarrow> ('w, 'r) walk_state \<Rightarrow> ('w, 'r) walk_state run" where
  "repetitions cb 0 f body k s = (s, Out_of_fuel)"
| "repetitions cb (Suc n) f body k s =
     (case should_run_repetition cb f k (world s) of
        (None, w) \<Rightarrow> (s\<lparr>world := w\<rparr>, Callback_Raised)
      | (Some False, w) \<Rightarrow> (s\<lparr>world := w\<rparr>, Returned)
      | (Some True, w) \<Rightarrow> and_then (body k (s\<lparr>world := w\<rparr>)) (repetitions cb n f body (Suc k)))"

section \<open>Partial orders\<close>

text \<open>
  \<open>adjacency_pairs\<close> are the entries of \<^verbatim>\<open>adjacency\<close>, a dictionary over the positions, in the
  order in which they are appended; \<open>successors_of\<close> reads one of its lists.
\<close>

definition adjacency_pairs :: "nat \<Rightarrow> edge list \<Rightarrow> (nat \<times> nat) list res" where
  "adjacency_pairs n es = mapE (\<lambda>e. if \<not> in_range (src e) n then Inl KeyError
     else bindE (py_index n (dst e)) (\<lambda>d. Inr (nat (src e), d))) es"

definition successors_of :: "(nat \<times> nat) list \<Rightarrow> nat \<Rightarrow> nat list" where
  "successors_of ps i = map snd (filter (\<lambda>p. fst p = i) ps)"

definition lower :: "nat list \<Rightarrow> int list \<times> nat list \<Rightarrow> nat \<Rightarrow> int list \<times> nat list" where
  "lower finished = (\<lambda>(indegree, ready) j.
     let indegree' = indegree[j := indegree ! j - 1]
     in (indegree', if indegree' ! j = 0 \<and> j \<notin> set finished then ready @ [j] else ready))"

text \<open>\<open>settle\<close> is the body of the loop over a level that has run.\<close>

definition settle :: "(nat \<times> nat) list \<Rightarrow> int list \<times> nat list \<times> nat list \<Rightarrow> nat \<Rightarrow> int list \<times> nat list \<times> nat list" where
  "settle ps = (\<lambda>(indegree, finished, ready) i.
     let finished' = add_elem i finished;
         (indegree', ready') = foldl (lower finished') (indegree, ready) (successors_of ps i)
     in (indegree', finished', ready'))"

definition point :: "bool \<Rightarrow> cursor_mark \<Rightarrow> ('w, 'r) walk_state \<Rightarrow> ('w, 'r) walk_state" where
  "point is_top c s = (if is_top then s\<lparr>top_cursor := c\<rparr> else s)"

lemma settle_finished: "fst (snd (settle ps (d, c, r) i)) = add_elem i c"
  by (simp add: settle_def Let_def split: prod.split)

lemma settle_length:
  "length c \<le> length (fst (snd (foldl (settle ps) (d, c, r) is)))
   \<and> (is \<noteq> [] \<longrightarrow> hd is \<notin> set c \<longrightarrow> length c < length (fst (snd (foldl (settle ps) (d, c, r) is))))"
proof (induction "is" arbitrary: d c r)
  case (Cons i "is")
  obtain d' c' r' where s: "settle ps (d, c, r) i = (d', c', r')" by (metis prod_cases3)
  then have "c' = add_elem i c" using settle_finished [of ps d c r i] by simp
  then show ?case using Cons [of c' d' r'] s by (auto simp: add_elem_def split: if_splits)
qed simp

text \<open>
  \<open>levels\<close> is the loop: the positions that are ready and not finished run in ascending order.
  Every round finishes one, so the loop ends.
\<close>

function levels :: "(nat \<Rightarrow> ('w, 'r) walk_state \<Rightarrow> ('w, 'r) walk_state run) list \<Rightarrow> (nat \<times> nat) list \<Rightarrow> bool \<Rightarrow> nat
    \<Rightarrow> int list \<Rightarrow> nat list \<Rightarrow> nat list \<Rightarrow> ('w, 'r) walk_state \<Rightarrow> ('w, 'r) walk_state run" where
  "levels walkers ps is_top rep indegree finished ready s =
     (let level = sort (filter (\<lambda>i. i \<notin> set finished) ready)
      in if length finished \<ge> length walkers \<or> level = []
         then (point is_top (Order_mark (map int finished)) s, Returned)
         else and_then
           (run_all (map (\<lambda>i. (walkers ! i) rep) level) (point is_top (Order_mark (map int finished)) s))
           (\<lambda>s'. case foldl (settle ps) (indegree, finished, ready) level of
              (indegree', finished', ready') \<Rightarrow> levels walkers ps is_top rep indegree' finished' ready' s'))"
  by pat_completeness auto
termination
proof (relation "measure (\<lambda>(walkers, ps, is_top, rep, indegree, finished, ready, s). length walkers - length finished)",
    goal_cases)
  case (2 walkers ps is_top rep indegree finished ready s level s' indegree' b finished' ready')
  have "level \<noteq> []" "set level \<inter> set finished = {}" using 2(1,2) by auto
  then have "hd level \<notin> set finished" by (cases level) auto
  moreover have "finished' = fst (snd (foldl (settle ps) (indegree, finished, ready) level))"
    unfolding 2(4) [symmetric] 2(5) [symmetric] by simp
  ultimately show ?case using 2(2) settle_length [of finished ps indegree ready level] by (auto intro!: diff_less_mono2)
qed simp

declare levels.simps [simp del]

definition partial_order_once :: "(nat \<Rightarrow> ('w, 'r) walk_state \<Rightarrow> ('w, 'r) walk_state run) list \<Rightarrow> edge list \<Rightarrow> bool \<Rightarrow> int list
    \<Rightarrow> nat \<Rightarrow> ('w, 'r) walk_state \<Rightarrow> ('w, 'r) walk_state run" where
  "partial_order_once walkers es is_top skip rep s =
     (let n = length walkers in
      case adjacency_pairs n es of
        Inl e \<Rightarrow> (s, Raised e)
      | Inr ps \<Rightarrow>
          if \<exists>i \<in> set skip. \<not> in_range i n then (s, Raised KeyError)
          else let finished = map nat skip;
                   indegree = map (\<lambda>i. int (length (filter (\<lambda>p. snd p = i) ps))) [0..<n];
                   indegree' = foldl (\<lambda>d i. foldl (\<lambda>d j. d[j := d ! j - 1]) d (successors_of ps i)) indegree finished;
                   ready = filter (\<lambda>i. (indegree ! i = 0 \<or> indegree' ! i = 0) \<and> i \<notin> set finished) [0..<n]
               in levels walkers ps is_top rep indegree' finished ready s)"

definition partial_order_with_frequency :: "('w, 'r) callbacks \<Rightarrow> nat \<Rightarrow> (nat \<Rightarrow> ('w, 'r) walk_state \<Rightarrow> ('w, 'r) walk_state run) list
    \<Rightarrow> edge list \<Rightarrow> frequency \<Rightarrow> bool \<Rightarrow> cursor_mark option \<Rightarrow> ('w, 'r) walk_state \<Rightarrow> ('w, 'r) walk_state run" where
  "partial_order_with_frequency cb fuel walkers es f is_top resume s =
     (let already = (if is_top then (case resume of Some (Order_mark is) \<Rightarrow> remdups is | _ \<Rightarrow> []) else [])
      in repetitions cb fuel f
           (\<lambda>k. partial_order_once walkers es is_top (if k = 0 then already else []) k) 0 s)"

section \<open>Choice graphs\<close>

text \<open>
  \<open>choose_edge\<close> is the loop over the sorted outgoing edges: the first one whose guard holds,
  else the last unguarded one.  \<open>None\<close> is an exception of the evaluator.
\<close>

fun choose_edge :: "(string \<Rightarrow> json \<Rightarrow> 'w \<Rightarrow> bool option \<times> 'w) \<Rightarrow> edge option \<Rightarrow> edge list \<Rightarrow> 'w \<Rightarrow> edge option option \<times> 'w" where
  "choose_edge holds else_edge [] w = (Some else_edge, w)"
| "choose_edge holds else_edge (e # es) w = (case guard_of e of
     None \<Rightarrow> choose_edge holds (Some e) es w
   | Some g \<Rightarrow> (case holds (predicate_name g) (predicate_args g) w of
         (None, w') \<Rightarrow> (None, w')
       | (Some True, w') \<Rightarrow> (Some (Some e), w')
       | (Some False, w') \<Rightarrow> choose_edge holds else_edge es w'))"

definition walk_child :: "(nat \<Rightarrow> ('w, 'r) walk_state \<Rightarrow> ('w, 'r) walk_state run) list \<Rightarrow> int \<Rightarrow> nat
    \<Rightarrow> ('w, 'r) walk_state \<Rightarrow> ('w, 'r) walk_state run" where
  "walk_child walkers i rep s = (case child_at walkers i of Inl e \<Rightarrow> (s, Raised e) | Inr w \<Rightarrow> w rep s)"

text \<open>
  \<open>transitions\<close> is the loop along the graph.  Its counter starts at one more than the
  transitions left, and each round spends one of them, so the counter is never used up.
\<close>

fun transitions :: "('w, 'r) callbacks \<Rightarrow> int \<Rightarrow> (nat \<Rightarrow> ('w, 'r) walk_state \<Rightarrow> ('w, 'r) walk_state run) list \<Rightarrow> edge list
    \<Rightarrow> int \<Rightarrow> bool \<Rightarrow> nat \<Rightarrow> nat \<Rightarrow> int \<Rightarrow> ('w, 'r) walk_state \<Rightarrow> ('w, 'r) walk_state run" where
  "transitions cb most walkers es en is_top rep 0 cur s = (s, Out_of_fuel)"
| "transitions cb most walkers es en is_top rep (Suc n) cur s =
     (if cur = en then (s, Returned)
      else if taken s \<ge> most then (s, Refused TRANSITION_BUDGET_EXHAUSTED)
      else case choose_edge (guard_evaluator cb) None (sorted_edges (filter (\<lambda>e. src e = cur) es)) (world s) of
          (None, w) \<Rightarrow> (s\<lparr>world := w\<rparr>, Callback_Raised)
        | (Some None, w) \<Rightarrow> (s\<lparr>world := w\<rparr>, Refused NO_GUARD_MATCHED)
        | (Some (Some e), w) \<Rightarrow> and_then
            (walk_child walkers (dst e) rep (point is_top (Choice_mark (dst e)) (s\<lparr>world := w, taken := taken s + 1\<rparr>)))
            (transitions cb most walkers es en is_top rep n (dst e)))"

definition choice_graph_once :: "('w, 'r) callbacks \<Rightarrow> int \<Rightarrow> (nat \<Rightarrow> ('w, 'r) walk_state \<Rightarrow> ('w, 'r) walk_state run) list
    \<Rightarrow> edge list \<Rightarrow> int \<Rightarrow> int \<Rightarrow> bool \<Rightarrow> int option \<Rightarrow> nat \<Rightarrow> ('w, 'r) walk_state \<Rightarrow> ('w, 'r) walk_state run" where
  "choice_graph_once cb most walkers es st en is_top resume rep s =
     (let cur = (case resume of None \<Rightarrow> st | Some c \<Rightarrow> c)
      in and_then (if resume = None then walk_child walkers cur rep s else (s, Returned))
           (\<lambda>s'. transitions cb most walkers es en is_top rep (Suc (nat (most - taken s'))) cur
              (point is_top (Choice_mark cur) s')))"

definition choice_graph_with_frequency :: "('w, 'r) callbacks \<Rightarrow> int \<Rightarrow> nat \<Rightarrow> (nat \<Rightarrow> ('w, 'r) walk_state \<Rightarrow> ('w, 'r) walk_state run) list
    \<Rightarrow> edge list \<Rightarrow> int \<Rightarrow> int \<Rightarrow> frequency \<Rightarrow> bool \<Rightarrow> cursor_mark option \<Rightarrow> ('w, 'r) walk_state \<Rightarrow> ('w, 'r) walk_state run" where
  "choice_graph_with_frequency cb most fuel walkers es st en f is_top resume s =
     (let current = (if is_top then (case resume of Some (Choice_mark c) \<Rightarrow> Some c | _ \<Rightarrow> None) else None)
      in repetitions cb fuel f
           (\<lambda>k. choice_graph_once cb most walkers es st en is_top (if k = 0 then current else None) k) 0 s)"

section \<open>The walk\<close>

fun walk_node :: "('w, 'r) callbacks \<Rightarrow> int \<Rightarrow> nat \<Rightarrow> string \<Rightarrow> pnode \<Rightarrow> bool \<Rightarrow> cursor_mark option \<Rightarrow> nat
    \<Rightarrow> ('w, 'r) walk_state \<Rightarrow> ('w, 'r) walk_state run" where
  "walk_node cb most fuel key Start is_top resume rep s = (sink_append key (plain_step ''Start'' rep) s, Returned)"
| "walk_node cb most fuel key End is_top resume rep s = (sink_append key (plain_step ''End'' rep) s, Returned)"
| "walk_node cb most fuel key Silent is_top resume rep s = (sink_append key (plain_step ''Silent'' rep) s, Returned)"
| "walk_node cb most fuel key (Atom l a b c) is_top resume rep s = invoke_atom cb key (Atom l a b c) rep s"
| "walk_node cb most fuel key (PartialOrder cs es f cl d) is_top resume rep s =
     partial_order_with_frequency cb fuel
       (map (\<lambda>c rep s. walk_node cb most fuel key c False None rep s) cs) es f is_top resume s"
| "walk_node cb most fuel key (ChoiceGraph cs es st en f d) is_top resume rep s =
     choice_graph_with_frequency cb most fuel
       (map (\<lambda>c rep s. walk_node cb most fuel key c False None rep s) cs) es st en f is_top resume s"
| "walk_node cb most fuel key (Foreign nm) is_top resume rep s = (s, Refused PROHIBITED_NODE_KIND)"

fun raised_as :: "exn \<Rightarrow> ended" where
  "raised_as (PowlError r) = Refused r"
| "raised_as e = Raised e"

definition initial_state :: "'r execution_checkpoint option \<Rightarrow> 'w \<Rightarrow> ('w, 'r) walk_state" where
  "initial_state resume w = \<lparr>world = w,
     sink_steps = (case resume of None \<Rightarrow> [] | Some c \<Rightarrow> ck_steps c),
     taken = (case resume of None \<Rightarrow> 0 | Some c \<Rightarrow> ck_transitions c),
     top_cursor = Leaf_mark, reported = []\<rparr>"

definition execute :: "('w, 'r) callbacks \<Rightarrow> int \<Rightarrow> nat \<Rightarrow> pnode \<Rightarrow> 'r execution_checkpoint option \<Rightarrow> 'w
    \<Rightarrow> ('w, 'r) walk_state run" where
  "execute cb most fuel v resume w =
     (case bindE (validate_model v) (\<lambda>_. node_key v) of
        Inl e \<Rightarrow> (initial_state resume w, raised_as e)
      | Inr key \<Rightarrow>
          if (case resume of None \<Rightarrow> False | Some c \<Rightarrow> ck_node_key c \<noteq> key)
          then (initial_state resume w, Refused CHECKPOINT_NODE_MISMATCH)
          else walk_node cb most fuel key v True (map_option ck_cursor resume) 0 (initial_state resume w))"

end
