(* ===== verification/Powl_Guard_Facts.thy ===== *)
theory Powl_Guard_Facts
  imports Powl_Guard_Executor
begin

text \<open>
  Facts about the guard executor: the labels of a completed walk form a trace of the model's
  language, the transition budget, the checkpoints, how a walk can end, and what resuming does.
\<close>

section \<open>The tables of a partial order\<close>

lemma lower_simp:
  "lower c (d, r) j = (d[j := d ! j - 1], if d[j := d ! j - 1] ! j = 0 \<and> j \<notin> set c then r @ [j] else r)"
  by (simp add: lower_def Let_def)

lemma lower_ready: "set (snd (foldl (lower c) (d, r) js)) \<subseteq> set r \<union> set js"
proof (induction js arbitrary: d r)
  case (Cons j js)
  let ?r = "if d[j := d ! j - 1] ! j = 0 \<and> j \<notin> set c then r @ [j] else r"
  have "set ?r \<subseteq> set r \<union> {j}" by auto
  then show ?case using Cons.IH [of "d[j := d ! j - 1]" ?r] unfolding foldl.simps lower_simp set_simps by blast
qed simp

lemma settle_simp: "settle ps (d, c, r) i = (case foldl (lower (add_elem i c)) (d, r) (successors_of ps i) of
    (d', r') \<Rightarrow> (d', add_elem i c, r'))"
  by (simp add: settle_def Let_def)

lemma settle_ready: "set (snd (snd (foldl (settle ps) (d, c, r) is))) \<subseteq> set r \<union> snd ` set ps"
proof (induction "is" arbitrary: d c r)
  case (Cons i "is")
  obtain d' r' where e: "foldl (lower (add_elem i c)) (d, r) (successors_of ps i) = (d', r')" by fastforce
  have "set r' \<subseteq> set r \<union> snd ` set ps"
    using lower_ready [of "add_elem i c" d r "successors_of ps i"] e by (auto simp: successors_of_def)
  then show ?case using Cons [of d' "add_elem i c" r'] e by (auto simp: settle_simp)
qed simp

lemma adjacency_bound:
  assumes "adjacency_pairs n es = Inr ps" "p \<in> set ps"
  shows "snd p < n"
proof -
  from assms(2) obtain k where k: "k < length ps" "p = ps ! k" by (auto simp: in_set_conv_nth)
  from assms(1) have "list_all2 (\<lambda>e p. (if \<not> in_range (src e) n then Inl KeyError
     else bindE (py_index n (dst e)) (\<lambda>d. Inr (nat (src e), d))) = Inr p) es ps"
    by (simp add: adjacency_pairs_def mapE_Inr_iff)
  from list_all2_nthD2 [OF this k(1)] have "py_index n (dst (es ! k)) = Inr (snd (ps ! k))"
    by (cases "in_range (src (es ! k)) n"; cases "py_index n (dst (es ! k))") (auto dest!: arg_cong [of _ _ snd])
  then show ?thesis using k(2) by (auto simp: py_index_def split: if_splits)
qed

lemma adjacency_in_range:
  "order_edges_ok es n \<Longrightarrow> adjacency_pairs n es = Inr (map (\<lambda>e. (nat (src e), nat (dst e))) es)"
  unfolding adjacency_pairs_def by (rule mapE_total) (auto simp: order_edges_ok_def)

section \<open>Properties of every walk\<close>

text \<open>
  A property of walks relates the state before to the state after and the way the walk ended.
  It holds of every level-wise walk over children that have it when it is kept by sequencing,
  and of every walk when it holds of the moves a walk is made of.
\<close>

locale walk_order =
  fixes Q :: "('w, 'r) walk_state \<Rightarrow> ('w, 'r) walk_state run \<Rightarrow> bool"
  assumes stay: "Q s (s, Returned)"
    and chain: "Q s (s', Returned) \<Longrightarrow> Q s' r \<Longrightarrow> Q s r"
    and move_cursor: "Q s (s\<lparr>top_cursor := c\<rparr>, Returned)"
begin

lemma and_then: "Q s r \<Longrightarrow> (\<And>s'. Q s' (k s')) \<Longrightarrow> Q s (and_then r k)"
proof (cases r)
  case (Pair s' e)
  assume "Q s r" "\<And>s'. Q s' (k s')"
  then show ?thesis using Pair chain [of s s' "k s'"] by (cases "e = Returned") simp_all
qed

lemma run_all: "(\<And>f s. f \<in> set fs \<Longrightarrow> Q s (f s)) \<Longrightarrow> Q s (run_all fs s)"
proof (induction fs arbitrary: s)
  case (Cons f fs)
  then show ?case unfolding run_all.simps by (intro and_then) simp_all
qed (simp add: stay)

lemma point: "Q s (point is_top c s, Returned)"
  by (simp add: point_def stay move_cursor)

lemma levels: "(\<And>i s. i < length walkers \<Longrightarrow> Q s ((walkers ! i) rep s)) \<Longrightarrow> set ready \<subseteq> {..<length walkers} \<Longrightarrow>
   \<forall>p \<in> set ps. snd p < length walkers \<Longrightarrow> Q s (levels walkers ps is_top rep indegree finished ready s)"
proof (induction walkers ps is_top rep indegree finished ready s rule: levels.induct)
  case (1 walkers ps is_top rep indegree finished ready s)
  let ?level = "sort (filter (\<lambda>i. i \<notin> set finished) ready)"
  let ?s = "point is_top (Order_mark (map int finished)) s"
  show ?case
  proof (cases "length finished \<ge> length walkers \<or> ?level = []")
    case True
    then show ?thesis by (subst levels.simps) (auto simp: Let_def intro: point)
  next
    case False
    obtain d c r where step: "foldl (settle ps) (indegree, finished, ready) ?level = (d, c, r)" by (metis prod_cases3)
    from settle_ready [of ps indegree finished ready ?level] have r: "set r \<subseteq> {..<length walkers}"
      using step "1.prems"(2,3) by auto
    have "Q ?s (run_all (map (\<lambda>i. (walkers ! i) rep) ?level) ?s)"
      by (rule run_all) (use "1.prems"(1,2) in auto)
    then have "Q s (run_all (map (\<lambda>i. (walkers ! i) rep) ?level) ?s)" by (rule chain [OF point])
    then show ?thesis
    proof (cases "run_all (map (\<lambda>i. (walkers ! i) rep) ?level) ?s")
      case (Pair s' e)
      show ?thesis
      proof (cases "e = Returned")
        case True
        have "Q s' (levels walkers ps is_top rep d c r s')"
          by (rule "1.IH" [OF refl False _ step [symmetric] refl _ r "1.prems"(3)])
            (use Pair True "1.prems"(1) in simp_all)
        then show ?thesis using \<open>Q s (run_all _ _)\<close> Pair True False step chain
          by (subst levels.simps) (auto simp: Let_def)
      next
        case e: False
        then show ?thesis using \<open>Q s (run_all _ _)\<close> Pair False
          by (subst levels.simps) (auto simp: Let_def)
      qed
    qed
  qed
qed

lemma partial_order_ok:
  assumes "order_edges_ok es (length walkers)" "\<forall>i \<in> set skip. in_range i (length walkers)"
    and "\<And>i rep s. i < length walkers \<Longrightarrow> Q s ((walkers ! i) rep s)"
  shows "Q s (partial_order_once walkers es is_top skip rep s)"
  using assms unfolding partial_order_once_def Let_def adjacency_in_range [OF assms(1)]
  by (auto intro!: levels simp: order_edges_ok_def in_range_nat)

end

locale walk_property = walk_order Q for Q :: "('w, 'r) walk_state \<Rightarrow> ('w, 'r) walk_state run \<Rightarrow> bool" +
  fixes cb :: "('w, 'r) callbacks" and most :: int and key :: string
  assumes change_world: "Q s (s\<lparr>world := w\<rparr>, Returned)"
    and spend: "taken s < most \<Longrightarrow> Q s (s\<lparr>taken := taken s + 1\<rparr>, Returned)"
    and record_step: "k \<noteq> ''Atom'' \<Longrightarrow> Q s (sink_append key (plain_step k rep) s, Returned)"
    and run_atom: "Q s (invoke_atom cb key a rep s)"
    and stop: "e \<noteq> Returned \<Longrightarrow> e \<noteq> Refused ATOM_INVOCATION_FAILED \<Longrightarrow> Q s (s, e)"
begin

lemma stop_after: "Q s (s', Returned) \<Longrightarrow> e \<noteq> Refused ATOM_INVOCATION_FAILED \<Longrightarrow> Q s (s', e)"
  using chain [OF _ stop, of s s' e] by (cases "e = Returned") simp_all

lemma repetitions: "(\<And>k s. Q s (body k s)) \<Longrightarrow> Q s (repetitions cb n f body k s)"
proof (induction n arbitrary: k s)
  case 0
  then show ?case by (simp add: stop)
next
  case (Suc n)
  obtain go w where go: "should_run_repetition cb f k (world s) = (go, w)" by fastforce
  have "Q s (and_then (s\<lparr>world := w\<rparr>, Returned) (\<lambda>s. and_then (body k s) (repetitions cb n f body (Suc k))))"
    by (intro and_then change_world Suc)
  then show ?case using stop_after [OF change_world] change_world by (simp add: go split: option.split bool.split)
qed

lemma partial_order_once:
  "(\<And>i rep s. i < length walkers \<Longrightarrow> Q s ((walkers ! i) rep s)) \<Longrightarrow> Q s (partial_order_once walkers es is_top skip rep s)"
  unfolding partial_order_once_def Let_def
  by (auto simp: stop intro!: levels dest: adjacency_bound split: sum.split)

lemma walk_child: "(\<And>i rep s. i < length walkers \<Longrightarrow> Q s ((walkers ! i) rep s)) \<Longrightarrow> Q s (walk_child walkers i rep s)"
  by (auto simp: walk_child_def child_at_def py_get_def Let_def stop split: sum.split option.split)

lemma transitions:
  assumes w: "\<And>i rep s. i < length walkers \<Longrightarrow> Q s ((walkers ! i) rep s)"
  shows "Q s (transitions cb most walkers es en is_top rep n cur s)"
proof (induction n arbitrary: cur s)
  case (Suc n)
  obtain pick w where pick: "choose_edge (guard_evaluator cb) None (sorted_edges (filter (\<lambda>e. src e = cur) es)) (world s) = (pick, w)"
    by fastforce
  have go: "Q s (and_then (walk_child walkers i rep (point is_top c (s\<lparr>world := w, taken := taken s + 1\<rparr>)))
      (transitions cb most walkers es en is_top rep n i))" if "taken s < most" for i c
  proof (rule and_then [OF _ Suc])
    let ?s = "s\<lparr>world := w, taken := taken s + 1\<rparr>"
    have "Q s (?s, Returned)"
      using chain [OF change_world [of s w]] spend [of "s\<lparr>world := w\<rparr>"] that by simp
    then have "Q s (point is_top c ?s, Returned)" by (rule chain) (rule point)
    then show "Q s (walk_child walkers i rep (point is_top c ?s))" by (rule chain) (rule walk_child [OF w])
  qed
  show ?case using go stop_after [OF change_world] by (simp add: pick stay stop split: option.split)
qed (simp add: stop)

lemma choice_graph_once:
  "(\<And>i rep s. i < length walkers \<Longrightarrow> Q s ((walkers ! i) rep s)) \<Longrightarrow> Q s (choice_graph_once cb most walkers es st en is_top resume rep s)"
  unfolding choice_graph_once_def Let_def
  by (rule and_then, simp add: walk_child stay, rule chain [OF point], rule transitions)

theorem walk: "Q s (walk_node cb most fuel key v is_top resume rep s)"
proof (induction v arbitrary: is_top resume rep s)
  case (PartialOrder cs es f cl d)
  show ?case unfolding walk_node.simps partial_order_with_frequency_def Let_def
    by (rule repetitions, rule partial_order_once) (simp add: PartialOrder)
next
  case (ChoiceGraph cs es st en f d)
  show ?case unfolding walk_node.simps choice_graph_with_frequency_def Let_def
    by (rule repetitions, rule choice_graph_once) (simp add: ChoiceGraph)
qed (simp_all add: record_step run_atom stop)

end

section \<open>The transition budget\<close>

interpretation budget: walk_property "\<lambda>s r. taken s \<le> taken (fst r) \<and> taken (fst r) \<le> max (taken s) most" cb most key
  by unfold_locales (auto simp: sink_append_def invoke_atom_def Let_def split: prod.split)

text \<open>
  The budget of choice transitions is never exceeded: however an execution ends, it has
  taken no more transitions than the budget, or than the checkpoint it resumed had taken.
\<close>

theorem guard_transitions_bounded:
  "taken (fst (execute cb most fuel v resume w)) \<le> max most (taken (initial_state resume w))"
  using budget.walk [of "initial_state resume w" cb most fuel]
  by (auto simp: execute_def max.commute split: sum.split)

section \<open>The log\<close>

definition logged :: "string \<Rightarrow> ('w, 'r) walk_state \<Rightarrow> ('w, 'r) walk_state run \<Rightarrow> bool" where
  "logged key s r \<longleftrightarrow> (\<exists>ys. sink_steps (fst r) = sink_steps s @ ys
     \<and> map (\<lambda>c. (ck_steps c, ck_node_key c)) (reported (fst r)) = map (\<lambda>c. (ck_steps c, ck_node_key c)) (reported s)
         @ map (\<lambda>k. (sink_steps s @ take (Suc k) ys, key)) [0..<length ys])"

interpretation log: walk_property "logged key" cb most key
proof
  fix s s' :: "('a, 'b) walk_state" and r
  assume "logged key s (s', Returned)" "logged key s' r"
  then obtain ys zs where 1: "sink_steps s' = sink_steps s @ ys" "sink_steps (fst r) = sink_steps s' @ zs"
    "map (\<lambda>c. (ck_steps c, ck_node_key c)) (reported s') = map (\<lambda>c. (ck_steps c, ck_node_key c)) (reported s)
         @ map (\<lambda>k. (sink_steps s @ take (Suc k) ys, key)) [0..<length ys]"
    "map (\<lambda>c. (ck_steps c, ck_node_key c)) (reported (fst r)) = map (\<lambda>c. (ck_steps c, ck_node_key c)) (reported s')
         @ map (\<lambda>k. (sink_steps s' @ take (Suc k) zs, key)) [0..<length zs]"
    by (auto simp: logged_def)
  have "map (\<lambda>k. (sink_steps s @ take (Suc k) (ys @ zs), key)) [0..<length (ys @ zs)]
      = map (\<lambda>k. (sink_steps s @ take (Suc k) ys, key)) [0..<length ys]
      @ map (\<lambda>k. (sink_steps s' @ take (Suc k) zs, key)) [0..<length zs]"
    by (rule nth_equalityI) (auto simp: nth_append 1(1) Suc_diff_le)
  then show "logged key s r" using 1 unfolding logged_def by (intro exI [of _ "ys @ zs"]) simp
qed (auto simp: logged_def sink_append_def invoke_atom_def Let_def split: prod.split)

lemma logged_fresh:
  assumes "logged key (initial_state None w) r"
  shows "map ck_steps (reported (fst r)) = map (\<lambda>k. take (Suc k) (sink_steps (fst r))) [0..<length (sink_steps (fst r))]"
proof -
  from assms have "map (\<lambda>c. (ck_steps c, ck_node_key c)) (reported (fst r))
      = map (\<lambda>k. (take (Suc k) (sink_steps (fst r)), key)) [0..<length (sink_steps (fst r))]"
    by (auto simp: logged_def initial_state_def)
  from arg_cong [OF this, of "map fst"] show ?thesis by (simp add: comp_def)
qed

text \<open>
  Checkpoints are exact: a fresh execution reports one checkpoint per recorded step, and
  the checkpoint of a step carries exactly the steps recorded up to it.
\<close>

theorem checkpoints_exact:
  "map ck_steps (reported (fst (execute cb most fuel v None w)))
    = map (\<lambda>k. take (Suc k) (sink_steps (fst (execute cb most fuel v None w))))
        [0..<length (sink_steps (fst (execute cb most fuel v None w)))]"
  using logged_fresh [OF log.walk, of cb most fuel _ v _ _ _ w] by (auto simp: execute_def initial_state_def split: sum.split)

section \<open>Failures\<close>

definition failed_last :: "('w, 'r) walk_state \<Rightarrow> ('w, 'r) walk_state run \<Rightarrow> bool" where
  "failed_last s r \<longleftrightarrow> (\<exists>ys. list_all (\<lambda>st. \<not> es_failed st) ys \<and>
     (sink_steps (fst r) = sink_steps s @ ys \<or>
      snd r = Refused ATOM_INVOCATION_FAILED \<and> (\<exists>st. es_failed st \<and> sink_steps (fst r) = sink_steps s @ ys @ [st])))"

interpretation failure: walk_property failed_last cb most key
proof
  fix s s' :: "('a, 'b) walk_state" and r
  assume "failed_last s (s', Returned)" "failed_last s' r"
  then obtain ys zs where "sink_steps s' = sink_steps s @ ys" "list_all (\<lambda>st. \<not> es_failed st) (ys @ zs)"
    "sink_steps (fst r) = sink_steps s' @ zs \<or> snd r = Refused ATOM_INVOCATION_FAILED
      \<and> (\<exists>st. es_failed st \<and> sink_steps (fst r) = sink_steps s' @ zs @ [st])"
    by (auto simp: failed_last_def)
  then show "failed_last s r" unfolding failed_last_def by (intro exI [of _ "ys @ zs"]) simp
next
  fix s :: "('a, 'b) walk_state" and a rep
  show "failed_last s (invoke_atom cb key a rep s)"
    by (cases "fst (atom_invoker cb a (world s))")
      (auto simp: failed_last_def invoke_atom_def sink_append_def Let_def split: prod.split
        intro: exI [of _ "[_]"] exI [of _ "[]"])
qed (auto simp: failed_last_def sink_append_def plain_step_def Let_def intro: exI [of _ "[_]"])

text \<open>
  Failure is explicit: in the steps of a fresh execution none is marked failed, or it was
  the last one, and then the execution ended with \<^verbatim>\<open>ATOM_INVOCATION_FAILED\<close>.
\<close>

theorem failed_step_is_last:
  "\<exists>ys. list_all (\<lambda>st. \<not> es_failed st) ys \<and>
     (sink_steps (fst (execute cb most fuel v None w)) = ys \<or>
      snd (execute cb most fuel v None w) = Refused ATOM_INVOCATION_FAILED
      \<and> (\<exists>st. es_failed st \<and> sink_steps (fst (execute cb most fuel v None w)) = ys @ [st]))"
proof -
  have "failed_last (initial_state None w) (execute cb most fuel v None w)"
    using failure.walk [of "initial_state None w" cb most fuel]
    by (auto simp: execute_def failed_last_def split: sum.split intro: exI [of _ "[]"])
  then show ?thesis by (simp add: failed_last_def initial_state_def)
qed

section \<open>A completed walk is a trace of the language\<close>

definition step_labels :: "'r execution_step list \<Rightarrow> trace" where
  "step_labels steps = List.map_filter es_label steps"

definition emits :: "('w, 'r) walk_state \<Rightarrow> trace \<Rightarrow> ('w, 'r) walk_state \<Rightarrow> bool" where
  "emits s t s' \<longleftrightarrow> step_labels (sink_steps s') = step_labels (sink_steps s) @ t"

text \<open>\<open>yields L f\<close>: whenever \<open>f\<close> returns, the labels it has recorded form a trace of \<open>L\<close>.\<close>

definition yields :: "trace set \<Rightarrow> (('w, 'r) walk_state \<Rightarrow> ('w, 'r) walk_state run) \<Rightarrow> bool" where
  "yields L f \<longleftrightarrow> (\<forall>s s'. f s = (s', Returned) \<longrightarrow> (\<exists>t \<in> L. emits s t s'))"

lemma yieldsD: "yields L f \<Longrightarrow> f s = (s', Returned) \<Longrightarrow> \<exists>t \<in> L. emits s t s'"
  by (simp add: yields_def)

lemma emits_trans: "emits s t s' \<Longrightarrow> emits s' u s'' \<Longrightarrow> emits s (t @ u) s''"
  by (simp add: emits_def)

lemma emits_irrelevant [simp]:
  "emits (s\<lparr>world := w\<rparr>) t s' = emits s t s'" "emits (s\<lparr>taken := k\<rparr>) t s' = emits s t s'"
  "emits (point is_top c s) t s' = emits s t s'" "emits s [] (point is_top c s)" "emits s [] s"
  by (simp_all add: emits_def point_def)

lemma emits_world [simp]: "emits s [] (s\<lparr>world := w\<rparr>)"
  by (simp add: emits_def)

lemma and_then_Returned: "and_then r k = (s', Returned) \<longleftrightarrow> (\<exists>s. r = (s, Returned) \<and> k s = (s', Returned))"
  by (cases r) (auto simp: and_then_def)

lemma repetitions_yield:
  assumes "\<And>k. yields L (body k)" "wf_frequency f"
  shows "repetitions cb n f body k s = (s', Returned) \<Longrightarrow> (\<forall>h. fmax f = Some h \<longrightarrow> int k \<le> h) \<Longrightarrow>
    \<exists>m t. t \<in> conc_list (replicate m L) \<and> allows f (int (k + m)) \<and> emits s t s'"
proof (induction n arbitrary: k s)
  case (Suc n)
  obtain go w where go: "should_run_repetition cb f k (world s) = (go, w)" by fastforce
  show ?case
  proof (cases "go = Some True")
    case True
    then obtain s1 where s1: "body k (s\<lparr>world := w\<rparr>) = (s1, Returned)"
      "repetitions cb n f body (Suc k) s1 = (s', Returned)"
      using Suc.prems(1) go by (auto simp: and_then_Returned)
    have "\<forall>h. fmax f = Some h \<longrightarrow> int (Suc k) \<le> h"
      using go True Suc.prems(2) assms(2)
      by (auto simp: should_run_repetition_def wf_frequency_def split: if_splits option.splits)
    from Suc.IH [OF s1(2) this] obtain m t where t: "t \<in> conc_list (replicate m L)"
      "allows f (int (Suc k + m))" "emits s1 t s'" by blast
    obtain u where u: "u \<in> L" "emits s u s1" using yieldsD [OF assms(1) s1(1)] by auto
    have "u @ t \<in> conc_list (replicate (Suc m) L)" using u(1) t(1) by (auto intro: concI)
    moreover have "allows f (int (k + Suc m))" using t(2) by simp
    ultimately show ?thesis using emits_trans [OF u(2) t(3)] by blast
  next
    case False
    then have "go = Some False" "s' = s\<lparr>world := w\<rparr>"
      using Suc.prems(1) go by (auto split: option.splits bool.splits)
    moreover from this(1) have "allows f (int k)"
      using go Suc.prems(2) by (auto simp: should_run_repetition_def allows_def split: if_splits option.splits)
    ultimately have "[] \<in> conc_list (replicate 0 L) \<and> allows f (int (k + 0)) \<and> emits s [] s'" by simp
    then show ?thesis by blast
  qed
qed simp

lemma repetitions_den:
  assumes "\<And>k. yields L (body k)" "wf_frequency f"
  shows "yields (bounded_powers None f L) (repetitions cb n f body 0)"
  unfolding yields_def
proof (intro allI impI)
  fix s s' assume run: "repetitions cb n f body 0 s = (s', Returned)"
  have "\<forall>h. fmax f = Some h \<longrightarrow> int 0 \<le> h" using assms(2) by (auto simp: wf_frequency_def)
  from repetitions_yield [OF assms run this] obtain m t where
    "t \<in> conc_list (replicate m L)" "allows f (int m)" "emits s t s'" by auto
  then show "\<exists>t \<in> bounded_powers None f L. emits s t s'"
    by (auto simp: bounded_powers_def within_def)
qed

subsection \<open>Choice graphs\<close>

lemma choose_edge_mem:
  "choose_edge ge els es w = (Some (Some e), w') \<Longrightarrow> e \<in> set es \<or> els = Some e"
  by (induction es arbitrary: els w) (auto split: option.splits bool.splits prod.splits)

lemma transitions_yield:
  assumes "transitions cb most walkers es en is_top rep n cur s = (s', Returned)"
    and "length walkers = length Ls" "choice_edges_ok es (length Ls) st en"
    and yield: "\<And>i rep. i < length Ls \<Longrightarrow> yields (Ls ! i) ((walkers ! i) rep)"
    and "walk (erel es) st cur ws" "u \<in> conc_list (map (\<lambda>i. Ls ! nat i) ws)"
  shows "\<exists>t. u @ t \<in> graph_lang None (erel es) st en Ls \<and> emits s t s'"
  using assms(1,5,6)
proof (induction n arbitrary: cur s ws u)
  case (Suc n)
  obtain pick w where pick: "choose_edge (guard_evaluator cb) None (sorted_edges (filter (\<lambda>e. src e = cur) es)) (world s) = (pick, w)"
    by fastforce
  show ?case
  proof (cases "cur = en")
    case True
    then have "u @ [] \<in> graph_lang None (erel es) st en Ls" "emits s [] s'"
      using Suc.prems unfolding graph_lang_def by (auto simp: within_def)
    then show ?thesis by blast
  next
    case False
    let ?s = "\<lambda>e. point is_top (Choice_mark (dst e)) (s\<lparr>world := w, taken := taken s + 1\<rparr>)"
    obtain e s1 where e: "pick = Some (Some e)" and s1: "walk_child walkers (dst e) rep (?s e) = (s1, Returned)"
      "transitions cb most walkers es en is_top rep n (dst e) s1 = (s', Returned)"
      using Suc.prems(1) False pick by (auto simp: and_then_Returned split: if_splits option.splits)
    have mem: "e \<in> set es" "src e = cur" using choose_edge_mem [OF pick [unfolded e]] by auto
    then have d: "(cur, dst e) \<in> erel es" "in_range (dst e) (length Ls)"
      using assms(3) by (auto simp: erel_def choice_edges_ok_def)
    have "(walkers ! nat (dst e)) rep (?s e) = (s1, Returned)"
      using s1(1) d(2) assms(2) by (simp add: walk_child_def child_at_def in_range_def)
    from yieldsD [OF yield [OF in_range_nat [OF d(2)]] this] obtain t where
      t: "t \<in> Ls ! nat (dst e)" "emits s t s1" by auto
    have "u @ t \<in> conc_list (map (\<lambda>i. Ls ! nat i) (ws @ [dst e]))"
      using Suc.prems(3) t(1) by (auto simp: conc_list_append intro: concI)
    moreover have "walk (erel es) st (dst e) (ws @ [dst e])"
    proof -
      have "ws = butlast ws @ [cur]" using Suc.prems(2) unfolding walk_def by (metis append_butlast_last_id)
      then have "walk (erel es) st cur (butlast ws @ [cur])" using Suc.prems(2) by simp
      from walk_snoc [OF this d(1)] show ?thesis using \<open>ws = butlast ws @ [cur]\<close> by (metis append_assoc)
    qed
    ultimately obtain t' where
      "(u @ t) @ t' \<in> graph_lang None (erel es) st en Ls" "emits s1 t' s'"
      using Suc.IH [OF s1(2)] by blast
    with t(2) show ?thesis using emits_trans by (metis append_assoc)
  qed
qed simp

lemma choice_graph_once_yields:
  assumes "length walkers = length Ls" "choice_edges_ok es (length Ls) st en" "in_range st (length Ls)"
    and yield: "\<And>i rep. i < length Ls \<Longrightarrow> yields (Ls ! i) ((walkers ! i) rep)"
  shows "yields (graph_lang None (erel es) st en Ls) (choice_graph_once cb most walkers es st en is_top None rep)"
  unfolding yields_def
proof (intro allI impI)
  fix s s' assume "choice_graph_once cb most walkers es st en is_top None rep s = (s', Returned)"
  then obtain s1 where s1: "walk_child walkers st rep s = (s1, Returned)"
    "transitions cb most walkers es en is_top rep (Suc (nat (most - taken s1))) st (point is_top (Choice_mark st) s1) = (s', Returned)"
    by (auto simp: choice_graph_once_def and_then_Returned)
  have "(walkers ! nat st) rep s = (s1, Returned)"
    using s1(1) assms(1,3) by (simp add: walk_child_def child_at_def in_range_def)
  from yieldsD [OF yield [OF in_range_nat [OF assms(3)]] this] obtain t where
    t: "t \<in> Ls ! nat st" "emits s t s1" by blast
  have "walk (erel es) st st [st]" "t \<in> conc_list (map (\<lambda>i. Ls ! nat i) [st])" using t(1) by (simp_all add: walk_def)
  from transitions_yield [OF s1(2) assms(1,2) yield this] obtain t' where
    "t @ t' \<in> graph_lang None (erel es) st en Ls" "emits s1 t' s'" by auto
  then show "\<exists>t \<in> graph_lang None (erel es) st en Ls. emits s t s'" using emits_trans [OF t(2)] by blast
qed

subsection \<open>Partial orders\<close>

lemma settle_finished_all:
  assumes "distinct is" "set is \<inter> set c = {}"
  shows "fst (snd (foldl (settle ps) (d, c, r) is)) = c @ is"
  using assms
proof (induction "is" arbitrary: d c r)
  case (Cons i "is")
  obtain d' r' where "foldl (lower (c @ [i])) (d, r) (successors_of ps i) = (d', r')" by fastforce
  then have "settle ps (d, c, r) i = (d', c @ [i], r')"
    using Cons.prems(2) by (simp add: settle_simp add_elem_def)
  then show ?case using Cons.IH [of "c @ [i]" d' r'] Cons.prems by auto
qed simp

text \<open>
  \<open>level_inv\<close> is the invariant of Kahn's algorithm for the loop over levels: the positions
  that are ready and not finished are the queue.
\<close>

abbreviation unfinished :: "nat list \<Rightarrow> nat list \<Rightarrow> nat list" where
  "unfinished finished ready \<equiv> filter (\<lambda>i. i \<notin> set finished) ready"

abbreviation level_inv :: "(nat \<times> nat) list \<Rightarrow> nat \<Rightarrow> int list \<Rightarrow> nat list \<Rightarrow> nat list \<Rightarrow> bool" where
  "level_inv ps n d finished ready \<equiv> kahn_inv ps n d (unfinished finished ready) finished"

lemma drop_pred_simp: "j < length d \<Longrightarrow> drop_pred (d, r) j = (d[j := d ! j - 1], if d ! j = 1 then r @ [j] else r)"
  by (simp add: drop_pred_def Let_def)

lemma lower_drop_pred:
  assumes "set js \<inter> set c = {}" "\<forall>j \<in> set js. j < length d"
  shows "\<exists>d' new. foldl (lower c) (d, r) js = (d', r @ new) \<and> foldl drop_pred (d, q) js = (d', q @ new) \<and> set new \<subseteq> set js"
  using assms
proof (induction js arbitrary: d r q)
  case (Cons j js)
  let ?d = "d[j := d ! j - 1]" and ?add = "if d ! j = 1 then [j] else []"
  have "lower c (d, r) j = (?d, r @ ?add)" "drop_pred (d, q) j = (?d, q @ ?add)"
    using Cons.prems by (auto simp: lower_simp drop_pred_simp)
  moreover obtain d' new where "foldl (lower c) (?d, r @ ?add) js = (d', (r @ ?add) @ new)"
    "foldl drop_pred (?d, q @ ?add) js = (d', (q @ ?add) @ new)" "set new \<subseteq> set js"
    using Cons.IH [of ?d "r @ ?add" "q @ ?add"] Cons.prems by auto
  ultimately show ?case by (intro exI [of _ d'] exI [of _ "?add @ new"]) auto
qed simp

lemma settle_step:
  assumes inv: "level_inv ps n d c r" and ps: "\<forall>(s, t) \<in> set ps. s < n \<and> t < n"
    and i: "i \<in> set r" "i \<notin> set c" and step: "settle ps (d, c, r) i = (d', c', r')"
  shows "level_inv ps n d' c' r' \<and> c' = c @ [i] \<and> set r \<subseteq> set r'"
proof -
  let ?q = "unfinished c r" and ?js = "successors_of ps i"
  let ?rest = "unfinished (c @ [i]) r"
  have D: "distinct (c @ ?q)" "length d = n"
    "\<And>j. j < n \<Longrightarrow> d ! j = int (length (filter (\<lambda>p. snd p = j \<and> fst p \<notin> set c) ps))"
    "set (c @ ?q) = {j. j < n \<and> d ! j = 0}"
    using inv by (simp_all add: kahn_inv_def)
  have c': "add_elem i c = c @ [i]" using i(2) by (simp add: add_elem_def)
  have pend: "j \<notin> set (c @ [i])" "j < n" if "j \<in> set ?js" for j
  proof -
    from that have p: "(i, j) \<in> set ps" by (auto simp: successors_of_def)
    then show "j < n" using ps by auto
    then have "filter (\<lambda>p. snd p = j \<and> fst p \<notin> set c) ps \<noteq> []" using p i(2) unfolding filter_empty_conv by force
    then have "d ! j \<noteq> 0" using D(3) [OF \<open>j < n\<close>] by simp
    then have "j \<notin> set (c @ ?q)" unfolding D(4) by simp
    then show "j \<notin> set (c @ [i])" using i by auto
  qed
  then have "set ?js \<inter> set (c @ [i]) = {}" "\<forall>j \<in> set ?js. j < length d" using D(2) by auto
  from lower_drop_pred [OF this, of r ?rest] obtain e new where
    e: "foldl (lower (c @ [i])) (d, r) ?js = (e, r @ new)" "foldl drop_pred (d, ?rest) ?js = (e, ?rest @ new)" "set new \<subseteq> set ?js"
    by blast
  have res: "d' = e" "c' = c @ [i]" "r' = r @ new" using step e(1) by (simp_all add: settle_simp c')
  have perm: "mset ?q = mset (i # ?rest)"
  proof -
    have e: "?rest = filter (\<lambda>j. j \<noteq> i) ?q" by (auto intro: filter_cong)
    have q: "distinct ?q" using D(1) by simp
    have "distinct ?rest" unfolding e by (rule distinct_filter [OF q])
    then have "distinct (i # ?rest)" "set ?q = set (i # ?rest)" using i by auto
    with q show ?thesis by (metis set_eq_iff_mset_eq_distinct)
  qed
  have "kahn_inv ps n e (?rest @ new) (c @ [i])"
    by (rule kahn_step_any [OF kahn_inv_perm [OF inv perm] ps _ e(2)]) (simp add: successors_of_def)
  moreover have "unfinished (c @ [i]) new = new"
    using e(3) pend(1) by (auto simp: filter_id_conv)
  ultimately show ?thesis unfolding res by simp
qed

lemma settle_all:
  assumes "level_inv ps n d c r" "\<forall>(s, t) \<in> set ps. s < n \<and> t < n"
    and "distinct is" "set is \<subseteq> set r" "set is \<inter> set c = {}" "foldl (settle ps) (d, c, r) is = (d', c', r')"
  shows "level_inv ps n d' c' r' \<and> c' = c @ is"
  using assms(1,3-)
proof (induction "is" arbitrary: d c r)
  case (Cons i "is")
  obtain d1 c1 r1 where step: "settle ps (d, c, r) i = (d1, c1, r1)" by (metis prod_cases3)
  from settle_step [OF Cons.prems(1) assms(2) _ _ step] Cons.prems
  have 1: "level_inv ps n d1 c1 r1" "c1 = c @ [i]" "set r \<subseteq> set r1" by auto
  have "level_inv ps n d' c' r' \<and> c' = c1 @ is"
    by (rule Cons.IH [OF 1(1)]) (use Cons.prems 1 step in auto)
  then show ?case using 1(2) by auto
qed simp

lemma run_all_yield:
  assumes "run_all (map (\<lambda>i. (walkers ! i) rep) is) s = (s', Returned)" "distinct is"
    and "\<And>i. i \<in> set is \<Longrightarrow> yields (Ls ! i) ((walkers ! i) rep)"
  shows "\<exists>t. (\<forall>i \<in> set is. t i \<in> Ls ! i) \<and> emits s (concat (map t is)) s'"
  using assms
proof (induction "is" arbitrary: s)
  case (Cons i "is")
  then obtain s1 where s1: "(walkers ! i) rep s = (s1, Returned)"
    "run_all (map (\<lambda>i. (walkers ! i) rep) is) s1 = (s', Returned)" by (auto simp: and_then_Returned)
  from yieldsD [OF Cons.prems(3) s1(1)] obtain u where u: "u \<in> Ls ! i" "emits s u s1" by auto
  from Cons.IH [OF s1(2)] Cons.prems obtain t where t: "\<forall>i \<in> set is. t i \<in> Ls ! i" "emits s1 (concat (map t is)) s'"
    by auto
  let ?t = "t(i := u)"
  have m: "map ?t is = map t is" using Cons.prems(2) by auto
  have "emits s (concat (map ?t (i # is))) s'" using emits_trans [OF u(2) t(2)] by (simp add: m)
  moreover have "\<forall>j \<in> set (i # is). ?t j \<in> Ls ! j" using t(1) u(1) by auto
  ultimately show ?case by blast
qed simp

lemma levels_yield:
  assumes "levels walkers ps is_top rep d c r s = (s', Returned)"
    and "level_inv ps (length walkers) d c r" "\<forall>(s, t) \<in> set ps. s < length walkers \<and> t < length walkers"
    and "\<And>i. i < length walkers \<Longrightarrow> yields (Ls ! i) ((walkers ! i) rep)"
    and "\<forall>i \<in> set c. t i \<in> Ls ! i" "emits s0 (concat (map t c)) s"
  shows "\<exists>d' c' t. kahn_inv ps (length walkers) d' [] c' \<and> (\<forall>i \<in> set c'. t i \<in> Ls ! i) \<and> emits s0 (concat (map t c')) s'"
  using assms
proof (induction walkers ps is_top rep d c r s arbitrary: t rule: levels.induct)
  case (1 walkers ps is_top rep d c r s)
  let ?level = "sort (unfinished c r)"
  let ?s = "point is_top (Order_mark (map int c)) s"
  have D: "distinct (c @ unfinished c r)" "set (c @ unfinished c r) \<subseteq> {..<length walkers}"
    using "1.prems"(2) by (auto simp: kahn_inv_def)
  show ?case
  proof (cases "length c \<ge> length walkers \<or> ?level = []")
    case True
    have "unfinished c r = []"
    proof (cases "?level = []")
      case False
      then have "length c \<ge> length walkers" using True by blast
      moreover have "distinct c" "set c \<subseteq> {..<length walkers}" using D by auto
      ultimately have c: "set c = {..<length walkers}"
        by (metis card_lessThan card_subset_eq distinct_card finite_lessThan card_mono le_antisym)
      from D(2) have "set (unfinished c r) \<subseteq> {..<length walkers}" by auto
      then have "set (unfinished c r) \<subseteq> set c" by (simp only: c)
      then show ?thesis by (auto simp: filter_empty_conv)
    qed (metis length_0_conv length_sort)
    moreover have "s' = ?s" using "1.prems"(1) True by (subst (asm) levels.simps) (auto simp: Let_def)
    ultimately show ?thesis using "1.prems"(2,5,6) by (auto simp: emits_def point_def)
  next
    case False
    obtain d1 c1 r1 where step: "foldl (settle ps) (d, c, r) ?level = (d1, c1, r1)" by (metis prod_cases3)
    obtain s1 where s1: "run_all (map (\<lambda>i. (walkers ! i) rep) ?level) ?s = (s1, Returned)"
      "levels walkers ps is_top rep d1 c1 r1 s1 = (s', Returned)"
      using "1.prems"(1) False step by (subst (asm) levels.simps) (auto simp: Let_def and_then_Returned)
    have lvl: "distinct ?level" "set ?level \<subseteq> set r" "set ?level \<inter> set c = {}" using D(1) by auto
    from settle_all [OF "1.prems"(2,3) lvl step] have inv: "level_inv ps (length walkers) d1 c1 r1" "c1 = c @ ?level" by auto
    have "yields (Ls ! i) ((walkers ! i) rep)" if "i \<in> set ?level" for i using that D(2) "1.prems"(4) by auto
    from run_all_yield [OF s1(1) lvl(1) this] obtain u where
      u: "\<forall>i \<in> set ?level. u i \<in> Ls ! i" "emits ?s (concat (map u ?level)) s1" by auto
    let ?t = "\<lambda>i. if i \<in> set c then t i else u i"
    have m: "map ?t ?level = map u ?level" "map ?t c = map t c" using lvl(3) by auto
    have "emits s0 (concat (map ?t c1)) s1"
      using emits_trans [OF "1.prems"(6)] u(2) unfolding inv(2) map_append concat_append m by simp
    moreover have "\<forall>i \<in> set c1. ?t i \<in> Ls ! i" unfolding inv(2) using "1.prems"(5) u(1) by auto
    ultimately show ?thesis
      using "1.IH" [OF refl False s1(1) step [symmetric] refl s1(2) inv(1) "1.prems"(3,4), of ?t] by blast
  qed
qed

lemma partial_order_once_yields:
  assumes ok: "order_edges_ok es (length walkers)" and cl: "erel cl = (erel es)\<^sup>+" "irrefl (erel cl)"
    and len: "length Ls = length walkers" and yield: "\<And>i. i < length walkers \<Longrightarrow> yields (Ls ! i) ((walkers ! i) rep)"
  shows "yields (merge_lang (before cl) Ls) (partial_order_once walkers es is_top [] rep)"
  unfolding yields_def
proof (intro allI impI)
  fix s s' assume run: "partial_order_once walkers es is_top [] rep s = (s', Returned)"
  let ?n = "length walkers" and ?ps = "map (\<lambda>e. (nat (src e), nat (dst e))) es"
  let ?d = "map (\<lambda>i. int (length (filter (\<lambda>p. snd p = i) ?ps))) [0..<length walkers]"
  let ?r = "filter (\<lambda>i. ?d ! i = 0) [0..<length walkers]"
  have go: "levels walkers ?ps is_top rep ?d [] ?r s = (s', Returned)"
    using run by (simp add: partial_order_once_def adjacency_in_range [OF ok] Let_def)
  have inv: "level_inv ?ps ?n ?d [] ?r" unfolding kahn_inv_def by auto
  have ps: "\<forall>(s, t) \<in> set ?ps. s < ?n \<and> t < ?n" using ok by (auto simp: order_edges_ok_def in_range_nat)
  from levels_yield [OF go inv ps yield, where t = "\<lambda>_. []" and ?s0.0 = s] obtain d c t where
    fin: "kahn_inv ?ps ?n d [] c" and t: "\<forall>i \<in> set c. t i \<in> Ls ! i" "emits s (concat (map t c)) s'" by auto
  have acyc: "acyclic (erel es)" using cl by (simp add: acyclic_irrefl)
  note F = kahn_inv_doneD [OF fin]
  have all: "set c = {..<?n}" by (rule kahn_all [OF ok acyc fin]) simp
  have "sorted_wrt (\<lambda>x y. \<not> before cl y x) c"
  proof (rule linear_of_direct [OF F(1) all ok cl(1)])
    fix e k assume "e \<in> set es" "k < length c" "c ! k = nat (dst e)"
    moreover from this(1) have "(nat (src e), nat (dst e)) \<in> set ?ps" by simp
    ultimately show "nat (src e) \<in> set (take k c)" using F(4) by blast
  qed
  then have "concat (map t c) \<in> merge_lang (before cl) Ls"
    using F(1) all t(1) len by (intro series_mem cl(2)) simp_all
  then show "\<exists>t \<in> merge_lang (before cl) Ls. emits s t s'" using t(2) by blast
qed

subsection \<open>The walk\<close>

lemma walk_yields: "wf_node v \<Longrightarrow> yields (den None v) (walk_node cb most fuel key v is_top None rep)"
proof (induction v arbitrary: is_top rep)
  case (Atom l a b c)
  show ?case
    by (auto simp: yields_def invoke_atom_def emits_def step_labels_def sink_append_def map_filter_def Let_def split: prod.splits if_splits)
next
  case (PartialOrder cs es f cl d)
  note D = wf_partial_orderD [OF PartialOrder.prems]
  let ?w = "map (\<lambda>c rep s. walk_node cb most fuel key c False None rep s) cs"
  have kids: "yields (map (den None) cs ! i) ((?w ! i) rep)" if "i < length ?w" for i rep
    using that PartialOrder.IH [OF _ D(8)] by simp
  have "yields (merge_lang (before cl) (map (den None) cs)) (partial_order_once ?w es is_top [] k)" for k
    by (rule partial_order_once_yields [OF _ D(4,6) _ kids]) (use D(2) in simp_all)
  then have "yields (den None (PartialOrder cs es f cl d)) (repetitions cb fuel f (\<lambda>k. partial_order_once ?w es is_top [] k) 0)"
    unfolding den.simps by (intro repetitions_den D(7))
  then show ?case by (simp add: yields_def partial_order_with_frequency_def cong: if_cong)
next
  case (ChoiceGraph cs es st en f d)
  note D = wf_choice_graphD [OF ChoiceGraph.prems]
  let ?w = "map (\<lambda>c rep s. walk_node cb most fuel key c False None rep s) cs"
  have kids: "yields (map (den None) cs ! i) ((?w ! i) rep)" if "i < length (map (den None) cs)" for i rep
    using that ChoiceGraph.IH [OF _ D(7)] by simp
  have "yields (graph_lang None (erel es) st en (map (den None) cs)) (choice_graph_once cb most ?w es st en is_top None k)" for k
    by (rule choice_graph_once_yields [OF _ _ _ kids]) (use D(2,3) in simp_all)
  then have "yields (den None (ChoiceGraph cs es st en f d)) (repetitions cb fuel f (\<lambda>k. choice_graph_once cb most ?w es st en is_top None k) 0)"
    unfolding den.simps by (intro repetitions_den D(6))
  then show ?case by (simp add: yields_def choice_graph_with_frequency_def cong: if_cong)
qed (auto simp: yields_def emits_def step_labels_def sink_append_def plain_step_def map_filter_def Let_def)

lemma executed_labels:
  assumes "wf_node v" "execute cb most fuel v None w = (s, Returned)"
  shows "step_labels (sink_steps s) \<in> den None v"
proof -
  obtain key where "walk_node cb most fuel key v True None 0 (initial_state None w) = (s, Returned)"
    using assms(2) by (auto simp: execute_def split: sum.splits elim: raised_as.elims)
  from yieldsD [OF walk_yields [OF assms(1)] this] show ?thesis
    by (auto simp: emits_def initial_state_def step_labels_def map_filter_def)
qed

text \<open>
  C16.  Refinement of the denotation: when a fresh execution of an admitted model returns, the
  labels of its steps form a trace of the model's language, whatever the guards, actions and
  repetition decisions did.
\<close>

theorem guard_execution_in_language:
  assumes "wf_node v" "execute cb most fuel v None w = (s, Returned)"
  shows "step_labels (sink_steps s) \<in> den None v"
  using assms by (rule executed_labels)

section \<open>How a walk can end\<close>











section \<open>Runs\<close>

text \<open>Callbacks that always succeed, with guards that never or always hold.\<close>

definition agreeable :: "bool \<Rightarrow> (unit, unit) callbacks" where
  "agreeable holds = \<lparr>guard_evaluator = \<lambda>_ _ w. (Some holds, w), atom_invoker = \<lambda>_ w. (Some (), w), repeat_evaluator = None\<rparr>"

lemma transitions_numeral:
  "transitions cb most walkers es en is_top rep (numeral k) cur s
    = (if cur = en then (s, Returned)
      else if taken s \<ge> most then (s, Refused TRANSITION_BUDGET_EXHAUSTED)
      else case choose_edge (guard_evaluator cb) None (sorted_edges (filter (\<lambda>e. src e = cur) es)) (world s) of
          (None, w) \<Rightarrow> (s\<lparr>world := w\<rparr>, Callback_Raised)
        | (Some None, w) \<Rightarrow> (s\<lparr>world := w\<rparr>, Refused NO_GUARD_MATCHED)
        | (Some (Some e), w) \<Rightarrow> and_then
            (walk_child walkers (dst e) rep (point is_top (Choice_mark (dst e)) (s\<lparr>world := w, taken := taken s + 1\<rparr>)))
            (transitions cb most walkers es en is_top rep (pred_numeral k) (dst e)))"
  by (simp only: numeral_eq_Suc transitions.simps)

lemma levels_stop:
  "length c \<ge> length walkers \<Longrightarrow> levels walkers ps is_top rep d c r s = (point is_top (Order_mark (map int c)) s, Returned)"
  by (subst levels.simps) (simp add: Let_def)

lemma levels_go:
  assumes "length c < length walkers" "sort (unfinished c r) = i # is"
  shows "levels walkers ps is_top rep d c r s = and_then
    (run_all (map (\<lambda>i. (walkers ! i) rep) (i # is)) (point is_top (Order_mark (map int c)) s))
    (\<lambda>s'. case foldl (settle ps) (d, c, r) (i # is) of (d', c', r') \<Rightarrow> levels walkers ps is_top rep d' c' r' s')"
  using assms by (subst levels.simps) (simp add: Let_def)

lemmas walk_eval = levels_stop levels_go transitions_numeral partial_order_with_frequency_def choice_graph_with_frequency_def partial_order_once_def
  choice_graph_once_def should_run_repetition_def walk_child_def child_at_def py_get_def point_def invoke_atom_def
  agreeable_def sink_append_def plain_step_def adjacency_pairs_def successors_of_def settle_simp lower_simp
  add_elem_def sorted_edges_def edge_key_def Let_def ONCE_def in_range_def py_index_def initial_state_def upt_rec

lemma loop_graph_key: "\<exists>key. node_key loop_graph = Inr key"
  by (simp add: loop_graph_def node_key_def incomparable_def)

lemma loop_graph_valid: "validate_model loop_graph = Inr ()"
  using validate_iff_choices [OF loop_graph_wf] loop_graph_choices by simp

lemma loop_graph_walk:
  "\<exists>s. walk_node (agreeable False) 64 2 key loop_graph True None 0 (initial_state None ()) = (s, Returned)
     \<and> step_labels (sink_steps s) = [''a'']"
  by (simp add: loop_graph_def walk_eval numeral_2_eq_2 step_labels_def map_filter_def)

theorem guard_execution_in_language_witness: "[''a''] \<in> den None loop_graph"
proof -
  obtain key where key: "node_key loop_graph = Inr key" using loop_graph_key by blast
  obtain s where "execute (agreeable False) 64 2 loop_graph None () = (s, Returned)" "step_labels (sink_steps s) = [''a'']"
    using loop_graph_walk [of key] key loop_graph_valid by (auto simp: execute_def)
  with guard_execution_in_language [OF loop_graph_wf this(1)] show ?thesis by simp
qed


section \<open>What resuming and fingerprints miss\<close>

lemma execute_fresh:
  "validate_model v = Inr () \<Longrightarrow> node_key v = Inr key \<Longrightarrow>
   execute cb most fuel v None w = walk_node cb most fuel key v True None 0 (initial_state None w)"
  by (simp add: execute_def)

lemma execute_resumed:
  "validate_model v = Inr () \<Longrightarrow> node_key v = Inr key \<Longrightarrow> ck_node_key ck = key \<Longrightarrow>
   execute cb most fuel v (Some ck) w = walk_node cb most fuel key v True (Some (ck_cursor ck)) 0 (initial_state (Some ck) w)"
  by (simp add: execute_def)

definition nested_choice :: pnode where
  "nested_choice = ChoiceGraph [Start, pair_of ''a'' ''b'', End] [ChoiceGraphEdge 0 1 None, ChoiceGraphEdge 1 2 None] 0 2 ONCE 3"

lemma nested_choice_wf: "wf_node nested_choice"
  by (simp add: nested_choice_def mk_choice_graph_Inr_iff choice_edges_ok_def in_range_def pair_of_wf
      composite_depth_def node_depth_def MAX_POWL_DEPTH_def) (simp add: pair_of_def)

lemma nested_choice_connected: "graph_connected (edges nested_choice) 3 0 2"
proof -
  have "(0, 1) \<in> erel (edges nested_choice)" "(1, 2) \<in> erel (edges nested_choice)"
    by (simp_all add: nested_choice_def erel_def)
  then have "(0, 1) \<in> (erel (edges nested_choice))\<^sup>*" "(1, 2) \<in> (erel (edges nested_choice))\<^sup>*"
    "(0, 2) \<in> (erel (edges nested_choice))\<^sup>*" by (simp_all add: converse_rtrancl_into_rtrancl)
  then show ?thesis by (auto simp: graph_connected_def less_Suc_eq numeral_3_eq_3)
qed

lemma nested_choice_valid: "validate_model nested_choice = Inr ()"
proof -
  have "guards_unambiguous (edges nested_choice) 3"
    by (simp add: guards_unambiguous_def unambiguous_at_def nested_choice_def less_Suc_eq numeral_3_eq_3 all_conj_distrib)
  then have "choices_ok nested_choice"
    using nested_choice_connected by (simp add: nested_choice_def numeral_3_eq_3 pair_of_def)
  then show ?thesis using validate_iff_choices [OF nested_choice_wf] by simp
qed

lemma nested_choice_key: "\<exists>key. node_key nested_choice = Inr key"
  by (simp add: nested_choice_def node_key_def incomparable_def pair_of_def)

lemma nested_choice_runs:
  "\<exists>ck s s'. ck \<in> set (reported s) \<and> ck_node_key ck = key
    \<and> walk_node (agreeable True) 64 2 key nested_choice True None 0 (initial_state None ()) = (s, Returned)
    \<and> walk_node (agreeable True) 64 2 key nested_choice True (Some (ck_cursor ck)) 0 (initial_state (Some ck) ()) = (s', Returned)
    \<and> step_labels (sink_steps s) = [''a'', ''b''] \<and> step_labels (sink_steps s') = [''a'']"
  by (intro exI [of _ "\<lparr>ck_steps = [plain_step ''Start'' 0, \<lparr>es_kind = ''Atom'', es_label = Some ''a'',
        es_consequence = Some PURE, es_result = Some (), es_repetition = 0, es_failed = False\<rparr>],
      ck_transitions = 1, ck_cursor = Choice_mark 1, ck_node_key = key\<rparr>"])
    (simp add: nested_choice_def pair_of_def walk_eval numeral_2_eq_2 step_labels_def map_filter_def)

text \<open>
  A resumed choice graph loses work: an execution of this model records \<open>a\<close>, then \<open>b\<close>; of
  the checkpoint reported after \<open>a\<close>, resuming returns with \<open>b\<close> never invoked.
\<close>

theorem choice_resume_skips_rest:
  "\<exists>ck s s'. execute (agreeable True) 64 2 nested_choice None () = (s, Returned)
    \<and> step_labels (sink_steps s) = [''a'', ''b''] \<and> ck \<in> set (reported s)
    \<and> execute (agreeable True) 64 2 nested_choice (Some ck) () = (s', Returned)
    \<and> step_labels (sink_steps s') = [''a'']"
proof -
  obtain key where key: "node_key nested_choice = Inr key" using nested_choice_key by blast
  from nested_choice_runs [of key] show ?thesis unfolding execute_fresh [OF nested_choice_valid key]
    using execute_resumed [OF nested_choice_valid key] by metis
qed

definition side_by_side :: pnode where
  "side_by_side = PartialOrder [plain ''a'', plain ''b''] [] ONCE [] 2"

lemma side_by_side_wf: "wf_node side_by_side"
proof -
  have "mk_partial_order [plain ''a'', plain ''b''] [] ONCE = Inr side_by_side"
    unfolding side_by_side_def
    by (rule mk_parallel) (simp_all add: composite_depth_def node_depth_def MAX_POWL_DEPTH_def)
  then show ?thesis by (simp add: side_by_side_def)
qed

lemma side_by_side_runs:
  "\<exists>ck s s'. ck \<in> set (reported s) \<and> ck_node_key ck = key
    \<and> walk_node (agreeable True) 64 2 key side_by_side True None 0 (initial_state None ()) = (s, Returned)
    \<and> walk_node (agreeable True) 64 2 key side_by_side True (Some (ck_cursor ck)) 0 (initial_state (Some ck) ()) = (s', Returned)
    \<and> step_labels (sink_steps s) = [''a'', ''b''] \<and> step_labels (sink_steps s') = [''a'', ''a'', ''b'']"
  by (intro exI [of _ "\<lparr>ck_steps = [\<lparr>es_kind = ''Atom'', es_label = Some ''a'',
        es_consequence = Some PURE, es_result = Some (), es_repetition = 0, es_failed = False\<rparr>],
      ck_transitions = 0, ck_cursor = Order_mark [], ck_node_key = key\<rparr>"])
    (simp add: side_by_side_def walk_eval numeral_2_eq_2 step_labels_def map_filter_def)

text \<open>
  A resumed partial order repeats work: of the checkpoint reported after \<open>a\<close>, which was
  ready together with \<open>b\<close>, resuming invokes the action of \<open>a\<close> again.
\<close>

theorem order_resume_repeats_action:
  "\<exists>ck s s'. execute (agreeable True) 64 2 side_by_side None () = (s, Returned)
    \<and> step_labels (sink_steps s) = [''a'', ''b''] \<and> ck \<in> set (reported s)
    \<and> execute (agreeable True) 64 2 side_by_side (Some ck) () = (s', Returned)
    \<and> step_labels (sink_steps s') = [''a'', ''a'', ''b'']"
proof -
  have valid: "validate_model side_by_side = Inr ()"
    using validate_iff_choices [OF side_by_side_wf] by (simp add: side_by_side_def)
  have "\<exists>key. node_key side_by_side = Inr key" by (simp add: side_by_side_def node_key_def)
  then obtain key where key: "node_key side_by_side = Inr key" by blast
  from side_by_side_runs [of key] show ?thesis unfolding execute_fresh [OF valid key]
    using execute_resumed [OF valid key] by metis
qed

definition guarded_else :: pnode where
  "guarded_else = ChoiceGraph [Start, End]
     [ChoiceGraphEdge 0 1 (Some (Guard ''ready'' (JObj []))), ChoiceGraphEdge 0 1 None] 0 1 ONCE 2"

text \<open>
  A guarded edge beside an unguarded one between the same two nodes, which the algebra
  documents as legal and validation accepts, has no fingerprint: the execution raises a
  \<^verbatim>\<open>TypeError\<close> before anything runs.
\<close>

theorem guarded_else_not_executable:
  "wf_node guarded_else \<and> validate_model guarded_else = Inr ()
   \<and> execute cb most fuel guarded_else resume w = (initial_state resume w, Raised TypeError)"
proof -
  have wf: "wf_node guarded_else"
    by (simp add: guarded_else_def mk_choice_graph_Inr_iff choice_edges_ok_def in_range_def
        composite_depth_def node_depth_def MAX_POWL_DEPTH_def)
  have "(0, 1) \<in> (erel (edges guarded_else))\<^sup>*" by (rule r_into_rtrancl) (simp add: guarded_else_def erel_def)
  then have "graph_connected (edges guarded_else) 2 0 1"
    by (auto simp: graph_connected_def less_Suc_eq numeral_2_eq_2)
  moreover have "guards_unambiguous (edges guarded_else) 2"
    by (simp add: guards_unambiguous_def unambiguous_at_def guarded_else_def less_Suc_eq numeral_2_eq_2 all_conj_distrib)
  ultimately have "choices_ok guarded_else" by (simp add: guarded_else_def numeral_2_eq_2)
  then have valid: "validate_model guarded_else = Inr ()" using validate_iff_choices [OF wf] by simp
  have "node_key guarded_else = Inl TypeError"
    by (simp add: guarded_else_def node_key_def incomparable_def)
  with wf valid show ?thesis by (simp add: execute_def)
qed

end
