(* ===== verification/Agent_Ledger.thy ===== *)
theory Agent_Ledger
  imports Powl_Executor
begin

text \<open>
  \<^verbatim>\<open>agent/ledger.py\<close>, the two-phase occurrence ledger of the agent runtime, with the refusal
  codes of \<^verbatim>\<open>agent/refusals.py\<close>.  SHA-256 is a parameter.
\<close>

section \<open>Refusals\<close>

datatype agent_code = SESSION_CLOSED | NO_OPEN_EPOCH | UNKNOWN_SUPERSEDED_EPOCH | PRESERVATION_VIOLATED
  | UNKNOWN_INTENT_TOKEN | LEDGER_UNRESUMABLE | ACTION_NODE_UNRESOLVED | INTENT_ALREADY_OUTSTANDING
  | EPOCH_MODEL_INVALID | AGENT_BOUND_EXHAUSTED

text \<open>What an operation of the package may raise: its own refusal, or an error of the model.\<close>

datatype agent_exn = AgentRefusal agent_code | ModelError exn

type_synonym 'a agent = "agent_exn + 'a"

abbreviation agent_refuse :: "agent_code \<Rightarrow> 'a agent" where
  "agent_refuse c \<equiv> Inl (AgentRefusal c)"

section \<open>Records\<close>

datatype ledger_phase = INTENDED | COMMITTED

type_synonym object_ref = "string \<times> string"

text \<open>What a caller may pass as an object reference: a bare text or a sequence of texts.\<close>

datatype raw_ref = RefText string | RefSeq "string list"

definition as_object :: "raw_ref \<Rightarrow> object_ref agent" where
  "as_object r = (case r of RefSeq [i, q] \<Rightarrow> Inr (i, q) | _ \<Rightarrow> agent_refuse UNKNOWN_INTENT_TOKEN)"

definition as_objects :: "raw_ref list \<Rightarrow> object_ref list agent" where
  "as_objects refs = mapE as_object refs"

record intent_token =
  it_token_id :: string
  it_sequence :: nat
  it_path :: path
  it_context :: string
  it_objects :: "object_ref list"
  it_activity :: string
  it_timestamp :: int

record ledger_record =
  lr_sequence :: nat
  lr_phase :: ledger_phase
  lr_token_id :: string
  lr_path :: path
  lr_context :: string
  lr_activity_sha :: string
  lr_index :: "nat option"
  lr_detail :: string
  lr_objects :: "object_ref list"
  lr_activity :: string
  lr_timestamp :: int

definition phase_name :: "ledger_phase \<Rightarrow> string" where
  "phase_name p = (case p of INTENDED \<Rightarrow> ''INTENDED'' | COMMITTED \<Rightarrow> ''COMMITTED'')"

definition record_json :: "ledger_record \<Rightarrow> json" where
  "record_json r = JObj
     [(''sequence'', JInt (int (lr_sequence r))), (''phase'', JStr (phase_name (lr_phase r))),
      (''token_id'', JStr (lr_token_id r)), (''path'', path_json (lr_path r)),
      (''context_sha256'', JStr (lr_context r)), (''activity_sha256'', JStr (lr_activity_sha r)),
      (''occurrence_index'', json_int_option (map_option int (lr_index r))), (''detail'', JStr (lr_detail r)),
      (''objects'', JList (map (\<lambda>(i, q). JList [JStr i, JStr q]) (lr_objects r))),
      (''activity'', JStr (lr_activity r)), (''timestamp_ns'', JInt (lr_timestamp r))]"

definition token_id :: "(string \<Rightarrow> string) \<Rightarrow> nat \<Rightarrow> path \<Rightarrow> string \<Rightarrow> string" where
  "token_id sha n p context = sha256 sha (JObj
     [(''sequence'', JInt (int n)), (''path'', path_json p), (''context_sha256'', JStr context)])"

section \<open>The ledger\<close>

record occurrence_ledger =
  ol_records :: "ledger_record list"
  last_ns :: int

text \<open>\<open>from_records\<close> is the constructor, and \<^verbatim>\<open>from_records\<close> of the class.\<close>

definition from_records :: "ledger_record list \<Rightarrow> occurrence_ledger" where
  "from_records rs = \<lparr>ol_records = rs, last_ns = (case map lr_timestamp rs of [] \<Rightarrow> 0 | t # ts \<Rightarrow> fold max ts t)\<rparr>"

definition stamp :: "occurrence_ledger \<Rightarrow> int option \<Rightarrow> int" where
  "stamp l proposed = max (case proposed of None \<Rightarrow> last_ns l + 1 | Some t \<Rightarrow> t) (last_ns l + 1)"

definition committed_records :: "occurrence_ledger \<Rightarrow> ledger_record list" where
  "committed_records l = filter (\<lambda>r. lr_phase r = COMMITTED) (ol_records l)"

definition token_of :: "ledger_record \<Rightarrow> intent_token" where
  "token_of r = \<lparr>it_token_id = lr_token_id r, it_sequence = lr_sequence r, it_path = lr_path r, it_context = lr_context r,
     it_objects = lr_objects r, it_activity = lr_activity r, it_timestamp = lr_timestamp r\<rparr>"

definition outstanding :: "occurrence_ledger \<Rightarrow> intent_token list" where
  "outstanding l = map token_of (filter (\<lambda>r. lr_phase r = INTENDED
     \<and> lr_token_id r \<notin> set (map lr_token_id (committed_records l))) (ol_records l))"

definition by_token :: "occurrence_ledger \<Rightarrow> string \<Rightarrow> ledger_phase \<Rightarrow> ledger_record agent" where
  "by_token l t p = (case find (\<lambda>r. lr_token_id r = t \<and> lr_phase r = p) (ol_records l) of
     Some r \<Rightarrow> Inr r | None \<Rightarrow> agent_refuse UNKNOWN_INTENT_TOKEN)"

definition append_record :: "ledger_record \<Rightarrow> occurrence_ledger \<Rightarrow> occurrence_ledger" where
  "append_record r l = \<lparr>ol_records = ol_records l @ [r], last_ns = lr_timestamp r\<rparr>"

text \<open>\<^verbatim>\<open>intend\<close>, with its keyword arguments in the order of the source.\<close>

definition intend :: "(string \<Rightarrow> string) \<Rightarrow> occurrence_ledger \<Rightarrow> path \<Rightarrow> string \<Rightarrow> string \<Rightarrow> string \<Rightarrow> raw_ref list
    \<Rightarrow> int option \<Rightarrow> string \<Rightarrow> (intent_token \<times> occurrence_ledger) agent" where
  "intend sha l p context act_sha act objects ts detail =
     (if outstanding l \<noteq> [] then agent_refuse INTENT_ALREADY_OUTSTANDING
      else let n = length (ol_records l) in
        bindE (as_objects objects) (\<lambda>refs.
          let t = stamp l ts;
              token = \<lparr>it_token_id = token_id sha n p context, it_sequence = n, it_path = p, it_context = context,
                it_objects = refs, it_activity = act, it_timestamp = t\<rparr>
          in Inr (token, append_record \<lparr>lr_sequence = n, lr_phase = INTENDED, lr_token_id = it_token_id token,
               lr_path = p, lr_context = context, lr_activity_sha = act_sha, lr_index = None, lr_detail = detail,
               lr_objects = refs, lr_activity = act, lr_timestamp = t\<rparr> l)))"

text \<open>The whitespace \<^verbatim>\<open>str.strip\<close> removes, over the character range of the model.\<close>

definition is_space :: "char \<Rightarrow> bool" where
  "is_space c \<longleftrightarrow> of_char c \<in> set ([9..<14] @ [28..<33] @ [133, 160] :: nat list)"

definition strip :: "string \<Rightarrow> string" where
  "strip s = rev (dropWhile is_space (rev (dropWhile is_space s)))"

definition occurrences_of :: "occurrence_ledger \<Rightarrow> string \<Rightarrow> nat" where
  "occurrences_of l act_sha = length (filter (\<lambda>r. lr_phase r = COMMITTED \<and> lr_activity_sha r = act_sha) (ol_records l))"

text \<open>\<^verbatim>\<open>outcome\<close> is the text of the outcome, if one is given.\<close>

definition commit :: "(string \<Rightarrow> string) \<Rightarrow> occurrence_ledger \<Rightarrow> intent_token \<Rightarrow> string option \<Rightarrow> string option \<Rightarrow> string option
    \<Rightarrow> raw_ref list option \<Rightarrow> int option \<Rightarrow> string \<Rightarrow> (occurrence_key \<times> occurrence_ledger) agent" where
  "commit sha l token outcome act_sha act objects ts detail =
     (if it_token_id token \<notin> set (map it_token_id (outstanding l)) then agent_refuse UNKNOWN_INTENT_TOKEN
      else bindE (by_token l (it_token_id token) INTENDED) (\<lambda>intended.
        let (a, detail) = (case act_sha of
               Some a \<Rightarrow> (a, detail)
             | None \<Rightarrow> if lr_activity_sha intended \<noteq> '''' then (lr_activity_sha intended, detail)
                  else (sha256 sha (JObj [(''path'', path_json (it_path token))]), strip (detail @ '' ACTIVITY_FROM_PATH'')));
            lbl = (case act of None \<Rightarrow> lr_activity intended | Some s \<Rightarrow> s)
        in bindE (case objects of None \<Rightarrow> Inr (lr_objects intended) | Some os \<Rightarrow> as_objects os) (\<lambda>refs.
          let k = occurrences_of l a;
              detail = (case outcome of None \<Rightarrow> detail | Some s \<Rightarrow> strip (detail @ '' outcome='' @ s))
          in Inr (\<lparr>ok_activity = a, ok_index = k, ok_context = it_context token\<rparr>,
               append_record \<lparr>lr_sequence = length (ol_records l), lr_phase = COMMITTED, lr_token_id = it_token_id token,
                 lr_path = it_path token, lr_context = it_context token, lr_activity_sha = a, lr_index = Some k,
                 lr_detail = detail, lr_objects = refs, lr_activity = lbl, lr_timestamp = stamp l ts\<rparr> l))))"

definition provisional_index :: "occurrence_ledger \<Rightarrow> string \<Rightarrow> nat \<Rightarrow> nat" where
  "provisional_index l act_sha n = length (filter (\<lambda>r. lr_phase r = COMMITTED \<and> lr_activity_sha r = act_sha
     \<and> lr_sequence r < n) (ol_records l))"

definition occurrences :: "occurrence_ledger \<Rightarrow> occurrence_key list" where
  "occurrences l = map (\<lambda>r. \<lparr>ok_activity = lr_activity_sha r,
     ok_index = (case lr_index r of None \<Rightarrow> 0 | Some k \<Rightarrow> k), ok_context = lr_context r\<rparr>) (committed_records l)"

definition is_resumable :: "occurrence_ledger \<Rightarrow> bool" where
  "is_resumable l \<longleftrightarrow> outstanding l = []"

definition assert_resumable :: "occurrence_ledger \<Rightarrow> unit agent" where
  "assert_resumable l = (if outstanding l \<noteq> [] then agent_refuse LEDGER_UNRESUMABLE else Inr ())"

definition ledger_sha256 :: "(string \<Rightarrow> string) \<Rightarrow> occurrence_ledger \<Rightarrow> string" where
  "ledger_sha256 sha l = sha256 sha (JList (map record_json (ol_records l)))"

section \<open>Ledgers that the operations can build\<close>

inductive written :: "(string \<Rightarrow> string) \<Rightarrow> occurrence_ledger \<Rightarrow> bool" for sha :: "string \<Rightarrow> string" where
  blank: "written sha (from_records [])"
| intending: "written sha l \<Longrightarrow> intend sha l p context act_sha act objects ts detail = Inr (token, l') \<Longrightarrow> written sha l'"
| committing: "written sha l \<Longrightarrow> commit sha l token outcome act_sha' act' objects' ts detail = Inr (key, l') \<Longrightarrow> written sha l'"

text \<open>
  The shape of such a ledger: lines are numbered in append order, timestamps rise strictly and
  end in the clock, the two phases alternate and a committed line carries the token of the
  line before it, and its index counts the earlier occurrences of its activity.
\<close>

definition lines_ok :: "ledger_record list \<Rightarrow> int \<Rightarrow> bool" where
  "lines_ok rs clock \<longleftrightarrow> map lr_sequence rs = [0..<length rs]
     \<and> sorted_wrt (<) (0 # map lr_timestamp rs) \<and> clock = last (0 # map lr_timestamp rs)
     \<and> map lr_phase rs = map (\<lambda>k. if even k then INTENDED else COMMITTED) [0..<length rs]
     \<and> (\<forall>k < length rs. odd k \<longrightarrow> lr_token_id (rs ! k) = lr_token_id (rs ! (k - 1)))
     \<and> (\<forall>k < length rs. odd k \<longrightarrow> lr_index (rs ! k) = Some (occurrences_of (from_records (take k rs)) (lr_activity_sha (rs ! k))))"

definition tokens_ok :: "(string \<Rightarrow> string) \<Rightarrow> ledger_record list \<Rightarrow> bool" where
  "tokens_ok sha rs \<longleftrightarrow> (\<forall>k < length rs. even k \<longrightarrow> lr_token_id (rs ! k) = token_id sha k (lr_path (rs ! k)) (lr_context (rs ! k)))"

lemma token_id_inj:
  assumes "inj sha" "token_id sha i p c = token_id sha j q d"
  shows "i = j"
proof -
  from to_jsonable_obj_field [OF sha256_inj [OF assms(1) assms(2) [unfolded token_id_def]], of "''sequence''"]
  show ?thesis by simp
qed

lemma lines_ok_take: "lines_ok rs c \<Longrightarrow> n \<le> length rs \<Longrightarrow> lines_ok (take n rs) (last (0 # map lr_timestamp (take n rs)))"
  unfolding lines_ok_def take_map [symmetric] by (auto simp: take_map min_def dest: sorted_wrt_take in_set_takeD)

lemma stamp_later: "last_ns l < stamp l ts"
  by (simp add: stamp_def)

lemma lines_ok_append:
  assumes "lines_ok rs c" "lr_sequence r = length rs" "lr_phase r = (if even (length rs) then INTENDED else COMMITTED)"
    and "c < lr_timestamp r"
    and "odd (length rs) \<Longrightarrow> lr_token_id r = lr_token_id (last rs)
          \<and> lr_index r = Some (occurrences_of (from_records rs) (lr_activity_sha r))"
  shows "lines_ok (rs @ [r]) (lr_timestamp r)"
proof -
  have O: "map lr_sequence rs = [0..<length rs]" "sorted_wrt (<) (0 # map lr_timestamp rs)" "c = last (0 # map lr_timestamp rs)"
    "map lr_phase rs = map (\<lambda>k. if even k then INTENDED else COMMITTED) [0..<length rs]"
    "\<forall>k < length rs. odd k \<longrightarrow> lr_token_id (rs ! k) = lr_token_id (rs ! (k - 1))"
    "\<forall>k < length rs. odd k \<longrightarrow> lr_index (rs ! k) = Some (occurrences_of (from_records (take k rs)) (lr_activity_sha (rs ! k)))"
    using assms(1) by (simp_all add: lines_ok_def)
  have "t < lr_timestamp r" if "t \<in> set (0 # map lr_timestamp rs)" for t
  proof -
    have "t \<le> last (0 # map lr_timestamp rs)"
      using O(2) that by (cases "0 # map lr_timestamp rs" rule: rev_cases) (auto simp: sorted_wrt_append)
    then show ?thesis using assms(4) O(3) by simp
  qed
  then have "sorted_wrt (<) (0 # map lr_timestamp (rs @ [r]))" using O(2) by (auto simp: sorted_wrt_append)
  moreover have "lr_token_id ((rs @ [r]) ! k) = lr_token_id ((rs @ [r]) ! (k - 1))" if "k < length (rs @ [r])" "odd k" for k
  proof (cases "k = length rs")
    case True
    then have "rs \<noteq> []" using that(2) by auto
    then show ?thesis using True assms(5) that(2) by (simp add: nth_append last_conv_nth)
  next
    case False
    then have "k < length rs" "k - 1 < length rs" using that by auto
    then show ?thesis using O(5) that(2) by (simp add: nth_append)
  qed
  moreover have "lr_index ((rs @ [r]) ! k) = Some (occurrences_of (from_records (take k (rs @ [r]))) (lr_activity_sha ((rs @ [r]) ! k)))"
    if "k < length (rs @ [r])" "odd k" for k
    by (cases "k = length rs") (use that assms(5) O(6) in \<open>auto simp: nth_append\<close>)
  ultimately show ?thesis unfolding lines_ok_def using O(1,4) assms(2,3) by simp
qed

text \<open>Only a trailing intent is outstanding.\<close>

lemma outstanding_iff:
  assumes "inj sha" and L: "lines_ok (ol_records l) c" and T: "tokens_ok sha (ol_records l)"
  shows "outstanding l = (if even (length (ol_records l)) then [] else [token_of (last (ol_records l))])"
proof -
  let ?rs = "ol_records l" and ?n = "length (ol_records l)"
  let ?P = "\<lambda>r. lr_phase r = INTENDED \<and> lr_token_id r \<notin> set (map lr_token_id (committed_records l))"
  have phase: "lr_phase (?rs ! k) = (if even k then INTENDED else COMMITTED)" if "k < ?n" for k
  proof -
    have "map lr_phase ?rs ! k = map (\<lambda>k. if even k then INTENDED else COMMITTED) [0..<?n] ! k"
      using L by (simp only: lines_ok_def)
    then show ?thesis using that by simp
  qed
  have pair: "lr_token_id (?rs ! k) = lr_token_id (?rs ! (k - 1))" if "k < ?n" "odd k" for k
    using L that by (simp add: lines_ok_def)
  have tok: "lr_token_id (?rs ! k) = token_id sha k (lr_path (?rs ! k)) (lr_context (?rs ! k))" if "k < ?n" "even k" for k
    using T that by (simp add: tokens_ok_def)
  have P: "?P (?rs ! k) \<longleftrightarrow> even k \<and> Suc k = ?n" if k: "k < ?n" for k
  proof (cases "even k")
    case True
    have "lr_token_id (?rs ! k) \<in> set (map lr_token_id (committed_records l)) \<longleftrightarrow> Suc k < ?n"
    proof
      assume "lr_token_id (?rs ! k) \<in> set (map lr_token_id (committed_records l))"
      then obtain j where j: "j < ?n" "lr_phase (?rs ! j) = COMMITTED" "lr_token_id (?rs ! j) = lr_token_id (?rs ! k)"
        by (auto simp: committed_records_def in_set_conv_nth)
      have odd: "odd j" using phase [OF j(1)] j(2) by (auto split: if_splits)
      then have e: "even (j - 1)" "j - 1 < ?n" using j(1) by auto
      have "lr_token_id (?rs ! (j - 1)) = lr_token_id (?rs ! k)" using pair [OF j(1) odd] j(3) by simp
      then have "j - 1 = k" unfolding tok [OF e(2,1)] tok [OF k True] by (rule token_id_inj [OF assms(1)])
      then show "Suc k < ?n" using j(1) odd by (auto elim: oddE)
    next
      assume s: "Suc k < ?n"
      then have "?rs ! Suc k \<in> set (committed_records l)" using phase [of "Suc k"] True
        by (auto simp: committed_records_def)
      moreover have "lr_token_id (?rs ! Suc k) = lr_token_id (?rs ! k)" using pair [OF s] True by simp
      ultimately show "lr_token_id (?rs ! k) \<in> set (map lr_token_id (committed_records l))" by (metis imageI set_map)
    qed
    then show ?thesis using True phase [OF k] k by auto
  next
    case False
    then show ?thesis using phase [OF k] by simp
  qed
  show ?thesis
  proof (cases "even ?n")
    case True
    have "\<not> ?P r" if "r \<in> set ?rs" for r
    proof -
      obtain k where k: "k < ?n" "?rs ! k = r" using \<open>r \<in> set ?rs\<close> by (auto simp: in_set_conv_nth)
      have "\<not> (even k \<and> Suc k = ?n)" using True by (metis even_Suc)
      then show ?thesis using P [OF k(1)] unfolding k(2) by blast
    qed
    then have "filter ?P ?rs = []" unfolding filter_empty_conv by blast
    then show ?thesis unfolding outstanding_def using True by simp
  next
    case False
    then have ne: "?rs \<noteq> []" by auto
    have "\<not> ?P r" if "r \<in> set (butlast ?rs)" for r
    proof -
      obtain k where "k < length (butlast ?rs)" "butlast ?rs ! k = r" using \<open>r \<in> set (butlast ?rs)\<close> unfolding in_set_conv_nth by blast
      then show ?thesis using P [of k] by (auto simp: nth_butlast)
    qed
    then have "filter ?P (butlast ?rs) = []" unfolding filter_empty_conv by blast
    moreover have "?P (last ?rs)" using P [of "?n - 1"] ne False by (simp add: last_conv_nth)
    ultimately have "filter ?P (butlast ?rs @ [last ?rs]) = [last ?rs]" by simp
    then show ?thesis unfolding outstanding_def using ne False by simp
  qed
qed

lemma append_record_simps [simp]:
  "ol_records (append_record r l) = ol_records l @ [r]" "last_ns (append_record r l) = lr_timestamp r"
  by (simp_all add: append_record_def)

lemma intend_InrD:
  assumes "intend sha l p context act_sha act objects ts detail = Inr (token, l')"
  obtains r where "outstanding l = []" "l' = append_record r l" "lr_sequence r = length (ol_records l)" "lr_phase r = INTENDED"
    "lr_token_id r = token_id sha (length (ol_records l)) p context" "lr_path r = p" "lr_context r = context"
    "lr_timestamp r = stamp l ts" "token = token_of r" "lr_activity_sha r = act_sha"
proof -
  from assms have ok: "outstanding l = []" by (auto simp: intend_def split: if_splits)
  with assms obtain refs where refs: "as_objects objects = Inr refs"
    by (cases "as_objects objects") (auto simp: intend_def Let_def)
  show ?thesis
    by (rule that [OF ok, of "\<lparr>lr_sequence = length (ol_records l), lr_phase = INTENDED,
        lr_token_id = token_id sha (length (ol_records l)) p context, lr_path = p, lr_context = context,
        lr_activity_sha = act_sha, lr_index = None, lr_detail = detail, lr_objects = refs, lr_activity = act,
        lr_timestamp = stamp l ts\<rparr>"]) (use assms ok refs in \<open>auto simp: intend_def Let_def token_of_def\<close>)
qed

lemma commit_InrD:
  assumes "commit sha l token outcome act_sha act objects ts detail = Inr (key, l')"
  obtains r where "it_token_id token \<in> set (map it_token_id (outstanding l))" "l' = append_record r l"
    "lr_sequence r = length (ol_records l)" "lr_phase r = COMMITTED" "lr_token_id r = it_token_id token"
    "lr_index r = Some (occurrences_of l (lr_activity_sha r))" "lr_timestamp r = stamp l ts"
    "key = \<lparr>ok_activity = lr_activity_sha r, ok_index = occurrences_of l (lr_activity_sha r), ok_context = lr_context r\<rparr>"
    "act_sha = Some a \<Longrightarrow> lr_activity_sha r = a" "lr_context r = it_context token" "lr_path r = it_path token"
proof -
  from assms have out: "it_token_id token \<in> set (map it_token_id (outstanding l))"
    by (auto simp: commit_def split: if_splits)
  with assms obtain intended where i: "by_token l (it_token_id token) INTENDED = Inr intended"
    by (cases "by_token l (it_token_id token) INTENDED") (auto simp: commit_def)
  obtain b d where bd: "(case act_sha of Some a \<Rightarrow> (a, detail)
      | None \<Rightarrow> if lr_activity_sha intended \<noteq> '''' then (lr_activity_sha intended, detail)
          else (sha256 sha (JObj [(''path'', path_json (it_path token))]), strip (detail @ '' ACTIVITY_FROM_PATH''))) = (b, d)"
    by fastforce
  obtain refs where refs: "(case objects of None \<Rightarrow> Inr (lr_objects intended) | Some os \<Rightarrow> as_objects os) = Inr refs"
    using assms out i bd by (cases "case objects of None \<Rightarrow> Inr (lr_objects intended) | Some os \<Rightarrow> as_objects os") (auto simp: commit_def)
  have eq: "commit sha l token outcome act_sha act objects ts detail = Inr (\<lparr>ok_activity = b, ok_index = occurrences_of l b,
        ok_context = it_context token\<rparr>, append_record \<lparr>lr_sequence = length (ol_records l), lr_phase = COMMITTED,
        lr_token_id = it_token_id token, lr_path = it_path token, lr_context = it_context token, lr_activity_sha = b,
        lr_index = Some (occurrences_of l b), lr_detail = (case outcome of None \<Rightarrow> d | Some s \<Rightarrow> strip (d @ '' outcome='' @ s)),
        lr_objects = refs, lr_activity = (case act of None \<Rightarrow> lr_activity intended | Some s \<Rightarrow> s), lr_timestamp = stamp l ts\<rparr> l)"
    using out i bd refs by (simp add: commit_def Let_def)
  show ?thesis by (rule that [OF out]) (use assms eq bd in auto)
qed

lemma written_ok:
  assumes "inj sha" "written sha l"
  shows "lines_ok (ol_records l) (last_ns l) \<and> tokens_ok sha (ol_records l)"
  using assms(2)
proof induction
  case blank
  then show ?case by (simp add: lines_ok_def tokens_ok_def from_records_def)
next
  case (intending l p ctx act_sha act objects ts detail token l')
  from intend_InrD [OF intending.hyps(2)] obtain r where r: "outstanding l = []" "l' = append_record r l"
    "lr_sequence r = length (ol_records l)" "lr_phase r = INTENDED"
    "lr_token_id r = token_id sha (length (ol_records l)) p ctx" "lr_path r = p" "lr_context r = ctx"
    "lr_timestamp r = stamp l ts" by metis
  have "even (length (ol_records l))"
    using outstanding_iff [OF assms(1) conjunct1 [OF intending.IH] conjunct2 [OF intending.IH]] r(1)
    by (auto split: if_splits)
  then have "lines_ok (ol_records l @ [r]) (lr_timestamp r)"
    using intending.IH r stamp_later [of l ts] by (intro lines_ok_append [where c = "last_ns l"]) auto
  moreover have "tokens_ok sha (ol_records l @ [r])"
    using intending.IH r by (auto simp: tokens_ok_def nth_append less_Suc_eq)
  ultimately show ?case using r(2) by simp
next
  case (committing l token outcome act_sha' act' objects' ts detail key l')
  from commit_InrD [OF committing.hyps(2)] obtain r where r: "it_token_id token \<in> set (map it_token_id (outstanding l))"
    "l' = append_record r l" "lr_sequence r = length (ol_records l)" "lr_phase r = COMMITTED"
    "lr_token_id r = it_token_id token" "lr_index r = Some (occurrences_of l (lr_activity_sha r))"
    "lr_timestamp r = stamp l ts" by metis
  have odd: "odd (length (ol_records l))" and tok: "lr_token_id r = lr_token_id (last (ol_records l))"
    using outstanding_iff [OF assms(1) conjunct1 [OF committing.IH] conjunct2 [OF committing.IH]] r(1,5) by (auto simp: token_of_def split: if_splits)
  have "lines_ok (ol_records l @ [r]) (lr_timestamp r)"
    using committing.IH r odd tok stamp_later [of l ts]
    by (intro lines_ok_append [where c = "last_ns l"]) (auto simp: occurrences_of_def from_records_def)
  moreover have "tokens_ok sha (ol_records l @ [r])"
    using committing.IH odd by (auto simp: tokens_ok_def nth_append less_Suc_eq)
  ultimately show ?case using r(2) by simp
qed

section \<open>Properties\<close>

text \<open>
  C39.  The write-ahead discipline holds of every ledger the operations can build: lines are
  numbered in append order, timestamps rise strictly, intents and commits alternate, a commit
  settles the intent before it and counts the earlier occurrences of its activity; and an
  intent is outstanding exactly when it is the last line.
\<close>

theorem ledger_discipline:
  assumes "inj sha" "written sha l"
  shows "lines_ok (ol_records l) (last_ns l)
    \<and> outstanding l = (if even (length (ol_records l)) then [] else [token_of (last (ol_records l))])"
  using written_ok [OF assms] outstanding_iff [OF assms(1)] by blast

lemma phase_counts:
  assumes "map lr_phase rs = map (\<lambda>k. if even k then INTENDED else COMMITTED) [0..<length rs]"
  shows "length (filter (\<lambda>r. lr_phase r = INTENDED) rs) = Suc (length rs) div 2"
    and "length (filter (\<lambda>r. lr_phase r = COMMITTED) rs) = length rs div 2"
proof -
  have len: "length (filter (\<lambda>r. lr_phase r = p) rs) = length (filter (\<lambda>q. q = p) (map lr_phase rs))" for p
    by (simp add: filter_map comp_def)
  have "length (filter (\<lambda>q. q = INTENDED) (map (\<lambda>k. if even k then INTENDED else COMMITTED) [0..<n])) = Suc n div 2"
    "length (filter (\<lambda>q. q = COMMITTED) (map (\<lambda>k. if even k then INTENDED else COMMITTED) [0..<n])) = n div 2" for n
    by (induction n) (auto elim: oddE)
  then show "length (filter (\<lambda>r. lr_phase r = INTENDED) rs) = Suc (length rs) div 2"
    "length (filter (\<lambda>r. lr_phase r = COMMITTED) rs) = length rs div 2" unfolding len assms by blast+
qed

lemma resumable_prefix:
  assumes "inj sha" "written sha l"
  shows "is_resumable (from_records (take n (ol_records l))) \<longleftrightarrow> even (length (take n (ol_records l)))"
    and "map lr_phase (take n (ol_records l)) = map (\<lambda>k. if even k then INTENDED else COMMITTED) [0..<length (take n (ol_records l))]"
proof -
  let ?rs = "take n (ol_records l)"
  have W: "lines_ok (ol_records l) (last_ns l)" "tokens_ok sha (ol_records l)" using written_ok [OF assms] by blast+
  have ok: "\<exists>c. lines_ok ?rs c" "tokens_ok sha ?rs"
    using W(1) lines_ok_take [OF W(1), of n] by (cases "n \<le> length (ol_records l)", auto)
      (use W(2) in \<open>simp add: tokens_ok_def\<close>)
  have "ol_records (from_records ?rs) = ?rs" by (simp add: from_records_def)
  then show "is_resumable (from_records ?rs) \<longleftrightarrow> even (length ?rs)"
    using outstanding_iff [OF assms(1), of "from_records ?rs"] ok unfolding is_resumable_def by force
  show "map lr_phase ?rs = map (\<lambda>k. if even k then INTENDED else COMMITTED) [0..<length ?rs]"
    using ok(1) by (auto simp only: lines_ok_def)
qed

text \<open>
  Crash recovery: a ledger rehydrated from the lines that had been written before any
  crash is resumable exactly when every act that had been announced was also recorded.
\<close>

theorem ledger_crash_recovery:
  assumes "inj sha" "written sha l"
  shows "is_resumable (from_records (take n (ol_records l))) \<longleftrightarrow>
    length (filter (\<lambda>r. lr_phase r = INTENDED) (take n (ol_records l)))
      = length (filter (\<lambda>r. lr_phase r = COMMITTED) (take n (ol_records l)))"
proof -
  note R = resumable_prefix [OF assms, of n]
  have "Suc k div 2 = k div 2 \<longleftrightarrow> even k" for k :: nat by presburger
  then show ?thesis using R(1) phase_counts [OF R(2)] by simp
qed

lemma occurrences_append:
  "occurrences (append_record r l) = occurrences l @ (if lr_phase r = COMMITTED
     then [\<lparr>ok_activity = lr_activity_sha r, ok_index = (case lr_index r of None \<Rightarrow> 0 | Some k \<Rightarrow> k), ok_context = lr_context r\<rparr>] else [])"
  by (simp add: occurrences_def committed_records_def)

lemma occurrences_of_append:
  "occurrences_of (append_record r l) a = occurrences_of l a + (if lr_phase r = COMMITTED \<and> lr_activity_sha r = a then 1 else 0)"
  by (simp add: occurrences_of_def)

text \<open>
  No occurrence identity is used twice: the keys of the committed occurrences are pairwise
  distinct, and those of one activity are numbered below its count.
\<close>

theorem ledger_occurrences_distinct:
  assumes "written sha l"
  shows "distinct (map (\<lambda>k. (ok_activity k, ok_index k)) (occurrences l))
    \<and> list_all (\<lambda>k. ok_index k < occurrences_of l (ok_activity k)) (occurrences l)"
  using assms
proof induction
  case blank
  then show ?case by (simp add: from_records_def occurrences_def committed_records_def)
next
  case (intending l p ctx act_sha act objects ts detail token l')
  from intend_InrD [OF intending.hyps(2)] obtain r where "l' = append_record r l" "lr_phase r = INTENDED" by metis
  then show ?case using intending.IH by (simp add: occurrences_append occurrences_of_append)
next
  case (committing l token outcome act_sha' act' objects' ts detail key l')
  from commit_InrD [OF committing.hyps(2)] obtain r where r: "l' = append_record r l" "lr_phase r = COMMITTED"
    "lr_index r = Some (occurrences_of l (lr_activity_sha r))" by metis
  then show ?case using committing.IH by (auto simp: occurrences_append occurrences_of_append list_all_iff)
qed

lemma fold_max_last: "sorted_wrt (<) (t # ts) \<Longrightarrow> fold max ts (t :: int) = last (t # ts)"
  by (induction ts arbitrary: t) (auto simp: max_def less_imp_le dest: order.strict_trans)

text \<open>
  Persistence round trip: rehydrating the lines of a ledger gives the ledger back, its
  clock included, so timestamps go on rising after a restart.
\<close>

theorem ledger_rehydrates:
  assumes "inj sha" "written sha l"
  shows "from_records (ol_records l) = l"
proof -
  have L: "sorted_wrt (<) (0 # map lr_timestamp (ol_records l))" "last_ns l = last (0 # map lr_timestamp (ol_records l))"
    using written_ok [OF assms] by (simp_all add: lines_ok_def)
  have "last_ns (from_records (ol_records l)) = last_ns l"
  proof (cases "map lr_timestamp (ol_records l)")
    case Nil
    then show ?thesis using L(2) by (simp add: from_records_def)
  next
    case (Cons t ts)
    then show ?thesis using L fold_max_last [of t ts] by (simp add: from_records_def)
  qed
  then show ?thesis by (simp add: from_records_def)
qed

section \<open>A ledger in mid-act\<close>

text \<open>One act recorded, a second one announced; the hash is the identity.\<close>

definition first_act :: "intent_token \<times> occurrence_ledger" where
  "first_act = projr (intend id (from_records []) [0] ''ctx'' ''sha-a'' ''a'' [] None ''PRE_ACT'')"

definition one_act :: occurrence_ledger where
  "one_act = snd (projr (commit id (snd first_act) (fst first_act) None (Some ''sha-a'') None None None ''POST_STEP''))"

definition mid_act :: occurrence_ledger where
  "mid_act = snd (projr (intend id one_act [1] ''ctx'' ''sha-b'' ''b'' [] None ''PRE_ACT''))"

lemmas ledger_eval = intend_def commit_def from_records_def outstanding_def committed_records_def by_token_def token_of_def
  as_objects_def stamp_def append_record_def occurrences_of_def Let_def

lemma first_act_eq: "intend id (from_records []) [0] ''ctx'' ''sha-a'' ''a'' [] None ''PRE_ACT'' = Inr first_act"
  unfolding first_act_def by (simp add: ledger_eval)

lemma one_act_eq: "\<exists>key. commit id (snd first_act) (fst first_act) None (Some ''sha-a'') None None None ''POST_STEP'' = Inr (key, one_act)"
  unfolding one_act_def first_act_def by (simp add: ledger_eval)

lemma mid_act_eq: "\<exists>token. intend id one_act [1] ''ctx'' ''sha-b'' ''b'' [] None ''PRE_ACT'' = Inr (token, mid_act)"
  unfolding mid_act_def one_act_def first_act_def by (simp add: ledger_eval)

lemma mid_act_written: "written id mid_act"
proof -
  have "written id (snd first_act)"
    using written.intending [OF written.blank] first_act_eq by (metis prod.collapse)
  then have "written id one_act" using one_act_eq written.committing by blast
  then show ?thesis using mid_act_eq written.intending by blast
qed

lemma mid_act_length: "length (ol_records mid_act) = 3"
  unfolding mid_act_def one_act_def first_act_def by (simp add: ledger_eval)

theorem ledger_discipline_witness: "outstanding mid_act = [token_of (last (ol_records mid_act))]"
  using ledger_discipline [OF inj_on_id mid_act_written] mid_act_length by simp

theorem ledger_crash_recovery_witness:
  "is_resumable (from_records (take 3 (ol_records mid_act))) \<longleftrightarrow>
    length (filter (\<lambda>r. lr_phase r = INTENDED) (take 3 (ol_records mid_act)))
      = length (filter (\<lambda>r. lr_phase r = COMMITTED) (take 3 (ol_records mid_act)))"
  by (rule ledger_crash_recovery [OF inj_on_id mid_act_written])

theorem ledger_occurrences_distinct_witness:
  "distinct (map (\<lambda>k. (ok_activity k, ok_index k)) (occurrences mid_act))
    \<and> list_all (\<lambda>k. ok_index k < occurrences_of mid_act (ok_activity k)) (occurrences mid_act)"
  by (rule ledger_occurrences_distinct [OF mid_act_written])

theorem ledger_rehydrates_witness: "from_records (ol_records mid_act) = mid_act"
  by (rule ledger_rehydrates [OF inj_on_id mid_act_written])

end
