(* ===== verification/Agent_Replan.thy ===== *)
theory Agent_Replan
  imports Agent_Ledger Powl_Executor_Facts
begin

text \<open>
  \<^verbatim>\<open>agent/replan.py\<close>: which work of one epoch the plan of the next epoch may reuse.  A preserve
  map relates leaves of the new model to occurrences of the ledger; it is inferred, validated
  against the ledger and the model, and turned into the initial marking of the new epoch.
\<close>

section \<open>Modes, refusals and the ledger view\<close>

datatype replanning_mode = CONTINUE | REPAIR | REPLAN | RESCHEDULE | UPDATE_POLICY | LEARN_MODEL
  | SPAWN_CHILD | TERMINATE | REFUSE

datatype replan_refusal = NOT_DOWNWARD_CLOSED | OCCURRENCE_NOT_IN_LEDGER | UNRESUMABLE_TORN_FIRE
  | REDO_WITHOUT_JUSTIFICATION | NON_ADJACENT_EPOCH | DANGLING_PRESERVED_PATH

text \<open>A \<^verbatim>\<open>ReplanError\<close>, or an error of the functions on models.\<close>

datatype replan_exn = ReplanError replan_refusal | Structure exn

abbreviation replan_refuse :: "replan_refusal \<Rightarrow> replan_exn + 'a" where
  "replan_refuse r \<equiv> Inl (ReplanError r)"

fun of_model :: "'a res \<Rightarrow> replan_exn + 'a" where
  "of_model (Inl e) = Inl (Structure e)"
| "of_model (Inr x) = Inr x"

lemma of_model_iff [simp]: "of_model r = Inr x \<longleftrightarrow> r = Inr x"
  by (cases r) simp_all

datatype occurrence_status = Intended | Completed | Torn

record ledger_entry =
  le_key :: occurrence_key
  le_path :: path
  le_status :: occurrence_status
  le_epoch :: int
  le_resumable :: bool

text \<open>A \<^verbatim>\<open>Ledger\<close> is its entries; the entry points also take the write-ahead ledger itself.\<close>

definition from_occurrence_ledger :: "occurrence_ledger \<Rightarrow> int \<Rightarrow> bool \<Rightarrow> ledger_entry list" where
  "from_occurrence_ledger wal epoch committed_only =
     (let settled = map lr_token_id (committed_records wal)
      in concat (map (\<lambda>r.
           if lr_phase r = COMMITTED
           then [\<lparr>le_key = \<lparr>ok_activity = lr_activity_sha r, ok_index = (case lr_index r of None \<Rightarrow> 0 | Some k \<Rightarrow> k),
                    ok_context = lr_context r\<rparr>,
                  le_path = lr_path r, le_status = Completed, le_epoch = epoch, le_resumable = False\<rparr>]
           else if committed_only \<or> lr_token_id r \<in> set settled then []
           else [\<lparr>le_key = \<lparr>ok_activity = lr_activity_sha r,
                    ok_index = provisional_index wal (lr_activity_sha r) (lr_sequence r), ok_context = lr_context r\<rparr>,
                  le_path = lr_path r, le_status = Intended, le_epoch = epoch, le_resumable = False\<rparr>])
         (ol_records wal)))"

datatype ledger_like = View "ledger_entry list" | Wal occurrence_ledger

definition as_ledger :: "ledger_like \<Rightarrow> int \<Rightarrow> bool \<Rightarrow> ledger_entry list" where
  "as_ledger l epoch committed_only = (case l of View es \<Rightarrow> es | Wal w \<Rightarrow> from_occurrence_ledger w epoch committed_only)"

definition for_epoch :: "ledger_entry list \<Rightarrow> int \<Rightarrow> ledger_entry list" where
  "for_epoch es epoch = filter (\<lambda>e. le_epoch e = epoch) es"

definition find_entry :: "ledger_entry list \<Rightarrow> occurrence_key \<Rightarrow> int \<Rightarrow> ledger_entry option" where
  "find_entry es key epoch = find (\<lambda>e. le_epoch e = epoch \<and> le_key e = key) es"

definition completed_count :: "ledger_entry list \<Rightarrow> string \<Rightarrow> nat" where
  "completed_count es activity = length (filter (\<lambda>e. le_status e = Completed \<and> ok_activity (le_key e) = activity) es)"

record plan_epoch =
  pe_index :: int
  pe_model :: pnode

section \<open>Addressing\<close>

lemma size_nth_child [termination_simp]:
  "i < length cs \<Longrightarrow> size (cs ! i) < Suc (size_list size cs)"
  "in_range j (length cs) \<Longrightarrow> size (cs ! nat j) < Suc (size_list size cs)"
proof -
  show 1: "i < length cs \<Longrightarrow> size (cs ! i) < Suc (size_list size cs)" for i
    by (rule le_imp_less_Suc, rule size_list_estimation' [OF nth_mem]) auto
  show "in_range j (length cs) \<Longrightarrow> size (cs ! nat j) < Suc (size_list size cs)" by (intro 1 in_range_nat)
qed

text \<open>The leaves in depth-first order, for a model without foreign nodes.\<close>

fun leaf_paths :: "pnode \<Rightarrow> path \<Rightarrow> path list" where
  "leaf_paths (PartialOrder cs es f cl d) p = concat (map (\<lambda>i. leaf_paths (cs ! i) (p @ [int i])) [0..<length cs])"
| "leaf_paths (ChoiceGraph cs es st en f d) p = concat (map (\<lambda>i. leaf_paths (cs ! i) (p @ [int i])) [0..<length cs])"
| "leaf_paths (Foreign nm) p = []"
| "leaf_paths v p = [p]"

definition address_of :: "(string \<Rightarrow> string) \<Rightarrow> pnode \<Rightarrow> string res" where
  "address_of sha v = (case v of Atom _ _ _ _ \<Rightarrow> activity_sha256 sha v | _ \<Rightarrow> node_id sha v)"

text \<open>\<open>covers v p\<close> is \<open>covers_completion\<close> at a path \<open>p\<close> that addresses \<open>v\<close>.\<close>

fun covers :: "path list \<Rightarrow> pnode \<Rightarrow> path \<Rightarrow> bool res" where
  "covers preserved (PartialOrder cs es f cl d) p = allE (\<lambda>i. covers preserved (cs ! i) (p @ [int i])) [0..<length cs]"
| "covers preserved (ChoiceGraph cs es st en f d) p =
     (if in_range en (length cs) then covers preserved (cs ! nat en) (p @ [en]) else refuse DANGLING_REFERENCE)"
| "covers preserved (Foreign nm) p = Inr False"
| "covers preserved v p = Inr (p \<in> set preserved)"

definition covers_completion :: "pnode \<Rightarrow> path \<Rightarrow> path list \<Rightarrow> bool res" where
  "covers_completion model p preserved = bindE (node_at model p) (\<lambda>v. covers preserved v p)"

section \<open>Inference\<close>

record preserve_map =
  pm_entries :: "(path \<times> occurrence_key) list"
  pm_redo :: "path list"
  pm_justification :: "(path \<times> string) list"
  pm_from :: int
  pm_to :: int

text \<open>\<open>d.setdefault(k, []).append(v)\<close>.\<close>

definition group_add :: "'k \<Rightarrow> 'v \<Rightarrow> ('k \<times> 'v list) list \<Rightarrow> ('k \<times> 'v list) list" where
  "group_add k v d = dict_set k (dict_get d k [] @ [v]) d"

definition group_paths :: "(string \<Rightarrow> string) \<Rightarrow> pnode \<Rightarrow> (string \<times> path list) list res" where
  "group_paths sha model = foldE (\<lambda>d p. bindE (node_at model p) (\<lambda>v. bindE (address_of sha v) (\<lambda>a. Inr (group_add a p d))))
     [] (leaf_paths model [])"

definition align :: "(string \<times> path list) list \<Rightarrow> (path \<times> occurrence_key) list \<Rightarrow> string \<times> ledger_entry list
    \<Rightarrow> (path \<times> occurrence_key) list" where
  "align new_by_activity = (\<lambda>entries (activity, prior).
     let new_paths = sort (dict_get new_by_activity activity [])
     in if length new_paths \<noteq> length prior then entries
        else foldl (\<lambda>d (p, e). dict_set p (le_key e) d) entries
               (zip new_paths (sort_key (\<lambda>e. ok_index (le_key e)) prior)))"

definition infer_preserve_map :: "(string \<Rightarrow> string) \<Rightarrow> plan_epoch \<Rightarrow> ledger_like \<Rightarrow> pnode \<Rightarrow> (replan_exn + preserve_map)" where
  "infer_preserve_map sha prior l model1 =
     (let finished = filter (\<lambda>e. le_status e = Completed) (for_epoch (as_ledger l (pe_index prior) False) (pe_index prior));
          by_activity = foldl (\<lambda>d e. group_add (ok_activity (le_key e)) e d) [] finished
      in bindE (of_model (group_paths sha model1)) (\<lambda>new_by_activity.
           Inr \<lparr>pm_entries = foldl (align new_by_activity) [] by_activity, pm_redo = [], pm_justification = [],
             pm_from = pe_index prior, pm_to = pe_index prior + 1\<rparr>))"

section \<open>Validation\<close>

definition check_leaf :: "path list \<Rightarrow> path \<Rightarrow> (replan_exn + unit)" where
  "check_leaf leaves p = (if p \<notin> set leaves then replan_refuse DANGLING_PRESERVED_PATH else Inr ())"

definition check_redo :: "preserve_map \<Rightarrow> path \<Rightarrow> (replan_exn + unit)" where
  "check_redo pm p =
     (if strip (dict_get (pm_justification pm) p '''') = '''' then replan_refuse REDO_WITHOUT_JUSTIFICATION
      else if p \<in> set (map fst (pm_entries pm)) then replan_refuse REDO_WITHOUT_JUSTIFICATION
      else Inr ())"

definition check_support :: "ledger_entry list \<Rightarrow> int \<Rightarrow> path \<times> occurrence_key \<Rightarrow> (replan_exn + unit)" where
  "check_support es epoch = (\<lambda>(p, key). case find_entry es key epoch of
       None \<Rightarrow> replan_refuse OCCURRENCE_NOT_IN_LEDGER
     | Some e \<Rightarrow> if le_status e = Intended then replan_refuse OCCURRENCE_NOT_IN_LEDGER
         else if le_status e = Torn \<and> \<not> le_resumable e then replan_refuse UNRESUMABLE_TORN_FIRE
         else Inr ())"

definition check_preds :: "pnode \<Rightarrow> path list \<Rightarrow> path \<Rightarrow> nat \<Rightarrow> (replan_exn + unit)" where
  "check_preds model preserved p depth =
     bindE (of_model (node_at model (take depth p))) (\<lambda>parent. case parent of
         PartialOrder cs es f cl d \<Rightarrow> iterE (\<lambda>e. if dst e \<noteq> p ! depth then Inr ()
             else bindE (of_model (covers_completion model (take depth p @ [src e]) preserved)) (\<lambda>ok.
               if \<not> ok then replan_refuse NOT_DOWNWARD_CLOSED else Inr ())) (sorted_edges cl)
       | _ \<Rightarrow> Inr ())"

definition validate_preserve_map :: "pnode \<Rightarrow> preserve_map \<Rightarrow> ledger_like \<Rightarrow> (replan_exn + unit)" where
  "validate_preserve_map model1 pm l =
     (let es = as_ledger l (pm_from pm) False; preserved = map fst (pm_entries pm)
      in if pm_to pm \<noteq> pm_from pm + 1 then replan_refuse NON_ADJACENT_EPOCH
         else bindE (iterE (check_leaf (leaf_paths model1 [])) (sort (remdups (preserved @ pm_redo pm)))) (\<lambda>_.
              bindE (iterE (check_redo pm) (sort (pm_redo pm))) (\<lambda>_.
              bindE (iterE (check_support es (pm_from pm)) (sort_key fst (pm_entries pm))) (\<lambda>_.
              iterE (\<lambda>p. iterE (check_preds model1 preserved p) [0..<length p]) (sort preserved)))))"

section \<open>Seeding\<close>

definition redo_occurrence_key :: "(string \<Rightarrow> string) \<Rightarrow> pnode \<Rightarrow> ledger_like \<Rightarrow> path \<Rightarrow> string \<Rightarrow> (replan_exn + occurrence_key)" where
  "redo_occurrence_key sha model1 l p context =
     bindE (of_model (bindE (node_at model1 p) (address_of sha))) (\<lambda>activity.
       Inr \<lparr>ok_activity = activity, ok_index = completed_count (as_ledger l 0 False) activity, ok_context = context\<rparr>)"

type_synonym seeds = "(path \<times> int option) list \<times> ((path \<times> int) \<times> nat) list"

definition seed_step :: "pnode \<Rightarrow> path \<Rightarrow> seeds \<Rightarrow> nat \<Rightarrow> seeds res" where
  "seed_step model p = (\<lambda>(cur, vis) depth.
     let prefix = take depth p; idx = p ! depth in
     bindE (node_at model prefix) (\<lambda>v. case v of
         ChoiceGraph cs es st en f d \<Rightarrow>
           if dict_get cur prefix None \<noteq> Some idx
           then Inr (dict_set prefix (Some idx) cur, dict_set (prefix, idx) (dict_get vis (prefix, idx) 0 + 1) vis)
           else Inr (cur, vis)
       | _ \<Rightarrow> Inr (cur, vis)))"

definition seed_marking :: "pnode \<Rightarrow> preserve_map \<Rightarrow> (replan_exn + marking)" where
  "seed_marking model1 pm =
     (let preserved = map fst (pm_entries pm)
      in bindE (of_model (foldE (\<lambda>s p. foldE (seed_step model1 p) s [0..<length p]) ([], []) (sort preserved))) (\<lambda>(cur, vis).
         let m = \<lparr>completed = remdups (map snd (pm_entries pm)), cursor = cur, visits = vis,
               fires = length preserved, completed_paths = preserved, rounds = []\<rparr>
         in bindE (of_model (enabled model1 m DEFAULT_BOUND)) (\<lambda>live.
              if set preserved \<inter> set live \<noteq> {} then replan_refuse NOT_DOWNWARD_CLOSED else Inr m)))"

end
