(* ===== verification/Agent_Replan_Facts.thy ===== *)
theory Agent_Replan_Facts
  imports Agent_Replan
begin

text \<open>
  Facts about reuse across epochs: what an inferred map claims, that seeded work is not enabled
  again, that an intention is never preserved; and what validation and redo do not ensure.
\<close>

section \<open>Inference\<close>

lemma dict_set_mem: "(k', v') \<in> set (dict_set k v d) \<Longrightarrow> (k', v') = (k, v) \<or> (k', v') \<in> set d"
  by (induction d) (auto split: if_splits)

lemma group_add_mem:
  assumes "(k', vs) \<in> set (group_add k v d)" "w \<in> set vs"
  shows "(k', w) = (k, v) \<or> (\<exists>us. (k', us) \<in> set d \<and> w \<in> set us)"
proof -
  from dict_set_mem [OF assms(1) [unfolded group_add_def]]
  show ?thesis using assms(2) by (auto simp: dict_get_def split: option.splits dest: map_of_SomeD)
qed

lemma distinct_group_add [simp]: "distinct (map fst d) \<Longrightarrow> distinct (map fst (group_add k v d))"
  by (simp add: group_add_def)

text \<open>The groups of a list of items: their members are items filed under their own key.\<close>

lemma grouped_mem:
  "(k, vs) \<in> set (foldl (\<lambda>d e. group_add (g e) e d) d0 es) \<Longrightarrow> w \<in> set vs \<Longrightarrow>
   (w \<in> set es \<and> g w = k) \<or> (\<exists>us. (k, us) \<in> set d0 \<and> w \<in> set us)"
proof (induction es arbitrary: d0)
  case (Cons e es)
  from Cons.IH [of "group_add (g e) e d0"] Cons.prems show ?case by (auto dest: group_add_mem)
qed auto

lemma grouped_distinct: "distinct (map fst d0) \<Longrightarrow> distinct (map fst (foldl (\<lambda>d e. group_add (g e) e d) d0 es))"
  by (induction es arbitrary: d0) simp_all

lemma grouped_values:
  assumes "distinct es" "\<And>k vs. (k, vs) \<in> set d0 \<Longrightarrow> distinct vs \<and> set vs \<inter> set es = {}"
    and "(k, vs) \<in> set (foldl (\<lambda>d e. group_add (g e) e d) d0 es)"
  shows "distinct vs"
  using assms
proof (induction es arbitrary: d0)
  case (Cons e es)
  have "distinct vs \<and> set vs \<inter> set es = {}" if "(k, vs) \<in> set (group_add (g e) e d0)" for k vs
  proof -
    from dict_set_mem [OF that [unfolded group_add_def]] show ?thesis
    proof
      assume "(k, vs) = (g e, dict_get d0 (g e) [] @ [e])"
      then show ?thesis using Cons.prems(1,2) by (auto simp: dict_get_def split: option.splits dest!: map_of_SomeD)
    qed (use Cons.prems(2) [of k vs] in auto)
  qed
  then show ?case using Cons.IH [of "group_add (g e) e d0"] Cons.prems by simp
qed auto

lemma group_paths_mem:
  assumes "group_paths sha model = Inr d" "(a, ps) \<in> set d" "p \<in> set ps"
  shows "p \<in> set (leaf_paths model []) \<and> bindE (node_at model p) (address_of sha) = Inr a"
proof -
  have "\<forall>(a, ps) \<in> set d. \<forall>p \<in> set ps. p \<in> set (leaf_paths model []) \<and> bindE (node_at model p) (address_of sha) = Inr a"
    using assms(1) unfolding group_paths_def
  proof (rule foldE_invariant)
    fix d p d'
    assume p: "p \<in> set (leaf_paths model [])"
      and inv: "\<forall>(a, ps) \<in> set d. \<forall>p \<in> set ps. p \<in> set (leaf_paths model []) \<and> bindE (node_at model p) (address_of sha) = Inr a"
      and step: "bindE (node_at model p) (\<lambda>v. bindE (address_of sha v) (\<lambda>a. Inr (group_add a p d))) = Inr d'"
    from step obtain a where a: "bindE (node_at model p) (address_of sha) = Inr a" "d' = group_add a p d"
      by (auto simp: bindE_Inr_iff)
    show "\<forall>(a, ps) \<in> set d'. \<forall>p \<in> set ps. p \<in> set (leaf_paths model []) \<and> bindE (node_at model p) (address_of sha) = Inr a"
    proof (intro ballI, clarify)
      fix b ps q assume "(b, ps) \<in> set d'" "q \<in> set ps"
      from group_add_mem [OF this(1) [unfolded a(2)] this(2)]
      show "q \<in> set (leaf_paths model []) \<and> bindE (node_at model q) (address_of sha) = Inr b"
        using inv p a(1) by auto
    qed
  qed simp
  then show ?thesis using assms(2,3) by blast
qed

lemma align_mem:
  assumes "(p, k) \<in> set (align new entries (a, prior))"
  shows "(p, k) \<in> set entries \<or> length (dict_get new a []) = length prior
    \<and> (\<exists>e. (p, e) \<in> set (zip (sort (dict_get new a [])) (sort_key (\<lambda>e. ok_index (le_key e)) prior)) \<and> le_key e = k)"
proof -
  have "(p, k) \<in> set (foldl (\<lambda>d (p, e). dict_set p (le_key e) d) entries zs) \<Longrightarrow>
      (p, k) \<in> set entries \<or> (\<exists>e. (p, e) \<in> set zs \<and> le_key e = k)" for zs
    by (induction zs arbitrary: entries) (auto dest: dict_set_mem)
  then show ?thesis using assms by (auto simp: align_def Let_def split: if_splits)
qed

lemma aligned_mem:
  "(p, k) \<in> set (foldl (align new) entries groups) \<Longrightarrow> (p, k) \<in> set entries \<or>
   (\<exists>a prior e. (a, prior) \<in> set groups \<and> length (dict_get new a []) = length prior
     \<and> (p, e) \<in> set (zip (sort (dict_get new a [])) (sort_key (\<lambda>e. ok_index (le_key e)) prior)) \<and> le_key e = k)"
proof (induction groups arbitrary: entries)
  case (Cons g groups)
  obtain a prior where g: "g = (a, prior)" by fastforce
  have "(p, k) \<in> set (foldl (align new) (align new entries g) groups)" using Cons.prems by simp
  from Cons.IH [OF this] align_mem [of p k new entries a prior] show ?case
    unfolding g by (metis list.set_intros(1,2))
qed simp

lemma dict_get_mem: "x \<in> set (dict_get d k []) \<Longrightarrow> \<exists>xs. (k, xs) \<in> set d \<and> x \<in> set xs"
  by (cases "map_of d k") (auto simp: dict_get_def dest: map_of_SomeD)

text \<open>
  Inference claims only what the ledger and the model support: every entry of an inferred
  map sends a leaf of the new model to a completed occurrence of the prior epoch with the
  leaf's own activity, and no occurrence stands for two leaves when the ledger lists none twice.
\<close>

theorem infer_preserve_map_sound:
  assumes "infer_preserve_map sha prior l model1 = Inr pm"
    and "distinct (map le_key (as_ledger l (pe_index prior) False))"
  shows "\<forall>(p, k) \<in> set (pm_entries pm). p \<in> set (leaf_paths model1 [])
      \<and> bindE (node_at model1 p) (address_of sha) = Inr (ok_activity k)
      \<and> (\<exists>e \<in> set (as_ledger l (pe_index prior) False). le_key e = k \<and> le_epoch e = pe_index prior \<and> le_status e = Completed)
      \<and> (\<forall>(q, k') \<in> set (pm_entries pm). k' = k \<longrightarrow> q = p)"
proof -
  let ?es = "as_ledger l (pe_index prior) False"
  let ?fin = "filter (\<lambda>e. le_status e = Completed) (for_epoch ?es (pe_index prior))"
  let ?by = "foldl (\<lambda>d e. group_add (ok_activity (le_key e)) e d) [] ?fin"
  obtain new where new: "group_paths sha model1 = Inr new" "pm_entries pm = foldl (align new) [] ?by"
    using assms(1) by (auto simp: infer_preserve_map_def Let_def bindE_Inr_iff)
  have fin: "distinct (map le_key ?fin)" using assms(2) unfolding for_epoch_def by (simp add: distinct_map_filter)
  then have fin: "distinct ?fin" "distinct (map le_key ?fin)" by (simp_all add: distinct_map)
  have src: "\<exists>prior e. (ok_activity k, prior) \<in> set ?by \<and> e \<in> set ?fin \<and> le_key e = k
      \<and> (p, e) \<in> set (zip (sort (dict_get new (ok_activity k) [])) (sort_key (\<lambda>e. ok_index (le_key e)) prior))"
    if pk: "(p, k) \<in> set (pm_entries pm)" for p k
  proof -
    from aligned_mem [OF pk [unfolded new(2)]] obtain a prior e where
      e: "(a, prior) \<in> set ?by" "(p, e) \<in> set (zip (sort (dict_get new a [])) (sort_key (\<lambda>e. ok_index (le_key e)) prior))" "le_key e = k"
      by auto
    have "e \<in> set prior" using set_zip_rightD [OF e(2)] by simp
    from grouped_mem [OF e(1) this] have "e \<in> set ?fin" "ok_activity (le_key e) = a" by simp_all
    then show ?thesis using e by blast
  qed
  show ?thesis
  proof (intro ballI, clarify, intro conjI)
    fix p k assume pk: "(p, k) \<in> set (pm_entries pm)"
    from src [OF this] obtain pr e where e: "(ok_activity k, pr) \<in> set ?by" "e \<in> set ?fin" "le_key e = k"
      "(p, e) \<in> set (zip (sort (dict_get new (ok_activity k) [])) (sort_key (\<lambda>e. ok_index (le_key e)) pr))" by blast
    have "p \<in> set (dict_get new (ok_activity k) [])" using set_zip_leftD [OF e(4)] by simp
    from dict_get_mem [OF this] obtain ps where "(ok_activity k, ps) \<in> set new" "p \<in> set ps" by blast
    from group_paths_mem [OF new(1) this] show "p \<in> set (leaf_paths model1 [])"
      "bindE (node_at model1 p) (address_of sha) = Inr (ok_activity k)" by simp_all
    show "\<exists>e \<in> set ?es. le_key e = k \<and> le_epoch e = pe_index prior \<and> le_status e = Completed"
      using e(2,3) by (auto simp: for_epoch_def)
    show "\<forall>(q, k') \<in> set (pm_entries pm). k' = k \<longrightarrow> q = p"
    proof (intro ballI, clarify)
      fix q assume "(q, k) \<in> set (pm_entries pm)"
      from src [OF this] obtain pr' e' where e': "(ok_activity k, pr') \<in> set ?by" "e' \<in> set ?fin" "le_key e' = k"
        "(q, e') \<in> set (zip (sort (dict_get new (ok_activity k) [])) (sort_key (\<lambda>e. ok_index (le_key e)) pr'))" by blast
      have "distinct (map fst ?by)" by (rule grouped_distinct) simp
      then have pr: "pr' = pr" using e'(1) e(1) by (rule eq_key_imp_eq_value)
      have ee: "e' = e" using fin(2) e(2,3) e'(2,3) by (metis (no_types, lifting) distinct_map inj_onD)
      have "distinct pr" by (rule grouped_values [OF fin(1) _ e(1)]) simp
      then have "distinct (sort_key (\<lambda>e. ok_index (le_key e)) pr)" by simp
      moreover obtain i where i: "i < length (sort_key (\<lambda>e. ok_index (le_key e)) pr)" "sort_key (\<lambda>e. ok_index (le_key e)) pr ! i = e"
        "sort (dict_get new (ok_activity k) []) ! i = p" using e(4) by (auto simp: set_zip)
      moreover obtain j where j: "j < length (sort_key (\<lambda>e. ok_index (le_key e)) pr)" "sort_key (\<lambda>e. ok_index (le_key e)) pr ! j = e"
        "sort (dict_get new (ok_activity k) []) ! j = q" using e'(4) unfolding pr ee by (auto simp: set_zip)
      ultimately have "i = j" by (metis nth_eq_iff_index_eq)
      then show "q = p" using i(3) j(3) by simp
    qed
  qed
qed

section \<open>Seeded work stays done\<close>

fun choice_free :: "pnode \<Rightarrow> bool" where
  "choice_free (PartialOrder cs es f cl d) \<longleftrightarrow> list_all choice_free cs"
| "choice_free (ChoiceGraph cs es st en f d) \<longleftrightarrow> False"
| "choice_free v \<longleftrightarrow> True"

lemma choice_free_enabled:
  "choice_free v \<Longrightarrow> enabled_in b cap v p m = Inr live \<Longrightarrow> set live \<inter> set (completed_paths m) = {}"
proof (induction v arbitrary: p live)
  case (PartialOrder cs es f cl d)
  let ?ens = "map (\<lambda>c p m. enabled_in b cap c p m) cs"
  show ?case
  proof (cases "no_more_rounds b cap f p m")
    case False
    then have "order_enabled cs ?ens cl p m = Inr live" using PartialOrder.prems(2) by simp
    then show ?thesis unfolding order_enabled_def
    proof (rule foldE_invariant)
      fix out i out'
      assume i: "i \<in> set [0..<length cs]" and inv: "set out \<inter> set (completed_paths m) = {}"
        and step: "bindE (is_complete (cs ! i) (p @ [int i]) m) (\<lambda>complete.
         if complete then Inr out
         else bindE (allE (\<lambda>j. bindE (child_at cs j) (\<lambda>c. is_complete c (p @ [j]) m)) (closure_preds cl i)) (\<lambda>ready.
           if \<not> ready then Inr out
           else bindE ((?ens ! i) (p @ [int i]) m) (\<lambda>found. Inr (list_union out found)))) = Inr out'"
      from step have "out' = out \<or> (\<exists>found. enabled_in b cap (cs ! i) (p @ [int i]) m = Inr found \<and> out' = list_union out found)"
        using i by (auto simp: bindE_Inr_iff split: if_splits)
      moreover have "set found \<inter> set (completed_paths m) = {}" if "enabled_in b cap (cs ! i) (p @ [int i]) m = Inr found" for found
        using PartialOrder.IH [OF _ _ that] PartialOrder.prems(1) i by (simp add: list_all_length)
      ultimately show "set out' \<inter> set (completed_paths m) = {}" using inv by auto
    qed simp
  qed (use PartialOrder.prems in simp)
qed (auto split: if_splits)

lemma leaf_paths_node_at: "p \<in> set (leaf_paths v q) \<Longrightarrow> \<exists>r w. p = q @ r \<and> node_at v r = Inr w"
proof (induction v arbitrary: q)
  case (PartialOrder cs es f cl d)
  then obtain i where i: "i < length cs" "p \<in> set (leaf_paths (cs ! i) (q @ [int i]))" by auto
  from PartialOrder.IH [OF nth_mem [OF i(1)] i(2)] obtain r w where "p = (q @ [int i]) @ r" "node_at (cs ! i) r = Inr w" by blast
  then have "p = q @ (int i # r)" "node_at (PartialOrder cs es f cl d) (int i # r) = Inr w" using i(1) by simp_all
  then show ?case by blast
next
  case (ChoiceGraph cs es st en f d)
  then obtain i where i: "i < length cs" "p \<in> set (leaf_paths (cs ! i) (q @ [int i]))" by auto
  from ChoiceGraph.IH [OF nth_mem [OF i(1)] i(2)] obtain r w where "p = (q @ [int i]) @ r" "node_at (cs ! i) r = Inr w" by blast
  then have "p = q @ (int i # r)" "node_at (ChoiceGraph cs es st en f d) (int i # r) = Inr w" using i(1) by simp_all
  then show ?case by blast
qed auto

lemma node_at_prefix:
  assumes "node_at v p = Inr w" "k < length p"
  obtains u c where "node_at v (take k p) = Inr u" "node_at u [p ! k] = Inr c"
proof -
  have "p = take k p @ [p ! k] @ drop (Suc k) p" using assms(2) by (simp add: id_take_nth_drop)
  then have "bindE (node_at v (take k p)) (\<lambda>u. bindE (node_at u [p ! k]) (\<lambda>c. node_at c (drop (Suc k) p))) = Inr w"
    using assms(1) by (metis (no_types, lifting) bindE_cong node_at_append)
  then show ?thesis using that by (auto simp only: bindE_Inr_iff)
qed

definition seeds_ok :: "pnode \<Rightarrow> seeds \<Rightarrow> bool" where
  "seeds_ok model s \<longleftrightarrow> (\<forall>(p, c) \<in> set (fst s). \<forall>i. c = Some i \<longrightarrow>
     (\<exists>cs es st en f d. node_at model p = Inr (ChoiceGraph cs es st en f d) \<and> in_range i (length cs)))"

lemma seed_step_ok:
  assumes "node_at model p = Inr w" "k < length p" "seeds_ok model s"
  shows "\<exists>s'. seed_step model p s k = Inr s' \<and> seeds_ok model s'"
proof -
  obtain cur vis where s: "s = (cur, vis)" by fastforce
  obtain u c where u: "node_at model (take k p) = Inr u" "node_at u [p ! k] = Inr c"
    using node_at_prefix [OF assms(1,2)] by blast
  show ?thesis
  proof (cases u)
    case (ChoiceGraph cs es st en f d)
    then have "in_range (p ! k) (length cs)" using u(2) by (simp split: if_splits)
    then show ?thesis using assms(3) u(1) ChoiceGraph
      by (auto simp: seed_step_def s seeds_ok_def Let_def dest!: dict_set_mem)
  qed (use assms(3) u(1) in \<open>simp_all add: seed_step_def s Let_def\<close>)
qed

lemma foldE_exists:
  assumes "\<And>x s. x \<in> set xs \<Longrightarrow> P s \<Longrightarrow> \<exists>s'. f s x = Inr s' \<and> P s'" "P s"
  shows "\<exists>s'. foldE f s xs = Inr s' \<and> P s'"
  using assms
proof (induction xs arbitrary: s)
  case (Cons x xs)
  obtain s1 where "f s x = Inr s1" "P s1" using Cons.prems by (meson list.set_intros(1))
  then show ?case using Cons.IH [of s1] Cons.prems(1) by auto
qed simp

text \<open>
  C40.  Preserved work is not enabled again: on an admitted model a validated preserve map either
  yields a seeded marking, whose completed paths are the preserved ones and which enables none of
  them, or is refused as not downward closed; the refusal is possible only for a model that
  contains a choice graph, and nothing else can be raised.
\<close>

theorem preserved_never_enabled:
  assumes "wf_node model1" "validate_preserve_map model1 pm l = Inr ()"
  shows "case seed_marking model1 pm of
      Inr m \<Rightarrow> completed_paths m = map fst (pm_entries pm)
        \<and> (\<exists>live. enabled model1 m DEFAULT_BOUND = Inr live \<and> set live \<inter> set (completed_paths m) = {})
    | Inl x \<Rightarrow> x = ReplanError NOT_DOWNWARD_CLOSED \<and> \<not> choice_free model1"
proof -
  let ?pres = "map fst (pm_entries pm)"
  have "iterE (check_leaf (leaf_paths model1 [])) (sort (remdups (?pres @ pm_redo pm))) = Inr ()"
    using assms(2) by (auto simp: validate_preserve_map_def Let_def bindE_Inr_iff split: if_splits)
  then have at: "\<exists>w. node_at model1 p = Inr w" if "p \<in> set ?pres" for p
    using leaf_paths_node_at [of p model1 "[]"] that
    by (auto simp: iterE_Inr_iff check_leaf_def split: if_splits)
  have "\<exists>s'. foldE (seed_step model1 p) s [0..<length p] = Inr s' \<and> seeds_ok model1 s'"
    if "p \<in> set (sort ?pres)" "seeds_ok model1 s" for p s
  proof -
    from that(1) have "p \<in> set ?pres" by simp
    from at [OF this] obtain w where w: "node_at model1 p = Inr w" by blast
    show ?thesis by (rule foldE_exists) (use seed_step_ok [OF w] that(2) in auto)
  qed
  moreover have "seeds_ok model1 ([], [])" by (simp add: seeds_ok_def)
  ultimately obtain s where s: "foldE (\<lambda>s p. foldE (seed_step model1 p) s [0..<length p]) ([], []) (sort ?pres) = Inr s"
    "seeds_ok model1 s"
    using foldE_exists [of "sort ?pres" "seeds_ok model1" "\<lambda>s p. foldE (seed_step model1 p) s [0..<length p]" "([], [])"] by blast
  obtain cur vis where cv: "s = (cur, vis)" by fastforce
  let ?m = "\<lparr>completed = remdups (map snd (pm_entries pm)), cursor = cur, visits = vis,
               fires = length ?pres, completed_paths = ?pres, rounds = []\<rparr>"
  have ok: "cursor_ok model1 ?m" using s(2) by (simp add: cursor_ok_def seeds_ok_def cv)
  have "node_at model1 [] = Inr model1" by simp
  from enabled_in_total [OF assms(1) this ok] obtain live where live: "enabled model1 ?m DEFAULT_BOUND = Inr live"
    unfolding enabled_def by blast
  have free: "set live \<inter> set ?pres = {}" if "choice_free model1"
    using choice_free_enabled [OF that live [unfolded enabled_def]] by simp
  have "seed_marking model1 pm = (if set ?pres \<inter> set live \<noteq> {} then replan_refuse NOT_DOWNWARD_CLOSED else Inr ?m)"
    using s(1) live by (simp add: seed_marking_def cv Let_def)
  then show ?thesis using live free by (auto simp: Int_commute)
qed

section \<open>An intention is not preserved\<close>

lemma committed_below:
  assumes "written sha wal" "r \<in> set (ol_records wal)" "lr_phase r = COMMITTED"
  shows "\<exists>k. lr_index r = Some k \<and> k < occurrences_of wal (lr_activity_sha r)"
  using assms
proof (induction arbitrary: r)
  case (intending l p ctx act_sha act objects ts detail token l')
  from intend_InrD [OF intending.hyps(2)] obtain q where "l' = append_record q l" "lr_phase q = INTENDED" by metis
  then show ?case using intending.IH intending.prems by (auto simp: occurrences_of_append)
next
  case (committing l token outcome act_sha' act' objects' ts detail key l')
  from commit_InrD [OF committing.hyps(2)] obtain q where q: "l' = append_record q l" "lr_phase q = COMMITTED"
    "lr_index q = Some (occurrences_of l (lr_activity_sha q))" by metis
  show ?case
  proof (cases "r \<in> set (ol_records l)")
    case True
    then show ?thesis using committing.IH [OF True committing.prems(2)] q(1,2) by (auto simp: occurrences_of_append)
  next
    case False
    then have "r = q" using committing.prems(1) q(1) by simp
    then show ?thesis using q by (simp add: occurrences_of_append)
  qed
qed (simp add: from_records_def)

text \<open>
  An intention is not an observation: when the ledger of the prior epoch ends in an act
  that was announced and never recorded, no preserve map that names the occurrence this act
  would have been is valid.
\<close>

theorem intent_never_preserved:
  assumes "inj sha" "written sha wal" "\<not> is_resumable wal"
    and "(p, \<lparr>ok_activity = lr_activity_sha (last (ol_records wal)), ok_index = occurrences_of wal (lr_activity_sha (last (ol_records wal))),
      ok_context = lr_context (last (ol_records wal))\<rparr>) \<in> set (pm_entries pm)"
  shows "validate_preserve_map model1 pm (Wal wal) \<noteq> Inr ()"
proof
  assume "validate_preserve_map model1 pm (Wal wal) = Inr ()"
  let ?es = "from_occurrence_ledger wal (pm_from pm) False" and ?r = "last (ol_records wal)"
  let ?k = "\<lparr>ok_activity = lr_activity_sha ?r, ok_index = occurrences_of wal (lr_activity_sha ?r), ok_context = lr_context ?r\<rparr>"
  have "iterE (check_support ?es (pm_from pm)) (sort_key fst (pm_entries pm)) = Inr ()"
    using \<open>validate_preserve_map _ _ _ = _\<close>
    by (auto simp: validate_preserve_map_def as_ledger_def Let_def bindE_Inr_iff split: if_splits)
  then have sup: "check_support ?es (pm_from pm) (p, ?k) = Inr ()" using assms(4) by (auto simp: iterE_Inr_iff)
  then obtain e where e: "find_entry ?es ?k (pm_from pm) = Some e" "le_status e \<noteq> Intended"
    by (auto simp: check_support_def split: option.splits if_splits)
  then have mem: "e \<in> set ?es" "le_key e = ?k" by (auto simp: find_entry_def find_Some_iff)
  from mem(1) e(2) obtain r where r: "r \<in> set (ol_records wal)" "lr_phase r = COMMITTED"
    "le_key e = \<lparr>ok_activity = lr_activity_sha r, ok_index = (case lr_index r of None \<Rightarrow> 0 | Some k \<Rightarrow> k), ok_context = lr_context r\<rparr>"
    by (auto simp: from_occurrence_ledger_def Let_def split: if_splits)
  then show False using committed_below [OF assms(2) r(1,2)] mem(2) by auto
qed

lemma token_id_differ: "i \<noteq> j \<Longrightarrow> token_id id i p c \<noteq> token_id id j q d"
  using token_id_inj [OF inj_on_id] by blast

lemma mid_act_outstanding: "\<not> is_resumable mid_act"
  unfolding is_resumable_def mid_act_def one_act_def first_act_def by (simp add: ledger_eval token_id_differ)

section \<open>What validation and redo do not ensure\<close>

definition prior_entry :: "occurrence_key \<Rightarrow> path \<Rightarrow> ledger_entry" where
  "prior_entry k p = \<lparr>le_key = k, le_path = p, le_status = Completed, le_epoch = 0, le_resumable = False\<rparr>"

definition two_for_one :: "occurrence_key \<Rightarrow> preserve_map" where
  "two_for_one k = \<lparr>pm_entries = [([0], k), ([1], k)], pm_redo = [], pm_justification = [], pm_from = 0, pm_to = 1\<rparr>"

lemmas replan_eval = validate_preserve_map_def as_ledger_def check_leaf_def check_redo_def check_support_def check_preds_def
  find_entry_def covers_completion_def seed_marking_def seed_step_def prior_entry_def sorted_edges_def edge_key_def

lemma two_for_one_valid: "validate_preserve_map two_steps (two_for_one k) (View [prior_entry k p]) = Inr ()"
  by (simp add: two_for_one_def replan_eval run_eval two_steps_def)

text \<open>
  Validation compares neither activities nor counts: one completed occurrence, of whatever
  activity, passes as the past of both steps of a plan, and the plan is seeded as final with
  nothing executed.
\<close>

theorem one_occurrence_preserves_all:
  "validate_preserve_map two_steps (two_for_one k) (View [prior_entry k p]) = Inr ()
   \<and> (\<exists>m. seed_marking two_steps (two_for_one k) = Inr m \<and> is_final two_steps m = Inr True)"
  using two_for_one_valid by (simp add: two_for_one_def replan_eval run_eval two_steps_def)

theorem preserved_never_enabled_witness:
  "\<forall>k. \<exists>m live. seed_marking two_steps (two_for_one k) = Inr m \<and> enabled two_steps m DEFAULT_BOUND = Inr live
    \<and> completed_paths m = map fst (pm_entries (two_for_one k)) \<and> set live \<inter> set (map fst (pm_entries (two_for_one k))) = {}"
proof
  fix k
  have "choice_free two_steps" by (simp add: two_steps_def)
  then show "\<exists>m live. seed_marking two_steps (two_for_one k) = Inr m \<and> enabled two_steps m DEFAULT_BOUND = Inr live
    \<and> completed_paths m = map fst (pm_entries (two_for_one k)) \<and> set live \<inter> set (map fst (pm_entries (two_for_one k))) = {}"
    using preserved_never_enabled [OF two_steps_wf two_for_one_valid, of k] by (auto split: sum.splits)
qed

theorem infer_preserve_map_sound_witness:
  "\<forall>k. \<exists>pm. infer_preserve_map id \<lparr>pe_index = 0, pe_model = two_steps\<rparr> (View [prior_entry k [0]]) two_steps = Inr pm
    \<and> (\<forall>(p, j) \<in> set (pm_entries pm). p \<in> set (leaf_paths two_steps []) \<and> j = k)"
proof
  fix k
  let ?pe = "\<lparr>pe_index = 0, pe_model = two_steps\<rparr>"
  obtain pm where pm: "infer_preserve_map id ?pe (View [prior_entry k [0]]) two_steps = Inr pm"
    by (simp add: infer_preserve_map_def Let_def group_paths_def run_eval two_steps_def address_of_def)
  have "distinct (map le_key (as_ledger (View [prior_entry k [0]]) (pe_index ?pe) False))" by (simp add: as_ledger_def)
  from infer_preserve_map_sound [OF pm this] show "\<exists>pm. infer_preserve_map id ?pe (View [prior_entry k [0]]) two_steps = Inr pm
      \<and> (\<forall>(p, j) \<in> set (pm_entries pm). p \<in> set (leaf_paths two_steps []) \<and> j = k)"
    using pm by (auto simp: as_ledger_def prior_entry_def)
qed

definition claims_intent :: preserve_map where
  "claims_intent = \<lparr>pm_entries = [([1], \<lparr>ok_activity = lr_activity_sha (last (ol_records mid_act)),
       ok_index = occurrences_of mid_act (lr_activity_sha (last (ol_records mid_act))),
       ok_context = lr_context (last (ol_records mid_act))\<rparr>)],
     pm_redo = [], pm_justification = [], pm_from = 0, pm_to = 1\<rparr>"

theorem intent_never_preserved_witness: "validate_preserve_map two_steps claims_intent (Wal mid_act) \<noteq> Inr ()"
  by (rule intent_never_preserved [OF inj_on_id mid_act_written mid_act_outstanding, of "[1]"]) (simp add: claims_intent_def)

definition redo_first :: preserve_map where
  "redo_first = \<lparr>pm_entries = [], pm_redo = [[0]], pm_justification = [([0], ''again'')], pm_from = 0, pm_to = 1\<rparr>"

text \<open>
  A redo reuses the prior occurrence: after \<open>a\<close> has been completed once, a justified redo
  of it is announced with index 1, but firing it from the seeded marking records index 0, the
  very key of the prior occurrence when the context is the same.
\<close>

theorem redo_overwrites_occurrence:
  "\<exists>a m m'. activity_sha256 sha (act ''a'') = Inr a
    \<and> validate_preserve_map two_steps redo_first (View [prior_entry \<lparr>ok_activity = a, ok_index = 0, ok_context = ctx\<rparr> [0]]) = Inr ()
    \<and> redo_occurrence_key sha two_steps (View [prior_entry \<lparr>ok_activity = a, ok_index = 0, ok_context = ctx\<rparr> [0]]) [0] ctx
        = Inr \<lparr>ok_activity = a, ok_index = 1, ok_context = ctx\<rparr>
    \<and> seed_marking two_steps redo_first = Inr m \<and> fire sha two_steps m [0] ctx DEFAULT_BOUND = Inr m'
    \<and> completed m' = [\<lparr>ok_activity = a, ok_index = 0, ok_context = ctx\<rparr>]"
  by (simp add: redo_first_def replan_eval run_eval two_steps_def redo_occurrence_key_def address_of_def completed_count_def
      strip_def is_space_def)

end
