(* ===== verification/Agent_Session.thy ===== *)
theory Agent_Session
  imports Agent_Ledger Powl_Normalize
begin

text \<open>
  \<^verbatim>\<open>agent/epoch.py\<close>, \<^verbatim>\<open>agent/bridge.py\<close> and \<^verbatim>\<open>agent/session.py\<close>: a session is a stack of
  decision epochs over one write-ahead ledger.  A Python method that mutates the session and
  may raise is a function from the session to a result and a session: what was written
  before an exception stays written.  The domain and the policy of a rollout are parameters.
\<close>

section \<open>Results with state\<close>

definition of_exn :: "'a res \<Rightarrow> 'a agent" where
  "of_exn r = (case r of Inl e \<Rightarrow> Inl (ModelError e) | Inr x \<Rightarrow> Inr x)"

definition bindS :: "'a agent \<times> 's \<Rightarrow> ('a \<Rightarrow> 's \<Rightarrow> 'b agent \<times> 's) \<Rightarrow> 'b agent \<times> 's" where
  "bindS r k = (case r of (Inl e, s) \<Rightarrow> (Inl e, s) | (Inr x, s) \<Rightarrow> k x s)"

lemma of_exn_simps [simp]: "of_exn (Inl e) = Inl (ModelError e)" "of_exn (Inr x) = Inr x"
  by (simp_all add: of_exn_def)

lemma of_exn_iff [simp]: "of_exn r = Inr x \<longleftrightarrow> r = Inr x"
  by (cases r) simp_all

lemma bindS_simps [simp]: "bindS (Inl e, s) k = (Inl e, s)" "bindS (Inr x, s) k = k x s"
  by (simp_all add: bindS_def)

section \<open>Decision epochs\<close>

datatype epoch_standing = ALIVE | PARTIAL_ALIVE | BLOCKED | SUPERSEDED | UNKNOWN | UNSUPPORTED

definition standing_name :: "epoch_standing \<Rightarrow> string" where
  "standing_name st = (case st of ALIVE \<Rightarrow> ''ALIVE'' | PARTIAL_ALIVE \<Rightarrow> ''PARTIAL_ALIVE'' | BLOCKED \<Rightarrow> ''BLOCKED''
     | SUPERSEDED \<Rightarrow> ''SUPERSEDED'' | UNKNOWN \<Rightarrow> ''UNKNOWN'' | UNSUPPORTED \<Rightarrow> ''UNSUPPORTED'')"

fun atom_labels :: "pnode \<Rightarrow> string list" where
  "atom_labels (Atom l a b c) = [l]"
| "atom_labels (PartialOrder cs es f cl d) = remdups (concat (map atom_labels cs))"
| "atom_labels (ChoiceGraph cs es st en f d) = remdups (concat (map atom_labels cs))"
| "atom_labels v = []"

record epoch =
  ep_id :: string
  ep_model :: pnode
  ep_digest :: string
  ep_bound :: bound
  ep_marking :: marking
  ep_choices :: "choice_record list"
  ep_supersedes :: "string list"
  ep_preserves :: "string list"
  ep_standing :: epoch_standing

abbreviation json_strings :: "string list \<Rightarrow> json" where
  "json_strings ss \<equiv> JList (map JStr ss)"

definition create_epoch :: "(string \<Rightarrow> string) \<Rightarrow> pnode \<Rightarrow> string \<Rightarrow> nat \<Rightarrow> bound \<Rightarrow> string list \<Rightarrow> string list \<Rightarrow> epoch res" where
  "create_epoch sha model sid n b sps pres = bindE (model_digest sha model) (\<lambda>digest.
     Inr \<lparr>ep_id = sha256 sha (JObj [(''session_id'', JStr sid), (''index'', JInt (int n)), (''model_sha256'', JStr digest),
            (''bound_sha256'', JStr (bound_sha256 sha b)), (''supersedes'', json_strings sps),
            (''preserves'', json_strings (sort pres))]),
          ep_model = model, ep_digest = digest, ep_bound = b, ep_marking = INITIAL_MARKING, ep_choices = [],
          ep_supersedes = sps, ep_preserves = pres, ep_standing = UNKNOWN\<rparr>)"

definition epoch_enabled :: "epoch \<Rightarrow> path list res" where
  "epoch_enabled e = (if ep_standing e = SUPERSEDED then Inr [] else enabled (ep_model e) (ep_marking e) (ep_bound e))"

definition epoch_is_final :: "epoch \<Rightarrow> bool res" where
  "epoch_is_final e = is_final (ep_model e) (ep_marking e)"

definition advanced :: "epoch \<Rightarrow> marking \<Rightarrow> choice_record \<Rightarrow> epoch_standing \<Rightarrow> epoch" where
  "advanced e m r st = e\<lparr>ep_marking := m, ep_choices := ep_choices e @ [r], ep_standing := st\<rparr>"

definition with_standing :: "epoch_standing \<Rightarrow> epoch \<Rightarrow> epoch" where
  "with_standing st e = e\<lparr>ep_standing := st\<rparr>"

definition lineage_material :: "(string \<Rightarrow> string) \<Rightarrow> epoch \<Rightarrow> json" where
  "lineage_material sha e = JObj
     [(''epoch_id'', JStr (ep_id e)), (''model_sha256'', JStr (ep_digest e)), (''bound_sha256'', JStr (bound_sha256 sha (ep_bound e))),
      (''supersedes'', json_strings (ep_supersedes e)), (''preserves'', json_strings (sort (ep_preserves e))),
      (''standing'', JStr (standing_name (ep_standing e)))]"

section \<open>The session\<close>

text \<open>
  The identities of the domain and solver classes are reflected from Python code, so they
  are values of the session: \<open>se_solver\<close> holds the qualified name and the identity.
  The receipt leaves out the domain evidence and the two constant texts.
\<close>

record epoch_receipt =
  er_session :: string
  er_epoch :: string
  er_model :: string
  er_bound :: string
  er_standing :: epoch_standing
  er_blocked :: "string option"
  er_steps :: nat
  er_trace :: "string list"
  er_occurrences :: "occurrence_key list"
  er_marking :: string
  er_supersedes :: "string list"
  er_preserves :: "string list"
  er_sha :: string

record session =
  se_id :: string
  se_domain :: json
  se_solver :: "(string \<times> json) option"
  se_bound :: bound
  se_ledger :: occurrence_ledger
  se_epochs :: "epoch list"
  se_receipts :: "epoch_receipt list"
  se_pending :: "(intent_token \<times> path \<times> path list) option"
  se_closed :: bool

definition solver_json :: "(string \<times> json) option \<Rightarrow> json" where
  "solver_json sol = (case sol of None \<Rightarrow> JNull | Some (name, ident) \<Rightarrow> ident)"

definition new_session :: "(string \<Rightarrow> string) \<Rightarrow> json \<Rightarrow> (string \<times> json) option \<Rightarrow> bound \<Rightarrow> string option
    \<Rightarrow> occurrence_ledger option \<Rightarrow> session agent" where
  "new_session sha domj sol b sid ledger =
     (let l = (case ledger of None \<Rightarrow> from_records [] | Some l \<Rightarrow> l)
      in bindE (assert_resumable l) (\<lambda>_. Inr
         \<lparr>se_id = (let derived = sha256 sha (JObj [(''domain'', domj), (''solver'', solver_json sol),
                      (''bound_sha256'', JStr (bound_sha256 sha b))])
                   in case sid of None \<Rightarrow> derived | Some t \<Rightarrow> if t = '''' then derived else t),
          se_domain = domj, se_solver = sol, se_bound = b, se_ledger = l, se_epochs = [], se_receipts = [],
          se_pending = None, se_closed = False\<rparr>))"

definition open_epoch :: "(string \<Rightarrow> string) \<Rightarrow> pnode \<Rightarrow> string list \<Rightarrow> string list \<Rightarrow> marking option \<Rightarrow> session
    \<Rightarrow> epoch agent \<times> session" where
  "open_epoch sha model sps pres seed s =
     (if se_closed s then (agent_refuse SESSION_CLOSED, s)
      else if filter (\<lambda>x. x \<notin> set (map ep_id (se_epochs s))) sps \<noteq> [] then (agent_refuse UNKNOWN_SUPERSEDED_EPOCH, s)
      else bindS (of_exn (create_epoch sha model (se_id s) (length (se_epochs s)) (se_bound s) sps pres), s) (\<lambda>e s.
        let e = (case seed of None \<Rightarrow> e | Some m \<Rightarrow> e\<lparr>ep_marking := m\<rparr>) in
        if filter (\<lambda>l. l \<notin> set (atom_labels (ep_model e))) pres \<noteq> [] then (agent_refuse PRESERVATION_VIOLATED, s)
        else (Inr e, s\<lparr>se_epochs := map (\<lambda>x. if ep_id x \<in> set sps then with_standing SUPERSEDED x else x) (se_epochs s) @ [e]\<rparr>)))"

definition replan :: "(string \<Rightarrow> string) \<Rightarrow> pnode \<Rightarrow> string list \<Rightarrow> marking option \<Rightarrow> session \<Rightarrow> epoch agent \<times> session" where
  "replan sha model pres seed s =
     (if se_epochs s = [] then (agent_refuse NO_OPEN_EPOCH, s)
      else open_epoch sha model [ep_id (last (se_epochs s))] pres seed s)"

definition current :: "session \<Rightarrow> epoch agent" where
  "current s = (if se_epochs s = [] then agent_refuse NO_OPEN_EPOCH else Inr (last (se_epochs s)))"

text \<open>\<^verbatim>\<open>self._epochs[-1] = e\<close>.\<close>

definition set_current :: "epoch \<Rightarrow> session \<Rightarrow> session" where
  "set_current e s = s\<lparr>se_epochs := butlast (se_epochs s) @ [e]\<rparr>"

definition context_sha :: "(string \<Rightarrow> string) \<Rightarrow> session \<Rightarrow> epoch \<Rightarrow> string" where
  "context_sha sha s e = sha256 sha (JObj [(''session_id'', JStr (se_id s)), (''epoch_id'', JStr (ep_id e))])"

definition decided_by :: "session \<Rightarrow> string" where
  "decided_by s = ''policy:'' @ (case se_solver s of None \<Rightarrow> ''autofde_lab.utils.rollout.RandomWalk'' | Some (name, ident) \<Rightarrow> name)"

definition session_intend :: "(string \<Rightarrow> string) \<Rightarrow> path \<Rightarrow> string \<Rightarrow> string \<Rightarrow> session \<Rightarrow> intent_token agent \<times> session" where
  "session_intend sha p context a s = (case intend sha (se_ledger s) p context a '''' [] None ''PRE_ACT'' of
       Inl x \<Rightarrow> (Inl x, s) | Inr (token, l) \<Rightarrow> (Inr token, s\<lparr>se_ledger := l\<rparr>))"

definition session_commit :: "(string \<Rightarrow> string) \<Rightarrow> intent_token \<Rightarrow> string \<Rightarrow> string \<Rightarrow> session \<Rightarrow> occurrence_key agent \<times> session" where
  "session_commit sha token a detail s = (case commit sha (se_ledger s) token None (Some a) None None None detail of
       Inl x \<Rightarrow> (Inl x, s) | Inr (key, l) \<Rightarrow> (Inr key, s\<lparr>se_ledger := l\<rparr>))"

definition leaf_activity :: "(string \<Rightarrow> string) \<Rightarrow> epoch \<Rightarrow> path \<Rightarrow> string res" where
  "leaf_activity sha e p = bindE (node_at (ep_model e) p) (activity_of sha)"

section \<open>Resolving actions\<close>

text \<open>
  What \<open>action_labels\<close> reads of an action: the items of each agent, an item by its \<^verbatim>\<open>name\<close>
  attribute, when it is a text, and its \<^verbatim>\<open>str\<close>.
\<close>

datatype item = Item "string option" string
datatype agent_action = One item | Several "item list"
datatype domain_action = Single agent_action | PerAgent "agent_action list"

definition item_labels :: "item \<Rightarrow> string list" where
  "item_labels i = (case i of Item (Some n) t \<Rightarrow> [n, t] | Item None t \<Rightarrow> [t])"

definition action_labels :: "domain_action \<Rightarrow> string list" where
  "action_labels a =
     (let candidates = (case a of Single c \<Rightarrow> [c] | PerAgent cs \<Rightarrow> cs);
          inner = concat (map (\<lambda>c. case c of One i \<Rightarrow> [i] | Several is \<Rightarrow> is) candidates)
      in remdups (concat (map item_labels inner)))"

text \<open>\<open>same pay a\<close> is the truth of \<^verbatim>\<open>atom.action == action\<close>.\<close>

definition matches_node :: "(action \<Rightarrow> domain_action \<Rightarrow> bool) \<Rightarrow> domain_action \<Rightarrow> pnode \<Rightarrow> bool" where
  "matches_node same a v = (case v of
       Atom l pay b c \<Rightarrow> if pay \<noteq> NoAction then same pay a else l \<in> set (action_labels a)
     | _ \<Rightarrow> False)"

definition resolve_enabled_node :: "(action \<Rightarrow> domain_action \<Rightarrow> bool) \<Rightarrow> epoch \<Rightarrow> domain_action \<Rightarrow> path agent" where
  "resolve_enabled_node same e a = bindE (of_exn (epoch_enabled e)) (\<lambda>live.
     bindE (of_exn (mapE (node_at (ep_model e)) (sort live))) (\<lambda>nodes.
       case map fst (filter (\<lambda>(p, v). matches_node same a v) (zip (sort live) nodes)) of
         [p] \<Rightarrow> Inr p
       | _ \<Rightarrow> agent_refuse ACTION_NODE_UNRESOLVED))"

section \<open>Steps\<close>

definition register_intent :: "(string \<Rightarrow> string) \<Rightarrow> (action \<Rightarrow> domain_action \<Rightarrow> bool) \<Rightarrow> domain_action \<Rightarrow> session
    \<Rightarrow> intent_token agent \<times> session" where
  "register_intent sha same a s =
     bindS (current s, s) (\<lambda>e s. bindS (of_exn (epoch_enabled e), s) (\<lambda>live s.
     bindS (resolve_enabled_node same e a, s) (\<lambda>p s. bindS (of_exn (leaf_activity sha e p), s) (\<lambda>act s.
     bindS (session_intend sha p (context_sha sha s e) act s) (\<lambda>token s.
       (Inr token, s\<lparr>se_pending := Some (token, p, sort live)\<rparr>))))))"

text \<open>
  \<open>take_step\<close> is what \<^verbatim>\<open>step\<close> and \<^verbatim>\<open>_commit_intent\<close> have in common: fire, record the
  choice, replace the current epoch.
\<close>

definition take_step :: "(string \<Rightarrow> string) \<Rightarrow> epoch \<Rightarrow> path \<Rightarrow> path list \<Rightarrow> string \<Rightarrow> session \<Rightarrow> choice_record agent \<times> session" where
  "take_step sha e p live by s =
     bindS (of_exn (fire sha (ep_model e) (ep_marking e) p (context_sha sha s e) (se_bound s)), s) (\<lambda>m s.
       let r = \<lparr>cr_step = length (ep_choices e), cr_path = p, cr_enabled = live, cr_chosen = p, cr_decided_by = by,
                cr_context = context_sha sha s e\<rparr>
       in (Inr r, set_current (advanced e m r PARTIAL_ALIVE) s))"

definition commit_intent :: "(string \<Rightarrow> string) \<Rightarrow> string \<Rightarrow> session \<Rightarrow> unit agent \<times> session" where
  "commit_intent sha detail s = (case se_pending s of
       None \<Rightarrow> (agent_refuse ACTION_NODE_UNRESOLVED, s)
     | Some (token, p, live) \<Rightarrow>
         bindS (current s, s\<lparr>se_pending := None\<rparr>) (\<lambda>e s.
         bindS (take_step sha e p live (decided_by s) s) (\<lambda>r s.
         bindS (of_exn (leaf_activity sha e p), s) (\<lambda>act s.
         bindS (session_commit sha token act detail s) (\<lambda>key s. (Inr (), s))))))"

text \<open>\<^verbatim>\<open>step\<close>; an empty \<open>by\<close> means the session's own policy, as an absent one does.\<close>

definition step :: "(string \<Rightarrow> string) \<Rightarrow> path \<Rightarrow> string option \<Rightarrow> session \<Rightarrow> (choice_record \<times> occurrence_key) agent \<times> session" where
  "step sha p by s =
     bindS (current s, s) (\<lambda>e s. bindS (of_exn (enabled (ep_model e) (ep_marking e) (se_bound s)), s) (\<lambda>live s.
       if p \<notin> set live then (Inl (ModelError (PowlError LANGUAGE_MISMATCH)), s)
       else bindS (of_exn (leaf_activity sha e p), s) (\<lambda>act s.
         bindS (session_intend sha p (context_sha sha s e) act s) (\<lambda>token s.
         bindS (take_step sha e p (sort live) (case by of None \<Rightarrow> decided_by s | Some t \<Rightarrow> if t = '''' then decided_by s else t) s) (\<lambda>r s.
         bindS (session_commit sha token act ''POST_STEP'' s) (\<lambda>key s. (Inr (r, key), s)))))))"

section \<open>Receipts\<close>

definition receipt :: "(string \<Rightarrow> string) \<Rightarrow> session \<Rightarrow> epoch \<Rightarrow> string option \<Rightarrow> epoch_receipt agent" where
  "receipt sha s e blocked = bindE (of_exn (trace_of (ep_model e) (ep_choices e))) (\<lambda>tr. Inr
     \<lparr>er_session = se_id s, er_epoch = ep_id e, er_model = ep_digest e, er_bound = bound_sha256 sha (se_bound s),
      er_standing = ep_standing e, er_blocked = blocked, er_steps = length (ep_choices e), er_trace = tr,
      er_occurrences = occurrences (se_ledger s), er_marking = sha256 sha (digest_material (ep_marking e)),
      er_supersedes = ep_supersedes e, er_preserves = ep_preserves e,
      er_sha = sha256 sha (JObj
        [(''schema'', JStr ''autofde_lab.agent.epoch_receipt/2''), (''session_id'', JStr (se_id s)), (''epoch_id'', JStr (ep_id e)),
         (''model_sha256'', JStr (ep_digest e)), (''bound_sha256'', JStr (bound_sha256 sha (se_bound s))),
         (''standing'', JStr (standing_name (ep_standing e))),
         (''blocked_reason'', case blocked of None \<Rightarrow> JNull | Some t \<Rightarrow> JStr t),
         (''marking'', digest_material (ep_marking e)), (''trace'', json_strings tr),
         (''ledger_sha256'', JStr (ledger_sha256 sha (se_ledger s)))])\<rparr>)"

text \<open>
  \<open>finish\<close> is the end of \<^verbatim>\<open>seal_epoch\<close> and of \<^verbatim>\<open>advance\<close>: the standing is read off the
  marking unless the rollout was blocked, and the receipt is filed.
\<close>

definition finish_epoch :: "(string \<Rightarrow> string) \<Rightarrow> string option \<Rightarrow> session \<Rightarrow> epoch_receipt agent \<times> session" where
  "finish_epoch sha blocked s =
     bindS (current s, s) (\<lambda>e s.
     bindS (if blocked \<noteq> None then Inr BLOCKED
            else bindE (of_exn (epoch_is_final e)) (\<lambda>final.
              Inr (if final then ALIVE else if ep_choices e \<noteq> [] then PARTIAL_ALIVE else UNKNOWN)), s) (\<lambda>st s.
     let e = with_standing st e; s = set_current e s in
     bindS (receipt sha s e blocked, s) (\<lambda>r s. (Inr r, s\<lparr>se_receipts := se_receipts s @ [r]\<rparr>))))"

definition seal_epoch :: "(string \<Rightarrow> string) \<Rightarrow> session \<Rightarrow> epoch_receipt agent \<times> session" where
  "seal_epoch sha s = finish_epoch sha None s"

record agent_outcome =
  ao_session :: string
  ao_epochs :: "epoch_receipt list"
  ao_standing :: epoch_standing
  ao_blocked :: "string option"
  ao_input :: string
  ao_lineage :: string
  ao_sha :: string

definition overall :: "epoch_receipt list \<Rightarrow> epoch_standing \<times> string option" where
  "overall rs = (case filter (\<lambda>r. er_standing r = BLOCKED) rs of
       r # _ \<Rightarrow> (BLOCKED, er_blocked r)
     | [] \<Rightarrow> if rs = [] then (UNKNOWN, None)
         else if list_all (\<lambda>r. er_standing r = ALIVE \<or> er_standing r = SUPERSEDED) rs then (ALIVE, None)
         else (PARTIAL_ALIVE, None))"

definition session_outcome :: "(string \<Rightarrow> string) \<Rightarrow> session \<Rightarrow> agent_outcome agent" where
  "session_outcome sha s = bindE (assert_resumable (se_ledger s)) (\<lambda>_.
     let (st, reason) = overall (se_receipts s);
         input = sha256 sha (JObj [(''session_id'', JStr (se_id s)), (''domain'', se_domain s), (''solver'', solver_json (se_solver s)),
           (''bound_sha256'', JStr (bound_sha256 sha (se_bound s))), (''models'', json_strings (map ep_digest (se_epochs s)))]);
         lineage = sha256 sha (JList (map (lineage_material sha) (se_epochs s)))
     in Inr \<lparr>ao_session = se_id s, ao_epochs = se_receipts s, ao_standing = st, ao_blocked = reason, ao_input = input,
          ao_lineage = lineage,
          ao_sha = sha256 sha (JObj [(''input_sha256'', JStr input), (''lineage_sha256'', JStr lineage),
            (''ledger_sha256'', JStr (ledger_sha256 sha (se_ledger s))), (''epochs'', json_strings (map er_sha (se_receipts s))),
            (''standing'', JStr (standing_name st))])\<rparr>)"

definition close_session :: "(string \<Rightarrow> string) \<Rightarrow> session \<Rightarrow> agent_outcome agent \<times> session" where
  "close_session sha s = bindS (session_outcome sha s, s) (\<lambda>out s. (Inr out, s\<lparr>se_closed := True\<rparr>))"

section \<open>Rollouts\<close>

text \<open>
  One episode of \<^verbatim>\<open>utils.rollout\<close> as \<open>advance\<close> calls it, over a world that holds the policy, the
  domain and the last observation.  \<open>reset_policy\<close> is the reset that \<open>advance\<close> makes itself,
  \<open>reset_domain\<close> the start of the episode up to its first observation, \<open>pick_action\<close> the policy,
  \<open>apply_action\<close> a step of the domain with its termination flag, and \<open>ask_goal\<close> the query of the goal
  after the loop, which a domain without goals leaves out; each may raise.  The proxy registers
  the intent before the domain steps; the callback commits it after, or at the end of an episode
  that the domain terminated.  Without \<open>max_steps\<close> the loop has no bound of its own, so it takes fuel.
\<close>

record 'w environment =
  reset_policy :: "'w \<Rightarrow> 'w agent"
  reset_domain :: "'w \<Rightarrow> 'w agent"
  pick_action :: "'w \<Rightarrow> (domain_action \<times> 'w) agent"
  apply_action :: "domain_action \<Rightarrow> 'w \<Rightarrow> (bool \<times> 'w) agent"
  ask_goal :: "'w \<Rightarrow> 'w agent"

definition at_episode_end :: "(string \<Rightarrow> string) \<Rightarrow> session \<Rightarrow> unit agent \<times> session" where
  "at_episode_end sha s = (if se_pending s \<noteq> None then commit_intent sha ''AT_EPISODE_END_TERMINAL'' s else (Inr (), s))"

definition end_episode :: "(string \<Rightarrow> string) \<Rightarrow> 'w environment \<Rightarrow> 'w \<Rightarrow> session \<Rightarrow> unit agent \<times> session" where
  "end_episode sha env w s = (case ask_goal env w of Inl x \<Rightarrow> (Inl x, s) | Inr _ \<Rightarrow> at_episode_end sha s)"

fun episode :: "(string \<Rightarrow> string) \<Rightarrow> (action \<Rightarrow> domain_action \<Rightarrow> bool) \<Rightarrow> 'w environment \<Rightarrow> int option \<Rightarrow> nat \<Rightarrow> int \<Rightarrow> 'w
    \<Rightarrow> session \<Rightarrow> (unit agent \<times> session) option" where
  "episode sha same env max_steps 0 k w s = None"
| "episode sha same env max_steps (Suc n) k w s =
     (if (case max_steps of None \<Rightarrow> False | Some h \<Rightarrow> k > h) then Some (end_episode sha env w s)
      else case pick_action env w of Inl x \<Rightarrow> Some (Inl x, s) | Inr (a, w) \<Rightarrow>
       (case register_intent sha same a s of (Inl x, s) \<Rightarrow> Some (Inl x, s) | (Inr token, s) \<Rightarrow>
       (case apply_action env a w of Inl x \<Rightarrow> Some (Inl x, s) | Inr (terminated, w) \<Rightarrow>
          if terminated then Some (end_episode sha env w s)
          else case commit_intent sha ''AT_EPISODE_STEP'' s of (Inl x, s) \<Rightarrow> Some (Inl x, s)
            | (Inr _, s) \<Rightarrow> episode sha same env max_steps n (k + 1) w s)))"

definition one_rollout :: "(string \<Rightarrow> string) \<Rightarrow> (action \<Rightarrow> domain_action \<Rightarrow> bool) \<Rightarrow> 'w environment \<Rightarrow> int option \<Rightarrow> nat \<Rightarrow> 'w
    \<Rightarrow> session \<Rightarrow> (unit agent \<times> session) option" where
  "one_rollout sha same env max_steps fuel w s = (case reset_domain env w of
       Inl x \<Rightarrow> Some (Inl x, s)
     | Inr w \<Rightarrow> episode sha same env max_steps fuel 1 w s)"

definition blocked_unresolved :: string where
  "blocked_unresolved = ''BLOCKED:ACTION_NODE_UNRESOLVED''"

definition advance :: "(string \<Rightarrow> string) \<Rightarrow> (action \<Rightarrow> domain_action \<Rightarrow> bool) \<Rightarrow> 'w environment \<Rightarrow> int option \<Rightarrow> nat \<Rightarrow> 'w
    \<Rightarrow> session \<Rightarrow> (epoch_receipt agent \<times> session) option" where
  "advance sha same env max_steps fuel w s = (case current s of Inl x \<Rightarrow> Some (Inl x, s) | Inr e \<Rightarrow>
     (case reset_policy env w of Inl x \<Rightarrow> Some (Inl x, s) | Inr w \<Rightarrow>
     (case one_rollout sha same env max_steps fuel w s of None \<Rightarrow> None
      | Some (Inl x, s) \<Rightarrow> Some (if x = AgentRefusal ACTION_NODE_UNRESOLVED then finish_epoch sha (Some blocked_unresolved) s else (Inl x, s))
      | Some (Inr _, s) \<Rightarrow> Some (finish_epoch sha None s))))"

end
