(* ===== verification/Agent_Session_Facts.thy ===== *)
theory Agent_Session_Facts
  imports Agent_Session Powl_Executor_Facts
begin

text \<open>
  Facts about sessions: one act writes an intent, fires, records the choice and commits, in that
  order; what every public operation keeps; how long a rollout can last; and where the ledger
  and the epochs part.
\<close>

section \<open>One act\<close>

text \<open>
  \<open>perform\<close> is the act that \<^verbatim>\<open>step\<close> and the register/commit pair of a rollout share.
\<close>

definition perform :: "(string \<Rightarrow> string) \<Rightarrow> epoch \<Rightarrow> path \<Rightarrow> path list \<Rightarrow> string \<Rightarrow> string \<Rightarrow> string \<Rightarrow> session
    \<Rightarrow> (choice_record \<times> occurrence_key) agent \<times> session" where
  "perform sha e p live a by detail s =
     bindS (session_intend sha p (context_sha sha s e) a s) (\<lambda>token s.
     bindS (take_step sha e p live by s) (\<lambda>r s.
     bindS (session_commit sha token a detail s) (\<lambda>key s. (Inr (r, key), s))))"

definition decider :: "session \<Rightarrow> string option \<Rightarrow> string" where
  "decider s by = (case by of None \<Rightarrow> decided_by s | Some t \<Rightarrow> if t = '''' then decided_by s else t)"

definition choice_of :: "(string \<Rightarrow> string) \<Rightarrow> session \<Rightarrow> epoch \<Rightarrow> path \<Rightarrow> path list \<Rightarrow> string \<Rightarrow> choice_record" where
  "choice_of sha s e p live by = \<lparr>cr_step = length (ep_choices e), cr_path = p, cr_enabled = live, cr_chosen = p,
     cr_decided_by = by, cr_context = context_sha sha s e\<rparr>"

lemma bindS_cong:
  "r = r' \<Longrightarrow> (\<And>x s. r' = (Inr x, s) \<Longrightarrow> k x s = k' x s) \<Longrightarrow> bindS r k = bindS r' k'"
  by (auto simp: bindS_def split: prod.split sum.split)

text \<open>Fields of the session that an operation on one of them leaves alone.\<close>

lemma context_sha_frame [simp]:
  "context_sha sha (s\<lparr>se_ledger := l\<rparr>) e = context_sha sha s e"
  "context_sha sha (s\<lparr>se_pending := q\<rparr>) e = context_sha sha s e"
  "context_sha sha (set_current f s) e = context_sha sha s e"
  by (simp_all add: context_sha_def set_current_def)

lemma decided_by_frame [simp]:
  "decided_by (s\<lparr>se_ledger := l\<rparr>) = decided_by s"
  "decided_by (s\<lparr>se_pending := q\<rparr>) = decided_by s"
  by (simp_all add: decided_by_def)

lemma set_current_fields [simp]:
  "se_id (set_current e s) = se_id s" "se_bound (set_current e s) = se_bound s" "se_ledger (set_current e s) = se_ledger s"
  "se_pending (set_current e s) = se_pending s" "se_closed (set_current e s) = se_closed s"
  "se_receipts (set_current e s) = se_receipts s" "se_epochs (set_current e s) = butlast (se_epochs s) @ [e]"
  by (simp_all add: set_current_def)

lemma current_iff: "current s = Inr e \<longleftrightarrow> se_epochs s \<noteq> [] \<and> last (se_epochs s) = e"
  by (auto simp: current_def)

lemma current_frame [simp]:
  "current (s\<lparr>se_ledger := l\<rparr>) = current s" "current (s\<lparr>se_pending := q\<rparr>) = current s"
  "current (s\<lparr>se_receipts := rs\<rparr>) = current s" "current (set_current e s) = Inr e"
  by (simp_all add: current_def)

text \<open>A write of the ledger: an intent is accepted exactly when none is outstanding, and its commit then is.\<close>

lemma commit_accepted:
  assumes "it_token_id token \<in> set (map it_token_id (outstanding l))"
  shows "\<exists>key l'. commit sha l token None (Some a) None None None d = Inr (key, l')"
proof -
  from assms obtain r where r: "r \<in> set (ol_records l)" "lr_phase r = INTENDED" "lr_token_id r = it_token_id token"
    by (auto simp: outstanding_def token_of_def)
  then obtain q where "by_token l (it_token_id token) INTENDED = Inr q"
    by (cases "find (\<lambda>r. lr_token_id r = it_token_id token \<and> lr_phase r = INTENDED) (ol_records l)")
      (auto simp: by_token_def find_None_iff)
  then show ?thesis using assms by (simp add: commit_def Let_def)
qed

text \<open>An intent followed by its commit, on a ledger that the operations built.\<close>

lemma intended_outstanding:
  assumes "inj sha" "written sha l" "intend sha l p ctx a lbl objects ts d = Inr (token, l1)"
  shows "outstanding l1 = [token]" "written sha l1" "committed_records l1 = committed_records l"
    "it_path token = p" "it_context token = ctx"
proof -
  from intend_InrD [OF assms(3)] obtain r where r: "outstanding l = []" "l1 = append_record r l" "lr_phase r = INTENDED"
    "token = token_of r" "lr_path r = p" "lr_context r = ctx" by metis
  show w: "written sha l1" by (rule written.intending [OF assms(2,3)])
  have "even (length (ol_records l))"
    using outstanding_iff [OF assms(1)] written_ok [OF assms(1,2)] r(1) by (metis list.distinct(1))
  then show "outstanding l1 = [token]"
    using outstanding_iff [OF assms(1)] written_ok [OF assms(1) w] r(2,4) by fastforce
  show "committed_records l1 = committed_records l" using r(2,3) by (simp add: committed_records_def)
  show "it_path token = p" "it_context token = ctx" using r(4-6) by (simp_all add: token_of_def)
qed

lemma committed_resumable:
  assumes "inj sha" "written sha l" "outstanding l = [token]" "commit sha l token out (Some a) lbl os ts d = Inr (key, l')"
  shows "is_resumable l'" "written sha l'"
    "\<exists>r. committed_records l' = committed_records l @ [r] \<and> lr_activity_sha r = a \<and> lr_path r = it_path token \<and> lr_context r = it_context token
       \<and> ok_activity key = a"
proof -
  from commit_InrD [OF assms(4)] obtain r where r: "l' = append_record r l" "lr_phase r = COMMITTED" "lr_activity_sha r = a"
    "lr_path r = it_path token" "lr_context r = it_context token" "ok_activity key = a" by (metis occurrence_key.select_convs(1))
  show w: "written sha l'" by (rule written.committing [OF assms(2,4)])
  have "odd (length (ol_records l))"
    using outstanding_iff [OF assms(1)] written_ok [OF assms(1,2)] assms(3) by fastforce
  then show "is_resumable l'" unfolding is_resumable_def
    using outstanding_iff [OF assms(1)] written_ok [OF assms(1) w] r(1) by fastforce
  show "\<exists>r. committed_records l' = committed_records l @ [r] \<and> lr_activity_sha r = a \<and> lr_path r = it_path token \<and> lr_context r = it_context token
       \<and> ok_activity key = a"
    using r by (auto simp: committed_records_def)
qed

text \<open>The three ways an act can go on a ledger that the operations built.\<close>

lemma perform_cases [consumes 3, case_names refused torn performed]:
  assumes "inj sha" "written sha (se_ledger s)" "perform sha e p live a by d s = (r, s')"
  obtains "outstanding (se_ledger s) \<noteq> []" "r = agent_refuse INTENT_ALREADY_OUTSTANDING" "s' = s"
  | token l x where "outstanding (se_ledger s) = []"
      "intend sha (se_ledger s) p (context_sha sha s e) a '''' [] None ''PRE_ACT'' = Inr (token, l)"
      "fire sha (ep_model e) (ep_marking e) p (context_sha sha s e) (se_bound s) = Inl x"
      "r = Inl (ModelError x)" "s' = s\<lparr>se_ledger := l\<rparr>"
  | token l m key l' where "outstanding (se_ledger s) = []"
      "intend sha (se_ledger s) p (context_sha sha s e) a '''' [] None ''PRE_ACT'' = Inr (token, l)"
      "fire sha (ep_model e) (ep_marking e) p (context_sha sha s e) (se_bound s) = Inr m"
      "commit sha l token None (Some a) None None None d = Inr (key, l')"
      "r = Inr (choice_of sha s e p live by, key)"
      "s' = set_current (advanced e m (choice_of sha s e p live by) PARTIAL_ALIVE) (s\<lparr>se_ledger := l'\<rparr>)"
proof (cases "outstanding (se_ledger s) = []")
  case False
  then have "session_intend sha p (context_sha sha s e) a s = (agent_refuse INTENT_ALREADY_OUTSTANDING, s)"
    by (simp add: session_intend_def intend_def)
  then have "(r, s') = (agent_refuse INTENT_ALREADY_OUTSTANDING, s)" unfolding assms(3) [symmetric] perform_def by simp
  then show ?thesis using False that(1) by blast
next
  case True
  let ?ctx = "context_sha sha s e"
  obtain token l where i: "intend sha (se_ledger s) p ?ctx a '''' [] None ''PRE_ACT'' = Inr (token, l)"
    using True by (simp add: intend_def as_objects_def Let_def)
  note o = intended_outstanding [OF assms(1,2) i]
  show ?thesis
  proof (cases "fire sha (ep_model e) (ep_marking e) p ?ctx (se_bound s)")
    case (Inl x)
    then show ?thesis using assms(3) i that(2) [OF True i] by (simp add: perform_def session_intend_def take_step_def)
  next
    case (Inr m)
    obtain key l' where c: "commit sha l token None (Some a) None None None d = Inr (key, l')"
      using commit_accepted [of token l sha a d] o(1) by auto
    let ?c = "choice_of sha s e p live by"
    have "take_step sha e p live by (s\<lparr>se_ledger := l\<rparr>) = (Inr ?c, set_current (advanced e m ?c PARTIAL_ALIVE) (s\<lparr>se_ledger := l\<rparr>))"
      using Inr by (simp add: take_step_def choice_of_def Let_def)
    then have "perform sha e p live a by d s = (Inr (?c, key), set_current (advanced e m ?c PARTIAL_ALIVE) (s\<lparr>se_ledger := l'\<rparr>))"
      using i c by (simp add: perform_def session_intend_def session_commit_def set_current_def)
    then have "r = Inr (?c, key)" "s' = set_current (advanced e m ?c PARTIAL_ALIVE) (s\<lparr>se_ledger := l'\<rparr>)"
      using assms(3) by simp_all
    then show ?thesis by (rule that(3) [OF True i Inr c])
  qed
qed

lemma step_perform:
  "step sha p by s =
     bindS (current s, s) (\<lambda>e s. bindS (of_exn (enabled (ep_model e) (ep_marking e) (se_bound s)), s) (\<lambda>live s.
       if p \<notin> set live then (Inl (ModelError (PowlError LANGUAGE_MISMATCH)), s)
       else bindS (of_exn (leaf_activity sha e p), s) (\<lambda>a s. perform sha e p (sort live) a (decider s by) ''POST_STEP'' s)))"
proof -
  have "decider s' by = decider s by" if "session_intend sha p c a s = (Inr x, s')" for p c a s s' x
    using that by (auto simp: session_intend_def decider_def split: sum.splits option.split)
  then show ?thesis unfolding step_def perform_def decider_def [symmetric]
    by (intro bindS_cong refl if_cong) (auto simp: current_def split: if_splits)
qed

section \<open>Public operations\<close>

inductive session_op :: "(string \<Rightarrow> string) \<Rightarrow> (action \<Rightarrow> domain_action \<Rightarrow> bool) \<Rightarrow> 'w environment \<Rightarrow> session \<Rightarrow> session \<Rightarrow> bool"
  for sha :: "string \<Rightarrow> string" and same :: "action \<Rightarrow> domain_action \<Rightarrow> bool" and env :: "'w environment" where
  opened: "open_epoch sha model sps pres seed s = (r, s') \<Longrightarrow> session_op sha same env s s'"
| replanned: "replan sha model pres seed s = (r, s') \<Longrightarrow> session_op sha same env s s'"
| stepped: "step sha p by s = (r', s') \<Longrightarrow> session_op sha same env s s'"
| sealed: "seal_epoch sha s = (r'', s') \<Longrightarrow> session_op sha same env s s'"
| rolled: "advance sha same env max_steps n w s = Some (r'', s') \<Longrightarrow> session_op sha same env s s'"
| closed: "close_session sha s = (out, s') \<Longrightarrow> session_op sha same env s s'"

abbreviation session_run :: "(string \<Rightarrow> string) \<Rightarrow> (action \<Rightarrow> domain_action \<Rightarrow> bool) \<Rightarrow> 'w environment \<Rightarrow> session \<Rightarrow> session \<Rightarrow> bool" where
  "session_run sha same env \<equiv> (session_op sha same env)\<^sup>*\<^sup>*"

text \<open>A domain whose steps and goal queries raise nothing.\<close>

definition steady :: "'w environment \<Rightarrow> bool" where
  "steady env \<longleftrightarrow> (\<forall>a w. \<exists>r. apply_action env a w = Inr r) \<and> (\<forall>w. \<exists>w'. ask_goal env w = Inr w')"

lemma end_steady: "steady env \<Longrightarrow> end_episode sha env w s = at_episode_end sha s"
  unfolding steady_def end_episode_def by (metis sum.case(2))

definition seeded :: "marking option \<Rightarrow> epoch \<Rightarrow> epoch" where
  "seeded seed e = (case seed of None \<Rightarrow> e | Some m \<Rightarrow> e\<lparr>ep_marking := m\<rparr>)"

definition supersede :: "string list \<Rightarrow> epoch \<Rightarrow> epoch" where
  "supersede sps x = (if ep_id x \<in> set sps then with_standing SUPERSEDED x else x)"

lemma open_epoch_cases:
  assumes "open_epoch sha model sps pres seed s = (r, s')"
  obtains "s' = s" | e where "\<not> se_closed s" "set sps \<subseteq> set (map ep_id (se_epochs s))"
    "create_epoch sha model (se_id s) (length (se_epochs s)) (se_bound s) sps pres = Inr e"
    "r = Inr (seeded seed e)" "s' = s\<lparr>se_epochs := map (supersede sps) (se_epochs s) @ [seeded seed e]\<rparr>"
proof (cases "create_epoch sha model (se_id s) (length (se_epochs s)) (se_bound s) sps pres")
  case (Inl x)
  then show ?thesis using assms that(1) by (auto simp: open_epoch_def split: if_splits)
next
  case (Inr e)
  let ?drop = "filter (\<lambda>l. l \<notin> set (atom_labels (ep_model (seeded seed e)))) pres \<noteq> []"
    and ?unknown = "filter (\<lambda>x. x \<notin> set (map ep_id (se_epochs s))) sps \<noteq> []"
    and ?next = "s\<lparr>se_epochs := map (supersede sps) (se_epochs s) @ [seeded seed e]\<rparr>"
  have eq: "open_epoch sha model sps pres seed s = (if se_closed s then (agent_refuse SESSION_CLOSED, s)
      else if ?unknown then (agent_refuse UNKNOWN_SUPERSEDED_EPOCH, s)
      else if ?drop then (agent_refuse PRESERVATION_VIOLATED, s) else (Inr (seeded seed e), ?next))"
    unfolding open_epoch_def Inr seeded_def [symmetric] supersede_def [symmetric] by (simp only: of_exn_simps bindS_simps Let_def)
  show ?thesis
  proof (cases "se_closed s \<or> ?unknown \<or> ?drop")
    case True
    then have "s' = s" using assms unfolding eq by (metis prod.inject)
    then show ?thesis by (rule that(1))
  next
    case False
    then have "(r, s') = (Inr (seeded seed e), ?next)" using assms unfolding eq by argo
    moreover have "set sps \<subseteq> set (map ep_id (se_epochs s))" using False unfolding filter_empty_conv by blast
    ultimately show ?thesis using False Inr that(2) by blast
  qed
qed

text \<open>Registering an intent and committing it is one act, of the step whose path the action resolves to.\<close>

lemma single_iff: "(case xs of [p] \<Rightarrow> Inr p | _ \<Rightarrow> Inl x) = Inr q \<longleftrightarrow> xs = [q]"
  by (auto split: list.split)

lemma resolve_live:
  assumes "resolve_enabled_node same e a = Inr p"
  obtains live where "epoch_enabled e = Inr live" "p \<in> set live"
proof -
  from assms obtain live nodes where l: "epoch_enabled e = Inr live" "mapE (node_at (ep_model e)) (sort live) = Inr nodes"
    "map fst (filter (\<lambda>(p, v). matches_node same a v) (zip (sort live) nodes)) = [p]"
    unfolding resolve_enabled_node_def bindE_Inr_iff of_exn_iff single_iff by (elim exE conjE) assumption
  then have "p \<in> set (map fst (zip (sort live) nodes))" by (metis filter_is_subset image_mono list.set_intros(1) set_map subsetD)
  then have "p \<in> set live" by (auto dest: set_zip_leftD)
  then show ?thesis using that l(1) by blast
qed

lemma register_refused: "register_intent sha same a s = (Inl x, s') \<Longrightarrow> s' = s"
  by (auto simp: register_intent_def bindS_def session_intend_def split: prod.splits sum.splits)

lemma register_commit:
  assumes "register_intent sha same a s = (Inr token, s1)" "se_pending s = None"
  obtains e live p t where "current s = Inr e" "epoch_enabled e = Inr live" "p \<in> set live" "leaf_activity sha e p = Inr t"
    "\<And>d r s'. commit_intent sha d s1 = (r, s') \<Longrightarrow> \<exists>r'. perform sha e p (sort live) t (decided_by s) d s = (r', s')"
    "\<exists>l. s1 = s\<lparr>se_ledger := l, se_pending := Some (token, p, sort live)\<rparr>
       \<and> intend sha (se_ledger s) p (context_sha sha s e) t '''' [] None ''PRE_ACT'' = Inr (token, l)"
proof -
  obtain e where e: "current s = Inr e" using assms(1) by (cases "current s") (auto simp: register_intent_def)
  obtain live where live: "epoch_enabled e = Inr live" using assms(1) e by (cases "epoch_enabled e") (auto simp: register_intent_def)
  obtain p where p: "resolve_enabled_node same e a = Inr p"
    using assms(1) e live by (cases "resolve_enabled_node same e a") (auto simp: register_intent_def)
  obtain t where t: "leaf_activity sha e p = Inr t"
    using assms(1) e live p by (cases "leaf_activity sha e p") (auto simp: register_intent_def)
  obtain l where l: "intend sha (se_ledger s) p (context_sha sha s e) t '''' [] None ''PRE_ACT'' = Inr (token, l)"
    "s1 = s\<lparr>se_ledger := l, se_pending := Some (token, p, sort live)\<rparr>"
    using assms(1) e live p t by (auto simp: register_intent_def session_intend_def split: sum.splits)
  have pend: "s1\<lparr>se_pending := None\<rparr> = s\<lparr>se_ledger := l\<rparr>" using l(2) assms(2) by simp
  have "\<exists>r'. perform sha e p (sort live) t (decided_by s) d s = (r', s')" if "commit_intent sha d s1 = (r, s')" for d r s'
  proof -
    have "commit_intent sha d s1 = bindS (take_step sha e p (sort live) (decided_by s) (s\<lparr>se_ledger := l\<rparr>)) (\<lambda>r s.
        bindS (session_commit sha token t d s) (\<lambda>key s. (Inr (), s)))"
      unfolding commit_intent_def using l(2) pend e t by simp
    moreover have "perform sha e p (sort live) t (decided_by s) d s =
        bindS (take_step sha e p (sort live) (decided_by s) (s\<lparr>se_ledger := l\<rparr>)) (\<lambda>r s.
        bindS (session_commit sha token t d s) (\<lambda>key s. (Inr (r, key), s)))"
      using l(1) by (simp add: perform_def session_intend_def)
    ultimately show ?thesis using that by (auto simp: bindS_def split: prod.splits sum.splits)
  qed
  moreover have "p \<in> set live" using resolve_live [OF p] live by (metis sum.inject(2))
  ultimately show ?thesis using that e live t l by blast
qed

section \<open>What every operation keeps\<close>

text \<open>
  A property of idle sessions kept by the four writes of which the operations consist: an act,
  a new epoch, a new standing of the current epoch, a receipt or the closing.
\<close>

locale session_property =
  fixes sha :: "string \<Rightarrow> string" and P :: "session \<Rightarrow> bool"
  assumes idle: "P s \<Longrightarrow> se_pending s = None"
    and bounded: "P s \<Longrightarrow> e \<in> set (se_epochs s) \<Longrightarrow> ep_bound e = se_bound s"
    and performs: "P s \<Longrightarrow> current s = Inr e \<Longrightarrow> enabled (ep_model e) (ep_marking e) (se_bound s) = Inr live \<Longrightarrow> p \<in> set live
      \<Longrightarrow> leaf_activity sha e p = Inr a \<Longrightarrow> perform sha e p (sort live) a b d s = (r, s') \<Longrightarrow> P s'"
    and opens: "P s \<Longrightarrow> \<not> se_closed s
      \<Longrightarrow> create_epoch sha model (se_id s) (length (se_epochs s)) (se_bound s) sps pres = Inr e
      \<Longrightarrow> P (s\<lparr>se_epochs := map (supersede sps) (se_epochs s) @ [seeded seed e]\<rparr>)"
    and restands: "P s \<Longrightarrow> current s = Inr e \<Longrightarrow> st \<noteq> SUPERSEDED \<Longrightarrow> P (set_current (with_standing st e) s)"
    and files: "P s \<Longrightarrow> P (s\<lparr>se_receipts := se_receipts s @ [q]\<rparr>)"
    and closes: "P s \<Longrightarrow> P (s\<lparr>se_closed := True\<rparr>)"
begin

lemma open_keeps: "P s \<Longrightarrow> open_epoch sha model sps pres seed s = (r, s') \<Longrightarrow> P s'"
  by (erule open_epoch_cases) (auto intro: opens)

lemma step_keeps:
  assumes "P s" "step sha p b s = (r, s')"
  shows "P s'"
proof (cases "current s")
  case (Inl x)
  then show ?thesis using assms by (simp add: step_perform)
next
  case e: (Inr e)
  show ?thesis
  proof (cases "enabled (ep_model e) (ep_marking e) (se_bound s)")
    case (Inl x)
    then show ?thesis using assms e by (simp add: step_perform)
  next
    case live: (Inr live)
    show ?thesis
    proof (cases "leaf_activity sha e p")
      case (Inl x)
      then show ?thesis using assms e live by (simp add: step_perform split: if_splits)
    next
      case (Inr a)
      then show ?thesis using assms e live performs [OF assms(1) e live] by (auto simp: step_perform split: if_splits)
    qed
  qed
qed

lemma finish_keeps:
  assumes "P s" "finish_epoch sha blocked s = (r, s')"
  shows "P s'"
proof (cases "current s")
  case (Inl x)
  then show ?thesis using assms by (simp add: finish_epoch_def)
next
  case e: (Inr e)
  let ?st = "if blocked \<noteq> None then Inr BLOCKED
            else bindE (of_exn (epoch_is_final e)) (\<lambda>final.
              Inr (if final then ALIVE else if ep_choices e \<noteq> [] then PARTIAL_ALIVE else UNKNOWN))"
  show ?thesis
  proof (cases ?st)
    case (Inl x)
    then show ?thesis using assms e by (simp add: finish_epoch_def)
  next
    case (Inr st)
    then have "st \<noteq> SUPERSEDED" by (auto simp: bindE_Inr_iff split: if_splits)
    then have k: "P (set_current (with_standing st e) s)" by (rule restands [OF assms(1) e])
    have eq: "finish_epoch sha blocked s = bindS (receipt sha (set_current (with_standing st e) s) (with_standing st e) blocked,
        set_current (with_standing st e) s) (\<lambda>r s. (Inr r, s\<lparr>se_receipts := se_receipts s @ [r]\<rparr>))"
      unfolding finish_epoch_def e bindS_simps Inr Let_def ..
    show ?thesis
    proof (cases "receipt sha (set_current (with_standing st e) s) (with_standing st e) blocked")
      case (Inl x)
      then show ?thesis using assms(2) k unfolding eq by simp
    next
      case (Inr q)
      then show ?thesis using assms(2) files [OF k, of q] unfolding eq by simp
    qed
  qed
qed

lemma commit_keeps:
  assumes "P s" "register_intent sha same a s = (Inr token, s1)" "commit_intent sha d s1 = (r, s')"
  shows "P s'"
proof -
  from register_commit [OF assms(2) idle [OF assms(1)]] obtain e live p t where e: "current s = Inr e" "epoch_enabled e = Inr live"
    "p \<in> set live" "leaf_activity sha e p = Inr t"
    "\<And>d r s'. commit_intent sha d s1 = (r, s') \<Longrightarrow> \<exists>r'. perform sha e p (sort live) t (decided_by s) d s = (r', s')" by metis
  have "ep_bound e = se_bound s" using bounded [OF assms(1), of e] e(1) by (auto simp: current_iff)
  then have "enabled (ep_model e) (ep_marking e) (se_bound s) = Inr live"
    using e(2,3) by (auto simp: epoch_enabled_def split: if_splits)
  then show ?thesis using e(5) [OF assms(3)] performs [OF assms(1) e(1) _ e(3,4)] by blast
qed

lemma episode_keeps:
  assumes "P s" "steady env" "episode sha same env max_steps n k w s = Some (r, s')"
  shows "P s'"
  using assms(1,3)
proof (induction n arbitrary: k w s)
  case (Suc n)
  show ?case
  proof (cases "case max_steps of None \<Rightarrow> False | Some h \<Rightarrow> k > h")
    case True
    then show ?thesis using Suc.prems idle by (simp add: end_steady [OF assms(2)] at_episode_end_def)
  next
    case False
    show ?thesis
    proof (cases "pick_action env w")
      case (Inl x)
      then show ?thesis using Suc.prems False by simp
    next
      case a: (Inr aw)
      obtain a w1 where aw: "aw = (a, w1)" by fastforce
      obtain q s1 where q: "register_intent sha same a s = (q, s1)" by fastforce
      show ?thesis
      proof (cases q)
        case (Inl x)
        then show ?thesis using Suc.prems False a aw q register_refused by fastforce
      next
        case (Inr token)
        obtain t w2 where t: "apply_action env a w1 = Inr (t, w2)" using assms(2) by (metis (no_types, lifting) steady_def surj_pair)
        note q = q [unfolded Inr]
        have pend: "se_pending s1 \<noteq> None" using register_commit [OF q idle [OF Suc.prems(1)]] by fastforce
        obtain r1 s2 where c: "commit_intent sha ''AT_EPISODE_STEP'' s1 = (r1, s2)" by fastforce
        have s2: "P s2" by (rule commit_keeps [OF Suc.prems(1) q c])
        have eq: "episode sha same env max_steps (Suc n) k w s = (if t then Some (at_episode_end sha s1)
            else case r1 of Inl x \<Rightarrow> Some (Inl x, s2) | Inr _ \<Rightarrow> episode sha same env max_steps n (k + 1) w2 s2)"
          using False a aw q t c by (simp add: end_steady [OF assms(2)] split: sum.split)
        show ?thesis
        proof (cases t)
          case True
          then have "commit_intent sha ''AT_EPISODE_END_TERMINAL'' s1 = (r, s')"
            using Suc.prems(2) pend unfolding eq by (simp add: at_episode_end_def)
          then show ?thesis by (rule commit_keeps [OF Suc.prems(1) q])
        next
          case nt: False
          show ?thesis
          proof (cases r1)
            case (Inl x)
            then show ?thesis using Suc.prems(2) s2 nt unfolding eq by simp
          next
            case (Inr u)
            then show ?thesis using Suc.prems(2) Suc.IH [OF s2, of "k + 1" w2] nt unfolding eq by simp
          qed
        qed
      qed
    qed
  qed
qed simp

lemma advance_keeps:
  assumes "P s" "steady env" "advance sha same env max_steps n w s = Some (r, s')"
  shows "P s'"
proof (cases "current s")
  case (Inl x)
  then show ?thesis using assms by (simp add: advance_def)
next
  case e: (Inr e)
  show ?thesis
  proof (cases "reset_policy env w")
    case (Inl x)
    then show ?thesis using assms e by (simp add: advance_def)
  next
    case w: (Inr w1)
    obtain q s1 where q: "one_rollout sha same env max_steps n w1 s = Some (q, s1)"
      using assms(3) e w by (cases "one_rollout sha same env max_steps n w1 s") (auto simp: advance_def)
    have k: "P s1"
    proof (cases "reset_domain env w1")
      case (Inl x)
      then show ?thesis using q assms(1) by (simp add: one_rollout_def)
    next
      case (Inr w2)
      then show ?thesis using q episode_keeps [OF assms(1,2)] by (simp add: one_rollout_def)
    qed
    have "advance sha same env max_steps n w s = Some (case q of
        Inl x \<Rightarrow> if x = AgentRefusal ACTION_NODE_UNRESOLVED then finish_epoch sha (Some blocked_unresolved) s1 else (Inl x, s1)
      | Inr u \<Rightarrow> finish_epoch sha None s1)"
      unfolding advance_def e by (simp add: w q split: sum.split)
    then show ?thesis using assms(3) k by (auto split: sum.splits if_splits intro: finish_keeps [OF k sym])
  qed
qed

lemma op_keeps: "session_op sha same env s s' \<Longrightarrow> steady env \<Longrightarrow> P s \<Longrightarrow> P s'"
proof (induction rule: session_op.induct)
  case (replanned model pres seed s r s')
  then show ?case by (auto simp: replan_def split: if_splits intro: open_keeps)
next
  case (sealed s r'' s')
  then show ?case unfolding seal_epoch_def by (blast intro: finish_keeps)
next
  case (closed s out s')
  then show ?case by (cases "session_outcome sha s") (auto simp: close_session_def intro: closes)
qed (blast intro: open_keeps step_keeps advance_keeps)+

lemma run_keeps: "session_run sha same env s s' \<Longrightarrow> steady env \<Longrightarrow> P s \<Longrightarrow> P s'"
  by (induction rule: rtranclp_induct) (auto intro: op_keeps)

end

end
