(* ===== verification/Agent_Session_Laws.thy ===== *)
theory Agent_Session_Laws
  imports Agent_Session_Facts
begin

text \<open>
  The laws of a session: the ledger and the epochs tell the same story, and a session only grows.
  Both are properties of sound sessions, whose ledger the operations wrote.
\<close>

section \<open>Sound sessions\<close>

definition sound :: "(string \<Rightarrow> string) \<Rightarrow> session \<Rightarrow> bool" where
  "sound sha s \<longleftrightarrow> inj sha \<and> written sha (se_ledger s) \<and> se_pending s = None
     \<and> (\<forall>e \<in> set (se_epochs s). ep_bound e = se_bound s)
     \<and> (se_epochs s \<noteq> [] \<longrightarrow> ep_standing (last (se_epochs s)) \<noteq> SUPERSEDED)"

definition extends_ledger :: "occurrence_ledger \<Rightarrow> occurrence_ledger \<Rightarrow> bool" where
  "extends_ledger l l' \<longleftrightarrow> (\<exists>rs. ol_records l' = ol_records l @ rs)"

lemma extends_ledger_refl [simp]: "extends_ledger l l"
  by (simp add: extends_ledger_def)

lemma extends_ledger_trans: "extends_ledger l l' \<Longrightarrow> extends_ledger l' l'' \<Longrightarrow> extends_ledger l l''"
  by (auto simp: extends_ledger_def)

lemma extends_append: "extends_ledger l (append_record r l)"
  by (simp add: extends_ledger_def)

text \<open>Sessions announce and record their acts without objects.\<close>

definition objectless :: "occurrence_ledger \<Rightarrow> bool" where
  "objectless l \<longleftrightarrow> (\<forall>r \<in> set (ol_records l). lr_objects r = [])"

lemma objectless_intend: "intend sha l p ctx a lbl [] ts d = Inr (token, l') \<Longrightarrow> objectless l \<Longrightarrow> objectless l'"
  by (auto simp: intend_def as_objects_def Let_def append_record_def objectless_def split: if_splits)

lemma objectless_commit:
  assumes "commit sha l token out (Some a) lbl None ts d = Inr (key, l')" "objectless l"
  shows "objectless l'"
proof -
  obtain q where q: "by_token l (it_token_id token) INTENDED = Inr q"
    using assms(1) by (cases "by_token l (it_token_id token) INTENDED") (auto simp: commit_def split: if_splits)
  then have "lr_objects q = []" using assms(2) by (auto simp: by_token_def objectless_def find_Some_iff split: option.splits)
  then show ?thesis using assms q by (auto simp: commit_def Let_def append_record_def objectless_def split: if_splits)
qed

lemma extends_intend: "intend sha l p ctx a lbl os ts d = Inr (token, l') \<Longrightarrow> extends_ledger l l'"
  by (erule intend_InrD) (simp add: extends_append)

lemma extends_commit: "commit sha l token out (Some a) lbl os ts d = Inr (key, l') \<Longrightarrow> extends_ledger l l'"
  by (erule commit_InrD) (simp add: extends_append)

lemma created_fields:
  assumes "create_epoch sha model sid n b sps pres = Inr e"
  shows "ep_model e = model" "ep_bound e = b" "ep_marking e = INITIAL_MARKING" "ep_choices e = []" "ep_standing e = UNKNOWN"
    "ep_supersedes e = sps" "ep_preserves e = pres"
  using assms by (auto simp: create_epoch_def bindE_Inr_iff)

lemma seeded_fields [simp]:
  "ep_id (seeded seed e) = ep_id e" "ep_model (seeded seed e) = ep_model e" "ep_digest (seeded seed e) = ep_digest e"
  "ep_bound (seeded seed e) = ep_bound e" "ep_choices (seeded seed e) = ep_choices e"
  "ep_standing (seeded seed e) = ep_standing e" "ep_supersedes (seeded seed e) = ep_supersedes e" "ep_preserves (seeded seed e) = ep_preserves e"
  by (simp_all add: seeded_def split: option.split)

lemma supersede_fields [simp]:
  "ep_id (supersede sps e) = ep_id e" "ep_model (supersede sps e) = ep_model e" "ep_digest (supersede sps e) = ep_digest e"
  "ep_bound (supersede sps e) = ep_bound e" "ep_choices (supersede sps e) = ep_choices e"
  "ep_marking (supersede sps e) = ep_marking e" "ep_supersedes (supersede sps e) = ep_supersedes e"
  "ep_preserves (supersede sps e) = ep_preserves e"
  "ep_standing (supersede sps e) = (if ep_id e \<in> set sps then SUPERSEDED else ep_standing e)"
  by (simp_all add: supersede_def with_standing_def)

lemma advanced_fields [simp]:
  "ep_id (advanced e m r st) = ep_id e" "ep_model (advanced e m r st) = ep_model e" "ep_digest (advanced e m r st) = ep_digest e"
  "ep_bound (advanced e m r st) = ep_bound e" "ep_choices (advanced e m r st) = ep_choices e @ [r]"
  "ep_marking (advanced e m r st) = m" "ep_standing (advanced e m r st) = st" "ep_supersedes (advanced e m r st) = ep_supersedes e"
  "ep_preserves (advanced e m r st) = ep_preserves e"
  by (simp_all add: advanced_def)

lemma with_standing_fields [simp]:
  "ep_id (with_standing st e) = ep_id e" "ep_model (with_standing st e) = ep_model e" "ep_digest (with_standing st e) = ep_digest e"
  "ep_bound (with_standing st e) = ep_bound e" "ep_choices (with_standing st e) = ep_choices e"
  "ep_marking (with_standing st e) = ep_marking e" "ep_standing (with_standing st e) = st"
  "ep_supersedes (with_standing st e) = ep_supersedes e" "ep_preserves (with_standing st e) = ep_preserves e"
  by (simp_all add: with_standing_def)

text \<open>
  A property of sound sessions has to be checked only on the outcomes an act can have: torn, with
  an intent and nothing else, or performed, with the choice and its committed occurrence.
\<close>

locale sound_property =
  fixes sha :: "string \<Rightarrow> string" and Q :: "session \<Rightarrow> bool"
  assumes torn: "sound sha s \<Longrightarrow> Q s \<Longrightarrow> committed_records l = committed_records (se_ledger s) \<Longrightarrow> extends_ledger (se_ledger s) l
      \<Longrightarrow> (objectless (se_ledger s) \<Longrightarrow> objectless l) \<Longrightarrow> Q (s\<lparr>se_ledger := l\<rparr>)"
    and performed: "sound sha s \<Longrightarrow> Q s \<Longrightarrow> current s = Inr e
      \<Longrightarrow> enabled (ep_model e) (ep_marking e) (se_bound s) = Inr live \<Longrightarrow> p \<in> set live \<Longrightarrow> leaf_activity sha e p = Inr a
      \<Longrightarrow> fire sha (ep_model e) (ep_marking e) p (context_sha sha s e) (se_bound s) = Inr m
      \<Longrightarrow> committed_records l = committed_records (se_ledger s) @ [r] \<Longrightarrow> lr_activity_sha r = a \<Longrightarrow> lr_path r = p
      \<Longrightarrow> lr_context r = context_sha sha s e \<Longrightarrow> extends_ledger (se_ledger s) l
      \<Longrightarrow> (objectless (se_ledger s) \<Longrightarrow> objectless l) \<Longrightarrow> Q (set_current (advanced e m (choice_of sha s e p (sort live) b) PARTIAL_ALIVE) (s\<lparr>se_ledger := l\<rparr>))"
    and opened: "sound sha s \<Longrightarrow> Q s \<Longrightarrow> \<not> se_closed s
      \<Longrightarrow> create_epoch sha model (se_id s) (length (se_epochs s)) (se_bound s) sps pres = Inr e
      \<Longrightarrow> Q (s\<lparr>se_epochs := map (supersede sps) (se_epochs s) @ [seeded seed e]\<rparr>)"
    and restood: "sound sha s \<Longrightarrow> Q s \<Longrightarrow> current s = Inr e \<Longrightarrow> st \<noteq> SUPERSEDED \<Longrightarrow> Q (set_current (with_standing st e) s)"
    and filed: "sound sha s \<Longrightarrow> Q s \<Longrightarrow> Q (s\<lparr>se_receipts := se_receipts s @ [q]\<rparr>)"
    and closed: "sound sha s \<Longrightarrow> Q s \<Longrightarrow> Q (s\<lparr>se_closed := True\<rparr>)"
begin

lemma performs_sound:
  assumes "sound sha s \<and> Q s" "current s = Inr e" "enabled (ep_model e) (ep_marking e) (se_bound s) = Inr live" "p \<in> set live"
    and "leaf_activity sha e p = Inr a" "perform sha e p (sort live) a b d s = (r, s')"
  shows "sound sha s' \<and> Q s'"
proof -
  have S: "sound sha s" "Q s" "inj sha" "written sha (se_ledger s)" using assms(1) by (simp_all add: sound_def)
  from S(3,4) assms(6) show ?thesis
  proof (cases rule: perform_cases)
    case refused
    then show ?thesis using S by simp
  next
    case (torn token l x)
    note i = intended_outstanding [OF S(3,4) torn(2)]
    have "sound sha s'" using S(1) i(2) torn(5) by (simp add: sound_def)
    then show ?thesis unfolding torn(5) using sound_property.torn [OF sound_property_axioms S(1,2) i(3) extends_intend [OF torn(2)] objectless_intend [OF torn(2)]] by blast
  next
    case (performed token l m key l')
    note i = intended_outstanding [OF S(3,4) performed(2)]
    note c = committed_resumable [OF S(3) i(2,1) performed(4)]
    from c(3) obtain q where q: "committed_records l' = committed_records (se_ledger s) @ [q]" "lr_activity_sha q = a" "lr_path q = p"
      "lr_context q = context_sha sha s e" using i(3-5) by auto
    have x: "extends_ledger (se_ledger s) l'"
      by (rule extends_ledger_trans [OF extends_intend [OF performed(2)] extends_commit [OF performed(4)]])
    have "ep_bound e = se_bound s" "se_epochs s \<noteq> []" "\<forall>f \<in> set (se_epochs s). ep_bound f = se_bound s"
      using S(1) assms(2) by (auto simp: sound_def current_iff)
    then have "sound sha s'" using S(1) c(2) performed(6) by (auto simp: sound_def dest: in_set_butlastD)
    then show ?thesis unfolding performed(6)
      using sound_property.performed [OF sound_property_axioms S(1,2) assms(2-5) performed(3) q x
        objectless_commit [OF performed(4) objectless_intend [OF performed(2)]]] by blast
  qed
qed

lemma opens_sound:
  assumes "sound sha s \<and> Q s" "\<not> se_closed s"
    and "create_epoch sha model (se_id s) (length (se_epochs s)) (se_bound s) sps pres = Inr e"
  shows "sound sha (s\<lparr>se_epochs := map (supersede sps) (se_epochs s) @ [seeded seed e]\<rparr>)
    \<and> Q (s\<lparr>se_epochs := map (supersede sps) (se_epochs s) @ [seeded seed e]\<rparr>)"
  using assms opened [of s model sps pres e seed] created_fields [OF assms(3)] by (auto simp: sound_def)

lemma restands_sound:
  assumes "sound sha s \<and> Q s" "current s = Inr e" "st \<noteq> SUPERSEDED"
  shows "sound sha (set_current (with_standing st e) s) \<and> Q (set_current (with_standing st e) s)"
  using assms restood [of s e st] by (auto simp: sound_def current_iff dest: in_set_butlastD)

end

sublocale sound_property \<subseteq> session_property sha "\<lambda>s. sound sha s \<and> Q s"
proof unfold_locales
  show "se_pending s = None" if "sound sha s \<and> Q s" for s using that by (simp add: sound_def)
  show "ep_bound e = se_bound s" if "sound sha s \<and> Q s" "e \<in> set (se_epochs s)" for s e using that by (simp add: sound_def)
  show "sound sha (s\<lparr>se_receipts := se_receipts s @ [q]\<rparr>) \<and> Q (s\<lparr>se_receipts := se_receipts s @ [q]\<rparr>)"
    if "sound sha s \<and> Q s" for s q using that filed [of s q] by (simp add: sound_def)
  show "sound sha (s\<lparr>se_closed := True\<rparr>) \<and> Q (s\<lparr>se_closed := True\<rparr>)"
    if "sound sha s \<and> Q s" for s using that closed [of s] by (simp add: sound_def)
qed (fact performs_sound opens_sound restands_sound)+

lemma new_session_fields:
  assumes "new_session sha domj sol b sid ledger = Inr s"
  shows "se_epochs s = []" "se_pending s = None" "se_receipts s = []" "se_bound s = b" "\<not> se_closed s"
    "se_ledger s = (case ledger of None \<Rightarrow> from_records [] | Some l \<Rightarrow> l)" "is_resumable (se_ledger s)"
  using assms by (auto simp: new_session_def Let_def assert_resumable_def is_resumable_def bindE_Inr_iff split: if_splits)

lemma new_session_sound:
  assumes "inj sha" "case ledger of None \<Rightarrow> True | Some l \<Rightarrow> written sha l" "new_session sha domj sol b sid ledger = Inr s"
  shows "sound sha s"
  using assms(1,2) new_session_fields [OF assms(3)] written.blank [of sha] by (auto simp: sound_def split: option.splits)

section \<open>One story\<close>

definition ledger_story :: "occurrence_ledger \<Rightarrow> (string res \<times> path \<times> string) list" where
  "ledger_story l = map (\<lambda>r. (Inr (lr_activity_sha r), lr_path r, lr_context r)) (committed_records l)"

definition epoch_story :: "(string \<Rightarrow> string) \<Rightarrow> epoch \<Rightarrow> (string res \<times> path \<times> string) list" where
  "epoch_story sha e = map (\<lambda>r. (leaf_activity sha e (cr_chosen r), cr_chosen r, cr_context r)) (ep_choices e)"

definition told :: "(string \<Rightarrow> string) \<Rightarrow> (string res \<times> path \<times> string) list \<Rightarrow> session \<Rightarrow> bool" where
  "told sha past s \<longleftrightarrow> ledger_story (se_ledger s) = past @ concat (map (epoch_story sha) (se_epochs s))"

lemma epoch_story_cong:
  "ep_model e' = ep_model e \<Longrightarrow> ep_choices e' = ep_choices e \<Longrightarrow> epoch_story sha e' = epoch_story sha e"
  by (simp add: epoch_story_def leaf_activity_def)

lemma current_split: "current s = Inr e \<Longrightarrow> se_epochs s = butlast (se_epochs s) @ [e]"
  by (auto simp: current_iff)

interpretation story: sound_property sha "told sha past" for sha past
proof unfold_locales
  show "told sha past (s\<lparr>se_ledger := l\<rparr>)" if "told sha past s" "committed_records l = committed_records (se_ledger s)" for s l
    using that by (simp add: told_def ledger_story_def)
  show "told sha past (set_current (advanced e m (choice_of sha s e p (sort live) b) PARTIAL_ALIVE) (s\<lparr>se_ledger := l\<rparr>))"
    if "told sha past s" "current s = Inr e" "leaf_activity sha e p = Inr a"
      "committed_records l = committed_records (se_ledger s) @ [r]" "lr_activity_sha r = a" "lr_path r = p"
      "lr_context r = context_sha sha s e" for s e p a l r m live b
  proof -
    let ?e = "advanced e m (choice_of sha s e p (sort live) b) PARTIAL_ALIVE"
    have "epoch_story sha ?e = epoch_story sha e @ [(leaf_activity sha e p, p, context_sha sha s e)]"
      by (simp add: epoch_story_def leaf_activity_def choice_of_def)
    moreover have "ledger_story (se_ledger s) = past @ concat (map (epoch_story sha) (butlast (se_epochs s) @ [e]))"
      using that(1) unfolding told_def current_split [OF that(2), symmetric] .
    ultimately show ?thesis using that(3-7) by (simp add: told_def ledger_story_def)
  qed
  show "told sha past (s\<lparr>se_epochs := map (supersede sps) (se_epochs s) @ [seeded seed e]\<rparr>)"
    if "told sha past s" "create_epoch sha model (se_id s) (length (se_epochs s)) (se_bound s) sps pres = Inr e" for s model sps pres e seed
  proof -
    have "map (epoch_story sha) (map (supersede sps) (se_epochs s)) = map (epoch_story sha) (se_epochs s)"
      by (simp add: epoch_story_def leaf_activity_def)
    moreover have "epoch_story sha (seeded seed e) = []" using created_fields(4) [OF that(2)] by (simp add: epoch_story_def)
    ultimately show ?thesis using that(1) unfolding told_def by (simp del: map_map)
  qed
  show "told sha past (set_current (with_standing st e) s)" if "told sha past s" "current s = Inr e" for s e st
  proof -
    have "ledger_story (se_ledger s) = past @ concat (map (epoch_story sha) (butlast (se_epochs s) @ [e]))"
      using that(1) unfolding told_def current_split [OF that(2), symmetric] .
    then show ?thesis by (simp add: told_def epoch_story_cong [of "with_standing st e" e])
  qed
qed (simp_all add: told_def)

text \<open>
  C21.  The ledger and the epochs tell one story.  The hash is injective, the session began on an empty
  ledger or one that the ledger's own operations wrote, and its domain is \<open>steady\<close>: steps and goal
  queries raise nothing.  Whatever public operations it went through, refused ones
  included, the acts committed since it began are the recorded choices of its epochs, epoch by
  epoch and in order, each with the activity of the leaf it fired and its context.  A domain that
  raises in the middle of an act leaves a pending intent behind, which a later rollout commits as
  it stands (\<open>torn_act_committed_unobserved\<close>): such runs are not covered.
\<close>

theorem session_story:
  assumes "inj sha" "case ledger of None \<Rightarrow> True | Some l \<Rightarrow> written sha l" "steady env"
    and "new_session sha domj sol b sid ledger = Inr s0" "session_run sha same env s0 s"
  shows "ledger_story (se_ledger s) = ledger_story (se_ledger s0) @ concat (map (epoch_story sha) (se_epochs s))"
proof -
  have "told sha (ledger_story (se_ledger s0)) s0" using new_session_fields(1) [OF assms(4)] by (simp add: told_def)
  then show ?thesis
    using story.run_keeps [OF assms(5,3)] new_session_sound [OF assms(1,2,4)] unfolding told_def by blast
qed

section \<open>Sessions only grow\<close>

definition epoch_grown :: "(string \<Rightarrow> string) \<Rightarrow> epoch \<Rightarrow> epoch \<Rightarrow> bool" where
  "epoch_grown sha e e' \<longleftrightarrow> ep_id e' = ep_id e \<and> ep_model e' = ep_model e \<and> ep_digest e' = ep_digest e
     \<and> ep_bound e' = ep_bound e \<and> ep_supersedes e' = ep_supersedes e \<and> ep_preserves e' = ep_preserves e
     \<and> (\<exists>rs. ep_choices e' = ep_choices e @ rs \<and> replay sha (ep_model e) rs (ep_bound e) (ep_marking e) = Inr (ep_marking e'))
     \<and> (ep_standing e = SUPERSEDED \<longrightarrow> ep_standing e' = SUPERSEDED)"

definition frozen :: "epoch \<Rightarrow> epoch \<Rightarrow> bool" where
  "frozen e e' \<longleftrightarrow> ep_choices e' = ep_choices e \<and> ep_marking e' = ep_marking e"

definition grown :: "(string \<Rightarrow> string) \<Rightarrow> session \<Rightarrow> session \<Rightarrow> bool" where
  "grown sha s0 s \<longleftrightarrow> extends_ledger (se_ledger s0) (se_ledger s)
     \<and> (\<exists>qs. se_receipts s = se_receipts s0 @ qs)
     \<and> length (se_epochs s0) \<le> length (se_epochs s)
     \<and> (\<forall>i < length (se_epochs s0). epoch_grown sha (se_epochs s0 ! i) (se_epochs s ! i)
          \<and> (Suc i < length (se_epochs s0) \<longrightarrow> frozen (se_epochs s0 ! i) (se_epochs s ! i)))
     \<and> (se_closed s0 \<longrightarrow> se_closed s \<and> length (se_epochs s) = length (se_epochs s0))"

lemma epoch_grown_refl [simp]: "epoch_grown sha e e"
  by (simp add: epoch_grown_def replay_def)

lemma replay_append: "replay sha model (rs @ qs) b m = bindE (replay sha model rs b m) (replay sha model qs b)"
  by (simp add: replay_def foldE_append cong: bindE_cong)

lemma epoch_grown_same:
  assumes "epoch_grown sha e e'" "ep_id f = ep_id e'" "ep_model f = ep_model e'" "ep_digest f = ep_digest e'" "ep_bound f = ep_bound e'"
    "ep_supersedes f = ep_supersedes e'" "ep_preserves f = ep_preserves e'" "ep_choices f = ep_choices e'" "ep_marking f = ep_marking e'"
    "ep_standing e' = SUPERSEDED \<Longrightarrow> ep_standing f = SUPERSEDED"
  shows "epoch_grown sha e f"
  using assms unfolding epoch_grown_def by simp

lemma epoch_grown_advanced:
  assumes "epoch_grown sha e0 e" "ep_standing e \<noteq> SUPERSEDED" "ep_bound e = b"
    and "enabled (ep_model e) (ep_marking e) b = Inr live" "p \<in> set live"
    and "fire sha (ep_model e) (ep_marking e) p (cr_context r) b = Inr m" "cr_chosen r = p" "cr_enabled r = sort live"
  shows "epoch_grown sha e0 (advanced e m r PARTIAL_ALIVE)"
proof -
  obtain rs where rs: "ep_choices e = ep_choices e0 @ rs" "replay sha (ep_model e0) rs (ep_bound e0) (ep_marking e0) = Inr (ep_marking e)"
    and same: "ep_model e = ep_model e0" "ep_bound e = ep_bound e0" "ep_standing e0 \<noteq> SUPERSEDED"
    using assms(1,2) unfolding epoch_grown_def by auto
  have "replay_step sha (ep_model e0) (ep_bound e0) (ep_marking e) r = Inr m"
    using assms(3-8) same by (simp add: replay_step_def sorted_sort_id)
  then have "replay sha (ep_model e0) (rs @ [r]) (ep_bound e0) (ep_marking e0) = Inr m"
    using rs(2) by (simp add: replay_append) (simp add: replay_def)
  then show ?thesis using assms(1) rs(1) same(3) by (simp add: epoch_grown_def)
qed

lemma last_nth: "xs = ys @ [x] \<Longrightarrow> i < length xs \<Longrightarrow> (i < length ys \<and> xs ! i = ys ! i) \<or> (i = length ys \<and> xs ! i = x)"
  by (auto simp: nth_append)

text \<open>Replacing the current epoch by one that has grown from it.\<close>

lemma grown_current:
  assumes "grown sha s0 s" "current s = Inr e" "extends_ledger (se_ledger s) (se_ledger s')"
    and "se_epochs s' = butlast (se_epochs s) @ [e']" "se_receipts s' = se_receipts s" "se_closed s' = se_closed s"
    and "\<And>e0. epoch_grown sha e0 e \<Longrightarrow> epoch_grown sha e0 e'"
  shows "grown sha s0 s'"
proof -
  have len: "length (se_epochs s') = length (se_epochs s)" using current_split [OF assms(2)] assms(4) by (metis length_append_singleton)
  have nth: "se_epochs s' ! i = (if Suc i = length (se_epochs s) then e' else se_epochs s ! i)" if "i < length (se_epochs s)" for i
    using that assms(4) by (auto simp: nth_append nth_butlast)
  have e: "se_epochs s ! i = e" if "Suc i = length (se_epochs s)" for i
    using that [symmetric] assms(2) by (auto simp: current_iff last_conv_nth)
  show ?thesis using assms(1,3,5,6) extends_ledger_trans assms(7) unfolding grown_def len
    by (auto simp: nth e) 
qed

interpretation growth: sound_property sha "grown sha s0" for sha s0
proof unfold_locales
  show "grown sha s0 (s\<lparr>se_ledger := l\<rparr>)" if "grown sha s0 s" "extends_ledger (se_ledger s) l" for s l
    using that extends_ledger_trans unfolding grown_def by auto
  show "grown sha s0 (set_current (advanced e m (choice_of sha s e p (sort live) b) PARTIAL_ALIVE) (s\<lparr>se_ledger := l\<rparr>))"
    if "sound sha s" "grown sha s0 s" "current s = Inr e" "enabled (ep_model e) (ep_marking e) (se_bound s) = Inr live" "p \<in> set live"
      "fire sha (ep_model e) (ep_marking e) p (context_sha sha s e) (se_bound s) = Inr m" "extends_ledger (se_ledger s) l"
    for s e p l m live b
  proof -
    have e: "ep_standing e \<noteq> SUPERSEDED" "ep_bound e = se_bound s" using that(1,3) by (auto simp: sound_def current_iff)
    have adv: "epoch_grown sha e0 (advanced e m (choice_of sha s e p (sort live) b) PARTIAL_ALIVE)" if "epoch_grown sha e0 e" for e0
      by (rule epoch_grown_advanced [OF that e \<open>enabled _ _ _ = _\<close> \<open>p \<in> set live\<close>])
        (use \<open>fire _ _ _ _ _ _ = _\<close> in \<open>simp_all add: choice_of_def\<close>)
    show ?thesis by (rule grown_current [OF that(2,3) _ _ _ _ adv]) (simp_all add: that(7))
  qed
  show "grown sha s0 (s\<lparr>se_epochs := map (supersede sps) (se_epochs s) @ [seeded seed e]\<rparr>)" if "grown sha s0 s" "\<not> se_closed s"
    for s sps seed e
  proof -
    have "epoch_grown sha e0 (supersede sps f)" if "epoch_grown sha e0 f" for e0 f
      by (rule epoch_grown_same [OF that]) simp_all
    then show ?thesis using that unfolding grown_def by (auto simp: nth_append frozen_def)
  qed
  show "grown sha s0 (set_current (with_standing st e) s)" if "sound sha s" "grown sha s0 s" "current s = Inr e" for s e st
  proof -
    have "ep_standing e \<noteq> SUPERSEDED" using that(1,3) by (auto simp: sound_def current_iff)
    then have st: "epoch_grown sha e0 (with_standing st e)" if "epoch_grown sha e0 e" for e0
      by (intro epoch_grown_same [OF that]) simp_all
    show ?thesis by (rule grown_current [OF that(2,3) _ _ _ _ st]) simp_all
  qed
qed (auto simp: grown_def)

text \<open>
  C22.  A session only grows.  The hash is injective, the session began on an empty ledger or one that
  the ledger's own operations wrote, and its domain is \<open>steady\<close>.  Between any two points of its life the ledger and the receipts are
  extended at their end, every epoch keeps its identity and its plan, and what it gained is a
  run of the plan: replaying the new choices from the old marking gives the new marking.
  Epochs that are not the current one are frozen, a superseded epoch stays superseded, and a
  closed session opens no epoch.
\<close>

theorem session_only_grows:
  assumes "inj sha" "case ledger of None \<Rightarrow> True | Some l \<Rightarrow> written sha l" "steady env"
    and "new_session sha domj sol b sid ledger = Inr s0" "session_run sha same env s0 s1" "session_run sha same env s1 s"
  shows "grown sha s1 s"
proof -
  have "sound sha s0 \<and> told sha (ledger_story (se_ledger s0)) s0"
    using new_session_sound [OF assms(1,2,4)] new_session_fields(1) [OF assms(4)] by (simp add: told_def)
  then have "sound sha s1" using story.run_keeps [OF assms(5,3)] by blast
  moreover have "grown sha s1 s1" by (simp add: grown_def frozen_def)
  ultimately show ?thesis using growth.run_keeps [OF assms(6,3)] by blast
qed

end
