(* ===== verification/Agent_Session_Behaviour.thy ===== *)
theory Agent_Session_Behaviour
  imports Agent_Session_Laws
begin

text \<open>
  What a step of a session can end in, why a rollout ends, and four behaviours that the documentation
  of the session excludes.
\<close>

section \<open>Rollouts end\<close>

definition fires_left :: "session \<Rightarrow> nat" where
  "fires_left s = (case current s of Inl x \<Rightarrow> 0 | Inr e \<Rightarrow> max_activity_fires (se_bound s) - fires (ep_marking e))"

lemma register_frame: "register_intent sha same a s = (Inr token, s') \<Longrightarrow> current s' = current s \<and> se_bound s' = se_bound s"
  by (cases "current s") (auto simp: register_intent_def bindS_def session_intend_def split: prod.splits sum.splits)

lemma take_step_fires:
  assumes "take_step sha e p live b s = (Inr r, s')"
  shows "se_bound s' = se_bound s"
    "\<exists>m. current s' = Inr (advanced e m r PARTIAL_ALIVE) \<and> fires m = Suc (fires (ep_marking e)) \<and> fires m \<le> max_activity_fires (se_bound s)"
proof -
  obtain m where m: "fire sha (ep_model e) (ep_marking e) p (context_sha sha s e) (se_bound s) = Inr m"
    using assms by (cases "fire sha (ep_model e) (ep_marking e) p (context_sha sha s e) (se_bound s)") (auto simp: take_step_def)
  have s': "s' = set_current (advanced e m r PARTIAL_ALIVE) s" using assms m by (auto simp: take_step_def Let_def)
  then show "se_bound s' = se_bound s" by simp
  show "\<exists>m. current s' = Inr (advanced e m r PARTIAL_ALIVE) \<and> fires m = Suc (fires (ep_marking e)) \<and> fires m \<le> max_activity_fires (se_bound s)"
    using s' fire_bounds [OF m] by auto
qed

lemma session_commit_frame: "session_commit sha token a d s = (r, s') \<Longrightarrow> current s' = current s \<and> se_bound s' = se_bound s"
  by (auto simp: session_commit_def split: sum.splits)

lemma commit_fires:
  assumes "commit_intent sha d s = (Inr (), s')"
  shows "se_bound s' = se_bound s" "fires_left s' < fires_left s"
proof -
  obtain token p live where q: "se_pending s = Some (token, p, live)" using assms by (auto simp: commit_intent_def split: option.splits)
  obtain e where e: "current s = Inr e" using assms q by (cases "current s") (auto simp: commit_intent_def)
  let ?s = "s\<lparr>se_pending := None\<rparr>"
  obtain r s1 where r: "take_step sha e p live (decided_by s) ?s = (Inr r, s1)"
    using assms q e by (cases "take_step sha e p live (decided_by s) ?s"; cases "fst (take_step sha e p live (decided_by s) ?s)")
      (auto simp: commit_intent_def)
  obtain t where t: "leaf_activity sha e p = Inr t" using assms q e r by (cases "leaf_activity sha e p") (auto simp: commit_intent_def)
  obtain key where c: "session_commit sha token t d s1 = (Inr key, s')"
    using assms q e r t by (cases "session_commit sha token t d s1"; cases "fst (session_commit sha token t d s1)") (auto simp: commit_intent_def)
  from take_step_fires [OF r] session_commit_frame [OF c] obtain m where
    "se_bound s' = se_bound s" "current s' = Inr (advanced e m r PARTIAL_ALIVE)" "fires m = Suc (fires (ep_marking e))"
    "fires m \<le> max_activity_fires (se_bound s)" by auto
  then show "se_bound s' = se_bound s" "fires_left s' < fires_left s" using e by (simp_all add: fires_left_def)
qed

lemma episode_ends: "fires_left s < n \<Longrightarrow> \<exists>r s'. \<forall>j. episode sha same env max_steps (n + j) k w s = Some (r, s')"
proof (induction n arbitrary: k w s)
  case (Suc n)
  show ?case
  proof (cases "case max_steps of None \<Rightarrow> False | Some h \<Rightarrow> k > h")
    case True
    then show ?thesis by (cases "end_episode sha env w s") simp
  next
    case False
    show ?thesis
    proof (cases "pick_action env w")
      case (Inl x)
      then show ?thesis using False by simp
    next
      case a: (Inr aw)
      obtain a w1 where aw: "aw = (a, w1)" by fastforce
      obtain q s1 where q: "register_intent sha same a s = (q, s1)" by fastforce
      show ?thesis
      proof (cases q)
        case (Inl x)
        then show ?thesis using False a aw q by simp
      next
        case token: (Inr token)
        note q = q [unfolded token]
        show ?thesis
        proof (cases "apply_action env a w1")
          case (Inl x)
          then show ?thesis using False a aw q by simp
        next
          case t: (Inr tw)
          obtain t w2 where tw: "tw = (t, w2)" by fastforce
          obtain r1 s2 where c: "commit_intent sha ''AT_EPISODE_STEP'' s1 = (r1, s2)" by fastforce
          have eq: "episode sha same env max_steps (Suc n + j) k w s = (if t then Some (end_episode sha env w2 s1)
              else case r1 of Inl x \<Rightarrow> Some (Inl x, s2) | Inr _ \<Rightarrow> episode sha same env max_steps (n + j) (k + 1) w2 s2)" for j
            using False a aw q t tw c by (simp split: sum.split)
          show ?thesis
          proof (cases "t \<or> isl r1")
            case True
            then show ?thesis unfolding eq by (cases "end_episode sha env w2 s1"; cases t) (auto simp: isl_def)
          next
            case nt: False
            then have r1: "r1 = Inr ()" by (cases r1) simp_all
            have "fires_left s1 = fires_left s" using register_frame [OF q] by (simp only: fires_left_def)
            then have "fires_left s2 < n" using commit_fires(2) [OF c [unfolded r1]] Suc.prems by linarith
            from Suc.IH [OF this] nt r1 show ?thesis unfolding eq by simp
          qed
        qed
      qed
    qed
  qed
qed simp

text \<open>
  C23.  A rollout ends: whatever policy and domain drive it, and without \<open>max_steps\<close>, an advance
  returns or raises after at most one iteration more than the session's fire budget, because
  every iteration that continues has fired a leaf.
\<close>

theorem rollout_ends:
  "\<exists>r s'. \<forall>n. advance sha same env max_steps (max_activity_fires (se_bound s) + 1 + n) w s = Some (r, s')"
proof (cases "current s")
  case (Inl x)
  then show ?thesis by (simp add: advance_def)
next
  case (Inr e)
  show ?thesis
  proof (cases "reset_policy env w")
    case (Inl x)
    then show ?thesis using Inr by (simp add: advance_def)
  next
    case w: (Inr w1)
    have "fires_left s < max_activity_fires (se_bound s) + 1" using Inr by (simp add: fires_left_def)
    note ends = episode_ends [OF this, of sha same env max_steps 1]
    have "\<exists>r s1. \<forall>n. one_rollout sha same env max_steps (max_activity_fires (se_bound s) + 1 + n) w1 s = Some (r, s1)"
      using ends by (cases "reset_domain env w1") (simp_all add: one_rollout_def)
    then obtain r s1 where
      *: "\<And>n. one_rollout sha same env max_steps (max_activity_fires (se_bound s) + 1 + n) w1 s = Some (r, s1)" by blast
    obtain q s2 where q: "(case r of Inl x \<Rightarrow> if x = AgentRefusal ACTION_NODE_UNRESOLVED then finish_epoch sha (Some blocked_unresolved) s1 else (Inl x, s1)
        | Inr _ \<Rightarrow> finish_epoch sha None s1) = (q, s2)" by fastforce
    have "advance sha same env max_steps (max_activity_fires (se_bound s) + 1 + n) w s = Some (q, s2)" for n
      unfolding advance_def Inr using w * q by (cases r) simp_all
    then show ?thesis by blast
  qed
qed

section \<open>Outcomes of a step\<close>

text \<open>
  C24.  Every outcome of a step, on a lawful plan and a resumable ledger: a path that is not enabled
  is refused and nothing changes; an enabled one is recorded in the epoch and in the ledger,
  which stays resumable; or the bound is spent, which is raised after the intent was written,
  so that the epoch is unchanged and the ledger can no longer be resumed.
\<close>

theorem step_outcomes:
  assumes "sound sha s" "is_resumable (se_ledger s)" "current s = Inr e"
    and "wf_node (ep_model e)" "cursor_ok (ep_model e) (ep_marking e)"
  shows "\<exists>live. enabled (ep_model e) (ep_marking e) (se_bound s) = Inr live \<and>
    (if p \<notin> set live then step sha p by s = (Inl (ModelError (PowlError LANGUAGE_MISMATCH)), s)
     else (\<exists>r key m s'. step sha p by s = (Inr (r, key), s') \<and> current s' = Inr (advanced e m r PARTIAL_ALIVE)
              \<and> cr_chosen r = p \<and> leaf_activity sha e p = Inr (ok_activity key) \<and> is_resumable (se_ledger s'))
        \<or> (\<exists>s'. step sha p by s = (Inl (ModelError (PowlError BOUND_EXHAUSTED)), s') \<and> se_epochs s' = se_epochs s
              \<and> \<not> is_resumable (se_ledger s')))"
proof -
  have S: "inj sha" "written sha (se_ledger s)" using assms(1) by (simp_all add: sound_def)
  have root: "node_at (ep_model e) [] = Inr (ep_model e)" by simp
  obtain live where live: "enabled (ep_model e) (ep_marking e) (se_bound s) = Inr live"
    using enabled_in_total [OF assms(4) root assms(5)] unfolding enabled_def by blast
  show ?thesis
  proof (cases "p \<in> set live")
    case False
    then show ?thesis using live assms(3) by (simp add: step_perform)
  next
    case True
    obtain v where v: "node_at (ep_model e) p = Inr v"
      using enabled_addresses [OF assms(4) root assms(5) live [unfolded enabled_def] True] by blast
    obtain a where a: "leaf_activity sha e p = Inr a"
      using activity_total [OF node_at_wf [OF assms(4) v]] v by (auto simp: leaf_activity_def)
    obtain r s' where r: "perform sha e p (sort live) a (decider s by) ''POST_STEP'' s = (r, s')" by fastforce
    have step: "step sha p by s = (r, s')" using assms(3) live True a r by (simp add: step_perform)
    from S r show ?thesis
    proof (cases rule: perform_cases)
      case refused
      then show ?thesis using assms(2) by (simp add: is_resumable_def)
    next
      case (torn token l x)
      have "x = PowlError BOUND_EXHAUSTED"
        using fire_total [OF assms(4,5) live True, of sha "context_sha sha s e"] torn(3) by auto
      moreover have "\<not> is_resumable (se_ledger s')"
        using intended_outstanding(1) [OF S torn(2)] torn(5) by (simp add: is_resumable_def)
      ultimately show ?thesis using live True step torn(4,5) by auto
    next
      case (performed token l m key l')
      note i = intended_outstanding [OF S performed(2)]
      note c = committed_resumable [OF S(1) i(2,1) performed(4)]
      show ?thesis using live True step performed(5,6) c(1,3) a by (auto simp: choice_of_def)
    qed
  qed
qed

section \<open>A spent bound\<close>

lemma unresumable_step:
  assumes "\<not> is_resumable (se_ledger s)"
  shows "\<exists>x. step sha p by s = (Inl x, s)"
proof (cases "current s")
  case e: (Inr e)
  show ?thesis
  proof (cases "enabled (ep_model e) (ep_marking e) (se_bound s)")
    case live: (Inr live)
    have "perform sha e p (sort live) a b d s = (agent_refuse INTENT_ALREADY_OUTSTANDING, s)" for a b d
      using assms by (simp add: perform_def session_intend_def intend_def is_resumable_def)
    then show ?thesis using e live by (cases "leaf_activity sha e p") (auto simp: step_perform)
  qed (use e in \<open>simp add: step_perform\<close>)
qed (simp add: step_perform)

text \<open>
  A step that is refused for a spent fire budget wedges the session: the check comes after the
  intent, so the ledger keeps an intent that nothing settles; from then on every step raises and
  changes nothing, and the session has no outcome.
\<close>

theorem spent_step_wedges_session:
  assumes "sound sha s" "is_resumable (se_ledger s)" "current s = Inr e"
    and "enabled (ep_model e) (ep_marking e) (se_bound s) = Inr live" "p \<in> set live" "leaf_activity sha e p = Inr a"
    and "max_activity_fires (se_bound s) \<le> fires (ep_marking e)"
  shows "\<exists>s'. step sha p by s = (Inl (ModelError (PowlError BOUND_EXHAUSTED)), s')
    \<and> session_outcome sha s' = agent_refuse LEDGER_UNRESUMABLE \<and> (\<forall>q by'. \<exists>x. step sha q by' s' = (Inl x, s'))"
proof -
  have S: "inj sha" "written sha (se_ledger s)" using assms(1) by (simp_all add: sound_def)
  have f: "fire sha (ep_model e) (ep_marking e) p (context_sha sha s e) (se_bound s) = refuse BOUND_EXHAUSTED"
    using assms(4,5,7) by (simp add: fire_def)
  obtain r s' where r: "perform sha e p (sort live) a (decider s by) ''POST_STEP'' s = (r, s')" by fastforce
  have step: "step sha p by s = (r, s')" using assms(3-6) r by (simp add: step_perform)
  from S r show ?thesis
  proof (cases rule: perform_cases)
    case refused
    then show ?thesis using assms(2) by (simp add: is_resumable_def)
  next
    case (torn token l x)
    have n: "\<not> is_resumable (se_ledger s')"
      using intended_outstanding(1) [OF S torn(2)] torn(5) by (simp add: is_resumable_def)
    have "session_outcome sha s' = agent_refuse LEDGER_UNRESUMABLE"
      using n by (simp add: session_outcome_def assert_resumable_def is_resumable_def)
    then show ?thesis using step torn(3,4) f unresumable_step [OF n] by auto
  next
    case (performed token l m key l')
    then show ?thesis using f by simp
  qed
qed

section \<open>Closing\<close>

abbreviation reclosed :: "bool \<Rightarrow> 'a agent \<times> session \<Rightarrow> 'a agent \<times> session" where
  "reclosed c \<equiv> map_prod id (\<lambda>s. s\<lparr>se_closed := c\<rparr>)"

lemma closed_frame [simp]:
  "current (s\<lparr>se_closed := c\<rparr>) = current s" "context_sha sha (s\<lparr>se_closed := c\<rparr>) e = context_sha sha s e"
  "decider (s\<lparr>se_closed := c\<rparr>) b = decider s b" "set_current e (s\<lparr>se_closed := c\<rparr>) = (set_current e s)\<lparr>se_closed := c\<rparr>"
  "receipt sha (s\<lparr>se_closed := c\<rparr>) e q = receipt sha s e q"
  by (simp_all add: current_def context_sha_def decider_def decided_by_def set_current_def receipt_def split: option.split)

lemma bindS_reclosed:
  assumes "\<And>x s. k x (s\<lparr>se_closed := c\<rparr>) = reclosed c (k x s)"
  shows "bindS (reclosed c r) k = reclosed c (bindS r k)"
  using assms by (cases r; cases "fst r") auto

lemma session_intend_closed: "session_intend sha p ctx a (s\<lparr>se_closed := c\<rparr>) = reclosed c (session_intend sha p ctx a s)"
  by (auto simp: session_intend_def split: sum.split)

lemma take_step_closed: "take_step sha e p live b (s\<lparr>se_closed := c\<rparr>) = reclosed c (take_step sha e p live b s)"
  by (cases "fire sha (ep_model e) (ep_marking e) p (context_sha sha s e) (se_bound s)") (simp_all add: take_step_def Let_def)

lemma session_commit_closed: "session_commit sha token a d (s\<lparr>se_closed := c\<rparr>) = reclosed c (session_commit sha token a d s)"
  by (auto simp: session_commit_def split: sum.split)

lemma perform_closed: "perform sha e p live a b d (s\<lparr>se_closed := c\<rparr>) = reclosed c (perform sha e p live a b d s)"
  by (simp add: perform_def session_intend_closed take_step_closed session_commit_closed bindS_reclosed)

text \<open>
  Closing freezes nothing but the opening of epochs: a step of a closed session does exactly
  what it does in the open one, fires the leaf, extends the epoch and writes the ledger.
\<close>

theorem step_ignores_closing: "step sha p by (s\<lparr>se_closed := c\<rparr>) = reclosed c (step sha p by s)"
proof (cases "current s")
  case e: (Inr e)
  show ?thesis
  proof (cases "enabled (ep_model e) (ep_marking e) (se_bound s)")
    case live: (Inr live)
    then show ?thesis using e by (cases "leaf_activity sha e p") (simp_all add: step_perform perform_closed)
  qed (use e in \<open>simp add: step_perform\<close>)
qed (simp add: step_perform)

section \<open>A finished plan\<close>

text \<open>
  A finished plan can be reported as blocked: when nothing is left to fire and the marking is
  final, sealing the epoch gives \<open>ALIVE\<close>, but a rollout whose domain has not terminated asks for
  one more action, cannot resolve it, and the receipt of the same marking says \<open>BLOCKED\<close>.
\<close>

theorem finished_plan_reported_blocked:
  assumes "current s = Inr e" "epoch_is_final e = Inr True" "epoch_enabled e = Inr []"
    and "trace_of (ep_model e) (ep_choices e) = Inr tr"
    and "reset_policy env w = Inr w1" "reset_domain env w1 = Inr w2" "pick_action env w2 = Inr (a, w')"
  shows "\<exists>r s' q s''. seal_epoch sha s = (Inr r, s') \<and> er_standing r = ALIVE
    \<and> advance sha same env None (Suc n) w s = Some (Inr q, s'') \<and> er_standing q = BLOCKED \<and> er_marking q = er_marking r"
proof -
  have res: "resolve_enabled_node same e a = agent_refuse ACTION_NODE_UNRESOLVED"
    using assms(3) by (simp add: resolve_enabled_node_def)
  have "register_intent sha same a s = (agent_refuse ACTION_NODE_UNRESOLVED, s)"
    using assms(1,3) res by (simp add: register_intent_def)
  then have "advance sha same env None (Suc n) w s = Some (finish_epoch sha (Some blocked_unresolved) s)"
    using assms(1,5-7) by (simp add: advance_def one_rollout_def)
  moreover have "\<exists>r s'. finish_epoch sha b s = (Inr r, s') \<and> er_standing r = (if b = None then ALIVE else BLOCKED)
      \<and> er_marking r = sha256 sha (digest_material (ep_marking e))" for b
    using assms(1,2,4) by (simp add: finish_epoch_def receipt_def Let_def)
  from this [of None] this [of "Some blocked_unresolved"] obtain r s' q s'' where
    "finish_epoch sha None s = (Inr r, s')" "er_standing r = ALIVE" "er_marking r = sha256 sha (digest_material (ep_marking e))"
    "finish_epoch sha (Some blocked_unresolved) s = (Inr q, s'')" "er_standing q = BLOCKED" "er_marking q = sha256 sha (digest_material (ep_marking e))"
    by auto
  ultimately show ?thesis by (simp add: seal_epoch_def)
qed

section \<open>A session over two steps\<close>

definition blank :: "bound \<Rightarrow> session" where
  "blank b = \<lparr>se_id = ''s'', se_domain = JNull, se_solver = None, se_bound = b, se_ledger = from_records [], se_epochs = [],
     se_receipts = [], se_pending = None, se_closed = False\<rparr>"

lemma blank_new: "new_session sha JNull None b (Some ''s'') None = Inr (blank b)"
  by (simp add: new_session_def blank_def assert_resumable_def outstanding_def from_records_def Let_def)

lemma model_digest_total: "wf_node v \<Longrightarrow> \<exists>d. model_digest sha v = Inr d"
  using canonical_form_total [of v sha] canonical_form_wf [of v sha] node_id_total by (fastforce simp: model_digest_def)

lemma create_total: "wf_node model \<Longrightarrow> \<exists>e. create_epoch sha model sid n b sps pres = Inr e"
  using model_digest_total [of model sha] by (auto simp: create_epoch_def)

lemma blank_opened:
  obtains e where "open_epoch sha two_steps [] [] None (blank b) = (Inr e, (blank b)\<lparr>se_epochs := [e]\<rparr>)"
    "ep_model e = two_steps" "ep_marking e = INITIAL_MARKING" "ep_bound e = b" "ep_choices e = []" "ep_standing e = UNKNOWN"
proof -
  obtain e where e: "create_epoch sha two_steps ''s'' 0 b [] [] = Inr e" using create_total [OF two_steps_wf] by blast
  then have "open_epoch sha two_steps [] [] None (blank b) = (Inr e, (blank b)\<lparr>se_epochs := [e]\<rparr>)"
    by (simp add: open_epoch_def blank_def Let_def)
  then show thesis using that created_fields [OF e] by blast
qed

definition say_a :: domain_action where
  "say_a = Single (One (Item None ''a''))"

definition unplugged :: "unit environment" where
  "unplugged = \<lparr>reset_policy = Inr, reset_domain = Inr, pick_action = \<lambda>w. Inr (say_a, w), apply_action = \<lambda>a w. Inl (ModelError ValueError), ask_goal = Inr\<rparr>"

lemma two_steps_start:
  "enabled two_steps INITIAL_MARKING DEFAULT_BOUND = Inr [[0]]"
  "\<exists>m. fire sha two_steps INITIAL_MARKING [0] ctx DEFAULT_BOUND = Inr m \<and> is_final two_steps m = Inr False"
  "\<exists>a. bindE (node_at two_steps [0]) (activity_of sha) = Inr a" "node_at two_steps [0] = Inr (act ''a'')"
  by (simp_all add: run_eval two_steps_def)

lemma blank_intended:
  obtains token q where "intend sha (from_records []) p ctx a '''' [] None d = Inr (token, append_record q (from_records []))"
    "lr_phase q = INTENDED" "lr_token_id q = it_token_id token" "outstanding (append_record q (from_records [])) = [token]"
proof -
  have "outstanding (from_records []) = []" by (simp add: outstanding_def from_records_def)
  then obtain token l where i: "intend sha (from_records []) p ctx a '''' [] None d = Inr (token, l)"
    by (simp add: intend_def as_objects_def Let_def)
  from intend_InrD [OF i] obtain q where q: "l = append_record q (from_records [])" "lr_phase q = INTENDED" "token = token_of q" by metis
  show thesis
    by (rule that [OF i [unfolded q(1)] q(2)])
      (simp_all add: q(2,3) token_of_def outstanding_def committed_records_def from_records_def)
qed

lemma settled_once:
  assumes "lr_phase q = INTENDED" "lr_phase r = COMMITTED" "lr_token_id r = lr_token_id q"
  shows "outstanding (append_record r (append_record q (from_records []))) = []"
    "committed_records (append_record r (append_record q (from_records []))) = [r]"
  using assms by (simp_all add: outstanding_def committed_records_def from_records_def)

lemma finish_partial:
  assumes "current s = Inr e" "epoch_is_final e = Inr False" "ep_choices e \<noteq> []" "trace_of (ep_model e) (ep_choices e) = Inr tr"
  shows "\<exists>f s'. finish_epoch sha None s = (Inr f, s') \<and> er_trace f = tr \<and> se_ledger s' = se_ledger s"
  using assms by (simp add: finish_epoch_def receipt_def Let_def)

text \<open>
  A rollout can record an act that never happened: when the domain raises in the middle of an
  act the ledger rightly keeps an unsettled intent, but a later rollout of zero steps commits it
  at its end, although no action was chosen and the domain was not called: the trace of the
  receipt lists the activity and the ledger counts it as committed.
\<close>

theorem torn_act_committed_unobserved:
  "\<exists>e s s1 x r s2. open_epoch sha two_steps [] [] None (blank DEFAULT_BOUND) = (Inr e, s)
    \<and> advance sha same unplugged None 1 () s = Some (Inl x, s1)
    \<and> committed_records (se_ledger s1) = [] \<and> \<not> is_resumable (se_ledger s1)
    \<and> advance sha same unplugged (Some 0) 1 () s1 = Some (Inr r, s2)
    \<and> er_trace r = [''a''] \<and> length (committed_records (se_ledger s2)) = 1 \<and> is_resumable (se_ledger s2)"
proof -
  obtain e where e: "open_epoch sha two_steps [] [] None (blank DEFAULT_BOUND) = (Inr e, (blank DEFAULT_BOUND)\<lparr>se_epochs := [e]\<rparr>)"
    "ep_model e = two_steps" "ep_marking e = INITIAL_MARKING" "ep_bound e = DEFAULT_BOUND" "ep_choices e = []" "ep_standing e = UNKNOWN"
    using blank_opened by blast
  let ?s = "(blank DEFAULT_BOUND)\<lparr>se_epochs := [e]\<rparr>"
  let ?ctx = "context_sha sha ?s e"
  have cur: "current ?s = Inr e" by (simp add: current_def)
  have live: "epoch_enabled e = Inr [[0]]" using e(2-4,6) two_steps_start(1) by (simp add: epoch_enabled_def)
  have res: "resolve_enabled_node same e say_a = Inr [0]"
    unfolding resolve_enabled_node_def live using e(2) two_steps_start(4)
    by (simp add: matches_node_def say_a_def action_labels_def item_labels_def)
  obtain a where a: "leaf_activity sha e [0] = Inr a" using two_steps_start(3) [of sha] e(2) by (auto simp: leaf_activity_def)
  have l: "se_ledger ?s = from_records []" "se_pending ?s = None" "se_bound ?s = DEFAULT_BOUND" by (simp_all add: blank_def)
  obtain tok q where tl: "intend sha (from_records []) [0] ?ctx a '''' [] None ''PRE_ACT'' = Inr (tok, append_record q (from_records []))"
    "lr_phase q = INTENDED" "lr_token_id q = it_token_id tok" "outstanding (append_record q (from_records [])) = [tok]"
    using blank_intended [of sha "[0]" ?ctx a "''PRE_ACT''"] .
  let ?l1 = "append_record q (from_records [])"
  let ?s1 = "?s\<lparr>se_ledger := ?l1, se_pending := Some (tok, [0], [[0]])\<rparr>"
  have reg: "register_intent sha same say_a ?s = (Inr tok, ?s1)"
    unfolding register_intent_def using cur live res a tl(1) l(1) by (simp add: session_intend_def)
  have adv1: "advance sha same unplugged None 1 () ?s = Some (Inl (ModelError ValueError), ?s1)"
    unfolding advance_def cur one_rollout_def using reg by (simp add: unplugged_def One_nat_def)
  obtain m where m: "fire sha two_steps INITIAL_MARKING [0] ?ctx DEFAULT_BOUND = Inr m" "is_final two_steps m = Inr False"
    using two_steps_start(2) by blast
  let ?c = "choice_of sha ?s e [0] [[0]] (decided_by ?s)"
  let ?e = "advanced e m ?c PARTIAL_ALIVE"
  have take: "take_step sha e [0] [[0]] (decided_by ?s) (?s1\<lparr>se_pending := None\<rparr>)
      = (Inr ?c, set_current ?e (?s1\<lparr>se_pending := None\<rparr>))"
    using m(1) e(2,3) l(3) by (simp add: take_step_def choice_of_def Let_def)
  obtain key l2 where c: "commit sha ?l1 tok None (Some a) None None None ''AT_EPISODE_END_TERMINAL'' = Inr (key, l2)"
    using commit_accepted [of tok ?l1 sha a "''AT_EPISODE_END_TERMINAL''"] tl(4) by auto
  from commit_InrD [OF c] obtain r where r: "l2 = append_record r ?l1" "lr_phase r = COMMITTED" "lr_token_id r = it_token_id tok" by metis
  have l2: "outstanding l2 = []" "committed_records l2 = [r]"
    using settled_once [OF tl(2) r(2)] r(1,3) tl(3) by simp_all
  let ?s2 = "(set_current ?e (?s1\<lparr>se_pending := None\<rparr>))\<lparr>se_ledger := l2\<rparr>"
  have "commit_intent sha ''AT_EPISODE_END_TERMINAL'' ?s1 = (Inr (), ?s2)"
    unfolding commit_intent_def using cur take a c by (simp add: session_commit_def)
  then have "advance sha same unplugged (Some 0) 1 () ?s1 = Some (finish_epoch sha None ?s2)"
    unfolding advance_def one_rollout_def using cur by (simp add: end_episode_def at_episode_end_def unplugged_def One_nat_def)
  moreover obtain f s2 where f: "finish_epoch sha None ?s2 = (Inr f, s2)" "er_trace f = [''a'']" "se_ledger s2 = l2"
  proof -
    have fin: "epoch_is_final ?e = Inr False" using e(2) m(2) by (simp add: epoch_is_final_def)
    have tr: "trace_of (ep_model ?e) (ep_choices ?e) = Inr [''a'']"
      using e(2,5) two_steps_start(4) by (simp add: trace_of_def choice_of_def)
    have cur2: "current ?s2 = Inr ?e" by (simp add: current_def)
    have "ep_choices ?e \<noteq> []" by simp
    from finish_partial [OF cur2 fin this tr] obtain f s2 where
      "finish_epoch sha None ?s2 = (Inr f, s2) \<and> er_trace f = [''a''] \<and> se_ledger s2 = se_ledger ?s2" by metis
    then show thesis using that by simp
  qed
  ultimately have adv2: "advance sha same unplugged (Some 0) 1 () ?s1 = Some (Inr f, s2)" by simp
  have s1: "committed_records (se_ledger ?s1) = []" "\<not> is_resumable (se_ledger ?s1)"
    using tl(2,4) by (simp_all add: is_resumable_def committed_records_def from_records_def)
  have s2: "length (committed_records (se_ledger s2)) = 1" "is_resumable (se_ledger s2)"
    using f(3) l2 by (simp_all add: is_resumable_def)
  from e(1) adv1 s1 adv2 f(2) s2 show ?thesis by blast
qed

section \<open>Witnesses\<close>

definition idle_domain :: "unit environment" where
  "idle_domain = \<lparr>reset_policy = Inr, reset_domain = Inr, pick_action = \<lambda>w. Inr (say_a, w), apply_action = \<lambda>a w. Inr (False, w), ask_goal = Inr\<rparr>"

lemma idle_domain_steady: "steady idle_domain"
  by (simp add: steady_def idle_domain_def) blast

lemma blank_sound: "inj sha \<Longrightarrow> sound sha (blank b)"
  using new_session_sound [OF _ _ blank_new, of sha b] by simp

text \<open>The session after \<open>open_epoch\<close> and one step.\<close>

definition opened_run :: session where
  "opened_run = snd (open_epoch id two_steps [] [] None (blank DEFAULT_BOUND))"

definition stepped_run :: session where
  "stepped_run = snd (step id [0] None opened_run)"

lemma opened_run_op: "session_op id same idle_domain (blank DEFAULT_BOUND) opened_run"
  unfolding opened_run_def by (rule session_op.opened) (rule prod.collapse [symmetric])

lemma stepped_run_op: "session_op id same idle_domain opened_run stepped_run"
  unfolding stepped_run_def by (rule session_op.stepped) (rule prod.collapse [symmetric])

lemma opened_run_run: "session_run id same idle_domain (blank DEFAULT_BOUND) opened_run"
  using opened_run_op by (rule r_into_rtranclp)

lemma stepped_run_run: "session_run id same idle_domain opened_run stepped_run"
  using stepped_run_op by (rule r_into_rtranclp)

theorem session_story_witness:
  "ledger_story (se_ledger stepped_run) = concat (map (epoch_story id) (se_epochs stepped_run))"
proof -
  have "session_run id (\<lambda>_ _. False) idle_domain (blank DEFAULT_BOUND) stepped_run"
    by (rule rtranclp_trans [OF opened_run_run stepped_run_run])
  from session_story [OF inj_on_id _ idle_domain_steady blank_new this] show ?thesis
    by (simp add: ledger_story_def blank_def committed_records_def from_records_def)
qed

theorem session_only_grows_witness: "grown id opened_run stepped_run"
  by (rule session_only_grows [OF inj_on_id _ idle_domain_steady blank_new
        opened_run_run [of "\<lambda>_ _. False"] stepped_run_run]) simp

lemma opened_run_current:
  obtains e where "current opened_run = Inr e" "ep_model e = two_steps" "ep_marking e = INITIAL_MARKING"
    "se_bound opened_run = DEFAULT_BOUND" "se_ledger opened_run = from_records []"
proof -
  obtain e where e: "open_epoch id two_steps [] [] None (blank DEFAULT_BOUND) = (Inr e, (blank DEFAULT_BOUND)\<lparr>se_epochs := [e]\<rparr>)"
    "ep_model e = two_steps" "ep_marking e = INITIAL_MARKING"
    using blank_opened by blast
  then show thesis using that [of e] by (simp add: opened_run_def current_def blank_def)
qed

lemma opened_run_sound: "sound id opened_run"
proof -
  have "told id (ledger_story (se_ledger (blank DEFAULT_BOUND))) (blank DEFAULT_BOUND)" by (simp add: told_def blank_def)
  then show ?thesis
    using story.op_keeps [OF opened_run_op idle_domain_steady] blank_sound [OF inj_on_id] by blast
qed

theorem step_outcomes_witness:
  "\<exists>e live. current opened_run = Inr e \<and> enabled (ep_model e) (ep_marking e) (se_bound opened_run) = Inr live \<and>
    (if [0] \<notin> set live then step id [0] None opened_run = (Inl (ModelError (PowlError LANGUAGE_MISMATCH)), opened_run)
     else (\<exists>r key m s'. step id [0] None opened_run = (Inr (r, key), s') \<and> current s' = Inr (advanced e m r PARTIAL_ALIVE)
              \<and> cr_chosen r = [0] \<and> leaf_activity id e [0] = Inr (ok_activity key) \<and> is_resumable (se_ledger s'))
        \<or> (\<exists>s'. step id [0] None opened_run = (Inl (ModelError (PowlError BOUND_EXHAUSTED)), s') \<and> se_epochs s' = se_epochs opened_run
              \<and> \<not> is_resumable (se_ledger s')))"
proof -
  obtain e where e: "current opened_run = Inr e" "ep_model e = two_steps" "ep_marking e = INITIAL_MARKING"
    "se_ledger opened_run = from_records []" using opened_run_current by metis
  have "is_resumable (se_ledger opened_run)" using e(4) by (simp add: is_resumable_def outstanding_def from_records_def)
  moreover have "wf_node (ep_model e)" "cursor_ok (ep_model e) (ep_marking e)"
    using e(2,3) two_steps_wf by (simp_all add: cursor_ok_def INITIAL_MARKING_def)
  ultimately show ?thesis using step_outcomes [OF opened_run_sound _ e(1), of "[0]" None] e(1) by blast
qed

definition no_fires :: bound where
  "no_fires = \<lparr>max_activity_fires = 0, max_node_visits = 1, max_marking_states = 1\<rparr>"

theorem spent_step_wedges_session_witness:
  "\<exists>e s s'. open_epoch id two_steps [] [] None (blank no_fires) = (Inr e, s)
    \<and> step id [0] None s = (Inl (ModelError (PowlError BOUND_EXHAUSTED)), s')
    \<and> session_outcome id s' = agent_refuse LEDGER_UNRESUMABLE \<and> (\<forall>q by'. \<exists>x. step id q by' s' = (Inl x, s'))"
proof -
  obtain e where e: "open_epoch id two_steps [] [] None (blank no_fires) = (Inr e, (blank no_fires)\<lparr>se_epochs := [e]\<rparr>)"
    "ep_model e = two_steps" "ep_marking e = INITIAL_MARKING" "ep_bound e = no_fires" "ep_standing e = UNKNOWN"
    using blank_opened by blast
  let ?s = "(blank no_fires)\<lparr>se_epochs := [e]\<rparr>"
  have "sound id ?s" using blank_sound [OF inj_on_id, of no_fires] e(4,5) by (simp add: sound_def blank_def)
  moreover have "is_resumable (se_ledger ?s)" by (simp add: is_resumable_def outstanding_def from_records_def blank_def)
  moreover have "current ?s = Inr e" by (simp add: current_def)
  moreover have "enabled (ep_model e) (ep_marking e) (se_bound ?s) = Inr [[0]]" "[0] \<in> set [[0 :: int]]"
    using e(2,3) by (simp_all add: run_eval two_steps_def blank_def no_fires_def)
  moreover obtain a where "leaf_activity id e [0] = Inr a" using two_steps_start(3) [of id] e(2) by (auto simp: leaf_activity_def)
  moreover have "max_activity_fires (se_bound ?s) \<le> fires (ep_marking e)" by (simp add: blank_def no_fires_def)
  ultimately show ?thesis using spent_step_wedges_session [of id ?s e "[[0]]" "[0]" a None] e(1) by blast
qed

definition finished_run :: session where
  "finished_run = (blank DEFAULT_BOUND)\<lparr>se_epochs := [\<lparr>ep_id = ''e'', ep_model = Silent, ep_digest = ''d'', ep_bound = DEFAULT_BOUND,
     ep_marking = INITIAL_MARKING\<lparr>completed_paths := [[]]\<rparr>, ep_choices = [], ep_supersedes = [], ep_preserves = [],
     ep_standing = PARTIAL_ALIVE\<rparr>]\<rparr>"

theorem finished_plan_reported_blocked_witness:
  "\<exists>r s' q s''. seal_epoch id finished_run = (Inr r, s') \<and> er_standing r = ALIVE
    \<and> advance id (\<lambda>_ _. False) idle_domain None (Suc 0) () finished_run = Some (Inr q, s'') \<and> er_standing q = BLOCKED
    \<and> er_marking q = er_marking r"
proof -
  obtain e where e: "current finished_run = Inr e" "ep_model e = Silent" "ep_marking e = INITIAL_MARKING\<lparr>completed_paths := [[]]\<rparr>"
    "ep_choices e = []" "ep_standing e = PARTIAL_ALIVE" by (simp add: finished_run_def current_def)
  have f: "epoch_is_final e = Inr True" "epoch_enabled e = Inr []" "trace_of (ep_model e) (ep_choices e) = Inr []"
    using e(2-5) by (simp_all add: epoch_is_final_def is_final_def epoch_enabled_def enabled_def trace_of_def)
  have "reset_policy idle_domain () = Inr ()" "reset_domain idle_domain () = Inr ()" "pick_action idle_domain () = Inr (say_a, ())"
    by (simp_all add: idle_domain_def)
  then show ?thesis by (rule finished_plan_reported_blocked [OF e(1) f])
qed

end
