(* ===== verification/Ocel_Log.thy ===== *)
theory Ocel_Log
  imports Canonical_Json "HOL-Library.Multiset"
begin

text \<open>
  \<^verbatim>\<open>ocel/model.py\<close> (the link-table model), \<^verbatim>\<open>ocel/refusals.py\<close> and the working form of
  \<^verbatim>\<open>ocel/log.py\<close>: the five tables of an object-centric event log, the two operations that
  extend it, and the two validators.  A float is represented by its text.
\<close>

section \<open>Tables\<close>

text \<open>The kind of an attribute value is its constructor.\<close>

datatype ocel_value = VInteger int | VFloat string | VBoolean bool | VString string | VTime int | VNull
  | VList "ocel_value list" | VMap "(string \<times> ocel_value) list"

type_synonym ocel_attribute = "string \<times> ocel_value"

record ocel_object =
  ob_id :: string
  ob_type :: string
  ob_attributes :: "ocel_attribute list"

record log_event =
  ev_id :: string
  ev_activity :: string
  ev_time :: int
  ev_attributes :: "ocel_attribute list"

record event_object_link =
  eo_event :: string
  eo_object :: string
  eo_qualifier :: "string option"

record object_object_link =
  oo_source :: string
  oo_target :: string
  oo_qualifier :: "string option"

record object_change =
  ch_object :: string
  ch_attribute :: string
  ch_value :: ocel_value
  ch_time :: "int option"

record ocel_log =
  lg_objects :: "ocel_object list"
  lg_events :: "log_event list"
  lg_links :: "event_object_link list"
  lg_relations :: "object_object_link list"
  lg_changes :: "object_change list"

datatype ocel_refusal = DANGLING_EVENT_OBJECT_LINK | EMPTY_EVENT_OBJECT_LINKS | MISSING_REFERENCE_OBJECT
  | MULTIPLE_REFERENCE_OBJECTS | VIOLATES_LOCALITY_PRINCIPLE | TIME_STABLE_ATTRIBUTE_CHANGED
  | DUPLICATE_ENTITY_ID | UNQUALIFIED_OBJECT_REFERENCE

section \<open>Building a log\<close>

definition empty_log :: ocel_log where
  "empty_log = \<lparr>lg_objects = [], lg_events = [], lg_links = [], lg_relations = [], lg_changes = []\<rparr>"

definition with_objects :: "ocel_log \<Rightarrow> ocel_object list \<Rightarrow> ocel_log" where
  "with_objects L obs = L\<lparr>lg_objects := lg_objects L @ obs\<rparr>"

text \<open>An object of an event is given by its id alone or with a qualifier.\<close>

datatype link_spec = BareId string | QualifiedId string "string option"

definition as_link :: "string \<Rightarrow> link_spec \<Rightarrow> event_object_link" where
  "as_link e spec = (case spec of
       BareId i \<Rightarrow> \<lparr>eo_event = e, eo_object = i, eo_qualifier = None\<rparr>
     | QualifiedId i q \<Rightarrow> \<lparr>eo_event = e, eo_object = i, eo_qualifier = q\<rparr>)"

definition append_event :: "ocel_log \<Rightarrow> string \<Rightarrow> string \<Rightarrow> link_spec list \<Rightarrow> int \<Rightarrow> ocel_attribute list
    \<Rightarrow> object_object_link list \<Rightarrow> object_change list \<Rightarrow> ocel_log" where
  "append_event L e act specs t attrs rels chs = L
     \<lparr>lg_events := lg_events L @ [\<lparr>ev_id = e, ev_activity = act, ev_time = t, ev_attributes = attrs\<rparr>],
      lg_links := lg_links L @ map (as_link e) specs,
      lg_relations := lg_relations L @ rels,
      lg_changes := lg_changes L @ chs\<rparr>"

section \<open>Structural validation\<close>

definition TIME_STABLE_OBJECT_ATTRIBUTES :: "string list" where
  "TIME_STABLE_OBJECT_ATTRIBUTES = [''objects'', ''type'']"

text \<open>The loop over declared ids, with the ids already seen.\<close>

fun check_unique :: "string list \<Rightarrow> string list \<Rightarrow> ocel_refusal + unit" where
  "check_unique seen [] = Inr ()"
| "check_unique seen (i # ids) =
     (if i \<in> set seen then Inl DUPLICATE_ENTITY_ID else check_unique (seen @ [i]) ids)"

text \<open>A missing qualifier is \<^verbatim>\<open>None\<close> or the empty text.\<close>

definition unqualified :: "string option \<Rightarrow> bool" where
  "unqualified q \<longleftrightarrow> q = None \<or> q = Some ''''"

definition check_link :: "string list \<Rightarrow> string list \<Rightarrow> event_object_link \<Rightarrow> ocel_refusal + unit" where
  "check_link obs evs l = bindE (requireE (eo_object l \<in> set obs) DANGLING_EVENT_OBJECT_LINK)
     (\<lambda>_. requireE (eo_event l \<in> set evs) DANGLING_EVENT_OBJECT_LINK)"

definition check_relation :: "string list \<Rightarrow> object_object_link \<Rightarrow> ocel_refusal + unit" where
  "check_relation obs r = iterE (\<lambda>i. requireE (i \<in> set obs) DANGLING_EVENT_OBJECT_LINK) [oo_source r, oo_target r]"

definition check_change :: "string list \<Rightarrow> object_change \<Rightarrow> ocel_refusal + unit" where
  "check_change obs c = bindE (requireE (ch_object c \<in> set obs) DANGLING_EVENT_OBJECT_LINK)
     (\<lambda>_. requireE (ch_attribute c \<notin> set TIME_STABLE_OBJECT_ATTRIBUTES) TIME_STABLE_ATTRIBUTE_CHANGED)"

definition check_qualifiers :: "ocel_log \<Rightarrow> ocel_refusal + unit" where
  "check_qualifiers L =
     bindE (iterE (\<lambda>l. requireE (\<not> unqualified (eo_qualifier l)) UNQUALIFIED_OBJECT_REFERENCE) (lg_links L)) (\<lambda>_.
     iterE (\<lambda>r. requireE (\<not> unqualified (oo_qualifier r)) UNQUALIFIED_OBJECT_REFERENCE) (lg_relations L))"

definition validate_log :: "ocel_log \<Rightarrow> bool \<Rightarrow> ocel_refusal + ocel_log" where
  "validate_log L strict =
     (let obs = map ob_id (lg_objects L); evs = map ev_id (lg_events L) in
      bindE (check_unique [] obs) (\<lambda>_.
      bindE (check_unique [] evs) (\<lambda>_.
      bindE (requireE (\<not> (lg_events L \<noteq> [] \<and> lg_links L = [])) EMPTY_EVENT_OBJECT_LINKS) (\<lambda>_.
      bindE (requireE (\<not> (lg_events L = [] \<and> lg_links L = [])) EMPTY_EVENT_OBJECT_LINKS) (\<lambda>_.
      bindE (iterE (\<lambda>e. requireE (ev_id e \<in> set (map eo_event (lg_links L))) EMPTY_EVENT_OBJECT_LINKS) (lg_events L)) (\<lambda>_.
      bindE (iterE (check_link obs evs) (lg_links L)) (\<lambda>_.
      bindE (iterE (check_relation obs) (lg_relations L)) (\<lambda>_.
      bindE (iterE (check_change obs) (lg_changes L)) (\<lambda>_.
      bindE (if strict then check_qualifiers L else Inr ()) (\<lambda>_. Inr L))))))))))"

section \<open>Locality\<close>

text \<open>The reference objects and the children that the links of an event name, in order.\<close>

definition object_types :: "ocel_log \<Rightarrow> (string \<times> string) list" where
  "object_types L = foldl (\<lambda>d b. dict_set (ob_id b) (ob_type b) d) [] (lg_objects L)"

definition linked_of_type :: "ocel_log \<Rightarrow> string \<Rightarrow> string \<Rightarrow> string list" where
  "linked_of_type L e ty = map eo_object (filter (\<lambda>l. eo_event l = e
     \<and> dict_get (object_types L) (eo_object l) '''' = ty) (lg_links L))"

fun attach :: "string \<Rightarrow> (string \<times> string) list \<Rightarrow> string list \<Rightarrow> ocel_refusal + (string \<times> string) list" where
  "attach ref parents [] = Inr parents"
| "attach ref parents (c # cs) =
     (case map_of parents c of
        Some p \<Rightarrow> if p \<noteq> ref then Inl VIOLATES_LOCALITY_PRINCIPLE else attach ref (dict_set c ref parents) cs
      | None \<Rightarrow> attach ref (dict_set c ref parents) cs)"

definition locality_step :: "ocel_log \<Rightarrow> string \<Rightarrow> string \<Rightarrow> (string \<times> string) list \<Rightarrow> log_event
    \<Rightarrow> ocel_refusal + (string \<times> string) list" where
  "locality_step L ref_type child_type parents e =
     (let refs = linked_of_type L (ev_id e) ref_type;
          children = (if child_type = ref_type then [] else linked_of_type L (ev_id e) child_type)
      in if length refs = 0 then Inl MISSING_REFERENCE_OBJECT
         else if length refs > 1 then Inl MULTIPLE_REFERENCE_OBJECTS
         else attach (last refs) parents children)"

definition validate_locality :: "ocel_log \<Rightarrow> string \<Rightarrow> string \<Rightarrow> ocel_refusal + ocel_log" where
  "validate_locality L ref_type child_type =
     bindE (foldE (locality_step L ref_type child_type) [] (lg_events L)) (\<lambda>_. Inr L)"

end
