(* ===== verification/Ocel_Log_Facts.thy ===== *)
theory Ocel_Log_Facts
  imports Ocel_Log
begin

text \<open>
  What the validators of \<^verbatim>\<open>ocel/log.py\<close> decide, and the contract between the log and the
  writers that fill it: a log whose writer declares objects before it links them and never
  reuses an id passes validation.
\<close>

section \<open>Structural validation decides lawfulness\<close>

definition link_lawful :: "ocel_log \<Rightarrow> event_object_link \<Rightarrow> bool" where
  "link_lawful L l \<longleftrightarrow> eo_object l \<in> ob_id ` set (lg_objects L) \<and> eo_event l \<in> ev_id ` set (lg_events L)"

definition relation_lawful :: "ocel_log \<Rightarrow> object_object_link \<Rightarrow> bool" where
  "relation_lawful L r \<longleftrightarrow> {oo_source r, oo_target r} \<subseteq> ob_id ` set (lg_objects L)"

definition change_lawful :: "ocel_log \<Rightarrow> object_change \<Rightarrow> bool" where
  "change_lawful L c \<longleftrightarrow> ch_object c \<in> ob_id ` set (lg_objects L) \<and> ch_attribute c \<notin> {''objects'', ''type''}"

text \<open>
  Definition 2 of OCPQ, as the code reads it: ids are unique, every event has an object,
  references are declared, time-stable attributes do not change.
\<close>

definition lawful_log :: "ocel_log \<Rightarrow> bool" where
  "lawful_log L \<longleftrightarrow> distinct (map ob_id (lg_objects L)) \<and> distinct (map ev_id (lg_events L))
     \<and> ev_id ` set (lg_events L) \<subseteq> eo_event ` set (lg_links L)
     \<and> (\<forall>l \<in> set (lg_links L). link_lawful L l) \<and> (\<forall>r \<in> set (lg_relations L). relation_lawful L r)
     \<and> (\<forall>c \<in> set (lg_changes L). change_lawful L c)"

definition all_qualified :: "ocel_log \<Rightarrow> bool" where
  "all_qualified L \<longleftrightarrow> (\<forall>l \<in> set (lg_links L). \<not> unqualified (eo_qualifier l))
     \<and> (\<forall>r \<in> set (lg_relations L). \<not> unqualified (oo_qualifier r))"

lemma check_unique_iff: "check_unique seen ids = Inr u \<longleftrightarrow> distinct ids \<and> set seen \<inter> set ids = {}"
  by (induction ids arbitrary: seen) auto

lemma check_qualifiers_iff: "check_qualifiers L = Inr u \<longleftrightarrow> all_qualified L"
  by (auto simp: check_qualifiers_def all_qualified_def bindE_Inr_iff iterE_Inr_iff)

lemma check_link_iff: "check_link (map ob_id (lg_objects L)) (map ev_id (lg_events L)) l = Inr u \<longleftrightarrow> link_lawful L l"
  by (auto simp: check_link_def link_lawful_def)

lemma check_relation_iff: "check_relation (map ob_id (lg_objects L)) r = Inr u \<longleftrightarrow> relation_lawful L r"
  by (auto simp: check_relation_def relation_lawful_def)

lemma check_change_iff: "check_change (map ob_id (lg_objects L)) c = Inr u \<longleftrightarrow> change_lawful L c"
  by (auto simp: check_change_def change_lawful_def TIME_STABLE_OBJECT_ATTRIBUTES_def)

lemma validate_log_iff:
  "validate_log L strict = Inr L' \<longleftrightarrow>
     L' = L \<and> lawful_log L \<and> lg_events L \<noteq> [] \<and> (strict \<longrightarrow> all_qualified L)"
proof -
  have "validate_log L strict = Inr L' \<longleftrightarrow> L' = L \<and> lawful_log L \<and> lg_links L \<noteq> [] \<and> (strict \<longrightarrow> all_qualified L)"
    by (auto simp: validate_log_def lawful_log_def Let_def bindE_Inr_iff iterE_Inr_iff check_unique_iff check_link_iff
        check_relation_iff check_change_iff check_qualifiers_iff)
  moreover have "lawful_log L \<Longrightarrow> lg_links L \<noteq> [] \<longleftrightarrow> lg_events L \<noteq> []"
    by (cases "lg_links L") (auto simp: lawful_log_def link_lawful_def)
  ultimately show ?thesis by blast
qed

text \<open>The first law, in the order of the code, that a refused log breaks.\<close>

lemma check_unique_eq: "check_unique seen ids = (if distinct ids \<and> set seen \<inter> set ids = {} then Inr () else Inl DUPLICATE_ENTITY_ID)"
  by (induction ids arbitrary: seen) auto

lemma iterE_const:
  "(\<And>x. x \<in> set xs \<Longrightarrow> f x = (if P x then Inr () else Inl r)) \<Longrightarrow> iterE f xs = (if \<forall>x \<in> set xs. P x then Inr () else Inl r)"
  by (induction xs) auto

lemma iterE_find: "iterE f xs = (case find (\<lambda>x. f x \<noteq> Inr ()) xs of None \<Rightarrow> Inr () | Some x \<Rightarrow> f x)"
proof (induction xs)
  case (Cons x xs)
  then show ?case by (cases "f x") auto
qed simp

lemma check_link_eq: "check_link (map ob_id (lg_objects L)) (map ev_id (lg_events L)) l
    = (if link_lawful L l then Inr () else Inl DANGLING_EVENT_OBJECT_LINK)"
  by (simp add: check_link_def link_lawful_def requireE_def)

lemma check_relation_eq: "check_relation (map ob_id (lg_objects L)) r
    = (if relation_lawful L r then Inr () else Inl DANGLING_EVENT_OBJECT_LINK)"
  by (simp add: check_relation_def relation_lawful_def requireE_def)

lemma check_change_eq: "check_change (map ob_id (lg_objects L)) c
    = (if change_lawful L c then Inr ()
       else Inl (if ch_object c \<in> ob_id ` set (lg_objects L) then TIME_STABLE_ATTRIBUTE_CHANGED else DANGLING_EVENT_OBJECT_LINK))"
  by (simp add: check_change_def change_lawful_def requireE_def TIME_STABLE_OBJECT_ATTRIBUTES_def)

lemma check_qualifiers_eq: "check_qualifiers L = (if all_qualified L then Inr () else Inl UNQUALIFIED_OBJECT_REFERENCE)"
proof -
  have "iterE (\<lambda>l. requireE (\<not> unqualified (eo_qualifier l)) UNQUALIFIED_OBJECT_REFERENCE) (lg_links L)
      = (if \<forall>l \<in> set (lg_links L). \<not> unqualified (eo_qualifier l) then Inr () else Inl UNQUALIFIED_OBJECT_REFERENCE)"
    "iterE (\<lambda>r. requireE (\<not> unqualified (oo_qualifier r)) UNQUALIFIED_OBJECT_REFERENCE) (lg_relations L)
      = (if \<forall>r \<in> set (lg_relations L). \<not> unqualified (oo_qualifier r) then Inr () else Inl UNQUALIFIED_OBJECT_REFERENCE)"
    by (rule iterE_const, simp add: requireE_def)+
  then show ?thesis by (auto simp: check_qualifiers_def all_qualified_def)
qed

definition first_broken :: "ocel_log \<Rightarrow> bool \<Rightarrow> ocel_refusal option" where
  "first_broken L strict =
     (if \<not> (distinct (map ob_id (lg_objects L)) \<and> distinct (map ev_id (lg_events L))) then Some DUPLICATE_ENTITY_ID
      else if lg_links L = [] \<or> \<not> ev_id ` set (lg_events L) \<subseteq> eo_event ` set (lg_links L) then Some EMPTY_EVENT_OBJECT_LINKS
      else if \<not> ((\<forall>l \<in> set (lg_links L). link_lawful L l) \<and> (\<forall>r \<in> set (lg_relations L). relation_lawful L r))
        then Some DANGLING_EVENT_OBJECT_LINK
      else case find (\<lambda>c. \<not> change_lawful L c) (lg_changes L) of
          Some c \<Rightarrow> Some (if ch_object c \<in> ob_id ` set (lg_objects L) then TIME_STABLE_ATTRIBUTE_CHANGED
                        else DANGLING_EVENT_OBJECT_LINK)
        | None \<Rightarrow> if strict \<and> \<not> all_qualified L then Some UNQUALIFIED_OBJECT_REFERENCE else None)"

lemma validate_log_eq: "validate_log L strict = (case first_broken L strict of None \<Rightarrow> Inr L | Some r \<Rightarrow> Inl r)"
proof -
  have "iterE (\<lambda>e. requireE (ev_id e \<in> set (map eo_event (lg_links L))) EMPTY_EVENT_OBJECT_LINKS) (lg_events L)
      = (if \<forall>e \<in> set (lg_events L). ev_id e \<in> eo_event ` set (lg_links L) then Inr () else Inl EMPTY_EVENT_OBJECT_LINKS)"
    by (rule iterE_const) (simp add: requireE_def)
  moreover have "iterE (check_link (map ob_id (lg_objects L)) (map ev_id (lg_events L))) (lg_links L)
      = (if \<forall>l \<in> set (lg_links L). link_lawful L l then Inr () else Inl DANGLING_EVENT_OBJECT_LINK)"
    by (rule iterE_const) (simp add: check_link_eq)
  moreover have "iterE (check_relation (map ob_id (lg_objects L))) (lg_relations L)
      = (if \<forall>r \<in> set (lg_relations L). relation_lawful L r then Inr () else Inl DANGLING_EVENT_OBJECT_LINK)"
    by (rule iterE_const) (simp add: check_relation_eq)
  moreover have "(\<lambda>c. check_change (map ob_id (lg_objects L)) c \<noteq> Inr ()) = (\<lambda>c. \<not> change_lawful L c)"
    by (simp add: check_change_eq fun_eq_iff)
  moreover have "find (\<lambda>c. \<not> change_lawful L c) (lg_changes L) = Some c \<Longrightarrow> \<not> change_lawful L c" for c
    by (auto simp: find_Some_iff)
  ultimately show ?thesis
    by (auto simp: validate_log_def first_broken_def Let_def check_unique_eq requireE_def check_qualifiers_eq
        iterE_find [of "check_change (map ob_id (lg_objects L))"] check_change_eq image_subset_iff
        simp del: bindE_Inr split: option.splits)
qed

section \<open>Locality\<close>

definition children_of :: "ocel_log \<Rightarrow> string \<Rightarrow> string \<Rightarrow> log_event \<Rightarrow> string list" where
  "children_of L ref_type child_type e = (if child_type = ref_type then [] else linked_of_type L (ev_id e) child_type)"

text \<open>Each event has one reference object, and events that share a child share their reference object.\<close>

definition share_child :: "ocel_log \<Rightarrow> string \<Rightarrow> string \<Rightarrow> log_event \<Rightarrow> log_event \<Rightarrow> bool" where
  "share_child L ref_type child_type e e' \<longleftrightarrow>
     (\<exists>c. c \<in> set (children_of L ref_type child_type e) \<and> c \<in> set (children_of L ref_type child_type e'))"

definition local_log :: "ocel_log \<Rightarrow> string \<Rightarrow> string \<Rightarrow> log_event list \<Rightarrow> bool" where
  "local_log L ref_type child_type es \<longleftrightarrow>
     (\<forall>e \<in> set es. \<exists>r. linked_of_type L (ev_id e) ref_type = [r])
     \<and> (\<forall>e \<in> set es. \<forall>e' \<in> set es. share_child L ref_type child_type e e'
          \<longrightarrow> linked_of_type L (ev_id e) ref_type = linked_of_type L (ev_id e') ref_type)"

lemma attach_iff:
  "attach r parents cs = Inr parents' \<longleftrightarrow>
     (\<forall>c \<in> set cs. map_of parents c \<in> {None, Some r}) \<and> parents' = foldl (\<lambda>d c. dict_set c r d) parents cs"
  by (induction cs arbitrary: parents) (auto split: option.splits)

lemma map_of_attached:
  "map_of (foldl (\<lambda>d c. dict_set c r d) parents cs) c = (if c \<in> set cs then Some r else map_of parents c)"
  by (induction cs arbitrary: parents) auto

lemma locality_step_iff:
  "locality_step L rt ct parents e = Inr parents' \<longleftrightarrow> (\<exists>r. linked_of_type L (ev_id e) rt = [r]
     \<and> (\<forall>c \<in> set (children_of L rt ct e). map_of parents c \<in> {None, Some r})
     \<and> parents' = foldl (\<lambda>d c. dict_set c r d) parents (children_of L rt ct e))"
  by (cases "linked_of_type L (ev_id e) rt" rule: remdups_adj.cases)
    (auto simp: locality_step_def Let_def children_of_def [symmetric] attach_iff)

lemma locality_fold:
  assumes "foldE (locality_step L rt ct) [] es = Inr parents"
  shows "local_log L rt ct es
    \<and> (\<forall>c r. map_of parents c = Some r \<longleftrightarrow> (\<exists>e \<in> set es. c \<in> set (children_of L rt ct e) \<and> linked_of_type L (ev_id e) rt = [r]))"
  using assms
proof (induction es arbitrary: parents rule: rev_induct)
  case Nil
  then show ?case by (simp add: local_log_def)
next
  case (snoc e es)
  then obtain p where p: "foldE (locality_step L rt ct) [] es = Inr p" "locality_step L rt ct p e = Inr parents"
    by (auto simp: foldE_append bindE_Inr_iff)
  note IH = snoc.IH [OF p(1)]
  obtain r where r: "linked_of_type L (ev_id e) rt = [r]"
    "\<forall>c \<in> set (children_of L rt ct e). map_of p c \<in> {None, Some r}"
    "parents = foldl (\<lambda>d c. dict_set c r d) p (children_of L rt ct e)"
    using p(2) by (auto simp: locality_step_iff)
  have same: "linked_of_type L (ev_id e') rt = [r]"
    if e': "e' \<in> set es" and c: "c \<in> set (children_of L rt ct e)" "c \<in> set (children_of L rt ct e')" for e' c
  proof -
    obtain r' where r': "linked_of_type L (ev_id e') rt = [r']" using IH e' by (auto simp: local_log_def)
    then have "map_of p c = Some r'" using IH e' c by blast
    with r(2) c have "r' = r" by auto
    with r' show ?thesis by simp
  qed
  have "linked_of_type L (ev_id a) rt = linked_of_type L (ev_id b) rt"
    if ab: "a \<in> set (es @ [e])" "b \<in> set (es @ [e])" and sh: "share_child L rt ct a b" for a b
  proof -
    obtain c where c: "c \<in> set (children_of L rt ct a)" "c \<in> set (children_of L rt ct b)"
      using sh by (auto simp: share_child_def)
    consider "a \<in> set es" "b \<in> set es" | "a = e" | "b = e" using ab by auto
    then show ?thesis
    proof cases
      case 1
      with IH sh show ?thesis unfolding local_log_def by blast
    next
      case 2
      with same [of b c] c ab(2) r(1) show ?thesis by auto
    next
      case 3
      with same [of a c] c ab(1) r(1) show ?thesis by auto
    qed
  qed
  moreover have "\<exists>s. linked_of_type L (ev_id a) rt = [s]" if "a \<in> set (es @ [e])" for a
    using IH r(1) that by (auto simp: local_log_def)
  ultimately have "local_log L rt ct (es @ [e])" unfolding local_log_def by blast
  moreover have "map_of parents c = Some s \<longleftrightarrow>
      (\<exists>e' \<in> set (es @ [e]). c \<in> set (children_of L rt ct e') \<and> linked_of_type L (ev_id e') rt = [s])" for c s
  proof (cases "c \<in> set (children_of L rt ct e)")
    case True
    then have "map_of parents c = Some r" by (simp add: r(3) map_of_attached)
    moreover have "\<forall>e' \<in> set es. c \<in> set (children_of L rt ct e') \<longrightarrow> linked_of_type L (ev_id e') rt = [r]"
      using same True by blast
    ultimately show ?thesis using True r(1) by auto
  next
    case False
    then have "map_of parents c = map_of p c" by (simp add: r(3) map_of_attached)
    with IH False show ?thesis by simp
  qed
  ultimately show ?case by blast
qed

lemma locality_fold_complete:
  "local_log L rt ct es \<Longrightarrow> \<exists>parents. foldE (locality_step L rt ct) [] es = Inr parents"
proof (induction es rule: rev_induct)
  case (snoc e es)
  then have "local_log L rt ct es" by (auto simp: local_log_def)
  with snoc.IH obtain p where p: "foldE (locality_step L rt ct) [] es = Inr p" by blast
  note F = locality_fold [OF p]
  obtain r where r: "linked_of_type L (ev_id e) rt = [r]" using snoc.prems by (auto simp: local_log_def)
  have "map_of p c \<in> {None, Some r}" if c: "c \<in> set (children_of L rt ct e)" for c
  proof (cases "map_of p c")
    case (Some s)
    then obtain e' where e': "e' \<in> set es" "c \<in> set (children_of L rt ct e')" "linked_of_type L (ev_id e') rt = [s]"
      using F by blast
    then have "linked_of_type L (ev_id e') rt = linked_of_type L (ev_id e) rt"
      using snoc.prems c by (auto simp: local_log_def share_child_def)
    with e'(3) r Some show ?thesis by simp
  qed simp
  with r have "\<exists>q. locality_step L rt ct p e = Inr q" by (auto simp: locality_step_iff)
  then show ?case using p by (auto simp: foldE_append)
qed simp

lemma validate_locality_iff:
  "validate_locality L rt ct = Inr L' \<longleftrightarrow> L' = L \<and> local_log L rt ct (lg_events L)"
  using locality_fold locality_fold_complete by (fastforce simp: validate_locality_def bindE_Inr_iff)

text \<open>
  Locality does not depend on the order of the events: whatever permutation of its events
  a log is given in, \<^verbatim>\<open>validate_locality\<close> admits it or refuses it alike, because every event
  that names a child must name the same reference object.
\<close>

theorem locality_order_free:
  assumes "mset es = mset (lg_events L)"
  shows "(\<exists>M. validate_locality (L\<lparr>lg_events := es\<rparr>) rt ct = Inr M) \<longleftrightarrow> (\<exists>M. validate_locality L rt ct = Inr M)"
proof -
  have "set es = set (lg_events L)" using assms by (metis set_mset_mset)
  moreover have "object_types (L\<lparr>lg_events := es\<rparr>) = object_types L" by (simp add: object_types_def)
  then have "linked_of_type (L\<lparr>lg_events := es\<rparr>) = linked_of_type L" by (simp add: linked_of_type_def fun_eq_iff)
  ultimately show ?thesis by (simp add: validate_locality_iff local_log_def share_child_def children_of_def)
qed

section \<open>Writers of a log\<close>

text \<open>
  What a log promises to those that fill it: declaring an object that is new, and entering an
  event with a new id whose objects are declared, keep it lawful.
\<close>

locale event_store =
  fixes lawful :: "'l \<Rightarrow> bool" and objs :: "'l \<Rightarrow> string set" and evs :: "'l \<Rightarrow> string set"
    and declare_one :: "'l \<Rightarrow> 'o \<Rightarrow> 'l" and oid :: "'o \<Rightarrow> string"
    and enter_event :: "'l \<Rightarrow> string \<Rightarrow> 'x \<Rightarrow> 's list \<Rightarrow> 'l" and sid :: "'s \<Rightarrow> string"
  assumes declared: "objs (declare_one L b) = insert (oid b) (objs L)" "evs (declare_one L b) = evs L"
    and entered: "objs (enter_event L e x ss) = objs L" "evs (enter_event L e x ss) = insert e (evs L)"
    and declare_lawful: "lawful L \<Longrightarrow> oid b \<notin> objs L \<Longrightarrow> lawful (declare_one L b)"
    and enter_lawful: "lawful L \<Longrightarrow> e \<notin> evs L \<Longrightarrow> ss \<noteq> [] \<Longrightarrow> sid ` set ss \<subseteq> objs L \<Longrightarrow> lawful (enter_event L e x ss)"
begin

text \<open>Declaring, in turn, the objects that are missing.\<close>

definition declare_missing :: "'l \<Rightarrow> 'o list \<Rightarrow> 'l" where
  "declare_missing L bs = foldl (\<lambda>L b. if oid b \<in> objs L then L else declare_one L b) L bs"

lemma declare_missing_ok:
  "lawful L \<Longrightarrow> lawful (declare_missing L bs)" "objs (declare_missing L bs) = oid ` set bs \<union> objs L"
  "evs (declare_missing L bs) = evs L"
  unfolding declare_missing_def
  by (induction bs arbitrary: L) (auto simp: declared declare_lawful)

lemma enter_missing_ok:
  assumes "lawful L" "e \<notin> evs L" "ss \<noteq> []" "sid ` set ss \<subseteq> oid ` set bs \<union> objs L"
  shows "lawful (enter_event (declare_missing L bs) e x ss)"
  using assms by (intro enter_lawful) (auto simp: declare_missing_ok)

end

text \<open>A writer that counts its events and names each after its number.\<close>

locale numbered_store = event_store lawful objs evs declare_one oid enter_event sid
  for lawful :: "'l \<Rightarrow> bool" and objs evs and declare_one :: "'l \<Rightarrow> 'o \<Rightarrow> 'l" and oid
    and enter_event :: "'l \<Rightarrow> string \<Rightarrow> 'x \<Rightarrow> 's list \<Rightarrow> 'l" and sid +
  fixes name :: "'a \<Rightarrow> nat \<Rightarrow> string" and proper :: "'a \<Rightarrow> bool"
  assumes name_inj: "proper a \<Longrightarrow> proper b \<Longrightarrow> name a m = name b n \<Longrightarrow> m = n"
begin

definition counted :: "nat \<Rightarrow> 'l \<Rightarrow> bool" where
  "counted k L \<longleftrightarrow> lawful L \<and> (\<forall>e \<in> evs L. \<exists>a n. proper a \<and> n < k \<and> e = name a n)"

lemma counted_Suc: "counted k L \<Longrightarrow> counted (Suc k) L"
  unfolding counted_def using less_SucI by blast

lemma counted_declare: "counted k L \<Longrightarrow> oid b \<notin> objs L \<Longrightarrow> counted k (declare_one L b)"
  by (simp add: counted_def declared declare_lawful)

lemma counted_declare_missing: "counted k L \<Longrightarrow> counted k (declare_missing L bs)"
  by (simp add: counted_def declare_missing_ok)

lemma counted_enter:
  assumes "counted k L" "proper a" "ss \<noteq> []" "sid ` set ss \<subseteq> objs L"
  shows "counted (Suc k) (enter_event L (name a k) x ss)"
proof -
  have "name a k \<notin> evs L"
  proof
    assume "name a k \<in> evs L"
    then obtain b n where "proper b" "n < k" "name a k = name b n" using assms(1) by (auto simp: counted_def)
    with name_inj [OF assms(2) this(1,3)] show False by simp
  qed
  then have "lawful (enter_event L (name a k) x ss)"
    using assms by (intro enter_lawful) (auto simp: counted_def)
  moreover have "\<exists>b n. proper b \<and> n < Suc k \<and> e = name b n" if "e \<in> evs (enter_event L (name a k) x ss)" for e
    using that assms(1,2) less_SucI unfolding counted_def entered by blast
  ultimately show ?thesis by (simp add: counted_def)
qed

end

definition link_id :: "link_spec \<Rightarrow> string" where
  "link_id spec = (case spec of BareId i \<Rightarrow> i | QualifiedId i q \<Rightarrow> i)"

lemma as_link_ids [simp]: "eo_event (as_link e spec) = e" "eo_object (as_link e spec) = link_id spec"
  by (simp_all add: as_link_def link_id_def split: link_spec.split)

abbreviation log_objects :: "ocel_log \<Rightarrow> string set" where "log_objects L \<equiv> ob_id ` set (lg_objects L)"
abbreviation log_event_ids :: "ocel_log \<Rightarrow> string set" where "log_event_ids L \<equiv> ev_id ` set (lg_events L)"
abbreviation declare_object :: "ocel_log \<Rightarrow> ocel_object \<Rightarrow> ocel_log" where "declare_object L b \<equiv> with_objects L [b]"
abbreviation log_enter :: "ocel_log \<Rightarrow> string \<Rightarrow> string \<times> int \<times> ocel_attribute list \<Rightarrow> link_spec list \<Rightarrow> ocel_log" where
  "log_enter L e x specs \<equiv> append_event L e (fst x) specs (fst (snd x)) (snd (snd x)) [] []"

interpretation log: event_store lawful_log log_objects log_event_ids declare_object ob_id log_enter link_id
proof unfold_locales
  fix L :: ocel_log and b :: ocel_object
  assume "lawful_log L" "ob_id b \<notin> log_objects L"
  then show "lawful_log (declare_object L b)"
    by (auto simp: lawful_log_def with_objects_def link_lawful_def relation_lawful_def change_lawful_def)
next
  fix L e specs and x :: "string \<times> int \<times> ocel_attribute list"
  assume *: "lawful_log L" "e \<notin> log_event_ids L" "specs \<noteq> []" "link_id ` set specs \<subseteq> log_objects L"
  have "e \<in> eo_event ` set (map (as_link e) specs)" using *(3) by (cases specs) auto
  with * show "lawful_log (log_enter L e x specs)"
    by (auto simp: lawful_log_def append_event_def link_lawful_def relation_lawful_def change_lawful_def image_subset_iff)
qed (auto simp: with_objects_def append_event_def)

section \<open>Claims\<close>

text \<open>
  C28.  Validation decides the laws: a log passes \<^verbatim>\<open>OcelLog.validate\<close> exactly when it has an event,
  identifiers are unique, every event names an object, every link, relation and change lands on a
  declared entity and no time-stable attribute changes (with non-empty qualifiers everywhere under
  \<^verbatim>\<open>strict\<close>).  It then comes back unchanged; otherwise the refusal is the first broken law in the
  order of the code.
\<close>

theorem validate_log_decides:
  "validate_log L strict = (case first_broken L strict of None \<Rightarrow> Inr L | Some r \<Rightarrow> Inl r)
    \<and> (first_broken L strict = None \<longleftrightarrow> lawful_log L \<and> lg_events L \<noteq> [] \<and> (strict \<longrightarrow> all_qualified L))"
proof -
  have "first_broken L strict = None \<longleftrightarrow> validate_log L strict = Inr L"
    by (simp add: validate_log_eq split: option.splits)
  then show ?thesis unfolding validate_log_iff by (simp add: validate_log_eq)
qed

text \<open>Two events that share an item of one order.\<close>

definition shared_item_log :: ocel_log where
  "shared_item_log = empty_log
    \<lparr>lg_events := [\<lparr>ev_id = ''e1'', ev_activity = ''pick'', ev_time = 1, ev_attributes = []\<rparr>,
                  \<lparr>ev_id = ''e2'', ev_activity = ''pack'', ev_time = 2, ev_attributes = []\<rparr>],
     lg_objects := [\<lparr>ob_id = ''o'', ob_type = ''order'', ob_attributes = []\<rparr>, \<lparr>ob_id = ''i'', ob_type = ''item'', ob_attributes = []\<rparr>],
     lg_links := map (as_link ''e1'') [BareId ''o'', BareId ''i''] @ map (as_link ''e2'') [BareId ''i'', BareId ''o'']\<rparr>"

theorem locality_order_free_witness:
  "\<exists>M. validate_locality (shared_item_log\<lparr>lg_events := rev (lg_events shared_item_log)\<rparr>) ''order'' ''item'' = Inr M"
proof -
  have "\<exists>M. validate_locality shared_item_log ''order'' ''item'' = Inr M"
    by (simp add: validate_locality_def locality_step_def linked_of_type_def object_types_def shared_item_log_def as_link_def
        dict_get_def Let_def)
  then show ?thesis using locality_order_free [of "rev (lg_events shared_item_log)" shared_item_log "''order''" "''item''"] by simp
qed

theorem validate_log_decides_witness:
  "validate_log shared_item_log True = Inl UNQUALIFIED_OBJECT_REFERENCE \<and> validate_log shared_item_log False = Inr shared_item_log"
proof -
  have L: "lawful_log shared_item_log" "lg_events shared_item_log \<noteq> []" "\<not> all_qualified shared_item_log"
    by (auto simp: shared_item_log_def lawful_log_def all_qualified_def unqualified_def as_link_def empty_log_def link_lawful_def
        relation_lawful_def change_lawful_def)
  have "first_broken shared_item_log True = Some UNQUALIFIED_OBJECT_REFERENCE"
    using L(3) by (simp add: first_broken_def) (simp add: shared_item_log_def as_link_def empty_log_def link_lawful_def)
  then show ?thesis using validate_log_decides [of shared_item_log True] validate_log_decides [of shared_item_log False] L
    by (simp split: option.splits)
qed

end
