(* ===== verification/Ocel_Recorder.thy ===== *)
theory Ocel_Recorder
  imports Ocel_Log_Facts Powl_Guard_Executor
begin

text \<open>
  The writers of event logs: \<^verbatim>\<open>ocel/mcp_session.py\<close>, the recorder and the wrapper of
  \<^verbatim>\<open>ocel/mcp_instrumentation.py\<close>, and the recorder of \<^verbatim>\<open>powl/ocel_bridge.py\<close>.  Clocks, random
  identifiers and the rounding of floats are parameters; an operation that may raise returns
  the recorder it leaves behind.
\<close>

section \<open>Outcomes of calls\<close>

text \<open>
  A Python value as the outcome of a call: what the module asks of it is its text, its truth,
  its \<^verbatim>\<open>int\<close> and, for a list or tuple, its items.
\<close>

datatype outcome_value = ONone | OBool bool | OInt int | OText string | OSeq string "outcome_value list"
  | OOther string bool "int option"

type_synonym outcome = "(string \<times> outcome_value) list"

definition text_of :: "outcome_value \<Rightarrow> string" where
  "text_of v = (case v of ONone \<Rightarrow> ''None'' | OBool b \<Rightarrow> if b then ''True'' else ''False'' | OInt i \<Rightarrow> string_of_int i
     | OText s \<Rightarrow> s | OSeq t xs \<Rightarrow> t | OOther t b i \<Rightarrow> t)"

definition truthy :: "outcome_value option \<Rightarrow> bool" where
  "truthy v = (case v of None \<Rightarrow> False | Some ONone \<Rightarrow> False | Some (OBool b) \<Rightarrow> b | Some (OInt i) \<Rightarrow> i \<noteq> 0
     | Some (OText s) \<Rightarrow> s \<noteq> '''' | Some (OSeq t xs) \<Rightarrow> xs \<noteq> [] | Some (OOther t b i) \<Rightarrow> b)"

text \<open>\<^verbatim>\<open>int(s)\<close> on a text: spaces around, a sign, digits with single underscores between them.\<close>

fun digit_groups :: "bool \<Rightarrow> string \<Rightarrow> string option" where
  "digit_groups after_digit [] = (if after_digit then Some [] else None)"
| "digit_groups after_digit (c # cs) =
     (if is_digit c then map_option ((#) c) (digit_groups True cs)
      else if c = CHR ''_'' \<and> after_digit then digit_groups False cs
      else None)"

definition is_blank :: "char \<Rightarrow> bool" where
  "is_blank c \<longleftrightarrow> of_char c \<in> set ([9..<14] @ [28..<33] @ [133, 160] :: nat list)"

definition int_of_text :: "string \<Rightarrow> int res" where
  "int_of_text s =
     (let t = rev (dropWhile is_blank (rev (dropWhile is_blank s)));
          (sign, body) = (case t of c # cs \<Rightarrow> if c = CHR ''-'' then (-1, cs) else if c = CHR ''+'' then (1, cs) else (1, t)
             | [] \<Rightarrow> (1, t))
      in case digit_groups False body of None \<Rightarrow> Inl ValueError | Some ds \<Rightarrow> Inr (sign * int (nat_of_digits 0 ds)))"

definition int_of_value :: "outcome_value \<Rightarrow> int res" where
  "int_of_value v = (case v of OInt i \<Rightarrow> Inr i | OBool b \<Rightarrow> Inr (if b then 1 else 0) | OText s \<Rightarrow> int_of_text s
     | OOther t b (Some i) \<Rightarrow> Inr i | _ \<Rightarrow> Inl TypeError)"

section \<open>The event of a call\<close>

definition text_attribute :: "string \<Rightarrow> outcome_value option \<Rightarrow> ocel_attribute list" where
  "text_attribute k v = (if truthy v then [(k, VString (take 500 (text_of (the v))))] else [])"

definition count_attributes :: "outcome \<Rightarrow> ocel_attribute list" where
  "count_attributes out = concat (map (\<lambda>(k, v). if drop (length k - 6) k \<noteq> ''_count'' then []
     else case v of OInt i \<Rightarrow> [(k, VInteger i)] | OBool b \<Rightarrow> [(k, VInteger (if b then 1 else 0))] | _ \<Rightarrow> []) out)"

text \<open>\<open>rounded\<close> is the text of \<^verbatim>\<open>round(float(v), 3)\<close>.\<close>

definition call_attributes :: "(outcome_value \<Rightarrow> string res) \<Rightarrow> outcome \<Rightarrow> ocel_attribute list res" where
  "call_attributes rounded out =
     (let get = map_of out in
      case get ''standing'' of
        None \<Rightarrow> Inl KeyError
      | Some standing \<Rightarrow>
          bindE (case get ''elapsed_s'' of None \<Rightarrow> Inr [] | Some v \<Rightarrow> bindE (rounded v) (\<lambda>t. Inr [(''elapsed_s'', VFloat t)])) (\<lambda>elapsed.
          bindE (case (case get ''steps_taken'' of Some v \<Rightarrow> Some v | None \<Rightarrow> get ''steps'') of
                   None \<Rightarrow> Inr []
                 | Some v \<Rightarrow> bindE (int_of_value v) (\<lambda>i. Inr [(''steps_taken'', VInteger i)])) (\<lambda>steps.
          Inr ([(''standing'', VString (text_of standing))] @ elapsed @ steps
            @ (if truthy (get ''receipt_sha256'') then [(''receipt_sha256'', VString (text_of (the (get ''receipt_sha256''))))] else [])
            @ text_attribute ''detail'' (if truthy (get ''detail'') then get ''detail'' else get ''error'')
            @ text_attribute ''error'' (get ''error'')
            @ (case get ''action_result'' of None \<Rightarrow> [] | Some ONone \<Rightarrow> []
               | Some v \<Rightarrow> [(''action_result'', VString (take 500 (text_of v)))])
            @ count_attributes out
            @ (case get ''compatible_solvers'' of Some (OSeq t xs) \<Rightarrow>
                 [(''compatible_solvers'', VList (map (VString \<circ> text_of) xs))] | _ \<Rightarrow> [])))))"

text \<open>\<open>now\<close> is \<^verbatim>\<open>time.time_ns()\<close>.\<close>

definition append_tool_call_event :: "(outcome_value \<Rightarrow> string res) \<Rightarrow> ocel_log \<Rightarrow> string \<Rightarrow> string \<Rightarrow> string list \<Rightarrow> outcome
    \<Rightarrow> int option \<Rightarrow> int \<Rightarrow> ocel_log res" where
  "append_tool_call_event rounded L e act ids out t now =
     bindE (call_attributes rounded out) (\<lambda>attrs.
       Inr (append_event L e act (map BareId ids) (case t of Some t \<Rightarrow> t | None \<Rightarrow> now) attrs [] []))"

section \<open>The session recorder\<close>

record session_recorder =
  sr_session :: string
  sr_declared :: "string list"
  sr_counter :: nat
  sr_log :: ocel_log

definition new_recorder :: "string \<Rightarrow> string \<Rightarrow> session_recorder" where
  "new_recorder session server = \<lparr>sr_session = session, sr_declared = [session], sr_counter = 0,
     sr_log = with_objects empty_log [\<lparr>ob_id = session, ob_type = ''MCPSession'',
       ob_attributes = [(''server'', VString server)]\<rparr>]\<rparr>"

definition ensure_object :: "session_recorder \<Rightarrow> string \<times> string \<Rightarrow> session_recorder" where
  "ensure_object r ob =
     (if fst ob \<in> set (sr_declared r) then r
      else r\<lparr>sr_declared := sr_declared r @ [fst ob],
             sr_log := with_objects (sr_log r) [\<lparr>ob_id = fst ob, ob_type = snd ob, ob_attributes = []\<rparr>]\<rparr>)"

text \<open>
  The surroundings of a recorder: at its \<open>n\<close>-th event, eight random hexadecimal digits, the
  clock in nanoseconds, and the rounding of floats.
\<close>

record surroundings =
  hex8 :: "nat \<Rightarrow> string"
  now_ns :: "nat \<Rightarrow> int"
  rounded :: "outcome_value \<Rightarrow> string res"

definition event_name :: "string \<Rightarrow> nat \<Rightarrow> string \<Rightarrow> string" where
  "event_name act n hex = ''evt-'' @ act @ ''-'' @ string_of_nat n @ ''-'' @ hex"

definition record_call :: "surroundings \<Rightarrow> session_recorder \<Rightarrow> string \<Rightarrow> (string \<times> string) list \<Rightarrow> outcome
    \<Rightarrow> unit res \<times> session_recorder" where
  "record_call env r act obs out =
     (let r = foldl ensure_object r obs; ids = sr_session r # map fst obs; n = sr_counter r;
          r = r\<lparr>sr_counter := Suc n\<rparr>
      in case append_tool_call_event (rounded env) (sr_log r) (event_name act n (hex8 env n)) act ids out None (now_ns env n) of
           Inl x \<Rightarrow> (Inl x, r)
         | Inr L \<Rightarrow> (Inr (), r\<lparr>sr_log := L\<rparr>))"

definition close_recorder :: "session_recorder \<Rightarrow> ocel_refusal + ocel_log" where
  "close_recorder r = validate_log (sr_log r) False"

section \<open>Instrumented calls\<close>

text \<open>What a tool returns: a mapping, or anything else; it raises with the text of its exception.\<close>

datatype tool_result = Mapping_result outcome | Other_result

definition outcome_from_result :: "tool_result \<Rightarrow> outcome_value \<Rightarrow> outcome" where
  "outcome_from_result res elapsed = (''elapsed_s'', elapsed) #
     (case res of
        Other_result \<Rightarrow> [(''standing'', OText ''COMPLETED'')]
      | Mapping_result m \<Rightarrow>
          [(''standing'', case map_of m ''standing'' of Some v \<Rightarrow> v | None \<Rightarrow> OText ''COMPLETED'')]
          @ (case map_of m ''receipt_sha256'' of Some v \<Rightarrow> [(''receipt_sha256'', v)] | None \<Rightarrow> [])
          @ (case map_of m ''compatible_solvers'' of
               Some (OSeq t xs) \<Rightarrow> [(''compatible_solver_count'', OInt (int (length xs))),
                 (''compatible_solvers'', OSeq '''' (map OText (sort (map text_of xs))))]
             | _ \<Rightarrow> [])
          @ (case map_of m ''steps'' of Some (OSeq t xs) \<Rightarrow> [(''steps'', OInt (int (length xs)))] | _ \<Rightarrow> []))"

text \<open>
  The wrapper: \<open>obs\<close> is what \<^verbatim>\<open>objects_fn\<close> gives, \<open>None\<close> when it raises, and the call returns
  a result or raises.  The caller sees the same, or what recording raises.
\<close>

definition instrumented_call :: "surroundings \<Rightarrow> session_recorder \<Rightarrow> string \<Rightarrow> (string \<times> string) list option
    \<Rightarrow> outcome_value \<Rightarrow> string + tool_result \<Rightarrow> (exn + (string + tool_result)) \<times> session_recorder" where
  "instrumented_call env r act obs elapsed called =
     (let objects = (case obs of Some os \<Rightarrow> os | None \<Rightarrow> []);
          out = (case called of
             Inl message \<Rightarrow> [(''standing'', OText ''ERROR''), (''elapsed_s'', elapsed), (''error'', OText message)]
           | Inr res \<Rightarrow> outcome_from_result res elapsed)
      in case record_call env r act objects out of
           (Inl x, r') \<Rightarrow> (Inl x, r')
         | (Inr _, r') \<Rightarrow> (Inr called, r'))"

section \<open>The recorder of guard executions\<close>

record execution_recorder =
  er_execution :: string
  er_declared :: "string list"
  er_counter :: nat
  er_log :: ocel_log

definition new_execution_recorder :: "string option \<Rightarrow> string \<Rightarrow> execution_recorder" where
  "new_execution_recorder execution_id hex32 =
     (let i = (case execution_id of Some i \<Rightarrow> if i \<noteq> '''' then i else ''powl-exec-'' @ hex32 | None \<Rightarrow> ''powl-exec-'' @ hex32)
      in \<lparr>er_execution = i, er_declared = [], er_counter = 0,
          er_log = with_objects empty_log [\<lparr>ob_id = i, ob_type = ''PowlExecution'', ob_attributes = []\<rparr>]\<rparr>)"

definition ensure_activity :: "execution_recorder \<Rightarrow> string \<Rightarrow> string \<Rightarrow> execution_recorder" where
  "ensure_activity r i l =
     (if i \<in> set (er_declared r) then r
      else r\<lparr>er_declared := er_declared r @ [i],
             er_log := with_objects (er_log r) [\<lparr>ob_id = i, ob_type = ''PowlActivity'', ob_attributes = [(''label'', VString l)]\<rparr>]\<rparr>)"

definition consequence_text :: "consequence option \<Rightarrow> string" where
  "consequence_text c = (case c of None \<Rightarrow> '''' | Some c \<Rightarrow> consequence_name c)"

definition record_atom :: "surroundings \<Rightarrow> execution_recorder \<Rightarrow> 'r execution_step \<Rightarrow> int \<Rightarrow> execution_recorder res" where
  "record_atom env r st t =
     (if es_kind st \<noteq> ''Atom'' then Inl ValueError
      else let l = (case es_label st of Some l \<Rightarrow> l | None \<Rightarrow> ''<unlabeled>'');
               i = ''activity-'' @ l;
               r = ensure_activity r i l;
               n = er_counter r
           in Inr (r\<lparr>er_counter := Suc n,
                er_log := append_event (er_log r) (event_name ''AtomInvoked'' n (hex8 env n)) ''AtomInvoked''
                  [BareId (er_execution r), BareId i] t
                  [(''label'', VString l), (''consequence'', VString (consequence_text (es_consequence st)))] [] []\<rparr>))"

definition close_execution :: "execution_recorder \<Rightarrow> ocel_refusal + ocel_log" where
  "close_execution r = validate_log (er_log r) False"

text \<open>
  \<open>execute_with_ocel\<close> walks without a repetition evaluator and records the atoms of the trace
  after a walk that returned.
\<close>

definition record_steps :: "surroundings \<Rightarrow> execution_recorder \<Rightarrow> 'r execution_step list \<Rightarrow> execution_recorder res" where
  "record_steps env r sts = bindE (foldE (\<lambda>(r, t) st.
       if es_kind st \<noteq> ''Atom'' then Inr (r, t)
       else bindE (record_atom env r st t) (\<lambda>r'. Inr (r', t + 1))) (r, 0) sts) (\<lambda>(r, t). Inr r)"

definition execute_with_ocel :: "surroundings \<Rightarrow> ('w, 'r) callbacks \<Rightarrow> int \<Rightarrow> nat \<Rightarrow> pnode \<Rightarrow> 'w \<Rightarrow> execution_recorder
    \<Rightarrow> ('w, 'r) walk_state run \<times> execution_recorder res" where
  "execute_with_ocel env cb most fuel v w r =
     (let (s, e) = execute (cb\<lparr>repeat_evaluator := None\<rparr>) most fuel v None w
      in ((s, e), if e = Returned then record_steps env r (sink_steps s) else Inr r))"

end
