(* ===== verification/Ocel_Replay.thy ===== *)
theory Ocel_Replay
  imports Ocel_Recorder Powl_Conformance
begin

text \<open>
  \<^verbatim>\<open>ocel/powl_replay.py\<close>: a model is run through \<open>enabled\<close> and \<open>fire\<close> along the smallest
  enabled path, each fire is recorded as an event, and actions bound to labels are called.
  The bound callables are a parameter over a world \<open>'w\<close>.
\<close>

section \<open>Bindings\<close>

text \<open>
  How a bound callable ends: with a value, with an exception (\<^verbatim>\<open>Type: message\<close>), or not within
  the time the caller gave it, if any.
\<close>

datatype binding_end = Binding_value outcome_value | Binding_raised string | Binding_overran

type_synonym 'w action_binding = "pnode \<Rightarrow> 'w \<Rightarrow> binding_end \<times> 'w"

fun atom_labels_of :: "pnode \<Rightarrow> string list" where
  "atom_labels_of (Atom l a b c) = [l]"
| "atom_labels_of (PartialOrder cs es f cl d) = concat (map atom_labels_of cs)"
| "atom_labels_of (ChoiceGraph cs es st en f d) = concat (map atom_labels_of cs)"
| "atom_labels_of v = []"

definition bindings_refused :: "pnode \<Rightarrow> (string \<times> 'w action_binding) list \<Rightarrow> bool" where
  "bindings_refused model bs \<longleftrightarrow>
     (\<exists>l \<in> set (map fst bs). l \<notin> set (atom_labels_of model)) \<or> (\<exists>l \<in> set (map fst bs). count_list (atom_labels_of model) l > 1)"

text \<open>\<^verbatim>\<open>repr\<close> of a text, over the character range of the model.\<close>

definition repr_char :: "char \<Rightarrow> char \<Rightarrow> string" where
  "repr_char q c =
     (let n = (of_char c :: nat) in
      if c = q \<or> c = CHR 0x5C then [CHR 0x5C, c]
      else if n = 9 then [CHR 0x5C, CHR ''t''] else if n = 10 then [CHR 0x5C, CHR ''n'']
      else if n = 13 then [CHR 0x5C, CHR ''r'']
      else if n < 32 \<or> 127 \<le> n \<and> n \<le> 160 \<or> n = 173
        then [CHR 0x5C, CHR ''x'', hex_digit (n div 16), hex_digit (n mod 16)]
      else [c])"

definition text_repr :: "string \<Rightarrow> string" where
  "text_repr s = (let q = (if CHR 0x27 \<in> set s \<and> CHR 0x22 \<notin> set s then CHR 0x22 else CHR 0x27)
     in [q] @ concat (map (repr_char q) s) @ [q])"

definition overran_message :: "string \<Rightarrow> string \<Rightarrow> string" where
  "overran_message l timeout = ''ActionBindingTimeout: binding for label '' @ text_repr l
     @ '' did not return within '' @ timeout @ ''s''"

section \<open>Plans\<close>

definition plan_lines_to_powl_node :: "string list \<Rightarrow> pnode res" where
  "plan_lines_to_powl_node ls =
     (if length ls < 2 then Inl ValueError
      else mk_partial_order (map (\<lambda>l. Atom l NoAction (JObj []) PURE) ls)
             (map (\<lambda>i. OrderEdge (int i) (int i + 1)) [0..<length ls - 1]) ONCE)"

section \<open>The replay\<close>

definition dotted :: "path \<Rightarrow> string" where
  "dotted p = (case map string_of_int p of [] \<Rightarrow> '''' | t # ts \<Rightarrow> t @ concat (map (\<lambda>u. CHR ''.'' # u) ts))"

definition node_object :: "string \<Rightarrow> path \<Rightarrow> string" where
  "node_object session p = session @ ''-node-'' @ dotted p"

text \<open>
  How the replay ends: with a log, with the refusal of the log it validates at the end, with an
  exception of a binding and the log so far, with an exception of the model or of the recorder,
  or not at all when a callable never returns and no time is given.  \<open>Replay_unfinished\<close> is
  the end of the fuel.
\<close>

datatype replay_end = Replayed ocel_log | Log_refused ocel_refusal | Halted string ocel_log | Replay_raised_exn exn
  | Never_returns | Replay_unfinished

definition close_replay :: "session_recorder \<Rightarrow> replay_end" where
  "close_replay r = (case close_recorder r of Inl x \<Rightarrow> Log_refused x | Inr L \<Rightarrow> Replayed L)"

definition fire_outcome :: "string \<Rightarrow> nat \<Rightarrow> outcome" where
  "fire_outcome l n = [(''standing'', OText ''FIRED''), (''detail'', OText l), (''steps_taken'', OInt (int n))]"

definition error_outcome :: "string \<Rightarrow> nat \<Rightarrow> string \<Rightarrow> outcome" where
  "error_outcome l n message = [(''standing'', OText ''ERROR''), (''detail'', OText l), (''steps_taken'', OInt (int n)),
     (''error'', OText message)]"

text \<open>\<open>halt\<close> records the failed action and re-raises.\<close>

definition halt :: "surroundings \<Rightarrow> session_recorder \<Rightarrow> string \<Rightarrow> string \<Rightarrow> nat \<Rightarrow> string \<Rightarrow> replay_end" where
  "halt env r ob l n message =
     (case record_call env r ''powl_action_binding_error'' [(ob, ''PowlNode'')] (error_outcome l n message) of
        (Inl x, r') \<Rightarrow> Replay_raised_exn x
      | (Inr _, r') \<Rightarrow> Halted message (sr_log r'))"

fun replay_loop :: "(string \<Rightarrow> string) \<Rightarrow> surroundings \<Rightarrow> (string \<times> 'w action_binding) list \<Rightarrow> string option \<Rightarrow> pnode \<Rightarrow> nat
    \<Rightarrow> marking \<Rightarrow> nat \<Rightarrow> session_recorder \<Rightarrow> 'w \<Rightarrow> replay_end \<times> 'w" where
  "replay_loop sha env bs timeout model 0 m n r w = (Replay_unfinished, w)"
| "replay_loop sha env bs timeout model (Suc fuel) m n r w =
     (case is_final model m of
        Inl x \<Rightarrow> (Replay_raised_exn x, w)
      | Inr True \<Rightarrow> (close_replay r, w)
      | Inr False \<Rightarrow> (case enabled model m DEFAULT_BOUND of
          Inl x \<Rightarrow> (Replay_raised_exn x, w)
        | Inr live \<Rightarrow> (case sort live of
            [] \<Rightarrow> (close_replay r, w)
          | chosen # _ \<Rightarrow> (case node_at model chosen of
              Inl x \<Rightarrow> (Replay_raised_exn x, w)
            | Inr v \<Rightarrow> (case fire sha model m chosen '''' DEFAULT_BOUND of
                Inl x \<Rightarrow> (Replay_raised_exn x, w)
              | Inr m' \<Rightarrow>
                  let l = fire_label v chosen; ob = node_object (sr_session r) chosen; n = Suc n;
                      continue = (\<lambda>out w'. case record_call env r ''powl_structural_fire'' [(ob, ''PowlNode'')] out of
                          (Inl x, r') \<Rightarrow> (Replay_raised_exn x, w')
                        | (Inr _, r') \<Rightarrow> replay_loop sha env bs timeout model fuel m' n r' w')
                  in case (if (case v of Atom _ _ _ _ \<Rightarrow> True | _ \<Rightarrow> False) then map_of bs l else None) of
                       None \<Rightarrow> continue (fire_outcome l n) w
                     | Some f \<Rightarrow> (case f v w of
                           (Binding_value x, w') \<Rightarrow> continue (fire_outcome l n @ [(''action_result'', x)]) w'
                         | (Binding_raised message, w') \<Rightarrow> (halt env r ob l n message, w')
                         | (Binding_overran, w') \<Rightarrow> (case timeout of
                               None \<Rightarrow> (Never_returns, w')
                             | Some s \<Rightarrow> (halt env r ob l n (overran_message l s), w'))))))))"

declare replay_loop.simps [simp del]

definition replay_structural_fires :: "(string \<Rightarrow> string) \<Rightarrow> surroundings \<Rightarrow> string \<Rightarrow> nat \<Rightarrow> pnode \<Rightarrow> string option
    \<Rightarrow> (string \<times> 'w action_binding) list \<Rightarrow> string option \<Rightarrow> 'w \<Rightarrow> replay_end \<times> 'w" where
  "replay_structural_fires sha env fresh fuel model session bs timeout w =
     (let sid = (case session of Some s \<Rightarrow> if s \<noteq> '''' then s else ''powl-replay-'' @ fresh | None \<Rightarrow> ''powl-replay-'' @ fresh)
      in if bindings_refused model bs then (Replay_raised_exn ValueError, w)
         else replay_loop sha env bs timeout model fuel INITIAL_MARKING 0 (new_recorder sid ''powl-structural-replay'') w)"

end
