(* ===== verification/Ocel_Recorder_Facts.thy ===== *)
theory Ocel_Recorder_Facts
  imports Ocel_Recorder Powl_Guard_Facts
begin

text \<open>
  Both recorders are counting writers of the log: whatever calls are recorded, the log stays
  lawful, so closing refuses a log without events only.  The log of a guard execution tells a
  trace of the model.
\<close>

section \<open>Names of events\<close>

lemma takeWhile_digits: "takeWhile (\<lambda>c. c \<noteq> CHR ''-'') (rev (string_of_nat n) @ CHR ''-'' # xs) = rev (string_of_nat n)"
proof -
  have "c \<noteq> CHR ''-''" if "c \<in> set (rev (string_of_nat n))" for c
    using string_of_nat_digits [of c n] that by (auto simp: is_digit_def)
  then show ?thesis by (subst takeWhile_append2) auto
qed

lemma event_name_inj:
  assumes "length h = 8" "length h' = 8" "event_name a m h = event_name b n h'"
  shows "m = n"
proof -
  have "(''evt-'' @ a @ ''-'' @ string_of_nat m) @ ''-'' @ h = (''evt-'' @ b @ ''-'' @ string_of_nat n) @ ''-'' @ h'"
    using assms(3) by (simp add: event_name_def)
  then have "''evt-'' @ a @ ''-'' @ string_of_nat m = ''evt-'' @ b @ ''-'' @ string_of_nat n"
    by (subst (asm) append_eq_append_conv) (use assms in auto)
  from arg_cong [OF this, of rev]
  have "rev (string_of_nat m) @ CHR ''-'' # rev (''evt-'' @ a) = rev (string_of_nat n) @ CHR ''-'' # rev (''evt-'' @ b)"
    by simp
  then have "rev (string_of_nat m) = rev (string_of_nat n)"
    by (metis takeWhile_digits)
  then show ?thesis using string_of_nat_inj by simp
qed

interpretation calls: numbered_store lawful_log log_objects log_event_ids declare_object ob_id log_enter link_id
  "\<lambda>(a, h) n. event_name a n h" "\<lambda>(a, h). length h = 8"
  by unfold_locales (auto dest: event_name_inj)

section \<open>The session recorder\<close>

definition session_kept :: "session_recorder \<Rightarrow> bool" where
  "session_kept r \<longleftrightarrow> calls.counted (sr_counter r) (sr_log r) \<and> log_objects (sr_log r) = set (sr_declared r)
     \<and> sr_session r \<in> set (sr_declared r)"

lemma empty_lawful: "lawful_log empty_log" "log_objects empty_log = {}" "log_event_ids empty_log = {}"
  by (simp_all add: lawful_log_def empty_log_def)

lemma counted_empty: "calls.counted k empty_log"
  by (simp add: calls.counted_def empty_lawful)

lemma new_recorder_kept: "session_kept (new_recorder session server)"
  using calls.counted_declare [OF counted_empty, of "\<lparr>ob_id = session, ob_type = ''MCPSession'', ob_attributes = [(''server'', VString server)]\<rparr>"]
  by (simp add: session_kept_def new_recorder_def log.declared empty_lawful del: One_nat_def)

lemma ensure_object_kept:
  "session_kept r \<Longrightarrow> session_kept (ensure_object r b) \<and> fst b \<in> set (sr_declared (ensure_object r b))
     \<and> set (sr_declared r) \<subseteq> set (sr_declared (ensure_object r b)) \<and> sr_session (ensure_object r b) = sr_session r
     \<and> lg_events (sr_log (ensure_object r b)) = lg_events (sr_log r) \<and> sr_counter (ensure_object r b) = sr_counter r"
  by (auto simp: ensure_object_def session_kept_def log.declared calls.counted_declare) (auto simp: with_objects_def)

lemma ensure_objects_kept:
  "session_kept r \<Longrightarrow> session_kept (foldl ensure_object r bs) \<and> fst ` set bs \<union> set (sr_declared r) \<subseteq> set (sr_declared (foldl ensure_object r bs))
     \<and> sr_session (foldl ensure_object r bs) = sr_session r \<and> lg_events (sr_log (foldl ensure_object r bs)) = lg_events (sr_log r)
     \<and> sr_counter (foldl ensure_object r bs) = sr_counter r"
proof (induction bs arbitrary: r)
  case (Cons b bs)
  note E = ensure_object_kept [OF Cons.prems, of b]
  with Cons.IH [of "ensure_object r b"] show ?case by (simp add: subset_iff)
qed simp

lemma record_call_cases:
  assumes "record_call env r act obs out = (res, r')" "session_kept r" "length (hex8 env (sr_counter r)) = 8"
  shows "session_kept r' \<and> sr_session r' = sr_session r \<and> sr_counter r' = Suc (sr_counter r)
    \<and> (case call_attributes (rounded env) out of
         Inl x \<Rightarrow> res = Inl x \<and> lg_events (sr_log r') = lg_events (sr_log r)
       | Inr attrs \<Rightarrow> res = Inr () \<and> lg_events (sr_log r') = lg_events (sr_log r) @
           [\<lparr>ev_id = event_name act (sr_counter r) (hex8 env (sr_counter r)), ev_activity = act,
             ev_time = now_ns env (sr_counter r), ev_attributes = attrs\<rparr>])"
proof -
  define r1 where "r1 = foldl ensure_object r obs"
  note E = ensure_objects_kept [OF assms(2), of obs, folded r1_def]
  let ?n = "sr_counter r" and ?ids = "sr_session r # map fst obs"
  have ids: "link_id ` set (map BareId ?ids) \<subseteq> log_objects (sr_log r1)"
    using E by (auto simp: link_id_def session_kept_def)
  show ?thesis
  proof (cases "call_attributes (rounded env) out")
    case (Inl x)
    then have "res = Inl x" "r' = r1\<lparr>sr_counter := Suc ?n\<rparr>"
      using assms(1) E by (auto simp: record_call_def Let_def append_tool_call_event_def r1_def [symmetric])
    with Inl E calls.counted_Suc [of ?n "sr_log r1"] show ?thesis by (auto simp: session_kept_def)
  next
    case (Inr attrs)
    then have r': "res = Inr ()"
        "r' = r1\<lparr>sr_counter := Suc ?n, sr_log := log_enter (sr_log r1) (event_name act ?n (hex8 env ?n))
           (act, now_ns env ?n, attrs) (map BareId ?ids)\<rparr>"
      using assms(1) E by (auto simp: record_call_def Let_def append_tool_call_event_def r1_def [symmetric])
    have "calls.counted ?n (sr_log r1)" using E by (auto simp: session_kept_def)
    from calls.counted_enter [OF this, of "(act, hex8 env ?n)" "map BareId ?ids" "(act, now_ns env ?n, attrs)"] ids assms(3)
    have "calls.counted (Suc ?n) (log_enter (sr_log r1) (event_name act ?n (hex8 env ?n)) (act, now_ns env ?n, attrs) (map BareId ?ids))"
      by simp
    with r' Inr E show ?thesis by (auto simp: session_kept_def append_event_def)
  qed
qed

lemma lawful_log_closes:
  assumes "lawful_log L"
  shows "validate_log L False = (if lg_events L = [] then Inl EMPTY_EVENT_OBJECT_LINKS else Inr L)"
proof (cases "lg_events L = []")
  case True
  then have "lg_links L = []" using assms by (cases "lg_links L") (auto simp: lawful_log_def link_lawful_def)
  with True show ?thesis using assms by (simp add: validate_log_eq first_broken_def lawful_log_def)
next
  case False
  with assms validate_log_iff [of L False L] show ?thesis by simp
qed

text \<open>A call is an activity, the objects it touches and its outcome.\<close>

type_synonym recorded_call = "string \<times> (string \<times> string) list \<times> outcome"

definition record_calls :: "surroundings \<Rightarrow> session_recorder \<Rightarrow> recorded_call list \<Rightarrow> session_recorder" where
  "record_calls env r cs = foldl (\<lambda>r (act, obs, out). snd (record_call env r act obs out)) r cs"

definition recordable :: "surroundings \<Rightarrow> recorded_call \<Rightarrow> bool" where
  "recordable env c \<longleftrightarrow> (case c of (act, obs, out) \<Rightarrow> \<exists>attrs. call_attributes (rounded env) out = Inr attrs)"

lemma record_calls_kept:
  assumes "\<And>n. length (hex8 env n) = 8" "session_kept r"
  shows "session_kept (record_calls env r cs)
    \<and> map ev_activity (lg_events (sr_log (record_calls env r cs))) = map ev_activity (lg_events (sr_log r)) @ map fst (filter (recordable env) cs)"
  using assms(2)
proof (induction cs arbitrary: r)
  case (Cons c cs)
  obtain act obs out where c: "c = (act, obs, out)" by (cases c)
  obtain res r' where r': "record_call env r act obs out = (res, r')" by fastforce
  note K = record_call_cases [OF r' Cons.prems assms(1)]
  then have "session_kept r'"
    "map ev_activity (lg_events (sr_log r')) = map ev_activity (lg_events (sr_log r)) @ (if recordable env c then [act] else [])"
    by (auto simp: recordable_def c split: sum.splits)
  moreover have "record_calls env r (c # cs) = record_calls env r' cs" by (simp add: record_calls_def c r')
  ultimately show ?case using Cons.IH [of r'] by (simp add: c)
qed (simp add: record_calls_def)

text \<open>
  C27.  A session recorder always closes: whatever calls it recorded, whatever objects they name
  and even if recording some of them raised, the log it hands back passes the structural laws
  and has one event per recorded call, in order; only a recorder without a recorded call is
  refused, for its empty log.
\<close>

theorem recorder_closes:
  assumes "\<And>n. length (hex8 env n) = 8"
  shows "(if filter (recordable env) cs = [] then close_recorder (record_calls env (new_recorder session server) cs) = Inl EMPTY_EVENT_OBJECT_LINKS
     else \<exists>L. close_recorder (record_calls env (new_recorder session server) cs) = Inr L
       \<and> map ev_activity (lg_events L) = map fst (filter (recordable env) cs))"
proof -
  let ?r = "record_calls env (new_recorder session server) cs"
  have "lg_events (sr_log (new_recorder session server)) = []"
    by (simp add: new_recorder_def with_objects_def empty_log_def)
  with record_calls_kept [OF assms new_recorder_kept, of session server cs]
  have "lawful_log (sr_log ?r)" and a: "map ev_activity (lg_events (sr_log ?r)) = map fst (filter (recordable env) cs)"
    by (simp_all add: session_kept_def calls.counted_def)
  moreover from a have "lg_events (sr_log ?r) = [] \<longleftrightarrow> filter (recordable env) cs = []" by (metis map_is_Nil_conv)
  ultimately show ?thesis by (simp add: close_recorder_def lawful_log_closes)
qed

definition plain_surroundings :: surroundings where
  "plain_surroundings = \<lparr>hex8 = (\<lambda>_. ''00000000''), now_ns = int, rounded = (\<lambda>_. Inr ''0.0'')\<rparr>"

theorem recorder_closes_witness:
  "\<exists>L. close_recorder (record_calls plain_surroundings (new_recorder ''s'' ''lab'')
     [(''solve'', [(''d'', ''Domain'')], [(''standing'', OText ''SOLVED'')]), (''solve'', [], [])]) = Inr L
   \<and> map ev_activity (lg_events L) = [''solve'']"
  using recorder_closes [of plain_surroundings "[(''solve'', [(''d'', ''Domain'')], [(''standing'', OText ''SOLVED'')]), (''solve'', [], [])]" "''s''" "''lab''"]
  by (simp add: plain_surroundings_def recordable_def call_attributes_def text_attribute_def truthy_def count_attributes_def)

section \<open>The recorder of guard executions\<close>

text \<open>A step is an atom exactly when it has a label.\<close>

definition tagged :: "'r execution_step \<Rightarrow> bool" where
  "tagged st \<longleftrightarrow> (es_kind st = ''Atom'') = (es_label st \<noteq> None)"

interpretation tags: walk_property
  "\<lambda>s r. list_all tagged (sink_steps s) \<longrightarrow> list_all tagged (sink_steps (fst r))" cb most key
  by unfold_locales (auto simp: sink_append_def invoke_atom_def plain_step_def tagged_def Let_def split: prod.split)

lemma executed_tagged: "list_all tagged (sink_steps (fst (execute cb most fuel v None w)))"
  using tags.walk [of "initial_state None w" cb most fuel] by (auto simp: execute_def initial_state_def split: sum.split)

text \<open>The labels a log tells, in the order of its events.\<close>

definition told_labels :: "ocel_log \<Rightarrow> string list" where
  "told_labels L = concat (map (\<lambda>e. case map_of (ev_attributes e) ''label'' of Some (VString l) \<Rightarrow> [l] | _ \<Rightarrow> []) (lg_events L))"

lemma told_labels_append [simp]:
  "told_labels (append_event L e act specs t attrs rels chs)
     = told_labels L @ (case map_of attrs ''label'' of Some (VString l) \<Rightarrow> [l] | _ \<Rightarrow> [])"
  by (simp add: told_labels_def append_event_def)

lemma told_labels_with_objects [simp]: "told_labels (with_objects L obs) = told_labels L"
  by (simp add: told_labels_def with_objects_def)

lemma told_labels_empty: "told_labels empty_log = []" "lg_events empty_log = []"
  by (simp_all add: told_labels_def empty_log_def)

lemma lg_objects_append_event [simp]: "lg_objects (append_event L e act specs t attrs rels chs) = lg_objects L"
  by (simp add: append_event_def)

lemma lg_events_simps [simp]: "lg_events (with_objects L obs) = lg_events L"
  "lg_events (append_event L e act specs t attrs rels chs) = lg_events L @ [\<lparr>ev_id = e, ev_activity = act, ev_time = t, ev_attributes = attrs\<rparr>]"
  by (simp_all add: with_objects_def append_event_def)

definition execution_kept :: "execution_recorder \<Rightarrow> bool" where
  "execution_kept r \<longleftrightarrow> calls.counted (er_counter r) (er_log r)
     \<and> log_objects (er_log r) = insert (er_execution r) (set (er_declared r))
     \<and> length (told_labels (er_log r)) = length (lg_events (er_log r))"

lemma new_execution_recorder_kept:
  "execution_kept (new_execution_recorder i h)" "told_labels (er_log (new_execution_recorder i h)) = []"
  using calls.counted_declare [OF counted_empty]
  by (simp_all add: execution_kept_def new_execution_recorder_def Let_def log.declared empty_lawful told_labels_empty)

lemma ensure_activity_kept:
  assumes "execution_kept r" "i \<noteq> er_execution r"
  shows "execution_kept (ensure_activity r i l) \<and> i \<in> log_objects (er_log (ensure_activity r i l))
    \<and> er_execution (ensure_activity r i l) = er_execution r \<and> er_counter (ensure_activity r i l) = er_counter r
    \<and> told_labels (er_log (ensure_activity r i l)) = told_labels (er_log r)"
  using assms by (auto simp: ensure_activity_def execution_kept_def log.declared calls.counted_declare)

lemma record_atom_kept:
  assumes "execution_kept r" "es_kind st = ''Atom''" "es_label st = Some l" "er_execution r \<noteq> ''activity-'' @ l"
    and "\<And>n. length (hex8 env n) = 8"
  shows "\<exists>r'. record_atom env r st t = Inr r' \<and> execution_kept r' \<and> er_execution r' = er_execution r
    \<and> told_labels (er_log r') = told_labels (er_log r) @ [l]"
proof -
  define i where "i = ''activity-'' @ l"
  let ?i = i
  define r1 where "r1 = ensure_activity r ?i l"
  have E: "execution_kept r1 \<and> ?i \<in> log_objects (er_log r1) \<and> er_execution r1 = er_execution r
      \<and> er_counter r1 = er_counter r \<and> told_labels (er_log r1) = told_labels (er_log r)"
    unfolding r1_def by (rule ensure_activity_kept) (use assms i_def in auto)
  let ?x = "(''AtomInvoked'', t, [(''label'', VString l), (''consequence'', VString (consequence_text (es_consequence st)))])"
  let ?specs = "[BareId (er_execution r1), BareId ?i]"
  have "calls.counted (er_counter r1) (er_log r1)" using E unfolding execution_kept_def by blast
  moreover have "link_id ` set ?specs \<subseteq> log_objects (er_log r1)" using E by (auto simp: link_id_def execution_kept_def)
  ultimately have "calls.counted (Suc (er_counter r1)) (log_enter (er_log r1) (event_name ''AtomInvoked'' (er_counter r1) (hex8 env (er_counter r1))) ?x ?specs)"
    using calls.counted_enter [of "er_counter r1" "er_log r1" "(''AtomInvoked'', hex8 env (er_counter r1))" ?specs ?x] assms(5) by simp
  moreover have "record_atom env r st t = Inr (r1\<lparr>er_counter := Suc (er_counter r1),
      er_log := log_enter (er_log r1) (event_name ''AtomInvoked'' (er_counter r1) (hex8 env (er_counter r1))) ?x ?specs\<rparr>)"
    using assms(2,3) by (simp add: record_atom_def Let_def r1_def i_def)
  ultimately show ?thesis using E by (auto simp: execution_kept_def)
qed

lemma record_steps_kept:
  assumes "\<And>n. length (hex8 env n) = 8"
  shows "execution_kept r \<Longrightarrow> list_all tagged sts \<Longrightarrow> \<forall>l \<in> set (step_labels sts). er_execution r \<noteq> ''activity-'' @ l \<Longrightarrow>
    \<exists>r'. record_steps env r sts = Inr r' \<and> execution_kept r' \<and> told_labels (er_log r') = told_labels (er_log r) @ step_labels sts"
proof -
  have "execution_kept r \<Longrightarrow> list_all tagged sts \<Longrightarrow> \<forall>l \<in> set (step_labels sts). er_execution r \<noteq> ''activity-'' @ l \<Longrightarrow>
    \<exists>r' t'. foldE (\<lambda>(r, t) st. if es_kind st \<noteq> ''Atom'' then Inr (r, t)
         else bindE (record_atom env r st t) (\<lambda>r'. Inr (r', t + 1))) (r, t) sts = Inr (r', t')
      \<and> execution_kept r' \<and> told_labels (er_log r') = told_labels (er_log r) @ step_labels sts" for r t
  proof (induction sts arbitrary: r t)
    case (Cons st sts)
    show ?case
    proof (cases "es_label st")
      case None
      with Cons show ?thesis by (simp add: tagged_def step_labels_def map_filter_simps)
    next
      case (Some l)
      with Cons.prems obtain r' where "record_atom env r st t = Inr r'" "execution_kept r'" "er_execution r' = er_execution r"
          "told_labels (er_log r') = told_labels (er_log r) @ [l]"
        using record_atom_kept [OF Cons.prems(1) _ Some _ assms] by (auto simp: tagged_def step_labels_def map_filter_simps)
      with Cons.IH [of r' "t + 1"] Cons.prems Some show ?thesis
        by (auto simp: tagged_def step_labels_def map_filter_simps)
    qed
  qed (simp add: step_labels_def map_filter_simps)
  from this [of r 0] show "execution_kept r \<Longrightarrow> list_all tagged sts \<Longrightarrow> \<forall>l \<in> set (step_labels sts). er_execution r \<noteq> ''activity-'' @ l \<Longrightarrow> ?thesis"
    by (auto simp: record_steps_def)
qed

text \<open>
  Execution and log agree: when a fresh execution of an admitted model returns, recording
  it on a fresh recorder raises nothing, the recorder closes unless no atom was visited, and
  the labels of the events of its log are those of the executed atoms, in order, and form a
  trace of the model's language.  The id of the execution must not be that of an activity.
\<close>

theorem execution_log_tells_trace:
  assumes "wf_node v" "\<And>n. length (hex8 env n) = 8"
    and "execute_with_ocel env cb most fuel v w (new_execution_recorder i h) = ((s, Returned), res)"
    and "\<forall>l. er_execution (new_execution_recorder i h) \<noteq> ''activity-'' @ l"
  shows "\<exists>r. res = Inr r \<and> told_labels (er_log r) = step_labels (sink_steps s) \<and> told_labels (er_log r) \<in> den None v
    \<and> close_execution r = (if step_labels (sink_steps s) = [] then Inl EMPTY_EVENT_OBJECT_LINKS else Inr (er_log r))"
proof -
  have e: "execute (cb\<lparr>repeat_evaluator := None\<rparr>) most fuel v None w = (s, Returned)"
    and res: "res = record_steps env (new_execution_recorder i h) (sink_steps s)"
    using assms(3) by (auto simp: execute_with_ocel_def split: prod.splits)
  have "list_all tagged (sink_steps s)" using executed_tagged [of "cb\<lparr>repeat_evaluator := None\<rparr>" most fuel v w] e by simp
  with record_steps_kept [OF assms(2) new_execution_recorder_kept(1)] assms(4) new_execution_recorder_kept(2)
  obtain r where r: "res = Inr r" "execution_kept r" "told_labels (er_log r) = step_labels (sink_steps s)"
    unfolding res by (metis append_Nil)
  have "lawful_log (er_log r)" "lg_events (er_log r) = [] \<longleftrightarrow> step_labels (sink_steps s) = []"
    using r(2,3) by (auto simp: execution_kept_def calls.counted_def)
  with r executed_labels [OF assms(1) e] show ?thesis by (simp add: close_execution_def lawful_log_closes)
qed

lemma loop_graph_executes:
  "\<exists>s. execute (agreeable False) 64 2 loop_graph None () = (s, Returned) \<and> step_labels (sink_steps s) = [''a'']"
proof -
  obtain key where key: "node_key loop_graph = Inr key" using loop_graph_key by blast
  then show ?thesis using loop_graph_walk [of key] loop_graph_valid by (auto simp: execute_def)
qed

theorem execution_log_tells_trace_witness:
  "\<exists>s res r. execute_with_ocel plain_surroundings (agreeable False) 64 2 loop_graph () (new_execution_recorder (Some ''run'') '''') = ((s, Returned), res)
     \<and> res = Inr r \<and> told_labels (er_log r) = [''a''] \<and> close_execution r = Inr (er_log r)"
proof -
  obtain s where s: "execute (agreeable False) 64 2 loop_graph None () = (s, Returned)" "step_labels (sink_steps s) = [''a'']"
    using loop_graph_executes by blast
  have "(agreeable False)\<lparr>repeat_evaluator := None\<rparr> = agreeable False" by (simp add: agreeable_def)
  with s obtain res where e: "execute_with_ocel plain_surroundings (agreeable False) 64 2 loop_graph () (new_execution_recorder (Some ''run'') '''') = ((s, Returned), res)"
    by (simp add: execute_with_ocel_def)
  have "\<exists>r. res = Inr r \<and> told_labels (er_log r) = step_labels (sink_steps s) \<and> told_labels (er_log r) \<in> den None loop_graph
    \<and> close_execution r = (if step_labels (sink_steps s) = [] then Inl EMPTY_EVENT_OBJECT_LINKS else Inr (er_log r))"
    by (rule execution_log_tells_trace [OF loop_graph_wf _ e]) (simp_all add: plain_surroundings_def new_execution_recorder_def Let_def)
  with s(2) e show ?thesis by auto
qed

end
