(* ===== verification/Ocel_Replay_Facts.thy ===== *)
theory Ocel_Replay_Facts
  imports Ocel_Replay Ocel_Recorder_Facts
begin

text \<open>
  The replay always ends, its log is admitted, and the conformance check accepts the log: the
  writer and the reader of these logs agree on the run.
\<close>

section \<open>Events of a replay\<close>

text \<open>
  How the conformance check sees an attribute: the text of its payload, if it has one.  Nested
  values do not occur in the logs of a replay.
\<close>

definition payload_text :: "ocel_value \<Rightarrow> string option \<Rightarrow> bool" where
  "payload_text v t = (case v of VInteger i \<Rightarrow> t = Some (string_of_int i) | VFloat s \<Rightarrow> t = Some s
     | VBoolean b \<Rightarrow> t = Some (if b then ''True'' else ''False'') | VString s \<Rightarrow> t = Some s
     | VTime i \<Rightarrow> t = Some (string_of_int i) | VNull \<Rightarrow> t = None | _ \<Rightarrow> False)"

definition seen_as :: "log_event \<Rightarrow> ocel_event \<Rightarrow> bool" where
  "seen_as e e' \<longleftrightarrow> activity e' = ev_activity e
     \<and> list_all2 (\<lambda>(k, v) (k', t). k' = k \<and> payload_text v t) (ev_attributes e) (attributes e')"

definition fire_event :: "string \<Rightarrow> log_event \<Rightarrow> bool" where
  "fire_event l e \<longleftrightarrow> ev_activity e = ''powl_structural_fire'' \<and> (\<exists>n result.
     ev_attributes e = [(''standing'', VString ''FIRED''), (''steps_taken'', VInteger n), (''detail'', VString l)] @ result
     \<and> (result = [] \<or> (\<exists>s. result = [(''action_result'', VString s)])))"

text \<open>A label that the event keeps whole.\<close>

definition kept_label :: "string \<Rightarrow> bool" where
  "kept_label l \<longleftrightarrow> l \<noteq> '''' \<and> length l \<le> 500"

lemma record_fire:
  assumes "record_call env r ''powl_structural_fire'' obs (fire_outcome l n @ extra) = (res, r')"
    and "extra = [] \<or> (\<exists>x. extra = [(''action_result'', x)])" "session_kept r" "\<And>n. length (hex8 env n) = 8"
  shows "res = Inr () \<and> session_kept r' \<and> sr_session r' = sr_session r
    \<and> (\<exists>e. lg_events (sr_log r') = lg_events (sr_log r) @ [e] \<and> (kept_label l \<longrightarrow> fire_event l e))"
proof -
  note K = record_call_cases [OF assms(1,3,4)]
  from assms(2) consider "extra = []" | x where "extra = [(''action_result'', x)]" by blast
  then show ?thesis
  proof cases
    case 1
    with K show ?thesis
      by (auto simp: Let_def call_attributes_def fire_outcome_def text_attribute_def truthy_def count_attributes_def int_of_value_def
          text_of_def kept_label_def fire_event_def)
  next
    case 2
    with K show ?thesis
      by (cases x) (auto simp: Let_def call_attributes_def fire_outcome_def text_attribute_def truthy_def count_attributes_def int_of_value_def
          text_of_def kept_label_def fire_event_def)
  qed
qed

lemma record_error:
  assumes "session_kept r" "\<And>n. length (hex8 env n) = 8"
  shows "\<exists>L. halt env r ob l n message = Halted message L"
proof -
  obtain res r' where r': "record_call env r ''powl_action_binding_error'' [(ob, ''PowlNode'')] (error_outcome l n message) = (res, r')"
    by fastforce
  have "\<exists>attrs. call_attributes (rounded env) (error_outcome l n message) = Inr attrs"
    by (simp add: Let_def call_attributes_def error_outcome_def int_of_value_def)
  with record_call_cases [OF r' assms] show ?thesis by (auto simp: halt_def r')
qed

section \<open>One round of the loop\<close>

lemma replay_round:
  assumes wf: "wf_node model" and ok: "cursor_ok model m" and kept: "session_kept r" and hex: "\<And>n. length (hex8 env n) = 8"
  obtains (closed) "replay_loop sha env bs timeout model (Suc fuel) m n r w = (close_replay r, w)"
      "is_final model m = Inr True \<or> is_final model m = Inr False \<and> enabled model m DEFAULT_BOUND = Inr []"
  | (spent) "replay_loop sha env bs timeout model (Suc fuel) m n r w = (Replay_raised_exn (PowlError BOUND_EXHAUSTED), w)"
  | (halted) message L w' where "replay_loop sha env bs timeout model (Suc fuel) m n r w = (Halted message L, w')"
  | (hung) w' where "replay_loop sha env bs timeout model (Suc fuel) m n r w = (Never_returns, w')" "timeout = None"
  | (fired) live p ps v m' e r' w' where
      "replay_loop sha env bs timeout model (Suc fuel) m n r w = replay_loop sha env bs timeout model fuel m' (Suc n) r' w'"
      "is_final model m = Inr False" "enabled model m DEFAULT_BOUND = Inr live" "sort live = p # ps" "node_at model p = Inr v"
      "fire sha model m p '''' DEFAULT_BOUND = Inr m'" "cursor_ok model m'" "session_kept r'"
      "lg_events (sr_log r') = lg_events (sr_log r) @ [e]" "kept_label (fire_label v p) \<longrightarrow> fire_event (fire_label v p) e"
proof -
  have root: "node_at model [] = Inr model" by simp
  obtain final where final: "is_final model m = Inr final" using is_complete_total [OF wf root ok] by (auto simp: is_final_def)
  obtain live where live: "enabled model m DEFAULT_BOUND = Inr live"
    using enabled_in_total [OF wf root ok] by (auto simp: enabled_def)
  show thesis
  proof (cases "final \<or> live = []")
    case True
    then show thesis using final live by (intro closed; cases final) (auto simp: replay_loop.simps)
  next
    case False
    then obtain p ps where p: "sort live = p # ps" by (metis neq_Nil_conv set_empty set_sort)
    then have mem: "p \<in> set live" by (metis list.set_intros(1) set_sort)
    obtain v where v: "node_at model p = Inr v"
      using enabled_addresses [OF wf root ok live [unfolded enabled_def] mem] by blast
    let ?l = "fire_label v p" and ?ob = "node_object (sr_session r) p"
    define go where "go = (\<lambda>m' out w'. case record_call env r ''powl_structural_fire'' [(?ob, ''PowlNode'')] out of
        (Inl x, r') \<Rightarrow> (Replay_raised_exn x, w')
      | (Inr _, r') \<Rightarrow> replay_loop sha env bs timeout model fuel m' (Suc n) r' w')"
    have goes: thesis if f: "fire sha model m p '''' DEFAULT_BOUND = Inr m'" "cursor_ok model m'"
      and "replay_loop sha env bs timeout model (Suc fuel) m n r w = go m' (fire_outcome ?l (Suc n) @ extra) w'"
      and extra: "extra = [] \<or> (\<exists>x. extra = [(''action_result'', x)])" for m' extra w'
    proof -
      obtain res r' where r': "record_call env r ''powl_structural_fire'' [(?ob, ''PowlNode'')] (fire_outcome ?l (Suc n) @ extra) = (res, r')"
        by fastforce
      from record_fire [OF r' extra kept hex] obtain e where e: "res = Inr ()" "session_kept r'"
        "lg_events (sr_log r') = lg_events (sr_log r) @ [e]" "kept_label ?l \<longrightarrow> fire_event ?l e" by blast
      show thesis
        by (rule fired [OF _ _ live p v f e(2-4)]) (use that(3) r' e(1) False final in \<open>simp_all add: go_def\<close>)
    qed
    from fire_total [OF wf ok live mem, of sha "''''"] consider
      m' where "fire sha model m p '''' DEFAULT_BOUND = Inr m'" "cursor_ok model m'"
      | "fire sha model m p '''' DEFAULT_BOUND = refuse BOUND_EXHAUSTED" by blast
    then show thesis
    proof cases
      case 1
      note simps = replay_loop.simps final live p v 1(1) Let_def
      show thesis
      proof (cases "if (case v of Atom _ _ _ _ \<Rightarrow> True | _ \<Rightarrow> False) then map_of bs ?l else None")
        case None
        show thesis by (rule goes [OF 1, of "[]" w]) (use False None in \<open>simp_all add: simps go_def\<close>)
      next
        case (Some f)
        obtain x w' where f: "f v w = (x, w')" by fastforce
        show thesis
        proof (cases x)
          case (Binding_value y)
          show thesis by (rule goes [OF 1, of "[(''action_result'', y)]" w']) (use False Some f Binding_value in \<open>simp_all add: simps go_def\<close>)
        next
          case (Binding_raised message)
          obtain L where "halt env r ?ob ?l (Suc n) message = Halted message L" using record_error [OF kept hex] by blast
          with False Some f Binding_raised show thesis by (intro halted) (simp add: simps)
        next
          case Binding_overran
          show thesis
          proof (cases timeout)
            case None
            with False Some f Binding_overran show thesis by (intro hung) (simp_all add: simps)
          next
            case (Some s)
            obtain L where "halt env r ?ob ?l (Suc n) (overran_message ?l s) = Halted (overran_message ?l s) L"
              using record_error [OF kept hex] by blast
            with False \<open>_ = Some f\<close> Some f Binding_overran show thesis by (intro halted) (simp add: simps)
          qed
        qed
      qed
    next
      case 2
      with False final live p v show thesis by (intro spent) (simp add: replay_loop.simps)
    qed
  qed
qed

section \<open>The replay ends\<close>

definition proper_end :: "bool \<Rightarrow> bool \<Rightarrow> replay_end \<Rightarrow> bool" where
  "proper_end nothing_to_fire bounded e = (case e of
       Replayed L \<Rightarrow> lawful_log L \<and> lg_events L \<noteq> []
     | Log_refused x \<Rightarrow> x = EMPTY_EVENT_OBJECT_LINKS \<and> nothing_to_fire
     | Halted message L \<Rightarrow> True
     | Replay_raised_exn x \<Rightarrow> x = PowlError BOUND_EXHAUSTED
     | Never_returns \<Rightarrow> \<not> bounded
     | Replay_unfinished \<Rightarrow> False)"

lemma close_replay_end:
  assumes "session_kept r"
  shows "close_replay r = (if lg_events (sr_log r) = [] then Log_refused EMPTY_EVENT_OBJECT_LINKS else Replayed (sr_log r))"
  using assms by (simp add: close_replay_def close_recorder_def lawful_log_closes session_kept_def calls.counted_def)

definition stuck :: "pnode \<Rightarrow> marking \<Rightarrow> bool" where
  "stuck model m \<longleftrightarrow> is_final model m = Inr True \<or> is_final model m = Inr False \<and> enabled model m DEFAULT_BOUND = Inr []"

lemma replay_loop_ends:
  assumes "wf_node model" "\<And>n. length (hex8 env n) = 8"
  shows "cursor_ok model m \<Longrightarrow> session_kept r \<Longrightarrow> max_activity_fires DEFAULT_BOUND < fires m + fuel \<Longrightarrow> fires m \<le> max_activity_fires DEFAULT_BOUND \<Longrightarrow>
    proper_end (lg_events (sr_log r) = [] \<and> stuck model m) (timeout \<noteq> None) (fst (replay_loop sha env bs timeout model fuel m n r w))"
proof (induction fuel arbitrary: m n r w)
  case (Suc fuel)
  show ?case
  proof (rule replay_round [OF assms(1) Suc.prems(1,2) assms(2), where sha = sha and bs = bs and timeout = timeout and fuel = fuel and n = n and w = w])
    assume "replay_loop sha env bs timeout model (Suc fuel) m n r w = (close_replay r, w)"
      "is_final model m = Inr True \<or> is_final model m = Inr False \<and> enabled model m DEFAULT_BOUND = Inr []"
    with Suc.prems(2) show ?thesis
      by (simp add: close_replay_end proper_end_def stuck_def session_kept_def calls.counted_def)
  next
    fix live p ps v m' e r' w'
    assume f: "replay_loop sha env bs timeout model (Suc fuel) m n r w = replay_loop sha env bs timeout model fuel m' (Suc n) r' w'"
      "fire sha model m p '''' DEFAULT_BOUND = Inr m'" "cursor_ok model m'" "session_kept r'"
      "lg_events (sr_log r') = lg_events (sr_log r) @ [e]"
    have "proper_end (lg_events (sr_log r') = [] \<and> stuck model m') (timeout \<noteq> None)
        (fst (replay_loop sha env bs timeout model fuel m' (Suc n) r' w'))"
      by (rule Suc.IH [OF f(3,4)]) (use fire_bounds [OF f(2)] Suc.prems(3) in simp_all)
    with f(1,5) show ?thesis by (simp add: proper_end_def split: replay_end.splits)
  qed (simp_all add: proper_end_def)
qed simp

text \<open>
  C6.  A replay ends: on an admitted model, with bindings that fit, a replay is over after at
  most as many fires as the executor's default bound allows.  It ends with an admitted log that
  is not empty, with the failure of a bound action, or in a spent bound; it does not return only
  if an action does not and no time limit is given, and its own log is refused only when there
  was nothing to fire.
\<close>

theorem replay_ends:
  assumes "wf_node model" "\<And>n. length (hex8 env n) = 8" "max_activity_fires DEFAULT_BOUND < fuel" "\<not> bindings_refused model bs"
  shows "proper_end (stuck model INITIAL_MARKING) (timeout \<noteq> None)
    (fst (replay_structural_fires sha env fresh fuel model session bs timeout w))"
proof -
  let ?sid = "case session of Some s \<Rightarrow> if s \<noteq> '''' then s else ''powl-replay-'' @ fresh | None \<Rightarrow> ''powl-replay-'' @ fresh"
  have "proper_end (lg_events (sr_log (new_recorder ?sid ''powl-structural-replay'')) = [] \<and> stuck model INITIAL_MARKING) (timeout \<noteq> None)
     (fst (replay_loop sha env bs timeout model fuel INITIAL_MARKING 0 (new_recorder ?sid ''powl-structural-replay'') w))"
    by (rule replay_loop_ends [OF assms(1,2) _ new_recorder_kept]) (use assms(3) in \<open>simp_all add: cursor_ok_def INITIAL_MARKING_def\<close>)
  then show ?thesis using assms(4)
    by (simp add: replay_structural_fires_def Let_def new_recorder_def told_labels_empty)
qed

section \<open>The conformance check accepts the log of a replay\<close>

lemma sort_hd_subset:
  assumes "sort xs = c # zs" "c \<in> set ys" "set ys \<subseteq> set xs"
  shows "\<exists>us. sort ys = c # us"
proof (cases "sort ys")
  case Nil
  then show ?thesis using assms(2) by (metis empty_iff empty_set set_sort)
next
  case (Cons d us)
  have "d \<in> set xs" using assms(3) Cons by (metis list.set_intros(1) set_sort subsetD)
  then have "c \<le> d" using assms(1) by (metis list.set_intros(1) set_ConsD set_sort sorted_simps(2) sorted_sort order_refl)
  moreover have "d \<le> c" using assms(2) Cons by (metis set_ConsD set_sort sorted_simps(2) sorted_sort order_refl)
  ultimately show ?thesis using Cons by simp
qed

lemma labelled_total:
  assumes "wf_node model" "cursor_ok model m" "enabled model m b = Inr live"
  shows "\<exists>pairs. labelled model live = Inr pairs \<and> map fst pairs = live"
proof -
  have "\<exists>v. node_at model p = Inr v" if "p \<in> set live" for p
    using enabled_addresses [OF assms(1) _ assms(2) assms(3) [unfolded enabled_def] that] by auto
  then have "set ps \<subseteq> set live \<Longrightarrow> \<exists>pairs. labelled model ps = Inr pairs \<and> map fst pairs = ps" for ps
    unfolding labelled_def by (induction ps) (auto, fastforce)
  then show ?thesis by blast
qed

text \<open>The labels of a run of fires, each along the smallest enabled path.\<close>

lemma replay_loop_observed:
  assumes wf: "wf_node model" and hex: "\<And>n. length (hex8 env n) = 8"
    and labels: "\<And>p v. node_at model p = Inr v \<Longrightarrow> kept_label (fire_label v p)"
  shows "cursor_ok model m \<Longrightarrow> session_kept r \<Longrightarrow> replay_loop sha env bs timeout model fuel m n r w = (Replayed L, w') \<Longrightarrow>
    \<exists>ls es m'. lg_events L = lg_events (sr_log r) @ es \<and> list_all2 fire_event ls es
      \<and> replay_labels sha model DEFAULT_BOUND N k m ls = Inr (Inr m') \<and> stuck model m'"
proof (induction fuel arbitrary: m n r w k)
  case (Suc fuel)
  show ?case
  proof (rule replay_round [OF wf Suc.prems(1,2) hex, where sha = sha and bs = bs and timeout = timeout and fuel = fuel and n = n and w = w])
    assume c: "replay_loop sha env bs timeout model (Suc fuel) m n r w = (close_replay r, w)"
      "is_final model m = Inr True \<or> is_final model m = Inr False \<and> enabled model m DEFAULT_BOUND = Inr []"
    then have "L = sr_log r" using Suc.prems(2,3) by (auto simp: close_replay_end split: if_splits)
    with c(2) show ?thesis by (intro exI [of _ "[]"]) (auto simp: stuck_def)
  next
    fix live p ps v m1 e r1 w1
    assume f: "replay_loop sha env bs timeout model (Suc fuel) m n r w = replay_loop sha env bs timeout model fuel m1 (Suc n) r1 w1"
      "enabled model m DEFAULT_BOUND = Inr live" "sort live = p # ps" "node_at model p = Inr v"
      "fire sha model m p '''' DEFAULT_BOUND = Inr m1" "cursor_ok model m1" "session_kept r1"
      "lg_events (sr_log r1) = lg_events (sr_log r) @ [e]" "kept_label (fire_label v p) \<longrightarrow> fire_event (fire_label v p) e"
    let ?l = "fire_label v p"
    obtain ls es m' where IH: "lg_events L = lg_events (sr_log r1) @ es" "list_all2 fire_event ls es"
        "replay_labels sha model DEFAULT_BOUND N (Suc k) m1 ls = Inr (Inr m')" "stuck model m'"
      using Suc.IH [OF f(6,7)] Suc.prems(3) f(1) by metis
    obtain pairs where pairs: "labelled model live = Inr pairs" "map fst pairs = live"
      using labelled_total [OF wf Suc.prems(1) f(2)] by blast
    have "p \<in> set live" using f(3) by (metis list.set_intros(1) set_sort)
    then have "(p, ?l) \<in> set pairs" using labelled_mem [OF pairs(1)] f(4) by blast
    then have "p \<in> set (map fst (filter (\<lambda>(q, y). y = ?l) pairs))" by force
    moreover have "set (map fst (filter (\<lambda>(q, y). y = ?l) pairs)) \<subseteq> set live" using pairs(2) by force
    ultimately obtain us where "sort (map fst (filter (\<lambda>(q, y). y = ?l) pairs)) = p # us"
      using sort_hd_subset [OF f(3)] by blast
    then have "replay_labels sha model DEFAULT_BOUND N k m (?l # ls) = Inr (Inr m')"
      using f(2,5) pairs(1) IH(3) by simp
    then show ?thesis using IH f(8,9) labels [OF f(4)] by (intro exI [of _ "?l # ls"] exI [of _ "e # es"] exI [of _ m']) auto
  qed (use Suc.prems(3) in simp_all)
qed (simp add: replay_loop.simps)

lemma fire_event_seen:
  "fire_event l e \<Longrightarrow> seen_as e e' \<Longrightarrow> activity e' = ''powl_structural_fire'' \<and> detail_of e' = Some l"
  by (auto simp: fire_event_def seen_as_def list_all2_Cons1 list_all2_append1 payload_text_def detail_of_def)

lemma observed_from_fires:
  "list_all2 fire_event ls es \<Longrightarrow> list_all2 seen_as es vs \<Longrightarrow> observed_labels_from_events vs = ls"
proof (induction ls arbitrary: es vs)
  case (Cons l ls)
  then obtain e es' v vs' where "es = e # es'" "vs = v # vs'" "fire_event l e" "seen_as e v"
      "list_all2 fire_event ls es'" "list_all2 seen_as es' vs'"
    by (auto simp: list_all2_Cons1)
  with Cons.IH [of es' vs'] fire_event_seen [of l e v] show ?case
    by (simp add: observed_labels_from_events_def FIRE_ACTIVITIES_def)
qed (simp add: observed_labels_from_events_def)

lemma replay_labels_steps:
  "steps sha model b m0 j m \<Longrightarrow> replay_labels sha model b n k m ls = Inr (Inr m') \<Longrightarrow> steps sha model b m0 (j + length ls) m'"
proof (induction ls arbitrary: j k m)
  case (Cons l ls)
  from Cons.prems(2) obtain chosen m1 where "fire sha model m chosen '''' b = Inr m1"
    "replay_labels sha model b n (Suc k) m1 ls = Inr (Inr m')"
    by (cases rule: replay_labels_Cons) auto
  with Cons.IH [OF steps.one_more [OF Cons.prems(1)]] show ?case by fastforce
qed simp

text \<open>
  C5.  Writer and reader agree: the log of a replay, as the conformance check sees it, follows
  the model event by event, with no divergence, and conforms unless the run itself stalled at a
  marking that offers no step and is not final.  Labels must fit the 500 characters the writer
  keeps and must not be empty.
\<close>

theorem replay_log_conforms:
  assumes "wf_node model" "\<And>n. length (hex8 env n) = 8" "\<And>p v. node_at model p = Inr v \<Longrightarrow> kept_label (fire_label v p)"
    and "replay_structural_fires sha env fresh fuel model session bs timeout w = (Replayed L, w')"
    and "list_all2 seen_as (lg_events L) vs"
  shows "\<exists>r. check_ocel_conformance sha model vs DEFAULT_BOUND = Inr r \<and> fired_count r = length (lg_events L) \<and> divergence_label r = None
    \<and> (conforms r \<or> (\<exists>m. steps sha model DEFAULT_BOUND INITIAL_MARKING (length (lg_events L)) m
         \<and> is_final model m = Inr False \<and> enabled model m DEFAULT_BOUND = Inr []))"
proof -
  let ?sid = "case session of Some s \<Rightarrow> if s \<noteq> '''' then s else ''powl-replay-'' @ fresh | None \<Rightarrow> ''powl-replay-'' @ fresh"
  let ?r = "new_recorder ?sid ''powl-structural-replay''"
  have run: "replay_loop sha env bs timeout model fuel INITIAL_MARKING 0 ?r w = (Replayed L, w')"
    using assms(4) by (simp add: replay_structural_fires_def Let_def split: if_splits)
  have "cursor_ok model INITIAL_MARKING" by (simp add: cursor_ok_def INITIAL_MARKING_def)
  from replay_loop_observed [OF assms(1-3) this new_recorder_kept run, of "length (lg_events L)" 0]
  obtain ls es m where m: "lg_events L = lg_events (sr_log ?r) @ es" "list_all2 fire_event ls es"
    "replay_labels sha model DEFAULT_BOUND (length (lg_events L)) 0 INITIAL_MARKING ls = Inr (Inr m)" "stuck model m" by blast
  have es: "es = lg_events L" using m(1) by (simp add: new_recorder_def told_labels_empty)
  have len: "length ls = length (lg_events L)" using m(2) es by (simp add: list_all2_lengthD)
  have obs: "observed_labels_from_events vs = ls" using observed_from_fires [OF m(2)] assms(5) es by simp
  obtain final where final: "is_final model m = Inr final" using m(4) by (auto simp: stuck_def)
  have "steps sha model DEFAULT_BOUND INITIAL_MARKING (length (lg_events L)) m"
    using replay_labels_steps [OF steps.none m(3)] len by simp
  then show ?thesis using m(3,4) final obs len
    by (cases final) (auto simp: check_ocel_conformance_def Let_def stuck_def)
qed

section \<open>Examples\<close>

lemma two_steps_labels: "node_at two_steps p = Inr v \<Longrightarrow> kept_label (fire_label v p)"
proof (cases p)
  case Nil
  then show "node_at two_steps p = Inr v \<Longrightarrow> ?thesis"
    by (auto simp: two_steps_def kept_label_def fire_label_def path_text_def)
next
  case (Cons i q)
  assume "node_at two_steps p = Inr v"
  with Cons have "v \<in> {act ''a'', act ''b''}"
    by (cases q) (auto simp: two_steps_def child_at_def py_get_def in_range_def Let_def bindE_Inr_iff nth_Cons' split: if_splits option.splits)
  then show ?thesis by (auto simp: kept_label_def fire_label_def)
qed

lemma plain_fire:
  assumes "session_kept r"
  shows "\<exists>r'. record_call plain_surroundings r ''powl_structural_fire'' obs (fire_outcome [c] n) = (Inr (), r') \<and> session_kept r'
    \<and> sr_session r' = sr_session r \<and> map ev_activity (lg_events (sr_log r')) = map ev_activity (lg_events (sr_log r)) @ [''powl_structural_fire'']
    \<and> map ev_attributes (lg_events (sr_log r')) = map ev_attributes (lg_events (sr_log r)) @
        [[(''standing'', VString ''FIRED''), (''steps_taken'', VInteger (int n)), (''detail'', VString [c])]]"
proof -
  obtain res r' where r': "record_call plain_surroundings r ''powl_structural_fire'' obs (fire_outcome [c] n) = (res, r')" by fastforce
  have "length (hex8 plain_surroundings (sr_counter r)) = 8" by (simp add: plain_surroundings_def)
  from record_call_cases [OF r' assms this] r' show ?thesis
    by (auto simp: Let_def call_attributes_def fire_outcome_def text_attribute_def truthy_def count_attributes_def int_of_value_def text_of_def)
qed

lemma two_steps_replays:
  "\<exists>L. replay_structural_fires (\<lambda>_. '''') plain_surroundings '''' 3 two_steps (Some ''s'') [] None () = (Replayed L, ())
     \<and> list_all2 seen_as (lg_events L) [\<lparr>activity = ''powl_structural_fire'',
          attributes = [(''standing'', Some ''FIRED''), (''steps_taken'', Some ''1''), (''detail'', Some ''a'')]\<rparr>,
        \<lparr>activity = ''powl_structural_fire'',
          attributes = [(''standing'', Some ''FIRED''), (''steps_taken'', Some ''2''), (''detail'', Some ''b'')]\<rparr>]"
proof -
  let ?P = "\<lambda>p. [(node_object ''s'' p, ''PowlNode'')]"
  obtain r1 where r1: "record_call plain_surroundings (new_recorder ''s'' ''powl-structural-replay'') ''powl_structural_fire'' (?P [0]) (fire_outcome ''a'' (Suc 0)) = (Inr (), r1)"
    "session_kept r1" "sr_session r1 = ''s''" "map ev_activity (lg_events (sr_log r1)) = [''powl_structural_fire'']"
    "map ev_attributes (lg_events (sr_log r1)) = [[(''standing'', VString ''FIRED''), (''steps_taken'', VInteger 1), (''detail'', VString ''a'')]]"
    using plain_fire [OF new_recorder_kept, of "''s''" "''powl-structural-replay''" "?P [0]" "CHR ''a''" "Suc 0"]
    by (auto simp: new_recorder_def told_labels_empty)
  obtain r2 where r2: "record_call plain_surroundings r1 ''powl_structural_fire'' (?P [1]) (fire_outcome ''b'' (Suc (Suc 0))) = (Inr (), r2)"
    "session_kept r2" "map ev_activity (lg_events (sr_log r2)) = [''powl_structural_fire'', ''powl_structural_fire'']"
    "map ev_attributes (lg_events (sr_log r2)) = [[(''standing'', VString ''FIRED''), (''steps_taken'', VInteger 1), (''detail'', VString ''a'')],
        [(''standing'', VString ''FIRED''), (''steps_taken'', VInteger 2), (''detail'', VString ''b'')]]"
    using plain_fire [OF r1(2), of "?P [1]" "CHR ''b''" "Suc (Suc 0)"] r1(4,5) by auto
  have s: "sr_session (new_recorder ''s'' ''powl-structural-replay'') = ''s''" by (simp add: new_recorder_def)
  have "replay_structural_fires (\<lambda>_. '''') plain_surroundings '''' 3 two_steps (Some ''s'') [] None () = (close_replay r2, ())"
    by (simp add: replay_structural_fires_def replay_loop.simps bindings_refused_def fire_label_def numeral_3_eq_3 run_eval two_steps_def s
        r1(1,3) r2(1))
  moreover have "lg_events (sr_log r2) \<noteq> []" using r2(3) by auto
  moreover obtain e e' where "lg_events (sr_log r2) = [e, e']" using r2(3) by (auto simp: map_eq_Cons_conv)
  moreover have "string_of_int 1 = ''1''" "string_of_int 2 = ''2''" by code_simp+
  ultimately show ?thesis using r2(2-4) by (auto simp: close_replay_end seen_as_def payload_text_def)
qed

theorem replay_log_conforms_witness:
  "\<exists>r. check_ocel_conformance (\<lambda>_. '''') two_steps [\<lparr>activity = ''powl_structural_fire'',
          attributes = [(''standing'', Some ''FIRED''), (''steps_taken'', Some ''1''), (''detail'', Some ''a'')]\<rparr>,
        \<lparr>activity = ''powl_structural_fire'',
          attributes = [(''standing'', Some ''FIRED''), (''steps_taken'', Some ''2''), (''detail'', Some ''b'')]\<rparr>] DEFAULT_BOUND = Inr r
     \<and> fired_count r = 2 \<and> divergence_label r = None"
proof -
  obtain L where L: "replay_structural_fires (\<lambda>_. '''') plain_surroundings '''' 3 two_steps (Some ''s'') [] None () = (Replayed L, ())"
    and seen: "list_all2 seen_as (lg_events L) [\<lparr>activity = ''powl_structural_fire'',
          attributes = [(''standing'', Some ''FIRED''), (''steps_taken'', Some ''1''), (''detail'', Some ''a'')]\<rparr>,
        \<lparr>activity = ''powl_structural_fire'',
          attributes = [(''standing'', Some ''FIRED''), (''steps_taken'', Some ''2''), (''detail'', Some ''b'')]\<rparr>]"
    using two_steps_replays by blast
  have hex: "length (hex8 plain_surroundings n) = 8" for n by (simp add: plain_surroundings_def)
  from replay_log_conforms [OF two_steps_wf hex two_steps_labels L seen] list_all2_lengthD [OF seen] show ?thesis by auto
qed

theorem replay_ends_witness:
  "proper_end (stuck two_steps INITIAL_MARKING) ((None :: string option) \<noteq> None)
    (fst (replay_structural_fires (\<lambda>_. '''') plain_surroundings '''' 1025 two_steps None
       ([] :: (string \<times> unit action_binding) list) None ()))"
  by (rule replay_ends [OF two_steps_wf]) (simp_all add: plain_surroundings_def DEFAULT_BOUND_def bindings_refused_def)

text \<open>
  A model that is complete before anything has fired, such as a composite that may be
  skipped, cannot be replayed: the log without events is refused at the end.
\<close>

theorem replay_of_complete_model_refused:
  assumes "is_final model INITIAL_MARKING = Inr True" "\<not> bindings_refused model bs"
  shows "replay_structural_fires sha env fresh (Suc fuel) model session bs timeout w = (Log_refused EMPTY_EVENT_OBJECT_LINKS, w)"
  using assms by (simp add: replay_structural_fires_def replay_loop.simps Let_def close_replay_end [OF new_recorder_kept])
    (simp add: new_recorder_def told_labels_empty)

theorem replay_of_complete_model_refused_witness:
  "replay_structural_fires (\<lambda>_. '''') plain_surroundings '''' 1025 (PartialOrder [act ''a'', act ''b''] [] OPTIONAL [] 2) None
     ([] :: (string \<times> unit action_binding) list) None () = (Log_refused EMPTY_EVENT_OBJECT_LINKS, ())"
proof -
  have "is_final (PartialOrder [act ''a'', act ''b''] [] OPTIONAL [] 2) INITIAL_MARKING = Inr True"
    by (simp add: run_eval OPTIONAL_def)
  from replay_of_complete_model_refused [OF this, of "[]" _ _ _ 1024] show ?thesis by (simp add: bindings_refused_def)
qed

end
