(* ===== verification/Ocel_Plan.thy ===== *)
theory Ocel_Plan
  imports Ocel_Replay_Facts Powl_Membership
begin

text \<open>
  \<^verbatim>\<open>plan_lines_to_powl_node\<close>: the model of a flat plan is admitted and has the plan as its
  only trace.
\<close>

definition chain_edges :: "nat \<Rightarrow> edge list" where
  "chain_edges n = map (\<lambda>i. OrderEdge (int i) (int i + 1)) [0..<n - 1]"

lemma erel_chain: "(a, b) \<in> erel (chain_edges n) \<longleftrightarrow> (\<exists>i. a = int i \<and> b = int (Suc i) \<and> Suc i < n)"
proof -
  have "erel (chain_edges n) = (\<lambda>i. (int i, int i + 1)) ` {0..<n - 1}"
    by (simp add: erel_def chain_edges_def image_image)
  then show ?thesis by auto
qed

lemma trancl_chain: "(a, b) \<in> (erel (chain_edges n))\<^sup>+ \<longleftrightarrow> (\<exists>i j. a = int i \<and> b = int j \<and> i < j \<and> j < n)"
proof
  show "(a, b) \<in> (erel (chain_edges n))\<^sup>+ \<Longrightarrow> \<exists>i j. a = int i \<and> b = int j \<and> i < j \<and> j < n"
  proof (induction rule: trancl_induct)
    case (base y)
    then obtain i where "a = int i" "y = int (Suc i)" "Suc i < n" by (auto simp: erel_chain)
    then show ?case by (intro exI [of _ i] exI [of _ "Suc i"]) simp
  next
    case (step y z)
    then obtain i j k where "a = int i" "y = int j" "i < j" "y = int k" "z = int (Suc k)" "Suc k < n" by (auto simp: erel_chain)
    then show ?case by (intro exI [of _ i] exI [of _ "Suc k"]) simp
  qed
next
  assume "\<exists>i j. a = int i \<and> b = int j \<and> i < j \<and> j < n"
  then obtain i j where ij: "a = int i" "b = int j" "i < j" "j < n" by blast
  have "i < j \<Longrightarrow> j < n \<Longrightarrow> (int i, int j) \<in> (erel (chain_edges n))\<^sup>+"
  proof (induction j)
    case (Suc j)
    have e: "(int j, int (Suc j)) \<in> erel (chain_edges n)" unfolding erel_chain using Suc.prems(2) by blast
    show ?case
    proof (cases "i = j")
      case False
      then have "(int i, int j) \<in> (erel (chain_edges n))\<^sup>+" using Suc by simp
      then show ?thesis using e by (rule trancl_into_trancl)
    qed (use e in blast)
  qed simp
  with ij show "(a, b) \<in> (erel (chain_edges n))\<^sup>+" by simp
qed

lemma chain_edges_ok: "order_edges_ok (chain_edges n) n"
  by (auto simp: order_edges_ok_def chain_edges_def in_range_def)

lemma chain_acyclic: "acyclic (erel (chain_edges n))"
  by (auto simp: acyclic_def trancl_chain)

text \<open>Under a linear order every merge of single symbols is the sequence itself.\<close>

lemma sorted_split:
  "sorted (map fst zs) \<Longrightarrow> filter (\<lambda>z. fst z < Suc n) zs = filter (\<lambda>z. fst z < n) zs @ filter (\<lambda>z. fst z = n) zs"
proof (induction zs)
  case (Cons z zs)
  then have IH: "filter (\<lambda>z. fst z < Suc n) zs = filter (\<lambda>z. fst z < n) zs @ filter (\<lambda>z. fst z = n) zs" by simp
  show ?case
  proof (cases "fst z < n")
    case False
    then have "filter (\<lambda>z. fst z < n) zs = []" using Cons.prems by (auto simp: filter_empty_conv)
    with IH False show ?thesis by (auto simp: less_Suc_eq)
  qed (use IH in auto)
qed simp

lemma sorted_buckets:
  "sorted (map fst zs) \<Longrightarrow> filter (\<lambda>z. fst z < n) zs = concat (map (\<lambda>i. filter (\<lambda>z. fst z = i) zs) [0..<n])"
  by (induction n) (simp_all add: sorted_split)

lemma linear_merge:
  assumes "\<And>i j. prec i j \<longleftrightarrow> i < j \<and> j < length ls"
  shows "merge_lang prec (map (\<lambda>l. {[l]}) ls) = {ls}"
proof (intro equalityI subsetI)
  fix w assume "w \<in> merge_lang prec (map (\<lambda>l. {[l]}) ls)"
  then obtain zs where w: "w = map snd zs" and owner: "\<forall>z \<in> set zs. fst z < length ls"
    and ord: "keeps_order prec zs" and st: "\<And>i. i < length ls \<Longrightarrow> strand i zs = [ls ! i]"
    by (auto simp: merge_lang_def)
  have "sorted_wrt (\<lambda>x y. fst x \<le> fst y) zs"
    using ord unfolding keeps_order_def by (rule sorted_wrt_mono_rel [rotated]) (use owner assms in auto)
  then have "sorted (map fst zs)" by (simp add: sorted_map)
  from sorted_buckets [OF this, of "length ls"] have "zs = concat (map (\<lambda>i. filter (\<lambda>z. fst z = i) zs) [0..<length ls])"
    using owner by (simp add: filter_id_conv)
  then have "w = map snd (concat (map (\<lambda>i. filter (\<lambda>z. fst z = i) zs) [0..<length ls]))" unfolding w by (rule arg_cong)
  also have "\<dots> = concat (map (\<lambda>i. strand i zs) [0..<length ls])" by (simp add: map_concat strand_def comp_def)
  also have "\<dots> = concat (map (\<lambda>i. [ls ! i]) [0..<length ls])" by (rule arg_cong [where f = concat]) (simp add: st)
  also have "\<dots> = ls" by (simp add: map_nth)
  finally show "w \<in> {ls}" by simp
next
  fix w assume "w \<in> {ls}"
  let ?zs = "in_series [0..<length ls] (\<lambda>i. [ls ! i])"
  have "keeps_order prec ?zs" by (rule keeps_order_series) (auto simp: sorted_wrt_iff_nth_less assms)
  moreover have "\<forall>z \<in> set ?zs. fst z < length ls" using owners_series [of "[0..<length ls]" "\<lambda>i. [ls ! i]"] by auto
  moreover have "map snd ?zs = ls" by (simp add: in_series_def map_concat comp_def map_nth)
  ultimately show "w \<in> merge_lang prec (map (\<lambda>l. {[l]}) ls)"
    using \<open>w \<in> {ls}\<close> by (auto simp: merge_lang_def strand_series intro!: exI [of _ ?zs])
qed

text \<open>The constructor accepts every chain of two or more actions.\<close>

lemma chain_model:
  assumes "2 \<le> length ls"
  obtains red cl where "plan_lines_to_powl_node ls = Inr (PartialOrder (map (\<lambda>l. Atom l NoAction (JObj []) PURE) ls) red ONCE cl 2)"
    "wf_node (PartialOrder (map (\<lambda>l. Atom l NoAction (JObj []) PURE) ls) red ONCE cl 2)"
    "erel red \<subseteq> erel (chain_edges (length ls))" "erel cl = (erel (chain_edges (length ls)))\<^sup>+"
proof -
  let ?cs = "map (\<lambda>l. Atom l NoAction (JObj []) PURE) ls" and ?es = "chain_edges (length ls)"
  obtain cl where cl: "transitive_closure ?es (length ls) = Inr cl" "erel cl = (erel ?es)\<^sup>+"
    using transitive_closure_ok [OF chain_edges_ok] chain_acyclic transitive_closure_InrD(3) by metis
  obtain red where red: "transitive_reduction ?es (length ls) = Inr red" using transitive_reduction_total [OF cl(1)] by blast
  have "fold max (map node_depth ?cs) 0 = 1"
  proof -
    have "fold max (replicate k (1 :: nat)) (Suc 0) = 1" for k by (induction k) simp_all
    moreover have "map node_depth ?cs = 1 # replicate (length ls - 1) 1"
      using assms by (cases ls) (simp_all add: node_depth_def map_replicate_const comp_def)
    ultimately show ?thesis by simp
  qed
  then have depth: "composite_depth ?cs = Inr 2"
    by (simp add: composite_depth_def MAX_POWL_DEPTH_def Let_def)
  have mk: "mk_partial_order ?cs ?es ONCE = Inr (PartialOrder ?cs red ONCE cl 2)"
    by (rule mk_partial_order_total) (use cl red depth assms in simp_all)
  moreover have "wf_node (PartialOrder ?cs red ONCE cl 2)" by (rule mk_partial_order_wf [OF mk]) auto
  moreover have "plan_lines_to_powl_node ls = Inr (PartialOrder ?cs red ONCE cl 2)"
    using mk assms by (simp add: plan_lines_to_powl_node_def chain_edges_def)
  moreover have "erel red \<subseteq> erel ?es" using reduction_least [OF red] by blast
  ultimately show ?thesis using that cl(2) by blast
qed

text \<open>
  A flat plan becomes a model: for two or more lines the constructor refuses nothing, the
  model is admitted, and its language is the plan, line by line, and nothing else.
\<close>

theorem plan_is_its_language:
  assumes "2 \<le> length ls"
  shows "\<exists>v. plan_lines_to_powl_node ls = Inr v \<and> wf_node v \<and> den None v = {ls}"
proof -
  obtain red cl where v: "plan_lines_to_powl_node ls = Inr (PartialOrder (map (\<lambda>l. Atom l NoAction (JObj []) PURE) ls) red ONCE cl 2)"
    "wf_node (PartialOrder (map (\<lambda>l. Atom l NoAction (JObj []) PURE) ls) red ONCE cl 2)"
    and cl: "erel cl = (erel (chain_edges (length ls)))\<^sup>+" using chain_model [OF assms] by metis
  have "before cl i j \<longleftrightarrow> i < j \<and> j < length ls" for i j by (auto simp: before_def cl trancl_chain)
  then have "merge_lang (before cl) (map (\<lambda>l. {[l]}) ls) = {ls}" by (rule linear_merge)
  then have "den None (PartialOrder (map (\<lambda>l. Atom l NoAction (JObj []) PURE) ls) red ONCE cl 2) = {ls}" by (simp add: comp_def)
  with v show ?thesis by blast
qed

theorem plan_is_its_language_witness:
  "\<exists>v. plan_lines_to_powl_node [''(pick a)'', ''(stack a b)''] = Inr v \<and> wf_node v \<and> den None v = {[''(pick a)'', ''(stack a b)'']}"
  by (rule plan_is_its_language) simp

end
