(* ===== verification/Agent_Sink.thy ===== *)
theory Agent_Sink
  imports Ocel_Log_Facts Agent_Session_Behaviour
begin

text \<open>
  \<^verbatim>\<open>agent/ocel_sink.py\<close>: the one-way projection of an occurrence ledger into an event log, and
  what it makes of the ledger of a session.
\<close>

section \<open>The sink\<close>

datatype lifecycle_phase = INTENDED_PHASE | COMMITTED_PHASE | REFUSED_PHASE | SUPERSEDED_PHASE | REPLANNED_PHASE
  | AUTHORITY_REQUESTED_PHASE | AUTHORITY_GRANTED_PHASE | AUTHORITY_REFUSED_PHASE

definition lifecycle_name :: "lifecycle_phase \<Rightarrow> string" where
  "lifecycle_name p = (case p of INTENDED_PHASE \<Rightarrow> ''intended'' | COMMITTED_PHASE \<Rightarrow> ''committed'' | REFUSED_PHASE \<Rightarrow> ''refused''
     | SUPERSEDED_PHASE \<Rightarrow> ''superseded'' | REPLANNED_PHASE \<Rightarrow> ''replanned'' | AUTHORITY_REQUESTED_PHASE \<Rightarrow> ''authority-requested''
     | AUTHORITY_GRANTED_PHASE \<Rightarrow> ''authority-granted'' | AUTHORITY_REFUSED_PHASE \<Rightarrow> ''authority-refused'')"

datatype sink_refusal = COMMITTED_RECORD_HAS_NO_OBJECTS | UNDECLARED_OBJECT_TYPE | DUPLICATE_EVENT_ID | PHASE_EVENT_HAS_NO_OBJECTS

record ocel_sink =
  sk_types :: "(string \<times> string) list"
  sk_epoch :: int
  sk_commitment :: string
  sk_log :: ocel_log

definition lifecycle_attributes :: "lifecycle_phase \<Rightarrow> int \<Rightarrow> string \<Rightarrow> string \<Rightarrow> int option \<Rightarrow> ocel_attribute list" where
  "lifecycle_attributes p decision commitment context index =
     [(''phase'', VString (lifecycle_name p)), (''decisionEpoch'', VInteger decision), (''commitmentDigest'', VString commitment),
      (''contextDigest'', VString context), (''occurrenceIndex'', case index of Some i \<Rightarrow> VInteger i | None \<Rightarrow> VNull)]"

text \<open>The objects that are not declared yet, each with the type the caller gave for it.\<close>

fun fresh_objects :: "(string \<times> string) list \<Rightarrow> string list \<Rightarrow> object_ref list \<Rightarrow> sink_refusal + ocel_object list" where
  "fresh_objects types known [] = Inr []"
| "fresh_objects types known ((i, q) # refs) =
     (if i \<in> set known then fresh_objects types known refs
      else case map_of types i of
          None \<Rightarrow> Inl UNDECLARED_OBJECT_TYPE
        | Some ty \<Rightarrow> bindE (fresh_objects types (i # known) refs)
            (\<lambda>obs. Inr (\<lparr>ob_id = i, ob_type = ty, ob_attributes = []\<rparr> # obs)))"

definition declare_refs :: "ocel_sink \<Rightarrow> ocel_log \<Rightarrow> object_ref list \<Rightarrow> sink_refusal + ocel_log" where
  "declare_refs sink L refs = bindE (fresh_objects (sk_types sink) (map ob_id (lg_objects L)) refs)
     (\<lambda>obs. Inr (if obs \<noteq> [] then with_objects L obs else L))"

definition ref_link :: "object_ref \<Rightarrow> link_spec" where
  "ref_link r = QualifiedId (fst r) (Some (snd r))"

definition sink_record :: "ocel_sink \<Rightarrow> ocel_log \<Rightarrow> ledger_record \<Rightarrow> string \<Rightarrow> string list
    \<Rightarrow> sink_refusal + ocel_log \<times> string list" where
  "sink_record sink L r e seen =
     (let p = (if lr_phase r = COMMITTED then COMMITTED_PHASE else INTENDED_PHASE) in
      if lr_objects r = []
      then Inl (if p = COMMITTED_PHASE then COMMITTED_RECORD_HAS_NO_OBJECTS else PHASE_EVENT_HAS_NO_OBJECTS)
      else if e \<in> set seen then Inl DUPLICATE_EVENT_ID
      else bindE (declare_refs sink L (lr_objects r)) (\<lambda>L'.
        Inr (append_event L' e (if lr_activity r \<noteq> '''' then lr_activity r else lr_activity_sha r)
               (map ref_link (lr_objects r)) (lr_timestamp r)
               (lifecycle_attributes p (sk_epoch sink) (sk_commitment sink) (lr_context r) (map_option int (lr_index r))) [] [],
             seen @ [e])))"

definition absorb_step :: "ocel_sink \<Rightarrow> bool \<Rightarrow> string list \<Rightarrow> ocel_log \<times> string list \<Rightarrow> ledger_record
    \<Rightarrow> sink_refusal + ocel_log \<times> string list" where
  "absorb_step sink include_intended settled = (\<lambda>(L, seen) r.
     if lr_phase r = COMMITTED then sink_record sink L r (lr_token_id r) seen
     else if include_intended \<and> lr_token_id r \<notin> set settled then sink_record sink L r (lr_token_id r @ ''#INTENDED'') seen
     else Inr (L, seen))"

definition absorb :: "ocel_sink \<Rightarrow> occurrence_ledger \<Rightarrow> bool \<Rightarrow> sink_refusal + ocel_sink" where
  "absorb sink ledger include_intended =
     bindE (foldE (absorb_step sink include_intended (map lr_token_id (committed_records ledger)))
              (sk_log sink, map ev_id (lg_events (sk_log sink))) (ol_records ledger))
       (\<lambda>(L, seen). Inr (sink\<lparr>sk_log := L\<rparr>))"

definition note_phase :: "ocel_sink \<Rightarrow> lifecycle_phase \<Rightarrow> string \<Rightarrow> string \<Rightarrow> object_ref list \<Rightarrow> int \<Rightarrow> string \<Rightarrow> int option
    \<Rightarrow> sink_refusal + ocel_sink" where
  "note_phase sink p e what refs t context index =
     (if refs = [] then Inl PHASE_EVENT_HAS_NO_OBJECTS
      else if e \<in> set (map ev_id (lg_events (sk_log sink))) then Inl DUPLICATE_EVENT_ID
      else bindE (declare_refs sink (sk_log sink) refs) (\<lambda>L.
        Inr (sink\<lparr>sk_log := append_event L e what (map ref_link refs) t
          (lifecycle_attributes p (sk_epoch sink) (sk_commitment sink) context index) [] []\<rparr>)))"

definition validated :: "ocel_sink \<Rightarrow> bool \<Rightarrow> ocel_refusal + ocel_log" where
  "validated sink strict = validate_log (sk_log sink) strict"

definition sink_activities :: "ocel_sink \<Rightarrow> string list" where
  "sink_activities sink = map ev_activity (lg_events (sk_log sink))"

section \<open>The log of a sink\<close>

lemma fresh_objects_declared:
  "fresh_objects types known refs = Inr obs \<Longrightarrow> map fst refs = is \<Longrightarrow>
    (\<forall>L. set known = log_objects L \<longrightarrow> lawful_log L \<longrightarrow>
       lawful_log (with_objects L obs) \<and> log_objects (with_objects L obs) = log_objects L \<union> fst ` set refs
       \<and> lg_events (with_objects L obs) = lg_events L)"
proof (induction types known refs arbitrary: obs "is" rule: fresh_objects.induct)
  case (1 types known)
  then show ?case by (simp add: with_objects_def)
next
  case (2 types known i q refs)
  show ?case
  proof (cases "i \<in> set known")
    case True
    with 2 show ?thesis by auto
  next
    case False
    with 2(3) obtain ty obs' where o: "map_of types i = Some ty" "fresh_objects types (i # known) refs = Inr obs'"
      "obs = \<lparr>ob_id = i, ob_type = ty, ob_attributes = []\<rparr> # obs'"
      by (auto simp: bindE_Inr_iff split: option.splits)
    let ?b = "\<lparr>ob_id = i, ob_type = ty, ob_attributes = []\<rparr>"
    show ?thesis
    proof (intro allI impI)
      fix L assume L: "set known = log_objects L" "lawful_log L"
      have step: "with_objects L obs = with_objects (declare_object L ?b) obs'"
        by (simp add: with_objects_def o(3))
      have "lawful_log (declare_object L ?b)" using log.declare_lawful [OF L(2), of ?b] False L(1) by simp
      with 2(2) [OF False o(1,2) refl] L(1)
      show "lawful_log (with_objects L obs) \<and> log_objects (with_objects L obs) = log_objects L \<union> fst ` set ((i, q) # refs)
          \<and> lg_events (with_objects L obs) = lg_events L"
        unfolding step by (auto simp: log.declared) (auto simp: with_objects_def)
    qed
  qed
qed

lemma declare_refs_declared:
  assumes "declare_refs sink L refs = Inr L'" "lawful_log L"
  shows "lawful_log L' \<and> log_objects L' = log_objects L \<union> fst ` set refs \<and> lg_events L' = lg_events L"
proof -
  obtain obs where "fresh_objects (sk_types sink) (map ob_id (lg_objects L)) refs = Inr obs" "L' = with_objects L obs"
    using assms(1) by (auto simp: declare_refs_def bindE_Inr_iff with_objects_def split: if_splits)
  with fresh_objects_declared [OF this(1) refl] assms(2) show ?thesis by simp
qed

lemma fresh_objects_cases:
  "if fst ` set refs \<subseteq> set known \<union> dom (map_of types) then \<exists>obs. fresh_objects types known refs = Inr obs
   else fresh_objects types known refs = Inl UNDECLARED_OBJECT_TYPE"
proof (induction types known refs rule: fresh_objects.induct)
  case (2 types known i q refs)
  show ?case
  proof (cases "i \<in> set known")
    case True
    with 2(1) [OF True] show ?thesis by (auto split: if_splits)
  next
    case False
    show ?thesis
    proof (cases "map_of types i")
      case None
      with False show ?thesis by (auto simp: domIff)
    next
      case (Some ty)
      then have "set (i # known) \<union> dom (map_of types) = set known \<union> dom (map_of types)" "i \<in> dom (map_of types)" by (auto simp: domIff)
      with 2(2) [OF False Some] False Some show ?thesis by (auto split: if_splits)
    qed
  qed
qed simp

definition declarable :: "ocel_sink \<Rightarrow> ocel_log \<Rightarrow> object_ref list \<Rightarrow> bool" where
  "declarable sink L refs \<longleftrightarrow> fst ` set refs \<subseteq> log_objects L \<union> dom (map_of (sk_types sink))"

lemma declare_refs_iff:
  "(\<exists>L'. declare_refs sink L refs = Inr L') \<longleftrightarrow> declarable sink L refs"
  "\<not> declarable sink L refs \<Longrightarrow> declare_refs sink L refs = Inl UNDECLARED_OBJECT_TYPE"
  using fresh_objects_cases [where types = "sk_types sink" and known = "map ob_id (lg_objects L)" and refs = refs]
  by (auto simp: declare_refs_def declarable_def image_subset_iff split: if_splits)

lemma ref_link_ids: "link_id ` set (map ref_link refs) = fst ` set refs"
  by (auto simp: ref_link_def link_id_def image_image)

definition sink_event :: "ocel_sink \<Rightarrow> ledger_record \<Rightarrow> log_event" where
  "sink_event sink r = \<lparr>ev_id = lr_token_id r, ev_activity = (if lr_activity r \<noteq> '''' then lr_activity r else lr_activity_sha r),
     ev_time = lr_timestamp r,
     ev_attributes = lifecycle_attributes COMMITTED_PHASE (sk_epoch sink) (sk_commitment sink) (lr_context r) (map_option int (lr_index r))\<rparr>"

lemma log_step:
  assumes "declare_refs sink L refs = Inr L'" "lawful_log L" "e \<notin> log_event_ids L" "refs \<noteq> []"
  shows "lawful_log (append_event L' e a (map ref_link refs) t attrs [] [])
    \<and> log_objects (append_event L' e a (map ref_link refs) t attrs [] []) = log_objects L \<union> fst ` set refs
    \<and> lg_events (append_event L' e a (map ref_link refs) t attrs [] []) = lg_events L @ [\<lparr>ev_id = e, ev_activity = a, ev_time = t, ev_attributes = attrs\<rparr>]"
proof -
  note D = declare_refs_declared [OF assms(1,2)]
  have "lawful_log (log_enter L' e (a, t, attrs) (map ref_link refs))"
    by (rule log.enter_lawful) (use D assms in \<open>auto simp: ref_link_ids image_image ref_link_def link_id_def\<close>)
  with D show ?thesis by (simp add: append_event_def)
qed

lemma sink_record_cases:
  assumes "lawful_log L" "set seen = log_event_ids L" "lr_phase r = COMMITTED" "lr_token_id r \<notin> log_event_ids L"
  shows "(if lr_objects r = [] then sink_record sink L r (lr_token_id r) seen = Inl COMMITTED_RECORD_HAS_NO_OBJECTS
    else if \<not> declarable sink L (lr_objects r) then sink_record sink L r (lr_token_id r) seen = Inl UNDECLARED_OBJECT_TYPE
    else \<exists>L'. sink_record sink L r (lr_token_id r) seen = Inr (L', seen @ [lr_token_id r]) \<and> lawful_log L'
      \<and> log_objects L' = log_objects L \<union> fst ` set (lr_objects r) \<and> lg_events L' = lg_events L @ [sink_event sink r])"
proof -
  consider "lr_objects r = []" | "lr_objects r \<noteq> []" "\<not> declarable sink L (lr_objects r)"
    | L1 where "lr_objects r \<noteq> []" "declare_refs sink L (lr_objects r) = Inr L1"
    using declare_refs_iff(1) by blast
  then show ?thesis
  proof cases
    case 3
    then have "declarable sink L (lr_objects r)" using declare_refs_iff(1) by blast
    with 3 log_step [OF 3(2) assms(1) assms(4) 3(1)] assms(2-4) show ?thesis
      by (auto simp: sink_record_def sink_event_def)
  qed (use assms(2-4) declare_refs_iff(2) in \<open>auto simp: sink_record_def\<close>)
qed

text \<open>The committed records of a list of ledger lines.\<close>

abbreviation commits_of :: "ledger_record list \<Rightarrow> ledger_record list" where
  "commits_of rs \<equiv> filter (\<lambda>r. lr_phase r = COMMITTED) rs"

definition projectable :: "ocel_sink \<Rightarrow> ocel_log \<Rightarrow> ledger_record \<Rightarrow> bool" where
  "projectable sink L r \<longleftrightarrow> lr_objects r \<noteq> [] \<and> declarable sink L (lr_objects r)"

lemma absorb_fold:
  assumes "lawful_log L" "set seen = log_event_ids L" "distinct (map lr_token_id (commits_of rs))"
    and "lr_token_id ` set (commits_of rs) \<inter> log_event_ids L = {}"
  shows "(if \<forall>r \<in> set (commits_of rs). projectable sink L r
    then \<exists>L' seen'. foldE (absorb_step sink False settled) (L, seen) rs = Inr (L', seen') \<and> lawful_log L'
      \<and> lg_events L' = lg_events L @ map (sink_event sink) (commits_of rs)
    else \<exists>x \<in> {COMMITTED_RECORD_HAS_NO_OBJECTS, UNDECLARED_OBJECT_TYPE}. foldE (absorb_step sink False settled) (L, seen) rs = Inl x)"
  using assms
proof (induction rs arbitrary: L seen)
  case (Cons r rs)
  show ?case
  proof (cases "lr_phase r = COMMITTED")
    case False
    then have E: "foldE (absorb_step sink False settled) (L, seen) (r # rs) = foldE (absorb_step sink False settled) (L, seen) rs"
      "commits_of (r # rs) = commits_of rs" by (simp_all add: absorb_step_def)
    show ?thesis unfolding E by (rule Cons.IH [OF Cons.prems(1,2) Cons.prems(3,4) [unfolded E(2)]])
  next
    case True
    have new: "lr_token_id r \<notin> log_event_ids L" using Cons.prems(4) True by auto
    note R = sink_record_cases [OF Cons.prems(1,2) True new, of sink]
    show ?thesis
    proof (cases "projectable sink L r")
      case False
      with R True show ?thesis by (auto simp: projectable_def absorb_step_def split: if_splits)
    next
      case p: True
      with R obtain L' where L': "sink_record sink L r (lr_token_id r) seen = Inr (L', seen @ [lr_token_id r])" "lawful_log L'"
        "log_objects L' = log_objects L \<union> fst ` set (lr_objects r)" "lg_events L' = lg_events L @ [sink_event sink r]"
        by (auto simp: projectable_def split: if_splits)
      have ids: "set (seen @ [lr_token_id r]) = log_event_ids L'" using Cons.prems(2) L'(4) by (simp add: sink_event_def)
      have "log_objects L' \<union> dom (map_of (sk_types sink)) = log_objects L \<union> dom (map_of (sk_types sink))"
        using p unfolding L'(3) projectable_def declarable_def by blast
      then have same: "projectable sink L' q = projectable sink L q" for q
        by (simp add: projectable_def declarable_def)
      have "lr_token_id ` set (commits_of rs) \<inter> log_event_ids L' = {}"
        using Cons.prems(3,4) True L'(4) by (auto simp: sink_event_def)
      moreover have "distinct (map lr_token_id (commits_of rs))" using Cons.prems(3) True by simp
      ultimately have IH: "if \<forall>q \<in> set (commits_of rs). projectable sink L' q
        then \<exists>M seen'. foldE (absorb_step sink False settled) (L', seen @ [lr_token_id r]) rs = Inr (M, seen') \<and> lawful_log M
          \<and> lg_events M = lg_events L' @ map (sink_event sink) (commits_of rs)
        else \<exists>x \<in> {COMMITTED_RECORD_HAS_NO_OBJECTS, UNDECLARED_OBJECT_TYPE}.
          foldE (absorb_step sink False settled) (L', seen @ [lr_token_id r]) rs = Inl x"
        by (rule Cons.IH [OF L'(2) ids, rotated])
      have step: "foldE (absorb_step sink False settled) (L, seen) (r # rs)
          = foldE (absorb_step sink False settled) (L', seen @ [lr_token_id r]) rs"
        using True L'(1) by (simp add: absorb_step_def)
      show ?thesis
      proof (cases "\<forall>q \<in> set (commits_of rs). projectable sink L' q")
        case all: True
        then have "\<forall>q \<in> set (commits_of (r # rs)). projectable sink L q" using True p same by simp
        moreover have "commits_of (r # rs) = r # commits_of rs" using True by simp
        ultimately show ?thesis using IH [unfolded if_P [OF all]] L'(4) unfolding step by simp
      next
        case some: False
        then have neg: "\<not> (\<forall>q \<in> set (commits_of (r # rs)). projectable sink L q)" using same by auto
        show ?thesis unfolding if_not_P [OF neg] step by (rule IH [unfolded if_not_P [OF some]])
      qed
    qed
  qed
qed simp

section \<open>Ledgers into logs\<close>

lemma written_commits_distinct: "written sha l \<Longrightarrow> distinct (map lr_token_id (committed_records l))"
proof (induction rule: written.induct)
  case blank
  show ?case by (simp add: committed_records_def from_records_def)
next
  case (intending l p ctx a lbl objects ts detail token l')
  from intending.hyps(2) obtain r where "l' = append_record r l" "lr_phase r = INTENDED" by (rule intend_InrD)
  then show ?case using intending.IH by (simp add: committed_records_def append_record_def)
next
  case (committing l token outcome act_sha' act' objects' ts detail key l')
  from committing.hyps(2) obtain r where "l' = append_record r l" "lr_phase r = COMMITTED" "lr_token_id r = it_token_id token"
    "it_token_id token \<in> set (map it_token_id (outstanding l))" by (rule commit_InrD) blast
  then show ?case using committing.IH by (auto simp: committed_records_def append_record_def outstanding_def token_of_def image_iff)
qed

definition typed_objects :: "ocel_sink \<Rightarrow> ledger_record \<Rightarrow> bool" where
  "typed_objects sink r \<longleftrightarrow> lr_objects r \<noteq> [] \<and> fst ` set (lr_objects r) \<subseteq> dom (map_of (sk_types sink))"

text \<open>
  C26.  Projection decides: a ledger that the operations wrote becomes a log exactly when every
  recorded act names objects and each of them has a declared type.  The log then passes the
  structural laws and has exactly one event per recorded act, in the order and at the times of
  the ledger, under the act's token.
\<close>

theorem absorb_decides:
  assumes "written sha ledger" "sk_log sink = empty_log"
  shows "case absorb sink ledger False of
      Inr sink' \<Rightarrow> (\<forall>r \<in> set (committed_records ledger). typed_objects sink r)
        \<and> lawful_log (sk_log sink') \<and> map (\<lambda>e. (ev_id e, ev_time e)) (lg_events (sk_log sink'))
            = map (\<lambda>r. (lr_token_id r, lr_timestamp r)) (committed_records ledger)
    | Inl x \<Rightarrow> x \<in> {COMMITTED_RECORD_HAS_NO_OBJECTS, UNDECLARED_OBJECT_TYPE}
        \<and> (\<exists>r \<in> set (committed_records ledger). \<not> typed_objects sink r)"
proof -
  have empty: "lawful_log empty_log" "lg_events empty_log = []" "lg_objects empty_log = []"
    by (simp_all add: lawful_log_def empty_log_def)
  note F = absorb_fold [of empty_log "[]" "ol_records ledger" sink "map lr_token_id (committed_records ledger)"]
  have p: "projectable sink empty_log = typed_objects sink"
    by (simp add: projectable_def declarable_def typed_objects_def empty fun_eq_iff)
  have c: "commits_of (ol_records ledger) = committed_records ledger" by (simp add: committed_records_def)
  note F' = F [unfolded c p, simplified empty, simplified, OF written_commits_distinct [OF assms(1)]]
  show ?thesis
  proof (cases "\<forall>r \<in> set (committed_records ledger). typed_objects sink r")
    case True
    with F' [unfolded if_P [OF True]] show ?thesis by (auto simp: absorb_def assms(2) empty sink_event_def)
  next
    case False
    from F' [unfolded if_not_P [OF False]] False show ?thesis by (auto simp: absorb_def assms(2) empty)
  qed
qed

section \<open>Sessions and sinks\<close>

interpretation bare: sound_property sha "\<lambda>s. objectless (se_ledger s)" for sha
  by unfold_locales simp_all

lemma absorb_objectless:
  "\<forall>r \<in> set rs. lr_objects r = [] \<Longrightarrow> foldE (absorb_step sink False settled) (L, seen) rs =
     (if commits_of rs = [] then Inr (L, seen) else Inl COMMITTED_RECORD_HAS_NO_OBJECTS)"
  by (induction rs) (auto simp: absorb_step_def sink_record_def)

text \<open>
  C25.  Sessions cannot be projected: a session announces and records its acts without objects.  Under
  an injective hash, take
  a session that began with a ledger of its own making, none being given to it, over a domain
  whose steps and goal queries raise nothing: as soon as it has recorded one act, whatever
  operations led there, absorbing its ledger into any sink is refused.
\<close>

theorem session_never_projected:
  assumes "inj sha" "new_session sha domj sol b sid None = Inr s0" "session_run sha same env s0 s" "steady env"
    and "committed_records (se_ledger s) \<noteq> []"
  shows "absorb sink (se_ledger s) False = Inl COMMITTED_RECORD_HAS_NO_OBJECTS"
proof -
  have "sound sha s0" by (rule new_session_sound [OF assms(1) _ assms(2)]) simp
  moreover have "objectless (se_ledger s0)" using new_session_fields [OF assms(2)] by (simp add: objectless_def from_records_def)
  ultimately have S: "sound sha s" "objectless (se_ledger s)" using bare.run_keeps [OF assms(3,4)] by blast+
  then have "\<forall>r \<in> set (ol_records (se_ledger s)). lr_objects r = []" by (simp add: objectless_def)
  from absorb_objectless [OF this] assms(5) show ?thesis by (simp add: absorb_def committed_records_def)
qed

section \<open>Witnesses\<close>

text \<open>One act on one order, recorded; and a sink that knows its type.\<close>

definition order_intent :: "intent_token \<times> occurrence_ledger" where
  "order_intent = projr (intend id (from_records []) [0] ''ctx'' ''sha-a'' ''a'' [RefSeq [''o'', ''part'']] None ''PRE_ACT'')"

definition order_act :: occurrence_ledger where
  "order_act = snd (projr (commit id (snd order_intent) (fst order_intent) None (Some ''sha-a'') None None None ''POST_STEP''))"

definition order_sink :: ocel_sink where
  "order_sink = \<lparr>sk_types = [(''o'', ''Order'')], sk_epoch = 0, sk_commitment = ''c'', sk_log = empty_log\<rparr>"

lemma order_act_written: "written id order_act"
proof -
  have i: "intend id (from_records []) [0] ''ctx'' ''sha-a'' ''a'' [RefSeq [''o'', ''part'']] None ''PRE_ACT'' = Inr order_intent"
    unfolding order_intent_def by (simp add: ledger_eval as_object_def)
  have "\<exists>key. commit id (snd order_intent) (fst order_intent) None (Some ''sha-a'') None None None ''POST_STEP'' = Inr (key, order_act)"
    unfolding order_act_def order_intent_def by (simp add: ledger_eval as_object_def)
  moreover have "written id (snd order_intent)" using written.intending [OF written.blank] i by (metis prod.collapse)
  ultimately show ?thesis using written.committing by blast
qed

theorem absorb_decides_witness:
  "\<exists>sink'. absorb order_sink order_act False = Inr sink' \<and> lawful_log (sk_log sink') \<and> length (lg_events (sk_log sink')) = 1"
proof -
  have c: "\<exists>r. committed_records order_act = [r] \<and> lr_objects r = [(''o'', ''part'')]"
    unfolding order_act_def order_intent_def by (simp add: ledger_eval as_object_def)
  then have t: "\<forall>r \<in> set (committed_records order_act). typed_objects order_sink r"
    by (auto simp: typed_objects_def order_sink_def)
  have "sk_log order_sink = empty_log" by (simp add: order_sink_def)
  note A = absorb_decides [OF order_act_written this]
  show ?thesis
  proof (cases "absorb order_sink order_act False")
    case (Inl x)
    with A t show ?thesis by auto
  next
    case (Inr sink')
    with A have "lawful_log (sk_log sink')" "map (\<lambda>e. (ev_id e, ev_time e)) (lg_events (sk_log sink'))
      = map (\<lambda>r. (lr_token_id r, lr_timestamp r)) (committed_records order_act)" by auto
    moreover from this(2) have "length (lg_events (sk_log sink')) = length (committed_records order_act)" by (rule map_eq_imp_length_eq)
    ultimately show ?thesis using Inr c by auto
  qed
qed

lemma stepped_run_committed: "committed_records (se_ledger stepped_run) \<noteq> []"
proof -
  obtain e where e: "current opened_run = Inr e" "ep_model e = two_steps" "ep_marking e = INITIAL_MARKING"
    "se_bound opened_run = DEFAULT_BOUND" "se_ledger opened_run = from_records []" using opened_run_current .
  obtain a where a: "leaf_activity id e [0] = Inr a" using two_steps_start(3) [of id] e(2) by (auto simp: leaf_activity_def)
  have s: "step id [0] None opened_run = perform id e [0] (sort [[0]]) a (decider opened_run None) ''POST_STEP'' opened_run"
    using e two_steps_start(1) a by (simp add: step_perform)
  have W: "written id (se_ledger opened_run)" using e(5) written.blank by simp
  obtain r s' where p: "perform id e [0] (sort [[0]]) a (decider opened_run None) ''POST_STEP'' opened_run = (r, s')" by fastforce
  have "stepped_run = s'" using s p by (simp add: stepped_run_def)
  moreover from inj_on_id W p have "committed_records (se_ledger s') \<noteq> []"
  proof (cases rule: perform_cases)
    case refused
    with e(5) show ?thesis by (simp add: outstanding_def from_records_def)
  next
    case (torn token l x)
    with e(2-4) two_steps_start(2) [of id "context_sha id opened_run e"] show ?thesis by auto
  next
    case (performed token l m key l')
    note i = intended_outstanding [OF inj_on_id W performed(2)]
    obtain r' where "committed_records l' = committed_records l @ [r']"
      using committed_resumable(3) [OF inj_on_id i(2,1) performed(4)] by blast
    then show ?thesis unfolding performed(6) by simp
  qed
  ultimately show ?thesis by simp
qed

theorem session_never_projected_witness:
  "absorb order_sink (se_ledger stepped_run) False = Inl COMMITTED_RECORD_HAS_NO_OBJECTS"
proof -
  have "session_run id (\<lambda>_ _. False) idle_domain (blank DEFAULT_BOUND) stepped_run"
    by (rule rtranclp_trans [OF opened_run_run stepped_run_run])
  from session_never_projected [OF inj_on_id blank_new this idle_domain_steady stepped_run_committed] show ?thesis .
qed

end
