(* ===== verification/Powl_Renaming.thy ===== *)
theory Powl_Renaming
  imports Powl_Normalize Powl_Denotation
begin

text \<open>
  What editing a model does to its language: the language grows with the languages of the
  children and shrinks with the order, and renaming the children of a partial order changes
  neither the stored relation, up to the renaming, nor the language.  Applied to
  \<^verbatim>\<open>powl/normalize.py\<close>: the digest of a model determines its language.
\<close>

section \<open>Monotony\<close>

lemma conc_mono: "L \<subseteq> L' \<Longrightarrow> M \<subseteq> M' \<Longrightarrow> conc L M \<subseteq> conc L' M'"
  by (auto simp: conc_def)

lemma conc_list_mono: "list_all2 (\<subseteq>) Ls Ms \<Longrightarrow> conc_list Ls \<subseteq> conc_list Ms"
  by (induction rule: list_all2_induct) (simp_all add: conc_mono)

lemma bounded_powers_subset: "L \<subseteq> M \<Longrightarrow> bounded_powers cap f L \<subseteq> bounded_powers cap f M"
  unfolding bounded_powers_def
  by (intro UN_mono order_refl conc_list_mono) (simp add: list_all2_conv_all_nth)

lemma merge_lang_subset:
  assumes "list_all2 (\<subseteq>) Ls Ms" "\<And>i j. prec' i j \<Longrightarrow> prec i j"
  shows "merge_lang prec Ls \<subseteq> merge_lang prec' Ms"
proof
  fix w assume "w \<in> merge_lang prec Ls"
  then obtain zs where zs: "map snd zs = w" "keeps_order prec zs" "\<forall>z \<in> set zs. fst z < length Ls"
    "\<forall>i < length Ls. strand i zs \<in> Ls ! i" by (rule merge_langE)
  have "keeps_order prec' zs" unfolding keeps_order_def
    by (rule sorted_wrt_mono_rel [OF _ zs(2) [unfolded keeps_order_def]]) (use assms(2) in blast)
  moreover have len: "length Ms = length Ls" and sub: "\<And>i. i < length Ls \<Longrightarrow> Ls ! i \<subseteq> Ms ! i"
    using assms(1) by (simp_all add: list_all2_conv_all_nth)
  have "\<forall>i < length Ms. strand i zs \<in> Ms ! i" using zs(4) sub unfolding len by blast
  ultimately show "w \<in> merge_lang prec' Ms"
    unfolding merge_lang_def using zs(1,3) len by (intro CollectI exI [of _ zs]) simp
qed

lemma graph_lang_mono:
  assumes "list_all2 (\<subseteq>) Ls Ms" "\<And>v. (st, v) \<in> E\<^sup>* \<Longrightarrow> in_range v (length Ls)"
  shows "graph_lang cap E st en Ls \<subseteq> graph_lang cap E st en Ms"
proof -
  have "conc_list (map (\<lambda>i. Ls ! nat i) ws) \<subseteq> conc_list (map (\<lambda>i. Ms ! nat i) ws)" if "walk E st en ws" for ws
  proof (rule conc_list_mono, simp add: list_all2_conv_all_nth, intro allI impI)
    fix k assume "k < length ws"
    then have "(st, ws ! k) \<in> E\<^sup>*" using walk_nodes [OF that] by simp
    from assms(2) [OF this] have "nat (ws ! k) < length Ls" by (auto simp: in_range_def)
    then show "Ls ! nat (ws ! k) \<subseteq> Ms ! nat (ws ! k)" using assms(1) by (simp add: list_all2_conv_all_nth)
  qed
  then show ?thesis unfolding graph_lang_def by blast
qed

section \<open>Renamed children\<close>

lemma merge_lang_renamed:
  assumes "length Ms = length Ls" "\<And>i. i < length Ls \<Longrightarrow> \<sigma> i < length Ls \<and> Ms ! \<sigma> i = Ls ! i" "inj_on \<sigma> {..<length Ls}"
    and "\<And>i j. i < length Ls \<Longrightarrow> j < length Ls \<Longrightarrow> prec' (\<sigma> i) (\<sigma> j) \<Longrightarrow> prec i j"
  shows "merge_lang prec Ls \<subseteq> merge_lang prec' Ms"
proof
  fix w assume "w \<in> merge_lang prec Ls"
  then obtain zs where zs: "map snd zs = w" "keeps_order prec zs" "\<forall>z \<in> set zs. fst z < length Ls"
    "\<forall>i < length Ls. strand i zs \<in> Ls ! i" by (rule merge_langE)
  let ?zs = "map (\<lambda>z. (\<sigma> (fst z), snd z)) zs"
  have w: "map snd ?zs = w" using zs(1) by (simp add: o_def)
  have "keeps_order prec' ?zs" unfolding keeps_order_def sorted_wrt_map
  proof (rule sorted_wrt_mono_rel [OF _ zs(2) [unfolded keeps_order_def]])
    fix x y assume "x \<in> set zs" "y \<in> set zs" "\<not> prec (fst y) (fst x)"
    then show "\<not> prec' (fst (\<sigma> (fst y), snd y)) (fst (\<sigma> (fst x), snd x))" using assms(4) zs(3) by auto
  qed
  moreover have "\<forall>z \<in> set ?zs. fst z < length Ms" using zs(3) assms(1,2) by auto
  moreover have "strand k ?zs \<in> Ms ! k" if "k < length Ms" for k
  proof -
    have "\<sigma> ` {..<length Ls} = {..<length Ls}" using assms(2) by (intro endo_inj_surj [OF _ _ assms(3)]) auto
    with that assms(1) obtain i where i: "i < length Ls" "\<sigma> i = k" by (metis imageE lessThan_iff)
    have "filter (\<lambda>z. \<sigma> (fst z) = k) zs = filter (\<lambda>z. fst z = i) zs"
      using zs(3) i inj_onD [OF assms(3)] by (intro filter_cong) auto
    then have "strand k ?zs = strand i zs" by (simp add: strand_def filter_map o_def)
    with i zs(4) assms(2) show ?thesis by metis
  qed
  ultimately show "w \<in> merge_lang prec' Ms" unfolding merge_lang_def w [symmetric] by blast
qed

lemma trancl_map_prod:
  assumes "inj h"
  shows "(map_prod h h ` R)\<^sup>+ = map_prod h h ` R\<^sup>+"
proof -
  have "\<exists>a b. x = h a \<and> y = h b \<and> (a, b) \<in> R\<^sup>+" if "(x, y) \<in> (map_prod h h ` R)\<^sup>+" for x y
    using that
  proof induction
    case (step y z)
    then obtain a b c d where "x = h a" "y = h b" "(a, b) \<in> R\<^sup>+" "y = h c" "z = h d" "(c, d) \<in> R" by auto
    with injD [OF assms] show ?case by (metis trancl.trancl_into_trancl)
  qed auto
  moreover have "(h a, h b) \<in> (map_prod h h ` R)\<^sup>+" if "(a, b) \<in> R\<^sup>+" for a b
    using that by induction (auto intro: trancl.trancl_into_trancl)
  ultimately show ?thesis by (auto simp: image_iff)
qed

lemma acyclic_map_prod: "inj h \<Longrightarrow> acyclic R \<Longrightarrow> acyclic (map_prod h h ` R)"
  by (auto simp: acyclic_def trancl_map_prod dest: injD)

text \<open>A relation that is its own reduction is so under new names.\<close>

lemma reduction_renamed:
  assumes "inj h" "transitive_reduction es n = Inr es" "transitive_reduction es' n' = Inr red" "erel es' = map_prod h h ` erel es"
  shows "erel red = map_prod h h ` erel es"
proof
  show sub: "erel red \<subseteq> map_prod h h ` erel es"
    using reduction_least [OF assms(3), of "erel es'"] by (simp add: assms(4))
  let ?S = "{(a, b). (h a, h b) \<in> erel red}"
  have red: "erel red = map_prod h h ` ?S" using sub by (auto simp: image_iff)
  have "map_prod h h ` ?S\<^sup>+ = (erel red)\<^sup>+" by (subst red) (rule trancl_map_prod [OF assms(1), symmetric])
  also have "\<dots> = map_prod h h ` (erel es)\<^sup>+"
    using reduction_generates [OF assms(3)] by (simp add: assms(4) trancl_map_prod [OF assms(1)])
  finally have "map_prod h h ` ?S\<^sup>+ = map_prod h h ` (erel es)\<^sup>+" .
  moreover have "inj (map_prod h h)" using assms(1) by (simp add: prod.inj_map)
  ultimately have "?S\<^sup>+ = (erel es)\<^sup>+" by (simp add: inj_image_eq_iff)
  from reduction_least [OF assms(2) this] show "map_prod h h ` erel es \<subseteq> erel red" by auto
qed

lemma merge_lang_permuted:
  assumes "length Ms = length Ls" "\<And>i. i < length Ls \<Longrightarrow> \<sigma> i < length Ls \<and> Ms ! \<sigma> i = Ls ! i" "inj_on \<sigma> {..<length Ls}"
    and "\<And>i j. i < length Ls \<Longrightarrow> j < length Ls \<Longrightarrow> prec' (\<sigma> i) (\<sigma> j) \<longleftrightarrow> prec i j"
  shows "merge_lang prec Ls = merge_lang prec' Ms"
proof
  show "merge_lang prec Ls \<subseteq> merge_lang prec' Ms"
    using assms(2,4) by (intro merge_lang_renamed [where \<sigma> = \<sigma>] assms(1,3)) simp_all
  let ?n = "{..<length Ls}"
  have img: "\<sigma> ` ?n = ?n" using assms(2) by (intro endo_inj_surj [OF _ _ assms(3)]) auto
  let ?\<tau> = "the_inv_into ?n \<sigma>"
  have inv: "?\<tau> k < length Ls \<and> \<sigma> (?\<tau> k) = k" if "k < length Ls" for k
    using that f_the_inv_into_f [OF assms(3), of k] the_inv_into_into [OF assms(3), of k ?n] img by auto
  show "merge_lang prec' Ms \<subseteq> merge_lang prec Ls"
  proof (rule merge_lang_renamed [where \<sigma> = ?\<tau>])
    show "inj_on ?\<tau> {..<length Ms}" using inj_on_the_inv_into [OF assms(3)] img assms(1) by simp
    show "\<And>i. i < length Ms \<Longrightarrow> ?\<tau> i < length Ms \<and> Ls ! ?\<tau> i = Ms ! i" using inv assms(1,2) by metis
    show "\<And>i j. i < length Ms \<Longrightarrow> j < length Ms \<Longrightarrow> prec (?\<tau> i) (?\<tau> j) \<Longrightarrow> prec' i j"
      using inv assms(1,4) by metis
  qed (simp add: assms(1))
qed

section \<open>The language of a canonical form\<close>

text \<open>The old position of the child at a new one, on all integers.\<close>

definition old_place :: "nat list \<Rightarrow> int \<Rightarrow> int" where
  "old_place perm x = (if in_range x (length perm) then int (perm ! nat x) else x)"

lemma old_place_nth: "k < length perm \<Longrightarrow> old_place perm (int k) = int (perm ! k)"
  by (simp add: old_place_def in_range_def)

lemma old_place_inj: "distinct perm \<Longrightarrow> set perm = {..<length perm} \<Longrightarrow> inj (old_place perm)"
proof (rule injI)
  fix x y
  assume *: "distinct perm" "set perm = {..<length perm}" "old_place perm x = old_place perm y"
  have "in_range (int (perm ! nat z)) (length perm)" if "in_range z (length perm)" for z
  proof -
    from that have "perm ! nat z \<in> set perm" by (auto simp: in_range_def)
    with *(2) show ?thesis by (simp add: in_range_def)
  qed
  with * show "x = y"
    by (auto simp: old_place_def in_range_def nth_eq_iff_index_eq split: if_splits)
qed

lemma renamed_back:
  assumes "order_edges_ok es (length perm)" "distinct perm" "set perm = {..<length perm}"
  shows "erel es = map_prod (old_place perm) (old_place perm) ` erel (map (rename_edge perm) es)"
proof -
  have "map_prod (old_place perm) (old_place perm) (ends (rename_edge perm e)) = ends e" if e: "e \<in> set es" for e
    using rename_edge_range [OF assms e] by (metis edge.sel(1,3) map_prod_simp old_place_nth)
  then show ?thesis by (simp add: erel_def image_image del: map_prod_simp)
qed

lemma before_renamed:
  assumes "inj h" "erel cl = map_prod h h ` erel cl'" "\<And>k. k < n \<Longrightarrow> h (int k) = int (\<sigma> k)" "i < n" "j < n"
  shows "before cl (\<sigma> i) (\<sigma> j) \<longleftrightarrow> before cl' i j"
proof -
  have "(int (\<sigma> i), int (\<sigma> j)) = map_prod h h (int i, int j)" using assms(3-5) by simp
  moreover have "inj (map_prod h h)" using assms(1) by (simp add: prod.inj_map)
  ultimately show ?thesis unfolding before_def assms(2) by (simp add: inj_image_mem_iff del: map_prod_simp)
qed

lemma mapE_map_eq: "mapE f xs = Inr ys \<Longrightarrow> (\<And>x y. x \<in> set xs \<Longrightarrow> f x = Inr y \<Longrightarrow> g y = h x) \<Longrightarrow> map g ys = map h xs"
  by (induction xs arbitrary: ys) (auto simp: bindE_Inr_iff)

lemma canonical_form_den: "wf_node v \<Longrightarrow> canonical_form sha v = Inr w \<Longrightarrow> den cap w = den cap v"
proof (induction v arbitrary: w)
  case (PartialOrder cs es f cl d)
  note D = wf_partial_orderD [OF PartialOrder.prems(1)]
  from PartialOrder.prems(2) obtain kids ids es'
    where kids: "mapE (canonical_form sha) cs = Inr kids" and ids: "mapE (node_id sha) kids = Inr ids"
      and es': "transitive_reduction es (length kids) = Inr es'"
      and w': "mk_partial_order (map (\<lambda>i. kids ! i) (sorted_positions ids)) (map (rename_edge (sorted_positions ids)) es') f = Inr w"
    by (auto simp: bindE_Inr_iff Let_def)
  from kids have len: "length kids = length cs" by (auto simp: mapE_Inr_iff dest: list_all2_lengthD)
  have w: "mk_partial_order (map (\<lambda>i. kids ! i) (sorted_positions ids)) (map (rename_edge (sorted_positions ids)) es) f = Inr w"
    using w' es' D(11) unfolding len by simp
  let ?p = "sorted_positions ids" let ?cs = "map (\<lambda>i. kids ! i) ?p"
  have p: "length ?p = length cs" "distinct ?p" "set ?p = {..<length ?p}"
    using ids len by (auto simp: mapE_Inr_iff dest: list_all2_lengthD)
  have dens: "map (den cap) kids = map (den cap) cs"
    using kids by (rule mapE_map_eq) (use PartialOrder.IH D(8) in blast)
  from w obtain red cl' d' where w': "w = PartialOrder ?cs red f cl' d'" and
    cl': "transitive_closure (map (rename_edge ?p) es) (length ?cs) = Inr cl'" by (rule mk_partial_order_InrD)
  have inj: "inj (old_place ?p)" by (rule old_place_inj [OF p(2,3)])
  have "erel es = map_prod (old_place ?p) (old_place ?p) ` erel (map (rename_edge ?p) es)"
    using D(2) by (intro renamed_back p(2,3)) (simp only: p(1))
  then have cl: "erel cl = map_prod (old_place ?p) (old_place ?p) ` erel cl'"
    unfolding D(4) transitive_closure_InrD(3) [OF cl'] trancl_map_prod [OF inj, symmetric] by (rule arg_cong)
  have "merge_lang (before cl') (map (den cap) ?cs) = merge_lang (before cl) (map (den cap) cs)"
  proof (rule merge_lang_permuted [where \<sigma> = "\<lambda>k. ?p ! k"])
    fix i assume i: "i < length (map (den cap) ?cs)"
    then have m: "?p ! i < length cs" using p nth_mem [of i ?p] by simp
    with i show "?p ! i < length (map (den cap) ?cs) \<and> map (den cap) cs ! (?p ! i) = map (den cap) ?cs ! i"
      unfolding dens [symmetric] using len p(1) by simp
  next
    fix i j assume "i < length (map (den cap) ?cs)" "j < length (map (den cap) ?cs)"
    then show "before cl (?p ! i) (?p ! j) = before cl' i j"
      by (intro before_renamed [OF inj cl, of "length ?p"] old_place_nth) simp_all
  qed (use p in \<open>auto simp: inj_on_def nth_eq_iff_index_eq\<close>)
  then show ?case by (simp add: w')
next
  case (ChoiceGraph cs es st en f d)
  note D = wf_choice_graphD [OF ChoiceGraph.prems(1)]
  from ChoiceGraph.prems(2) obtain kids where kids: "mapE (canonical_form sha) cs = Inr kids"
    and w: "mk_choice_graph kids es st en f = Inr w" by (auto simp: bindE_Inr_iff)
  have "map (den cap) kids = map (den cap) cs"
    using kids by (rule mapE_map_eq) (use ChoiceGraph.IH D(7) in blast)
  with w show ?case by (auto simp: mk_choice_graph_Inr_iff)
qed auto

text \<open>The language can be read off the shape, which is what an identity stands for.\<close>

lemma arcs_json_erel: "arcs_json es = arcs_json es' \<Longrightarrow> erel es = erel es'"
proof -
  assume "arcs_json es = arcs_json es'"
  then have "map (\<lambda>(i, j). JList [JInt i, JInt j]) (sort (map ends es)) = map (\<lambda>(i, j). JList [JInt i, JInt j]) (sort (map ends es'))"
    by (simp add: arcs_json_def)
  then have "sort (map ends es) = sort (map ends es')" by (rule map_injective) (auto simp: inj_def)
  then have "set (sort (map ends es)) = set (sort (map ends es'))" by simp
  then show ?thesis by (simp add: erel_def)
qed

lemma shape_den: "wf_node v \<Longrightarrow> wf_node w \<Longrightarrow> shape v = shape w \<Longrightarrow> den cap v = den cap w"
proof (induction v arbitrary: w)
  case (Atom l a b c)
  with shape_kind [OF Atom.prems] show ?case
  proof (cases w)
    case (Atom l' a' b' c')
    then have "to_jsonable (atom_description (pnode.Atom l a b c)) = to_jsonable (atom_description (pnode.Atom l' a' b' c'))"
      using Atom.prems(3) by simp
    from to_jsonable_obj_field [OF this [unfolded atom_description_def], of "''label''"] Atom show ?thesis by simp
  qed simp_all
next
  case (PartialOrder cs es f cl d)
  from shape_kind [OF PartialOrder.prems] obtain cs' es' f' cl' d' where w: "w = pnode.PartialOrder cs' es' f' cl' d'"
    by (cases w) auto
  note D = wf_partial_orderD [OF PartialOrder.prems(1)] and D' = wf_partial_orderD [OF PartialOrder.prems(2) [unfolded w]]
  from PartialOrder.prems(3) w have sh: "map shape cs = map shape cs'" "arcs_json es = arcs_json es'" "f = f'"
    by (simp_all add: freq_json_inj)
  have "erel cl = erel cl'" using arcs_json_erel [OF sh(2)] by (simp add: D(4) D'(4))
  then have "before cl = before cl'" by (simp add: before_def fun_eq_iff)
  moreover have "map (den cap) cs = map (den cap) cs'"
    using sh(1) PartialOrder.IH D(8) D'(8) by (auto simp: list_eq_iff_nth_eq)
  ultimately show ?case by (simp add: w sh(3))
next
  case (ChoiceGraph cs es st en f d)
  from shape_kind [OF ChoiceGraph.prems] obtain cs' es' st' en' f' d' where w: "w = pnode.ChoiceGraph cs' es' st' en' f' d'"
    by (cases w) auto
  note D = wf_choice_graphD [OF ChoiceGraph.prems(1)] and D' = wf_choice_graphD [OF ChoiceGraph.prems(2) [unfolded w]]
  from ChoiceGraph.prems(3) w have sh: "map shape cs = map shape cs'" "arcs_json es = arcs_json es'" "st = st'" "en = en'" "f = f'"
    by (simp_all add: freq_json_inj)
  moreover have "map (den cap) cs = map (den cap) cs'"
    using sh(1) ChoiceGraph.IH D(7) D'(7) by (auto simp: list_eq_iff_nth_eq)
  ultimately show ?case using arcs_json_erel [OF sh(2)] by (simp add: w)
next
  case Start
  from shape_kind [OF Start.prems] show ?case by (cases w) auto
next
  case End
  from shape_kind [OF End.prems] show ?case by (cases w) auto
next
  case Silent
  from shape_kind [OF Silent.prems] show ?case by (cases w) auto
qed auto

lemma node_id_shape:
  assumes "inj sha" "wf_node v" "wf_node w" "node_id sha v = node_id sha w"
  shows "shape v = shape w"
proof -
  obtain s t where st: "node_structure sha v = Inr s" "node_structure sha w = Inr t"
    using assms(2,3) node_structure_total by metis
  have "the_id sha v = the_id sha w" using assms(2-4) node_id_the by (metis sum.inject(2))
  then show ?thesis using the_id_structure [OF assms(1) st structure_shape [OF assms(1-3) st]] by simp
qed

text \<open>
  C7.  The digest of a model determines its language: if the hash has no collisions, two
  admitted models with the same \<^verbatim>\<open>model_digest\<close> have the same traces, bounded and unbounded,
  however their children were ordered and their edges stored; in particular putting a model
  into canonical form does not change what it can do.
\<close>

theorem digest_determines_language:
  assumes "inj sha" "wf_node v" "wf_node w" "model_digest sha v = model_digest sha w"
  shows "den cap v = den cap w \<and> (\<exists>c. canonical_form sha v = Inr c \<and> den cap c = den cap v)"
proof -
  obtain v' where v': "canonical_form sha v = Inr v'" using canonical_form_total [OF assms(2)] by blast
  obtain w' where w': "canonical_form sha w = Inr w'" using canonical_form_total [OF assms(3)] by blast
  have "node_id sha v' = node_id sha w'" using assms(4) by (simp add: model_digest_def v' w')
  with node_id_shape [OF assms(1) canonical_form_wf [OF assms(2) v'] canonical_form_wf [OF assms(3) w']]
  have "shape v' = shape w'" by blast
  from shape_den [OF canonical_form_wf [OF assms(2) v'] canonical_form_wf [OF assms(3) w'] this]
  show ?thesis using canonical_form_den [OF assms(2) v'] canonical_form_den [OF assms(3) w'] v' by blast
qed

theorem digest_determines_language_witness:
  "den None (PartialOrder [Silent, Start] [] ONCE [] 2) = den None (PartialOrder [Start, Silent] [] ONCE [] 2)"
proof -
  have mk: "mk_partial_order [Start, Silent] [] ONCE = Inr (PartialOrder [Start, Silent] [] ONCE [] 2)"
    "mk_partial_order [Silent, Start] [] ONCE = Inr (PartialOrder [Silent, Start] [] ONCE [] 2)"
    by (rule mk_parallel; simp add: composite_depth_def node_depth_def MAX_POWL_DEPTH_def)+
  then have wf: "wf_node (PartialOrder [Start, Silent] [] ONCE [] 2)" "wf_node (PartialOrder [Silent, Start] [] ONCE [] 2)"
    by simp_all
  have "model_digest id (PartialOrder [Silent, Start] [] ONCE [] 2) = model_digest id (PartialOrder [Start, Silent] [] ONCE [] 2)"
  proof -
    have "sort [x, y] = sort [y, x]" for x y :: string using linear [of x y] by auto
    then show ?thesis unfolding model_digest_parallel [OF wf(1)] model_digest_parallel [OF wf(2)] list.map by metis
  qed
  from digest_determines_language [OF inj_on_id wf(2,1) this] show ?thesis by blast
qed

end
