(* ===== verification/Powl_Mutation.thy ===== *)
theory Powl_Mutation
  imports Powl_Normalize Powl_Executor
begin

text \<open>
  \<^verbatim>\<open>powl/mutations.py\<close>: seven edits of a model at a path.  Each rebuilds the composites from the
  edited one up to the root through their constructors and validates the result.
\<close>

section \<open>Paths\<close>

definition resolve :: "pnode \<Rightarrow> path \<Rightarrow> pnode res" where
  "resolve root path = foldE (\<lambda>v i. case v of
       PartialOrder cs es f cl d \<Rightarrow> if in_range i (length cs) then Inr (cs ! nat i) else refuse DANGLING_REFERENCE
     | ChoiceGraph cs es st en f d \<Rightarrow> if in_range i (length cs) then Inr (cs ! nat i) else refuse DANGLING_REFERENCE
     | _ \<Rightarrow> refuse DANGLING_REFERENCE) root path"

fun replace_at_path :: "pnode \<Rightarrow> path \<Rightarrow> pnode \<Rightarrow> pnode res" where
  "replace_at_path root [] r = Inr r"
| "replace_at_path (PartialOrder cs es f cl d) (i # p) r =
     (if \<not> in_range i (length cs) then refuse DANGLING_REFERENCE
      else bindE (replace_at_path (cs ! nat i) p r) (\<lambda>c. mk_partial_order (cs[nat i := c]) es f))"
| "replace_at_path (ChoiceGraph cs es st en f d) (i # p) r =
     (if \<not> in_range i (length cs) then refuse DANGLING_REFERENCE
      else bindE (replace_at_path (cs ! nat i) p r) (\<lambda>c. mk_choice_graph (cs[nat i := c]) es st en f))"
| "replace_at_path root (i # p) r = refuse DANGLING_REFERENCE"

text \<open>
  \<open>rebuild\<close> puts new children and a new relation into the composite at a path; a choice graph
  keeps its boundaries unless new ones are given.
\<close>

definition rebuild :: "pnode \<Rightarrow> path \<Rightarrow> pnode list \<Rightarrow> edge list \<Rightarrow> (int \<times> int) option \<Rightarrow> pnode res" where
  "rebuild root path cs es bounds =
     bindE (resolve root path) (\<lambda>parent. case parent of
         PartialOrder _ _ f _ _ \<Rightarrow> bindE (mk_partial_order cs es f) (replace_at_path root path)
       | ChoiceGraph _ _ st en f _ \<Rightarrow>
           bindE (case bounds of Some (st', en') \<Rightarrow> mk_choice_graph cs es st' en' f | None \<Rightarrow> mk_choice_graph cs es st en f)
             (replace_at_path root path)
       | _ \<Rightarrow> refuse DANGLING_REFERENCE)"

definition validated_model :: "pnode res \<Rightarrow> pnode res" where
  "validated_model r = bindE r (\<lambda>v. bindE (validate_model v) (\<lambda>_. Inr v))"

definition require_partial_order :: "pnode \<Rightarrow> path \<Rightarrow> (pnode list \<times> edge list \<times> edge list) res" where
  "require_partial_order root path = bindE (resolve root path) (\<lambda>v. case v of
     PartialOrder cs es f cl d \<Rightarrow> Inr (cs, es, cl) | _ \<Rightarrow> refuse PROHIBITED_NODE_KIND)"

definition require_choice_graph :: "pnode \<Rightarrow> path \<Rightarrow> (pnode list \<times> edge list \<times> int \<times> int) res" where
  "require_choice_graph root path = bindE (resolve root path) (\<lambda>v. case v of
     ChoiceGraph cs es st en f d \<Rightarrow> Inr (cs, es, st, en) | _ \<Rightarrow> refuse PROHIBITED_NODE_KIND)"

text \<open>A remap is a dictionary of indices; edges that touch a dropped index are dropped.\<close>

definition remap_ends :: "(int \<times> int) list \<Rightarrow> edge \<Rightarrow> (int \<times> int) option" where
  "remap_ends remap e = (case (map_of remap (src e), map_of remap (dst e)) of (Some a, Some b) \<Rightarrow> Some (a, b) | _ \<Rightarrow> None)"

definition remap_order_edges :: "edge list \<Rightarrow> (int \<times> int) list \<Rightarrow> edge list" where
  "remap_order_edges es remap =
     remdups (List.map_filter (\<lambda>e. map_option (\<lambda>(a, b). OrderEdge a b) (remap_ends remap e)) es)"

definition remap_choice_edges :: "edge list \<Rightarrow> (int \<times> int) list \<Rightarrow> edge list" where
  "remap_choice_edges es remap =
     remdups (List.map_filter (\<lambda>e. map_option (\<lambda>(a, b). ChoiceGraphEdge a b (guard_of e)) (remap_ends remap e)) es)"

section \<open>Mutations of partial orders\<close>

definition insert_atom :: "pnode \<Rightarrow> path \<Rightarrow> int \<Rightarrow> pnode \<Rightarrow> pnode res" where
  "insert_atom root path i atom =
     bindE (require_partial_order root path) (\<lambda>(cs, es, _).
       let n = length cs in
       if \<not> (0 \<le> i \<and> i \<le> int n) then refuse DANGLING_REFERENCE
       else let cs' = take (nat i) cs @ [atom] @ drop (nat i) cs;
                remap = map (\<lambda>k. (int k, if int k < i then int k else int k + 1)) [0..<n]
            in validated_model (rebuild root path cs' (remap_order_edges es remap) None))"

text \<open>The surviving indices in order, each with its new place.\<close>

definition survivors :: "nat \<Rightarrow> int \<Rightarrow> (int \<times> int) list" where
  "survivors n i = (let kept = filter (\<lambda>k. int k \<noteq> i) [0..<n] in zip (map int kept) (map int [0..<length kept]))"

definition delete_node :: "pnode \<Rightarrow> path \<Rightarrow> pnode res" where
  "delete_node root path =
     (if path = [] then refuse DANGLING_REFERENCE
      else let parent_path = butlast path; i = last path;
               remove = (\<lambda>cs. map (\<lambda>k. cs ! k) (filter (\<lambda>k. int k \<noteq> i) [0..<length cs]))
        in bindE (resolve root parent_path) (\<lambda>parent. case parent of
          PartialOrder cs es f cl d \<Rightarrow>
            let n = length cs in
            if \<not> in_range i n then refuse DANGLING_REFERENCE
            else if int n - 1 < 2 then refuse INVALID_PARTIAL_ORDER_ARITY
            else validated_model (rebuild root parent_path (remove cs) (remap_order_edges es (survivors n i)) None)
        | ChoiceGraph cs es st en f d \<Rightarrow>
            let n = length cs; remap = survivors n i in
            if \<not> in_range i n then refuse DANGLING_REFERENCE
            else if int n - 1 < 2 then refuse INVALID_CHOICE_ARITY
            else if i = st \<or> i = en then refuse MULTI_BOUNDARY_CHOICE_GRAPH
            else (case (map_of remap st, map_of remap en) of
                (Some st', Some en') \<Rightarrow>
                  validated_model (rebuild root parent_path (remove cs) (remap_choice_edges es remap) (Some (st', en')))
              | _ \<Rightarrow> Inl KeyError)
        | _ \<Rightarrow> refuse PROHIBITED_NODE_KIND))"

definition swap :: "int \<Rightarrow> int \<Rightarrow> int \<Rightarrow> int" where
  "swap a b k = (if k = a then b else if k = b then a else k)"

definition reorder :: "pnode \<Rightarrow> path \<Rightarrow> int \<Rightarrow> int \<Rightarrow> pnode res" where
  "reorder root path a b =
     bindE (require_partial_order root path) (\<lambda>(cs, es, _).
       let n = length cs in
       if \<not> in_range a n \<or> \<not> in_range b n then refuse DANGLING_REFERENCE
       else if a = b then refuse DANGLING_REFERENCE
       else if (a, b) \<in> set (map ends es) \<or> (b, a) \<in> set (map ends es) then refuse NOT_TRANSITIVELY_REDUCED
       else let cs' = cs[nat a := cs ! nat b, nat b := cs ! nat a];
                remap = map (\<lambda>k. (int k, swap a b (int k))) [0..<n]
            in validated_model (rebuild root path cs' (remap_order_edges es remap) None))"

definition parallelize :: "pnode \<Rightarrow> path \<Rightarrow> int \<Rightarrow> int \<Rightarrow> pnode res" where
  "parallelize root path a b =
     bindE (require_partial_order root path) (\<lambda>(cs, es, _).
       let n = length cs in
       if \<not> in_range a n \<or> \<not> in_range b n then refuse DANGLING_REFERENCE
       else if OrderEdge a b \<in> set es
            then validated_model (rebuild root path cs (filter (\<lambda>e. e \<noteq> OrderEdge a b) es) None)
       else if OrderEdge b a \<in> set es
            then validated_model (rebuild root path cs (filter (\<lambda>e. e \<noteq> OrderEdge b a) es) None)
       else refuse DANGLING_REFERENCE)"

definition serialize :: "pnode \<Rightarrow> path \<Rightarrow> int \<Rightarrow> int \<Rightarrow> pnode res" where
  "serialize root path a b =
     bindE (require_partial_order root path) (\<lambda>(cs, es, cl).
       let n = length cs in
       if \<not> in_range a n \<or> \<not> in_range b n then refuse DANGLING_REFERENCE
       else if a = b then refuse DANGLING_REFERENCE
       else if (a, b) \<in> set (map ends cl) \<or> (b, a) \<in> set (map ends cl) then refuse NOT_TRANSITIVELY_REDUCED
       else validated_model (rebuild root path cs (List.insert (OrderEdge a b) es) None))"

section \<open>Mutations of guards\<close>

text \<open>Two edges are the same when their ends and the keys of their guards are.\<close>

definition same_edge :: "edge \<Rightarrow> edge \<Rightarrow> bool" where
  "same_edge e e' \<longleftrightarrow> ends e = ends e' \<and> map_option guard_key (guard_of e) = map_option guard_key (guard_of e')"

definition add_edge :: "edge list \<Rightarrow> edge \<Rightarrow> edge list" where
  "add_edge es e = (if \<exists>e' \<in> set es. same_edge e' e then es else es @ [e])"

definition add_guard :: "pnode \<Rightarrow> path \<Rightarrow> int \<Rightarrow> int \<Rightarrow> guard \<Rightarrow> pnode res" where
  "add_guard root path s t g =
     bindE (require_choice_graph root path) (\<lambda>(cs, es, st, en).
       let target = ChoiceGraphEdge s t None in
       if target \<notin> set es then refuse DANGLING_REFERENCE
       else validated_model (rebuild root path cs
              (add_edge (filter (\<lambda>e. e \<noteq> target) es) (ChoiceGraphEdge s t (Some g))) (Some (st, en))))"

definition relax_guard :: "pnode \<Rightarrow> path \<Rightarrow> int \<Rightarrow> int \<Rightarrow> pnode res" where
  "relax_guard root path s t =
     bindE (require_choice_graph root path) (\<lambda>(cs, es, st, en).
       let guarded = filter (\<lambda>e. src e = s \<and> dst e = t \<and> guard_of e \<noteq> None) es in
       if guarded = [] then refuse DANGLING_REFERENCE
       else validated_model (rebuild root path cs
              (add_edge (filter (\<lambda>e. e \<notin> set guarded) es) (ChoiceGraphEdge s t None)) (Some (st, en))))"

end
