(* ===== verification/Powl_Mutation_Facts.thy ===== *)
theory Powl_Mutation_Facts
  imports Powl_Mutation Powl_Renaming
begin

text \<open>
  Mutations of admitted models: what succeeds, what it does to the language, and which
  mutations undo each other.
\<close>

section \<open>Replacing a node\<close>

lemma resolve_node_at [simp]: "resolve root path = node_at root path"
proof (induction path arbitrary: root)
  case (Cons i p)
  then show ?case by (cases root) (simp_all add: resolve_def)
qed (simp add: resolve_def)

text \<open>\<open>w\<close> is \<open>root\<close> with one occurrence of \<open>v\<close> replaced by \<open>x\<close>, up to cached depths.\<close>

inductive edited :: "pnode \<Rightarrow> pnode \<Rightarrow> pnode \<Rightarrow> pnode \<Rightarrow> bool" for v x where
  here: "edited v x v x"
| under_order: "edited v x (cs ! i) c \<Longrightarrow> i < length cs \<Longrightarrow>
    edited v x (PartialOrder cs es f cl d) (PartialOrder (cs[i := c]) es f cl d')"
| under_choice: "edited v x (cs ! i) c \<Longrightarrow> i < length cs \<Longrightarrow>
    edited v x (ChoiceGraph cs es st en f d) (ChoiceGraph (cs[i := c]) es st en f d')"

lemma edited_sym: "edited v x root w \<Longrightarrow> edited x v w root"
proof (induction rule: edited.induct)
  case (under_order cs i c es f cl d d')
  from edited.under_order [of x v "cs[i := c]" i "cs ! i" es f cl d' d] under_order show ?case by simp
next
  case (under_choice cs i c es st en f d d')
  from edited.under_choice [of x v "cs[i := c]" i "cs ! i" es st en f d' d] under_choice show ?case by simp
qed (rule edited.here)

lemma edited_choices: "edited v x root w \<Longrightarrow> choices_ok root \<Longrightarrow> choices_ok x \<Longrightarrow> choices_ok w"
  by (induction rule: edited.induct) (auto dest!: set_update_subset_insert [THEN subsetD])

lemma list_all2_update: "i < length xs \<Longrightarrow> P (xs ! i) y \<Longrightarrow> (\<And>x. P x x) \<Longrightarrow> list_all2 P xs (xs[i := y])"
  by (auto simp: list_all2_conv_all_nth nth_list_update)

lemma edited_den: "edited v x root w \<Longrightarrow> wf_node root \<Longrightarrow> den cap v \<subseteq> den cap x \<Longrightarrow> den cap root \<subseteq> den cap w"
proof (induction rule: edited.induct)
  case (under_order cs i c es f cl d d')
  then have "den cap (cs ! i) \<subseteq> den cap c" using wf_partial_orderD(8) by simp
  then have "list_all2 (\<subseteq>) (map (den cap) cs) (map (den cap) (cs[i := c]))"
    using under_order(2) by (simp add: map_update list_all2_update)
  then show ?case unfolding den.simps by (intro bounded_powers_subset merge_lang_subset)
next
  case (under_choice cs i c es st en f d d')
  then have "den cap (cs ! i) \<subseteq> den cap c" using wf_choice_graphD(7) by simp
  then have all: "list_all2 (\<subseteq>) (map (den cap) cs) (map (den cap) (cs[i := c]))"
    using under_choice(2) by (simp add: map_update list_all2_update)
  note D = wf_choice_graphD [OF under_choice.prems(1)]
  have "in_range u (length (map (den cap) cs))" if "(st, u) \<in> (erel es)\<^sup>*" for u
    using graph_reachable_range [OF D(2,3) that] by simp
  with all show ?case unfolding den.simps by (intro bounded_powers_subset graph_lang_mono)
qed

lemma composite_depth_le:
  assumes "composite_depth cs = Inr d" "\<And>c. c \<in> set cs' \<Longrightarrow> node_depth c + 1 \<le> d" "1 \<le> d"
  obtains d' where "composite_depth cs' = Inr d'" "d' \<le> d"
proof -
  have "d \<le> MAX_POWL_DEPTH" using composite_depth_InrD [OF assms(1)] by simp
  moreover have "fold max (map node_depth cs') 0 \<le> d - 1" using assms(2) by (fastforce simp: fold_max_le_iff)
  ultimately have "composite_depth cs' = Inr (1 + fold max (map node_depth cs') 0)" "1 + fold max (map node_depth cs') 0 \<le> d"
    using assms(3) by (simp_all add: composite_depth_def Let_def)
  then show ?thesis by (rule that)
qed

lemma child_depth: "composite_depth cs = Inr d \<Longrightarrow> c \<in> set cs \<Longrightarrow> node_depth c + 1 \<le> d"
  using composite_depth_InrD [of cs d] fold_max_le_iff [of "map node_depth cs" 0 "d - 1"] by auto

lemma composite_depth_pos: "composite_depth cs = Inr d \<Longrightarrow> 1 \<le> d"
  using composite_depth_InrD by fastforce

lemma replaced:
  "wf_node root \<Longrightarrow> node_at root p = Inr v \<Longrightarrow> wf_node x \<Longrightarrow> node_depth x \<le> node_depth v \<Longrightarrow>
    \<exists>w. replace_at_path root p x = Inr w \<and> wf_node w \<and> node_depth w \<le> node_depth root \<and> edited v x root w"
proof (induction root p x rule: replace_at_path.induct)
  case (1 root r)
  then show ?case by (auto intro: edited.here)
next
  case (2 cs es f cl d i p r)
  note D = wf_partial_orderD [OF 2(2)]
  from 2(3) have i: "in_range i (length cs)" and at: "node_at (cs ! nat i) p = Inr v" by (auto split: if_splits)
  then have m: "cs ! nat i \<in> set cs" by (auto simp: in_range_def intro: nth_mem)
  from 2(1) [OF _ D(8) [OF m] at 2(4,5)] i obtain c where c: "replace_at_path (cs ! nat i) p r = Inr c" "wf_node c"
    "node_depth c \<le> node_depth (cs ! nat i)" "edited v r (cs ! nat i) c" by auto
  let ?cs = "cs[nat i := c]"
  have "node_depth b + 1 \<le> d" if "b \<in> set ?cs" for b
    using that child_depth [OF D(9)] c(3) m set_update_subset_insert [of cs "nat i" c] by fastforce
  then obtain d' where d': "composite_depth ?cs = Inr d'" "d' \<le> d"
    using composite_depth_le [OF D(9) _ composite_depth_pos [OF D(9)]] by blast
  have mk: "mk_partial_order ?cs es f = Inr (PartialOrder ?cs es f cl d')"
    by (rule mk_partial_order_total) (use D d' in simp_all)
  moreover have "wf_node (PartialOrder ?cs es f cl d')"
    by (rule mk_partial_order_wf [OF mk D(7)]) (use D(8) c(2) set_update_subset_insert [of cs "nat i" c] in blast)
  moreover have "edited v r (PartialOrder cs es f cl d) (PartialOrder ?cs es f cl d')"
    using c(4) i by (intro edited.under_order) (auto simp: in_range_def)
  ultimately show ?case using i c(1) d'(2) by (simp add: node_depth_def)
next
  case (3 cs es st en f d i p r)
  note D = wf_choice_graphD [OF 3(2)]
  from 3(3) have i: "in_range i (length cs)" and at: "node_at (cs ! nat i) p = Inr v" by (auto split: if_splits)
  then have m: "cs ! nat i \<in> set cs" by (auto simp: in_range_def intro: nth_mem)
  from 3(1) [OF _ D(7) [OF m] at 3(4,5)] i obtain c where c: "replace_at_path (cs ! nat i) p r = Inr c" "wf_node c"
    "node_depth c \<le> node_depth (cs ! nat i)" "edited v r (cs ! nat i) c" by auto
  let ?cs = "cs[nat i := c]"
  have "node_depth b + 1 \<le> d" if "b \<in> set ?cs" for b
    using that child_depth [OF D(8)] c(3) m set_update_subset_insert [of cs "nat i" c] by fastforce
  then obtain d' where d': "composite_depth ?cs = Inr d'" "d' \<le> d"
    using composite_depth_le [OF D(8) _ composite_depth_pos [OF D(8)]] by blast
  have mk: "mk_choice_graph ?cs es st en f = Inr (ChoiceGraph ?cs es st en f d')"
    using D d'(1) by (simp add: mk_choice_graph_Inr_iff distinct_remdups_id)
  moreover have "wf_node (ChoiceGraph ?cs es st en f d')"
    by (rule mk_choice_graph_wf [OF mk D(6)]) (use D(7) c(2) set_update_subset_insert [of cs "nat i" c] in blast)
  moreover have "edited v r (ChoiceGraph cs es st en f d) (ChoiceGraph ?cs es st en f d')"
    using c(4) i by (intro edited.under_choice) (auto simp: in_range_def)
  ultimately show ?case using i c(1) d'(2) by (simp add: node_depth_def)
qed auto

lemma replaced_back:
  "wf_node root \<Longrightarrow> node_at root p = Inr v \<Longrightarrow> replace_at_path root p v = Inr root"
proof (induction p arbitrary: root)
  case (Cons i p)
  then show ?case
  proof (cases root)
    case (PartialOrder cs es f cl d)
    note D = wf_partial_orderD [OF Cons.prems(1) [unfolded PartialOrder]]
    from Cons.prems(2) PartialOrder have i: "in_range i (length cs)" "node_at (cs ! nat i) p = Inr v" by (auto split: if_splits)
    then have "cs ! nat i \<in> set cs" by (auto simp: in_range_def intro: nth_mem)
    with Cons.IH [OF D(8) i(2)] Cons.prems(1) i(1) show ?thesis by (simp add: PartialOrder)
  next
    case (ChoiceGraph cs es st en f d)
    note D = wf_choice_graphD [OF Cons.prems(1) [unfolded ChoiceGraph]]
    from Cons.prems(2) ChoiceGraph have i: "in_range i (length cs)" "node_at (cs ! nat i) p = Inr v" by (auto split: if_splits)
    then have "cs ! nat i \<in> set cs" by (auto simp: in_range_def intro: nth_mem)
    with Cons.IH [OF D(7) i(2)] Cons.prems(1) i(1) show ?thesis by (simp add: ChoiceGraph)
  qed simp_all
qed simp

lemma replaced_twice:
  "wf_node root \<Longrightarrow> replace_at_path root p x = Inr w \<Longrightarrow> node_at w p = Inr x \<and> replace_at_path w p y = replace_at_path root p y"
proof (induction root p x arbitrary: w rule: replace_at_path.induct)
  case (2 cs es f cl d i p r)
  note D = wf_partial_orderD [OF 2(2)]
  from 2(3) obtain c where i: "in_range i (length cs)" and c: "replace_at_path (cs ! nat i) p r = Inr c"
    and mk: "mk_partial_order (cs[nat i := c]) es f = Inr w" by (auto simp: bindE_Inr_iff split: if_splits)
  then have m: "cs ! nat i \<in> set cs" and k: "nat i < length cs" by (auto simp: in_range_def intro: nth_mem)
  from mk obtain red cl' d' where w: "w = PartialOrder (cs[nat i := c]) red f cl' d'"
    "transitive_reduction es (length (cs[nat i := c])) = Inr red" by (rule mk_partial_order_InrD)
  then have "red = es" using D(11) by simp
  with w 2(1) [OF _ D(8) [OF m] c] i k show ?case by simp
next
  case (3 cs es st en f d i p r)
  note D = wf_choice_graphD [OF 3(2)]
  from 3(3) obtain c where i: "in_range i (length cs)" and c: "replace_at_path (cs ! nat i) p r = Inr c"
    and mk: "mk_choice_graph (cs[nat i := c]) es st en f = Inr w" by (auto simp: bindE_Inr_iff split: if_splits)
  then have m: "cs ! nat i \<in> set cs" and k: "nat i < length cs" by (auto simp: in_range_def intro: nth_mem)
  from mk D(9) obtain d' where "w = ChoiceGraph (cs[nat i := c]) es st en f d'"
    by (auto simp: mk_choice_graph_Inr_iff distinct_remdups_id)
  with 3(1) [OF _ D(7) [OF m] c] i k show ?case by simp
qed auto

section \<open>Admitted models\<close>

definition admitted :: "pnode \<Rightarrow> bool" where
  "admitted v \<longleftrightarrow> wf_node v \<and> validate_model v = Inr ()"

lemma admitted_iff: "admitted v \<longleftrightarrow> wf_node v \<and> choices_ok v"
  using validate_iff_choices by (auto simp: admitted_def)

lemma node_at_admitted: "admitted root \<Longrightarrow> node_at root p = Inr v \<Longrightarrow> admitted v"
proof (induction p arbitrary: root)
  case (Cons i p)
  have m: "in_range i (length cs) \<Longrightarrow> cs ! nat i \<in> set cs" for cs :: "pnode list" by (auto simp: in_range_def intro: nth_mem)
  from Cons show ?case by (cases root) (auto simp: admitted_iff dest: m split: if_splits)
qed simp

lemma validated_model_Inr: "validated_model r = Inr w \<longleftrightarrow> r = Inr w \<and> validate_model w = Inr ()"
  by (auto simp: validated_model_def bindE_Inr_iff)

text \<open>An edit of a partial order: new children of legal depth under an acyclic relation always pass.\<close>

lemma order_edit:
  assumes "admitted root" "node_at root p = Inr (PartialOrder cs es f cl d)"
    and "order_edges_ok es' (length cs')" "acyclic (erel es')" "2 \<le> length cs'"
    and "\<And>c. c \<in> set cs' \<Longrightarrow> admitted c \<and> node_depth c + 1 \<le> d"
  obtains red cl' d' w where "mk_partial_order cs' es' f = Inr (PartialOrder cs' red f cl' d')"
    "transitive_reduction es' (length cs') = Inr red" "erel cl' = (erel es')\<^sup>+" "wf_node (PartialOrder cs' red f cl' d')"
    "validated_model (rebuild root p cs' es' None) = Inr w" "replace_at_path root p (PartialOrder cs' red f cl' d') = Inr w"
    "admitted w" "edited (PartialOrder cs es f cl d) (PartialOrder cs' red f cl' d') root w"
proof -
  have D: "wf_node (PartialOrder cs es f cl d)" "choices_ok (PartialOrder cs es f cl d)" "wf_node root" "choices_ok root"
    using node_at_admitted [OF assms(1,2)] assms(1) by (simp_all add: admitted_iff)
  note W = wf_partial_orderD [OF D(1)]
  obtain cl' where cl': "transitive_closure es' (length cs') = Inr cl'" using transitive_closure_ok [OF assms(3)] assms(4) by simp
  obtain red where red: "transitive_reduction es' (length cs') = Inr red" using transitive_reduction_total [OF cl'] by blast
  obtain d' where d': "composite_depth cs' = Inr d'" "d' \<le> d"
    using composite_depth_le [OF W(9) _ composite_depth_pos [OF W(9)]] assms(6) by blast
  let ?x = "PartialOrder cs' red f cl' d'"
  have mk: "mk_partial_order cs' es' f = Inr ?x" by (rule mk_partial_order_total [OF cl' red d'(1) assms(5)])
  have wf: "wf_node ?x" by (rule mk_partial_order_wf [OF mk W(7)]) (use assms(6) in \<open>simp add: admitted_iff\<close>)
  obtain w where w: "replace_at_path root p ?x = Inr w" "wf_node w" "edited (PartialOrder cs es f cl d) ?x root w"
    using replaced [OF D(3) assms(2) wf] d'(2) by (auto simp: node_depth_def)
  have "choices_ok ?x" using assms(6) by (simp add: admitted_iff)
  then have ad: "admitted w" using edited_choices [OF w(3) D(4)] w(2) by (simp add: admitted_iff)
  moreover have "rebuild root p cs' es' None = Inr w" by (simp add: rebuild_def assms(2) mk w(1))
  ultimately have "validated_model (rebuild root p cs' es' None) = Inr w" by (simp add: validated_model_Inr admitted_def)
  from that [OF mk red transitive_closure_InrD(3) [OF cl'] wf this w(1) ad w(3)] show ?thesis .
qed

text \<open>The remaps of the edits are renamings of the relation.\<close>

lemma remap_order_rel:
  assumes "\<And>e. e \<in> set es \<Longrightarrow> remap_ends remap e = Some (h (src e), h (dst e))"
  shows "erel (remap_order_edges es remap) = map_prod h h ` erel es"
    and "(\<And>e. e \<in> set es \<Longrightarrow> in_range (h (src e)) n \<and> in_range (h (dst e)) n) \<Longrightarrow> order_edges_ok (remap_order_edges es remap) n"
proof -
  have "set (List.map_filter (\<lambda>e. map_option (\<lambda>(a, b). OrderEdge a b) (remap_ends remap e)) es)
      = (\<lambda>e. OrderEdge (h (src e)) (h (dst e))) ` set es"
    using assms by (force simp: map_filter_def)
  then have S: "set (remap_order_edges es remap) = (\<lambda>e. OrderEdge (h (src e)) (h (dst e))) ` set es"
    by (simp add: remap_order_edges_def)
  show "erel (remap_order_edges es remap) = map_prod h h ` erel es"
    unfolding erel_def S by (simp add: image_image)
  show "order_edges_ok (remap_order_edges es remap) n"
    if "\<And>e. e \<in> set es \<Longrightarrow> in_range (h (src e)) n \<and> in_range (h (dst e)) n"
    using that by (auto simp: order_edges_ok_def S)
qed

lemma map_of_range: "in_range x n \<Longrightarrow> map_of (map (\<lambda>k. (int k, g (int k))) [0..<n]) x = Some (g x)"
proof -
  assume "in_range x n"
  then obtain k where "x = int k" "k < n" by (rule in_rangeE)
  moreover have "distinct (map fst (map (\<lambda>k. (int k, g (int k))) [0..<n]))"
    by (simp add: comp_def distinct_map inj_on_def)
  ultimately show ?thesis by (intro map_of_is_SomeI) auto
qed

lemma remap_total:
  "order_edges_ok es n \<Longrightarrow> e \<in> set es \<Longrightarrow>
    remap_ends (map (\<lambda>k. (int k, g (int k))) [0..<n]) e = Some (g (src e), g (dst e))"
  by (simp add: remap_ends_def order_edges_ok_def map_of_range)

lemma order_children:
  assumes "admitted (PartialOrder cs es f cl d)" "c \<in> set cs"
  shows "admitted c \<and> node_depth c + 1 \<le> d"
proof -
  have wf: "wf_node (PartialOrder cs es f cl d)" using assms(1) by (simp add: admitted_iff)
  with assms child_depth [OF wf_partial_orderD(9) [OF wf]] show ?thesis by (auto simp: admitted_iff)
qed

lemma order_acyclic: "wf_node (PartialOrder cs es f cl d) \<Longrightarrow> acyclic (erel es)"
  using transitive_closure_InrD(2) wf_partial_orderD(10) by blast

section \<open>The edits of partial orders succeed\<close>

definition shift :: "int \<Rightarrow> int \<Rightarrow> int" where
  "shift i x = (if x < i then x else x + 1)"

lemma shift_inj: "inj (shift i)"
  by (auto simp: inj_def shift_def split: if_splits)

lemma swap_inj: "inj (swap a b)"
  by (auto simp: inj_def swap_def split: if_splits)

lemma swap_swap [simp]: "swap a b (swap a b x) = x"
  by (simp add: swap_def)

lemma inserted:
  assumes "admitted root" "node_at root p = Inr (PartialOrder cs es f cl d)" "0 \<le> i" "i \<le> int (length cs)" "at = Atom l a b k"
  obtains red cl' d' w where "transitive_reduction (remap_order_edges es (map (\<lambda>k. (int k, shift i (int k))) [0..<length cs])) (Suc (length cs)) = Inr red"
    "erel (remap_order_edges es (map (\<lambda>k. (int k, shift i (int k))) [0..<length cs])) = map_prod (shift i) (shift i) ` erel es"
    "insert_atom root p i at = Inr w" "replace_at_path root p (PartialOrder (take (nat i) cs @ [at] @ drop (nat i) cs) red f cl' d') = Inr w"
    "admitted w" "wf_node (PartialOrder (take (nat i) cs @ [at] @ drop (nat i) cs) red f cl' d')"
    "edited (PartialOrder cs es f cl d) (PartialOrder (take (nat i) cs @ [at] @ drop (nat i) cs) red f cl' d') root w"
proof -
  let ?cs = "take (nat i) cs @ [at] @ drop (nat i) cs"
  let ?remap = "map (\<lambda>k. (int k, shift i (int k))) [0..<length cs]"
  let ?es = "remap_order_edges es ?remap"
  have v: "admitted (PartialOrder cs es f cl d)" by (rule node_at_admitted [OF assms(1,2)])
  then have wf: "wf_node (PartialOrder cs es f cl d)" by (simp add: admitted_iff)
  note W = wf_partial_orderD [OF wf]
  have len: "length ?cs = Suc (length cs)" by simp
  have tot: "remap_ends ?remap e = Some (shift i (src e), shift i (dst e))" if "e \<in> set es" for e
    by (rule remap_total [OF W(2) that])
  have rel: "erel ?es = map_prod (shift i) (shift i) ` erel es" by (rule remap_order_rel(1)) (rule tot)
  have "in_range (shift i x) (Suc (length cs))" if "in_range x (length cs)" for x
    using that by (auto simp: in_range_def shift_def)
  then have ok: "order_edges_ok ?es (length ?cs)" unfolding len
    by (intro remap_order_rel(2) [where h = "shift i"] tot) (use W(2) in \<open>auto simp: order_edges_ok_def\<close>)
  have ac: "acyclic (erel ?es)" unfolding rel by (rule acyclic_map_prod [OF shift_inj order_acyclic [OF wf]])
  have kids: "admitted c \<and> node_depth c + 1 \<le> d" if "c \<in> set ?cs" for c
  proof -
    have "c = at \<or> c \<in> set cs" using that by (auto dest: in_set_takeD in_set_dropD)
    moreover obtain c0 where "c0 \<in> set cs" using W(1) by (cases cs) auto
    then have "1 \<le> node_depth c0 \<and> node_depth c0 + 1 \<le> d"
      using order_children [OF v] node_depth_height height_pos W(8) by metis
    then have "admitted at \<and> node_depth at + 1 \<le> d" by (simp add: assms(5) admitted_iff node_depth_def)
    ultimately show ?thesis using order_children [OF v] by blast
  qed
  have n: "2 \<le> length ?cs" using W(1) by simp
  obtain red cl' d' w where R: "mk_partial_order ?cs ?es f = Inr (PartialOrder ?cs red f cl' d')"
    "transitive_reduction ?es (length ?cs) = Inr red" "wf_node (PartialOrder ?cs red f cl' d')"
    "validated_model (rebuild root p ?cs ?es None) = Inr w" "replace_at_path root p (PartialOrder ?cs red f cl' d') = Inr w"
    "admitted w" "edited (PartialOrder cs es f cl d) (PartialOrder ?cs red f cl' d') root w"
    by (rule order_edit [OF assms(1,2) ok ac n kids])
  have "insert_atom root p i at = Inr w"
    using assms(2-4) R(4) by (simp add: insert_atom_def require_partial_order_def shift_def [abs_def])
  from that [OF R(2) [unfolded len] rel this R(5,6,3,7)] show ?thesis .
qed

lemma reordered:
  assumes "admitted root" "node_at root p = Inr (PartialOrder cs es f cl d)" "in_range a (length cs)" "in_range b (length cs)" "a \<noteq> b"
    and "(a, b) \<notin> erel es" "(b, a) \<notin> erel es"
  obtains red cl' d' w where "erel red = map_prod (swap a b) (swap a b) ` erel es" "erel cl' = map_prod (swap a b) (swap a b) ` erel cl"
    "reorder root p a b = Inr w" "replace_at_path root p (PartialOrder (cs[nat a := cs ! nat b, nat b := cs ! nat a]) red f cl' d') = Inr w"
    "admitted w" "wf_node (PartialOrder (cs[nat a := cs ! nat b, nat b := cs ! nat a]) red f cl' d')"
    "edited (PartialOrder cs es f cl d) (PartialOrder (cs[nat a := cs ! nat b, nat b := cs ! nat a]) red f cl' d') root w"
proof -
  let ?cs = "cs[nat a := cs ! nat b, nat b := cs ! nat a]"
  let ?remap = "map (\<lambda>k. (int k, swap a b (int k))) [0..<length cs]"
  let ?es = "remap_order_edges es ?remap"
  have v: "admitted (PartialOrder cs es f cl d)" by (rule node_at_admitted [OF assms(1,2)])
  then have wf: "wf_node (PartialOrder cs es f cl d)" by (simp add: admitted_iff)
  note W = wf_partial_orderD [OF wf]
  have tot: "remap_ends ?remap e = Some (swap a b (src e), swap a b (dst e))" if "e \<in> set es" for e
    by (rule remap_total [OF W(2) that])
  have rel: "erel ?es = map_prod (swap a b) (swap a b) ` erel es" by (rule remap_order_rel(1)) (rule tot)
  have "in_range (swap a b x) (length cs)" if "in_range x (length cs)" for x using that assms(3,4) by (simp add: swap_def)
  then have ok: "order_edges_ok ?es (length ?cs)"
    by (simp, intro remap_order_rel(2) [where h = "swap a b"] tot) (use W(2) in \<open>auto simp: order_edges_ok_def\<close>)
  have ac: "acyclic (erel ?es)" unfolding rel by (rule acyclic_map_prod [OF swap_inj order_acyclic [OF wf]])
  have "set ?cs = set cs" using assms(3,4) by (intro set_swap) (auto simp: in_range_def)
  then have kids: "admitted c \<and> node_depth c + 1 \<le> d" if "c \<in> set ?cs" for c
    using that order_children [OF v] by blast
  have n: "2 \<le> length ?cs" using W(1) by simp
  obtain red cl' d' w where R: "mk_partial_order ?cs ?es f = Inr (PartialOrder ?cs red f cl' d')"
    "transitive_reduction ?es (length ?cs) = Inr red" "erel cl' = (erel ?es)\<^sup>+" "wf_node (PartialOrder ?cs red f cl' d')"
    "validated_model (rebuild root p ?cs ?es None) = Inr w" "replace_at_path root p (PartialOrder ?cs red f cl' d') = Inr w"
    "admitted w" "edited (PartialOrder cs es f cl d) (PartialOrder ?cs red f cl' d') root w"
    by (rule order_edit [OF assms(1,2) ok ac n kids])
  have "reorder root p a b = Inr w"
    using assms(2-7) R(5) by (simp add: reorder_def require_partial_order_def erel_def)
  moreover have "erel red = map_prod (swap a b) (swap a b) ` erel es"
    by (rule reduction_renamed [OF swap_inj W(11) R(2) rel])
  moreover have "erel cl' = map_prod (swap a b) (swap a b) ` erel cl" by (simp add: R(3) rel trancl_map_prod [OF swap_inj] W(4))
  ultimately show ?thesis using that R(4,6-8) by blast
qed

lemma order_edge_mem: "order_edges_ok es n \<Longrightarrow> OrderEdge a b \<in> set es \<longleftrightarrow> (a, b) \<in> erel es"
  by (force simp: order_edges_ok_def erel_def is_OrderEdge_def)

lemma erel_remove: "order_edges_ok es n \<Longrightarrow> erel (filter (\<lambda>e. e \<noteq> OrderEdge a b) es) = erel es - {(a, b)}"
  by (fastforce simp: order_edges_ok_def erel_def is_OrderEdge_def)

lemma trancl_Un_trancl: "(R\<^sup>+ \<union> S)\<^sup>+ = (R \<union> S)\<^sup>+"
proof
  show "(R\<^sup>+ \<union> S)\<^sup>+ \<subseteq> (R \<union> S)\<^sup>+"
  proof -
    have "R\<^sup>+ \<subseteq> (R \<union> S)\<^sup>+" by (auto intro: trancl_mono)
    then have "R\<^sup>+ \<union> S \<subseteq> (R \<union> S)\<^sup>+" by auto
    from trancl_mono_subset [OF this] show ?thesis by simp
  qed
  show "(R \<union> S)\<^sup>+ \<subseteq> (R\<^sup>+ \<union> S)\<^sup>+" by (rule trancl_mono_subset) auto
qed
lemma trancl_insert_trancl: "x \<in> R\<^sup>+ \<Longrightarrow> (insert x R)\<^sup>+ = R\<^sup>+"
  using trancl_Un_trancl [of R "{x}"] by (simp add: insert_absorb)

text \<open>Without one of its edges a relation that is its own reduction still is.\<close>

lemma reduction_remove:
  assumes "transitive_reduction es n = Inr es" "transitive_reduction es' n = Inr red" "erel es' = erel es - {(a, b)}" "(a, b) \<in> erel es"
  shows "erel red = erel es - {(a, b)}" "(a, b) \<notin> (erel es')\<^sup>+"
proof -
  have gen: "erel es \<subseteq> S \<union> {(a, b)}" if "S\<^sup>+ = (erel es')\<^sup>+" for S
  proof (rule reduction_least [OF assms(1)])
    have "(S \<union> {(a, b)})\<^sup>+ = (erel es' \<union> {(a, b)})\<^sup>+"
    proof -
      have "(S \<union> {(a, b)})\<^sup>+ = (S\<^sup>+ \<union> {(a, b)})\<^sup>+" "(erel es' \<union> {(a, b)})\<^sup>+ = ((erel es')\<^sup>+ \<union> {(a, b)})\<^sup>+"
        by (simp_all only: trancl_Un_trancl)
      then show ?thesis by (simp add: that)
    qed
    then show "(S \<union> {(a, b)})\<^sup>+ = (erel es)\<^sup>+" using assms(3,4) by (simp add: insert_absorb Un_commute)
  qed
  have "erel red \<subseteq> erel es'" using reduction_least [OF assms(2)] by blast
  moreover have "erel es \<subseteq> erel red \<union> {(a, b)}" by (rule gen [OF reduction_generates [OF assms(2)]])
  ultimately show "erel red = erel es - {(a, b)}" using assms(3) by blast
  show "(a, b) \<notin> (erel es')\<^sup>+"
  proof
    assume "(a, b) \<in> (erel es')\<^sup>+"
    from trancl_insert_trancl [OF this] have "(erel es')\<^sup>+ = (erel es)\<^sup>+" using assms(3,4) by (simp add: insert_absorb)
    from reduction_least [OF assms(1) this] assms(3,4) show False by blast
  qed
qed

lemma related_edit:
  assumes "admitted root" "node_at root p = Inr (PartialOrder cs es f cl d)" "order_edges_ok es' (length cs)" "acyclic (erel es')"
  obtains red cl' d' w where "transitive_reduction es' (length cs) = Inr red" "erel cl' = (erel es')\<^sup>+"
    "wf_node (PartialOrder cs red f cl' d')" "mk_partial_order cs es' f = Inr (PartialOrder cs red f cl' d')"
    "validated_model (rebuild root p cs es' None) = Inr w" "replace_at_path root p (PartialOrder cs red f cl' d') = Inr w"
    "admitted w" "edited (PartialOrder cs es f cl d) (PartialOrder cs red f cl' d') root w"
proof -
  have v: "admitted (PartialOrder cs es f cl d)" by (rule node_at_admitted [OF assms(1,2)])
  then have "wf_node (PartialOrder cs es f cl d)" unfolding admitted_iff by blast
  from wf_partial_orderD(1) [OF this] have "2 \<le> length cs" .
  from order_edit [OF assms this order_children [OF v]] that show ?thesis by metis
qed

lemma parallelized:
  assumes "admitted root" "node_at root p = Inr (PartialOrder cs es f cl d)" "(a, b) \<in> erel es"
  obtains red cl' d' w where "erel red = erel es - {(a, b)}" "(a, b) \<notin> erel cl'" "erel cl' \<subseteq> erel cl"
    "wf_node (PartialOrder cs red f cl' d')"
    "parallelize root p a b = Inr w" "parallelize root p b a = Inr w" "replace_at_path root p (PartialOrder cs red f cl' d') = Inr w"
    "admitted w" "edited (PartialOrder cs es f cl d) (PartialOrder cs red f cl' d') root w"
proof -
  have wf: "wf_node (PartialOrder cs es f cl d)" using node_at_admitted [OF assms(1,2)] by (simp add: admitted_iff)
  note W = wf_partial_orderD [OF wf]
  let ?es = "filter (\<lambda>e. e \<noteq> OrderEdge a b) es"
  have ok: "order_edges_ok ?es (length cs)" using W(2) by (auto simp: order_edges_ok_def)
  have rel: "erel ?es = erel es - {(a, b)}" by (rule erel_remove [OF W(2)])
  have ac: "acyclic (erel ?es)" using order_acyclic [OF wf] unfolding rel by (rule acyclic_subset) blast
  obtain red cl' d' w where R: "transitive_reduction ?es (length cs) = Inr red" "erel cl' = (erel ?es)\<^sup>+"
    "wf_node (PartialOrder cs red f cl' d')" "validated_model (rebuild root p cs ?es None) = Inr w"
    "replace_at_path root p (PartialOrder cs red f cl' d') = Inr w"
    "admitted w" "edited (PartialOrder cs es f cl d) (PartialOrder cs red f cl' d') root w"
    using related_edit [OF assms(1,2) ok ac] by metis
  have range: "in_range a (length cs)" "in_range b (length cs)" using assms(3) erel_range [OF W(2)] by blast+
  have "(b, a) \<notin> erel es" using order_acyclic [OF wf] assms(3) by (meson acyclic_def r_into_trancl trancl.trancl_into_trancl)
  then have par: "parallelize root p a b = Inr w" "parallelize root p b a = Inr w"
    using R(4) range assms(2,3) order_edge_mem [OF W(2)] by (simp_all add: parallelize_def require_partial_order_def Let_def)
  have "erel cl' \<subseteq> erel cl" unfolding R(2) rel W(4) by (rule trancl_mono_subset) blast
  with that reduction_remove [OF W(11) R(1) rel assms(3)] R(2,3,5-7) par show ?thesis by metis
qed

lemma serialized:
  assumes "admitted root" "node_at root p = Inr (PartialOrder cs es f cl d)" "in_range a (length cs)" "in_range b (length cs)" "a \<noteq> b"
    and "(a, b) \<notin> erel cl" "(b, a) \<notin> erel cl"
  obtains red cl' d' w where "erel cl' = (insert (a, b) (erel es))\<^sup>+" "erel cl \<subseteq> erel cl'"
    "mk_partial_order cs (List.insert (OrderEdge a b) es) f = Inr (PartialOrder cs red f cl' d')"
    "wf_node (PartialOrder cs red f cl' d')" "serialize root p a b = Inr w"
    "replace_at_path root p (PartialOrder cs red f cl' d') = Inr w"
    "admitted w" "edited (PartialOrder cs es f cl d) (PartialOrder cs red f cl' d') root w"
proof -
  have wf: "wf_node (PartialOrder cs es f cl d)" using node_at_admitted [OF assms(1,2)] by (simp add: admitted_iff)
  note W = wf_partial_orderD [OF wf]
  let ?es = "List.insert (OrderEdge a b) es"
  have ok: "order_edges_ok ?es (length cs)" using W(2) assms(3,4) by (auto simp: order_edges_ok_def)
  have rel: "erel ?es = insert (a, b) (erel es)" by (simp add: erel_def)
  have "(b, a) \<notin> (erel es)\<^sup>*" using assms(5,7) W(4) by (auto simp: rtrancl_eq_or_trancl)
  then have ac: "acyclic (erel ?es)" using order_acyclic [OF wf] by (simp add: rel acyclic_insert)
  obtain red cl' d' w where R: "erel cl' = (erel ?es)\<^sup>+" "wf_node (PartialOrder cs red f cl' d')"
    "mk_partial_order cs ?es f = Inr (PartialOrder cs red f cl' d')" "validated_model (rebuild root p cs ?es None) = Inr w"
    "replace_at_path root p (PartialOrder cs red f cl' d') = Inr w"
    "admitted w" "edited (PartialOrder cs es f cl d) (PartialOrder cs red f cl' d') root w"
    using related_edit [OF assms(1,2) ok ac] by metis
  have "serialize root p a b = Inr w"
    using assms(2-7) R(4) by (simp add: serialize_def require_partial_order_def Let_def erel_def)
  moreover have "erel cl \<subseteq> erel cl'" unfolding R(1) rel W(4) by (rule trancl_mono_subset) blast
  ultimately show ?thesis using that R(1) [unfolded rel] R(2,3,5-7) by metis
qed

section \<open>What the edits do to the language\<close>

lemma parallel_den:
  assumes "erel cl' \<subseteq> erel cl"
  shows "den cap (PartialOrder cs es f cl d) \<subseteq> den cap (PartialOrder cs es' f cl' d')"
  unfolding den.simps
  by (intro bounded_powers_subset merge_lang_subset) (use assms in \<open>auto simp: before_def list_all2_conv_all_nth\<close>)

lemma swapped_den:
  assumes "erel cl' = map_prod (swap a b) (swap a b) ` erel cl" "in_range a (length cs)" "in_range b (length cs)"
  shows "den cap (PartialOrder (cs[nat a := cs ! nat b, nat b := cs ! nat a]) es' f cl' d') = den cap (PartialOrder cs es f cl d)"
proof -
  define \<sigma> where "\<sigma> i = nat (swap a b (int i))" for i
  have ab: "a = int (nat a)" "b = int (nat b)" "nat a < length cs" "nat b < length cs"
    using assms(2,3) by (auto simp: in_range_def)
  have "0 \<le> a" "0 \<le> b" using assms(2,3) by (auto simp: in_range_def)
  then have \<sigma>: "swap a b (int i) = int (\<sigma> i)" for i by (simp add: \<sigma>_def swap_def)
  have invol: "\<sigma> (\<sigma> i) = i" for i
  proof -
    have "int (\<sigma> (\<sigma> i)) = swap a b (swap a b (int i))" by (simp only: \<sigma>)
    then show ?thesis unfolding swap_swap by simp
  qed
  let ?cs = "cs[nat a := cs ! nat b, nat b := cs ! nat a]"
  have place: "\<sigma> i = (if i = nat a then nat b else if i = nat b then nat a else i)" for i
    using ab(1,2) by (auto simp: \<sigma>_def swap_def)
  have "merge_lang (before cl) (map (den cap) cs) = merge_lang (before cl') (map (den cap) ?cs)"
  proof (rule merge_lang_permuted [where \<sigma> = \<sigma>])
    fix i assume "i < length (map (den cap) cs)"
    then show "\<sigma> i < length (map (den cap) cs) \<and> map (den cap) ?cs ! \<sigma> i = map (den cap) cs ! i"
      using ab(3,4) by (auto simp: place nth_list_update)
  next
    show "inj_on \<sigma> {..<length (map (den cap) cs)}" using invol by (metis inj_on_inverseI)
  next
    fix i j
    show "before cl' (\<sigma> i) (\<sigma> j) = before cl i j"
      by (rule before_renamed [OF swap_inj assms(1), of "Suc (max i j)"]) (auto simp: \<sigma>)
  qed simp
  then show ?thesis by simp
qed

end
