(* ===== verification/Powl_Mutation_Laws.thy ===== *)
theory Powl_Mutation_Laws
  imports Powl_Mutation_Facts Powl_Executor_Facts Powl_Emission
begin

text \<open>
  The properties of mutations: sequences of them stay within admitted models, their effect on
  the language, round trips, and what deletion loses.
\<close>

section \<open>Only refusals\<close>

text \<open>A computation that raises nothing but a \<^verbatim>\<open>PowlError\<close>.\<close>

definition refusing :: "'a res \<Rightarrow> bool" where
  "refusing r \<longleftrightarrow> (\<forall>x. r = Inl x \<longrightarrow> (\<exists>q. x = PowlError q))"

named_theorems refusing_intros

lemma refusing_base [refusing_intros]: "refusing (Inr v)" "refusing (refuse q)"
  by (simp_all add: refusing_def)

lemma refusing_bind [refusing_intros]: "refusing r \<Longrightarrow> (\<And>v. r = Inr v \<Longrightarrow> refusing (f v)) \<Longrightarrow> refusing (bindE r f)"
  by (cases r) (auto simp: refusing_def)

lemma refusing_iter [refusing_intros]: "(\<And>x. x \<in> set xs \<Longrightarrow> refusing (f x)) \<Longrightarrow> refusing (iterE f xs)"
  by (induction xs) (auto intro!: refusing_intros)

lemma refusing_if [refusing_intros]: "(b \<Longrightarrow> refusing r) \<Longrightarrow> (\<not> b \<Longrightarrow> refusing s) \<Longrightarrow> refusing (if b then r else s)"
  by simp

lemma refusing_require [refusing_intros]: "refusing (requireE b (PowlError q))"
  by (simp add: requireE_def refusing_def)

lemma refusing_pair [refusing_intros]: "(\<And>a b. x = (a, b) \<Longrightarrow> refusing (f a b)) \<Longrightarrow> refusing (case x of (a, b) \<Rightarrow> f a b)"
  by (cases x) simp

lemma refusing_order [refusing_intros]: "refusing (check_edges es n)" "refusing (transitive_closure es n)" "refusing (transitive_reduction es n)"
  unfolding transitive_reduction_def transitive_closure_def check_edges_def check_edge_def Let_def
  by (intro refusing_intros)+

lemma refusing_depth [refusing_intros]: "refusing (composite_depth cs)"
  unfolding composite_depth_def Let_def by (intro refusing_intros)

lemma refusing_constructors [refusing_intros]: "refusing (mk_partial_order cs es f)" "refusing (mk_choice_graph cs es st en f)"
  unfolding mk_partial_order_def mk_choice_graph_def Let_def check_choice_edge_def check_boundary_def
  by (intro refusing_intros)+

lemma refusing_guards [refusing_intros]: "refusing (guard_keys seen es)"
  by (induction seen es rule: guard_keys.induct) (auto split: option.split intro!: refusing_intros)

lemma refusing_frequency [refusing_intros]: "refusing (validate_frequency f)"
  unfolding validate_frequency_def by (auto split: option.split intro!: refusing_intros)

lemma refusing_validators [refusing_intros]: "refusing (validate_partial_order v)" "refusing (validate_choice_graph v)"
  unfolding validate_partial_order_def validate_choice_graph_def validate_closure_def check_endpoints_def check_boundary_def
    validate_guard_exclusivity_def guard_exclusivity_at_def Let_def
  by (intro refusing_intros)+

lemma refusing_validate: "refusing (validate v depth)"
  by (induction v depth rule: validate.induct) (auto intro!: refusing_intros)

lemma refusing_validated [refusing_intros]: "refusing r \<Longrightarrow> refusing (validated_model r)"
  unfolding validated_model_def validate_model_def by (intro refusing_intros refusing_validate)

lemma refusing_node_at [refusing_intros]: "refusing (node_at v p)"
  by (induction v p rule: node_at.induct) (auto intro!: refusing_intros)

lemma refusing_replace [refusing_intros]: "refusing (replace_at_path root p r)"
  by (induction root p r rule: replace_at_path.induct) (auto intro!: refusing_intros)

lemma refusing_rebuild [refusing_intros]: "refusing (rebuild root p cs es bounds)"
  unfolding rebuild_def by (auto split: pnode.split option.split intro!: refusing_intros)

lemma refusing_requirements [refusing_intros]: "refusing (require_partial_order root p)" "refusing (require_choice_graph root p)"
  unfolding require_partial_order_def require_choice_graph_def by (auto split: pnode.split intro!: refusing_intros)

section \<open>Sequences of mutations\<close>

datatype mutation = InsertAtom path int string action json consequence | DeleteNode path | Reorder path int int
  | Parallelize path int int | Serialize path int int | AddGuard path int int guard | RelaxGuard path int int

definition mutate :: "pnode \<Rightarrow> mutation \<Rightarrow> pnode res" where
  "mutate root m = (case m of
       InsertAtom p i l a b c \<Rightarrow> insert_atom root p i (Atom l a b c)
     | DeleteNode p \<Rightarrow> delete_node root p
     | Reorder p a b \<Rightarrow> reorder root p a b
     | Parallelize p a b \<Rightarrow> parallelize root p a b
     | Serialize p a b \<Rightarrow> serialize root p a b
     | AddGuard p s t g \<Rightarrow> add_guard root p s t g
     | RelaxGuard p s t \<Rightarrow> relax_guard root p s t)"

lemma survivor: "in_range x n \<Longrightarrow> x \<noteq> i \<Longrightarrow> \<exists>y. map_of (survivors n i) x = Some y"
proof -
  assume *: "in_range x n" "x \<noteq> i"
  have len: "length (map int (filter (\<lambda>k. int k \<noteq> i) [0..<n])) = length (map int [0..<length (filter (\<lambda>k. int k \<noteq> i) [0..<n])])"
    by simp
  from * obtain k where "x = int k" "k < n" by (auto elim: in_rangeE)
  with *(2) have "x \<in> set (map int (filter (\<lambda>k. int k \<noteq> i) [0..<n]))" by auto
  then have "x \<in> dom (map_of (survivors n i))" unfolding survivors_def Let_def dom_map_of_zip [OF len] .
  then show ?thesis by blast
qed

lemma refusing_delete: "wf_node root \<Longrightarrow> refusing (delete_node root p)"
proof -
  assume wf: "wf_node root"
  have kept: "map_of (survivors (length cs) (last p)) st \<noteq> None \<and> map_of (survivors (length cs) (last p)) en \<noteq> None"
    if "node_at root (butlast p) = Inr (ChoiceGraph cs es st en f d)" "last p \<noteq> st" "last p \<noteq> en" for cs es st en f d
  proof -
    note D = wf_choice_graphD [OF node_at_wf [OF wf that(1)]]
    from that(2,3) survivor [OF D(3), of "last p"] survivor [OF D(4), of "last p"] show ?thesis by auto
  qed
  then show ?thesis unfolding delete_node_def Let_def resolve_node_at
    by (auto split: pnode.split option.split intro!: refusing_intros dest: kept)
qed

lemma mutate_refusing: "wf_node root \<Longrightarrow> refusing (mutate root m)"
  by (cases m; simp add: mutate_def refusing_delete)
    (unfold insert_atom_def reorder_def parallelize_def serialize_def add_guard_def relax_guard_def Let_def; intro refusing_intros)+

text \<open>What a rebuild returns is admitted, and so is what any mutation returns.\<close>

lemma replace_wf: "replace_at_path root p x = Inr w \<Longrightarrow> wf_node root \<Longrightarrow> wf_node x \<Longrightarrow> wf_node w"
proof (induction root p x arbitrary: w rule: replace_at_path.induct)
  case (2 cs es f cl d i p r)
  note D = wf_partial_orderD [OF 2(3)]
  from 2(2) obtain c where i: "in_range i (length cs)" and c: "replace_at_path (cs ! nat i) p r = Inr c"
    and mk: "mk_partial_order (cs[nat i := c]) es f = Inr w" by (auto simp: bindE_Inr_iff split: if_splits)
  then have "wf_node c" using 2(1) [OF _ c _ 2(4)] D(8) by (auto simp: in_range_def)
  then show ?case
    by (intro mk_partial_order_wf [OF mk D(7)]) (use D(8) set_update_subset_insert [of cs "nat i" c] in blast)
next
  case (3 cs es st en f d i p r)
  note D = wf_choice_graphD [OF 3(3)]
  from 3(2) obtain c where i: "in_range i (length cs)" and c: "replace_at_path (cs ! nat i) p r = Inr c"
    and mk: "mk_choice_graph (cs[nat i := c]) es st en f = Inr w" by (auto simp: bindE_Inr_iff split: if_splits)
  then have "wf_node c" using 3(1) [OF _ c _ 3(4)] D(7) by (auto simp: in_range_def)
  then show ?case
    by (intro mk_choice_graph_wf [OF mk D(6)]) (use D(7) set_update_subset_insert [of cs "nat i" c] in blast)
qed auto

lemma rebuild_admitted:
  assumes "validated_model (rebuild root p cs es bounds) = Inr w" "wf_node root" "\<And>c. c \<in> set cs \<Longrightarrow> wf_node c"
  shows "admitted w"
proof -
  from assms(1) have w: "rebuild root p cs es bounds = Inr w" "validate_model w = Inr ()" by (simp_all add: validated_model_Inr)
  from w(1) obtain v where v: "node_at root p = Inr v" by (auto simp: rebuild_def bindE_Inr_iff)
  note wf = node_at_wf [OF assms(2) v]
  have "wf_node w"
  proof (cases v)
    case (PartialOrder cs' es' f cl d)
    with w(1) v obtain x where "mk_partial_order cs es f = Inr x" "replace_at_path root p x = Inr w"
      by (auto simp: rebuild_def bindE_Inr_iff)
    with assms(2,3) wf_partial_orderD(7) [OF wf [unfolded PartialOrder]] show ?thesis by (meson mk_partial_order_wf replace_wf)
  next
    case (ChoiceGraph cs' es' st en f d)
    with w(1) v obtain x s e where "mk_choice_graph cs es s e f = Inr x" "replace_at_path root p x = Inr w"
      by (auto simp: rebuild_def bindE_Inr_iff split: option.splits)
    with assms(2,3) wf_choice_graphD(6) [OF wf [unfolded ChoiceGraph]] show ?thesis by (meson mk_choice_graph_wf replace_wf)
  qed (use w(1) v in \<open>auto simp: rebuild_def\<close>)
  with w(2) show ?thesis by (simp add: admitted_def)
qed

lemma require_order: "require_partial_order root p = Inr (cs, es, cl) \<Longrightarrow> \<exists>f d. node_at root p = Inr (PartialOrder cs es f cl d)"
  by (cases "node_at root p"; cases "projr (node_at root p)") (simp_all add: require_partial_order_def)

lemma require_choice: "require_choice_graph root p = Inr (cs, es, st, en) \<Longrightarrow> \<exists>f d. node_at root p = Inr (ChoiceGraph cs es st en f d)"
  by (cases "node_at root p"; cases "projr (node_at root p)") (simp_all add: require_choice_graph_def)

lemma require_orderD:
  assumes "require_partial_order root p = Inr (cs, es, cl)" "wf_node root" "c \<in> set cs"
  shows "wf_node c"
  using require_order [OF assms(1)] node_at_wf [OF assms(2)] wf_partial_orderD(8) assms(3) by blast

lemma require_choiceD:
  assumes "require_choice_graph root p = Inr (cs, es, st, en)" "wf_node root" "c \<in> set cs"
  shows "wf_node c"
  using require_choice [OF assms(1)] node_at_wf [OF assms(2)] wf_choice_graphD(7) assms(3) by blast

lemma survivors_set: "set (map (\<lambda>k. cs ! k) (filter (\<lambda>k. int k \<noteq> i) [0..<length cs])) \<subseteq> set cs"
  by auto

lemma delete_admitted:
  assumes "delete_node root p = Inr w" "wf_node root"
  shows "admitted w"
proof -
  from assms(1) obtain v where v: "node_at root (butlast p) = Inr v" by (auto simp: delete_node_def Let_def bindE_Inr_iff split: if_splits)
  note wf = node_at_wf [OF assms(2) v]
  show ?thesis
  proof (cases v)
    case (PartialOrder cs es f cl d)
    with assms(1) v obtain es' where
      r: "validated_model (rebuild root (butlast p) (map (\<lambda>k. cs ! k) (filter (\<lambda>k. int k \<noteq> last p) [0..<length cs])) es' None) = Inr w"
      by (simp add: delete_node_def Let_def split: if_splits)
    show ?thesis by (rule rebuild_admitted [OF r assms(2)])
      (use survivors_set [of cs "last p"] wf_partial_orderD(8) [OF wf [unfolded PartialOrder]] in blast)
  next
    case (ChoiceGraph cs es st en f d)
    with assms(1) v obtain es' b where
      r: "validated_model (rebuild root (butlast p) (map (\<lambda>k. cs ! k) (filter (\<lambda>k. int k \<noteq> last p) [0..<length cs])) es' b) = Inr w"
      by (simp add: delete_node_def Let_def split: if_splits option.splits)
    show ?thesis by (rule rebuild_admitted [OF r assms(2)])
      (use survivors_set [of cs "last p"] wf_choice_graphD(7) [OF wf [unfolded ChoiceGraph]] in blast)
  qed (use assms(1) v in \<open>simp_all add: delete_node_def Let_def split: if_splits\<close>)
qed

lemma mutate_admitted:
  assumes "mutate root m = Inr w" "wf_node root"
  shows "admitted w"
proof (cases m)
  case (InsertAtom p i l a b c)
  with assms(1) obtain cs es cl cs' es' where
    r: "require_partial_order root p = Inr (cs, es, cl)" "cs' = take (nat i) cs @ [Atom l a b c] @ drop (nat i) cs"
    and v: "validated_model (rebuild root p cs' es' None) = Inr w"
    by (auto simp: mutate_def insert_atom_def bindE_Inr_iff Let_def split: if_splits)
  have "wf_node x" if "x \<in> set cs'" for x
    using that require_orderD [OF r(1) assms(2)] unfolding r(2) by (auto dest: in_set_takeD in_set_dropD)
  then show ?thesis by (rule rebuild_admitted [OF v assms(2)])
next
  case (DeleteNode p)
  with assms delete_admitted show ?thesis by (simp add: mutate_def)
next
  case (Reorder p a b)
  with assms(1) obtain cs es cl cs' es' where
    r: "require_partial_order root p = Inr (cs, es, cl)" "cs' = cs[nat a := cs ! nat b, nat b := cs ! nat a]"
      "in_range a (length cs)" "in_range b (length cs)"
    and v: "validated_model (rebuild root p cs' es' None) = Inr w"
    by (auto simp: mutate_def reorder_def bindE_Inr_iff Let_def split: if_splits)
  have "set cs' = set cs" unfolding r(2) using r(3,4) by (intro set_swap) (auto simp: in_range_def)
  then show ?thesis using rebuild_admitted [OF v assms(2)] require_orderD [OF r(1) assms(2)] by blast
next
  case (Parallelize p a b)
  with assms(1) obtain cs es cl es' where r: "require_partial_order root p = Inr (cs, es, cl)"
    and v: "validated_model (rebuild root p cs es' None) = Inr w"
    by (auto simp: mutate_def parallelize_def bindE_Inr_iff Let_def split: if_splits)
  show ?thesis by (rule rebuild_admitted [OF v assms(2) require_orderD [OF r assms(2)]])
next
  case (Serialize p a b)
  with assms(1) obtain cs es cl es' where r: "require_partial_order root p = Inr (cs, es, cl)"
    and v: "validated_model (rebuild root p cs es' None) = Inr w"
    by (auto simp: mutate_def serialize_def bindE_Inr_iff Let_def split: if_splits)
  show ?thesis by (rule rebuild_admitted [OF v assms(2) require_orderD [OF r assms(2)]])
next
  case (AddGuard p a b g)
  with assms(1) obtain cs es st en es' where r: "require_choice_graph root p = Inr (cs, es, st, en)"
    and v: "validated_model (rebuild root p cs es' (Some (st, en))) = Inr w"
    by (auto simp: mutate_def add_guard_def bindE_Inr_iff Let_def split: if_splits)
  show ?thesis by (rule rebuild_admitted [OF v assms(2) require_choiceD [OF r assms(2)]])
next
  case (RelaxGuard p a b)
  with assms(1) obtain cs es st en es' where r: "require_choice_graph root p = Inr (cs, es, st, en)"
    and v: "validated_model (rebuild root p cs es' (Some (st, en))) = Inr w"
    by (auto simp: mutate_def relax_guard_def bindE_Inr_iff Let_def split: if_splits)
  show ?thesis by (rule rebuild_admitted [OF v assms(2) require_choiceD [OF r assms(2)]])
qed

text \<open>
  C9.  Mutations never leave the admitted models: any sequence of them, started on a model that
  the constructors and the validator admit, either returns such a model again or stops with a
  refusal of the package, never with another exception.
\<close>

theorem mutations_stay_admitted:
  assumes "wf_node v" "validate_model v = Inr ()"
  shows "case foldE mutate v ms of
      Inr w \<Rightarrow> wf_node w \<and> validate_model w = Inr ()
    | Inl x \<Rightarrow> (\<exists>q. x = PowlError q)"
  using assms
proof (induction ms arbitrary: v)
  case (Cons m ms)
  show ?case
  proof (cases "mutate v m")
    case (Inl x)
    with mutate_refusing [OF Cons.prems(1), of m] show ?thesis by (simp add: refusing_def)
  next
    case (Inr w)
    with mutate_admitted [OF Inr Cons.prems(1)] Cons.IH [of w] show ?thesis by (simp add: admitted_def)
  qed
qed simp

section \<open>The language\<close>

lemma guard_edit:
  assumes "admitted root" "require_choice_graph root p = Inr (cs, es, st, en)" "\<And>e. e \<in> set es' \<Longrightarrow> \<not> is_OrderEdge e"
    and "erel es' = erel es" "validated_model (rebuild root p cs es' (Some (st, en))) = Inr w"
  shows "den cap w = den cap root"
proof -
  from require_choice [OF assms(2)] obtain f d where at: "node_at root p = Inr (ChoiceGraph cs es st en f d)" by blast
  have wf: "wf_node root" using assms(1) by (simp add: admitted_iff)
  note wf' = node_at_wf [OF wf at]
  note D = wf_choice_graphD [OF wf']
  have ends: "\<exists>e' \<in> set es. ends e' = ends e" if "e \<in> set es'" for e
  proof -
    from that have "ends e \<in> erel es'" by (simp add: erel_def)
    then show ?thesis unfolding assms(4) by (auto simp: erel_def)
  qed
  have ok: "choice_edges_ok es' (length cs) st en"
    unfolding choice_edges_ok_def
  proof
    fix e assume e: "e \<in> set es'"
    with ends [OF e] assms(3) [OF e] D(2)
    show "\<not> is_OrderEdge e \<and> in_range (src e) (length cs) \<and> in_range (dst e) (length cs) \<and> dst e \<noteq> st \<and> src e \<noteq> en"
      by (auto simp: choice_edges_ok_def)
  qed
  let ?x = "ChoiceGraph cs (remdups es') st en f d"
  have mk: "mk_choice_graph cs es' st en f = Inr ?x" using D ok by (simp add: mk_choice_graph_Inr_iff)
  have x: "wf_node ?x" by (rule mk_choice_graph_wf [OF mk D(6)]) (use D(7) in blast)
  from replaced [OF wf at x] obtain w' where w': "replace_at_path root p ?x = Inr w'" "wf_node w'"
    "edited (ChoiceGraph cs es st en f d) ?x root w'" by (auto simp: node_depth_def)
  have "w' = w" using assms(5) w'(1) by (simp add: validated_model_Inr rebuild_def at mk)
  moreover have "den cap ?x = den cap (ChoiceGraph cs es st en f d)" by (simp add: assms(4))
  ultimately show ?thesis
    using edited_den [OF w'(3) wf, of cap] edited_den [OF edited_sym [OF w'(3)] w'(2), of cap] by simp
qed

lemma erel_replaced:
  assumes "\<And>e. e \<in> set gone \<Longrightarrow> ends e = (s, t)" "gone \<noteq> []" "set gone \<subseteq> set es" "ends e = (s, t)"
  shows "erel (add_edge (filter (\<lambda>e. e \<notin> set gone) es) e) = erel es"
proof -
  have st: "(s, t) \<in> erel es" using assms(1-3) by (cases gone) (force simp: erel_def)+
  have "erel es \<subseteq> insert (s, t) (erel (filter (\<lambda>e. e \<notin> set gone) es))"
    using assms(1) by (force simp: erel_def)
  moreover have "erel (filter (\<lambda>e. e \<notin> set gone) es) \<subseteq> erel es" by (auto simp: erel_def)
  moreover have "erel (add_edge es' e) = insert (s, t) (erel es')" for es'
  proof (cases "\<exists>e' \<in> set es'. same_edge e' e")
    case True
    then obtain e' where "e' \<in> set es'" "ends e' = (s, t)" using assms(4) by (auto simp: same_edge_def)
    then have "(s, t) \<in> erel es'" using imageI [of e' "set es'" ends] by (simp add: erel_def)
    with True show ?thesis by (simp add: add_edge_def insert_absorb)
  next
    case False
    with assms(4) show ?thesis by (simp add: add_edge_def erel_def)
  qed
  ultimately show ?thesis using st by auto
qed

lemma add_edge_set: "set (add_edge es e) \<subseteq> insert e (set es)"
  by (auto simp: add_edge_def)

lemma reorder_den:
  assumes "admitted root" "reorder root p a b = Inr w"
  shows "den cap w = den cap root"
proof -
  have wf: "wf_node root" using assms(1) by (simp add: admitted_iff)
  from assms(2) obtain cs es cl where r: "require_partial_order root p = Inr (cs, es, cl)"
    and c: "in_range a (length cs)" "in_range b (length cs)" "a \<noteq> b" "(a, b) \<notin> erel es" "(b, a) \<notin> erel es"
    by (auto simp: reorder_def bindE_Inr_iff Let_def erel_def split: if_splits)
  from require_order [OF r] obtain f d where at: "node_at root p = Inr (PartialOrder cs es f cl d)" by blast
  let ?cs = "cs[nat a := cs ! nat b, nat b := cs ! nat a]"
  from reordered [OF assms(1) at c] obtain red cl' d' where
    x: "erel cl' = map_prod (swap a b) (swap a b) ` erel cl" "admitted w"
      "edited (PartialOrder cs es f cl d) (PartialOrder ?cs red f cl' d') root w"
    using assms(2) by (metis sum.inject(2))
  have "den cap (PartialOrder ?cs red f cl' d') = den cap (PartialOrder cs es f cl d)"
    by (rule swapped_den [OF x(1) c(1,2)])
  then show ?thesis
    using edited_den [OF x(3) wf, of cap] edited_den [OF edited_sym [OF x(3)], of cap] x(2) by (simp add: admitted_iff)
qed

lemma mem_erel: "OrderEdge a b \<in> set es \<Longrightarrow> (a, b) \<in> erel es"
  using imageI [of "OrderEdge a b" "set es" ends] by (simp add: erel_def)

lemma parallelize_den:
  assumes "admitted root" "parallelize root p a b = Inr w"
  shows "den cap root \<subseteq> den cap w"
proof -
  have wf: "wf_node root" using assms(1) by (simp add: admitted_iff)
  from assms(2) obtain cs es cl where r: "require_partial_order root p = Inr (cs, es, cl)"
    and c: "(a, b) \<in> erel es \<or> (b, a) \<in> erel es"
    by (auto simp: parallelize_def bindE_Inr_iff Let_def split: if_splits dest: mem_erel)
  from require_order [OF r] obtain f d where at: "node_at root p = Inr (PartialOrder cs es f cl d)" by blast
  obtain red cl' d' where x: "erel cl' \<subseteq> erel cl" "edited (PartialOrder cs es f cl d) (PartialOrder cs red f cl' d') root w"
    using c assms(2) parallelized [OF assms(1) at, of a b] parallelized [OF assms(1) at, of b a] by (metis sum.inject(2))
  show ?thesis by (rule edited_den [OF x(2) wf parallel_den [OF x(1)]])
qed

lemma serialize_den:
  assumes "admitted root" "serialize root p a b = Inr w"
  shows "den cap w \<subseteq> den cap root"
proof -
  from assms(2) obtain cs es cl where r: "require_partial_order root p = Inr (cs, es, cl)"
    and c: "in_range a (length cs)" "in_range b (length cs)" "a \<noteq> b" "(a, b) \<notin> erel cl" "(b, a) \<notin> erel cl"
    by (auto simp: serialize_def bindE_Inr_iff Let_def erel_def split: if_splits)
  from require_order [OF r] obtain f d where at: "node_at root p = Inr (PartialOrder cs es f cl d)" by blast
  obtain red cl' d' where x: "erel cl \<subseteq> erel cl'" "edited (PartialOrder cs es f cl d) (PartialOrder cs red f cl' d') root w" "admitted w"
    using assms(2) serialized [OF assms(1) at c] by (metis sum.inject(2))
  then show ?thesis using edited_den [OF edited_sym [OF x(2)] _ parallel_den [OF x(1)]] by (simp add: admitted_iff)
qed

lemma guards_den:
  assumes "admitted root"
  shows "add_guard root p s t g = Inr w \<Longrightarrow> den cap w = den cap root" "relax_guard root p s t = Inr w \<Longrightarrow> den cap w = den cap root"
proof -
  have plain: "\<not> is_OrderEdge e" if "require_choice_graph root p = Inr (cs, es, st, en)" "e \<in> set es" for cs es st en e
  proof -
    from require_choice [OF that(1)] obtain f d where "node_at root p = Inr (ChoiceGraph cs es st en f d)" by blast
    from wf_choice_graphD(2) [OF node_at_wf [OF _ this]] assms that(2) show ?thesis
      by (auto simp: choice_edges_ok_def admitted_iff)
  qed
  show "den cap w = den cap root" if "add_guard root p s t g = Inr w"
  proof -
    let ?e = "ChoiceGraphEdge s t None" let ?g = "ChoiceGraphEdge s t (Some g)"
    from that obtain cs es st en where r: "require_choice_graph root p = Inr (cs, es, st, en)" "?e \<in> set es"
      "validated_model (rebuild root p cs (add_edge (filter (\<lambda>e. e \<noteq> ?e) es) ?g) (Some (st, en))) = Inr w"
      by (auto simp: add_guard_def bindE_Inr_iff Let_def split: if_splits)
    have "erel (add_edge (filter (\<lambda>e. e \<notin> set [?e]) es) ?g) = erel es" by (rule erel_replaced [of _ s t]) (use r(2) in auto)
    then have rel: "erel (add_edge (filter (\<lambda>e. e \<noteq> ?e) es) ?g) = erel es" by simp
    show ?thesis
      by (rule guard_edit [OF assms r(1) _ rel r(3)])
        (use plain [OF r(1)] add_edge_set [of "filter (\<lambda>e. e \<noteq> ?e) es" ?g] in auto)
  qed
  show "den cap w = den cap root" if "relax_guard root p s t = Inr w"
  proof -
    let ?e = "ChoiceGraphEdge s t None"
    from that obtain cs es st en gone where r: "require_choice_graph root p = Inr (cs, es, st, en)"
      "gone = filter (\<lambda>e. src e = s \<and> dst e = t \<and> guard_of e \<noteq> None) es" "gone \<noteq> []"
      "validated_model (rebuild root p cs (add_edge (filter (\<lambda>e. e \<notin> set gone) es) ?e) (Some (st, en))) = Inr w"
      by (auto simp: relax_guard_def bindE_Inr_iff Let_def split: if_splits)
    have rel: "erel (add_edge (filter (\<lambda>e. e \<notin> set gone) es) ?e) = erel es" by (rule erel_replaced [of _ s t]) (use r(2,3) in auto)
    show ?thesis
      by (rule guard_edit [OF assms r(1) _ rel r(4)])
        (use plain [OF r(1)] add_edge_set [of "filter (\<lambda>e. e \<notin> set gone) es" ?e] in auto)
  qed
qed

text \<open>
  C8.  Mutations and behaviour: swapping two children of a partial order and changing a guard
  leave the language of the whole model as it is, bounded and unbounded; removing an order edge
  can only add traces and adding one can only remove some.
\<close>

theorem mutation_language:
  assumes "wf_node v" "validate_model v = Inr ()"
  shows "(reorder v p a b = Inr w \<longrightarrow> den cap w = den cap v)
    \<and> (add_guard v p a b g = Inr w \<longrightarrow> den cap w = den cap v)
    \<and> (relax_guard v p a b = Inr w \<longrightarrow> den cap w = den cap v)
    \<and> (parallelize v p a b = Inr w \<longrightarrow> den cap v \<subseteq> den cap w)
    \<and> (serialize v p a b = Inr w \<longrightarrow> den cap w \<subseteq> den cap v)"
proof -
  have v: "admitted v" using assms by (simp add: admitted_def)
  show ?thesis
    using reorder_den [OF v, of p a b w cap] guards_den(1) [OF v, of p a b g w cap] guards_den(2) [OF v, of p a b w cap] parallelize_den [OF v, of p a b w cap]
      serialize_den [OF v, of p a b w cap] by blast
qed

section \<open>What succeeds\<close>

text \<open>
  C10.  The guards of the edits of a partial order are exact: on an admitted model the
  construction and the validation that follow never refuse what the guards let through, so each
  edit succeeds precisely when its indices are legal and the relation between them is the one it
  asks for.
\<close>

theorem order_mutations_exact:
  assumes "wf_node v" "validate_model v = Inr ()" "node_at v p = Inr (PartialOrder cs es f cl d)"
  shows "((\<exists>w. insert_atom v p i (Atom l x y z) = Inr w) \<longleftrightarrow> 0 \<le> i \<and> i \<le> int (length cs))
    \<and> ((\<exists>w. reorder v p a b = Inr w) \<longleftrightarrow>
         in_range a (length cs) \<and> in_range b (length cs) \<and> a \<noteq> b \<and> (a, b) \<notin> erel es \<and> (b, a) \<notin> erel es)
    \<and> ((\<exists>w. parallelize v p a b = Inr w) \<longleftrightarrow> (a, b) \<in> erel es \<or> (b, a) \<in> erel es)
    \<and> ((\<exists>w. serialize v p a b = Inr w) \<longleftrightarrow>
         in_range a (length cs) \<and> in_range b (length cs) \<and> a \<noteq> b \<and> (a, b) \<notin> erel cl \<and> (b, a) \<notin> erel cl)"
proof -
  have v: "admitted v" using assms(1,2) by (simp add: admitted_def)
  have r: "require_partial_order v p = Inr (cs, es, cl)" by (simp add: require_partial_order_def assms(3))
  have "(\<exists>w. insert_atom v p i (Atom l x y z) = Inr w) \<longleftrightarrow> 0 \<le> i \<and> i \<le> int (length cs)"
  proof
    assume "\<exists>w. insert_atom v p i (Atom l x y z) = Inr w"
    then show "0 \<le> i \<and> i \<le> int (length cs)" by (auto simp: insert_atom_def r Let_def split: if_splits)
  next
    assume "0 \<le> i \<and> i \<le> int (length cs)"
    then show "\<exists>w. insert_atom v p i (Atom l x y z) = Inr w" using inserted [OF v assms(3) _ _ refl] by metis
  qed
  moreover have "(\<exists>w. reorder v p a b = Inr w) \<longleftrightarrow>
      in_range a (length cs) \<and> in_range b (length cs) \<and> a \<noteq> b \<and> (a, b) \<notin> erel es \<and> (b, a) \<notin> erel es" (is "_ \<longleftrightarrow> ?ok")
  proof
    assume "\<exists>w. reorder v p a b = Inr w"
    then show ?ok by (auto simp: reorder_def r Let_def erel_def split: if_splits)
  next
    assume ?ok
    then show "\<exists>w. reorder v p a b = Inr w" using reordered [OF v assms(3), of a b] by metis
  qed
  moreover have "(\<exists>w. parallelize v p a b = Inr w) \<longleftrightarrow> (a, b) \<in> erel es \<or> (b, a) \<in> erel es"
  proof
    assume "\<exists>w. parallelize v p a b = Inr w"
    then show "(a, b) \<in> erel es \<or> (b, a) \<in> erel es" by (auto simp: parallelize_def r Let_def split: if_splits dest: mem_erel)
  next
    assume "(a, b) \<in> erel es \<or> (b, a) \<in> erel es"
    then show "\<exists>w. parallelize v p a b = Inr w" using parallelized [OF v assms(3)] by metis
  qed
  moreover have "(\<exists>w. serialize v p a b = Inr w) \<longleftrightarrow>
      in_range a (length cs) \<and> in_range b (length cs) \<and> a \<noteq> b \<and> (a, b) \<notin> erel cl \<and> (b, a) \<notin> erel cl" (is "_ \<longleftrightarrow> ?ok")
  proof
    assume "\<exists>w. serialize v p a b = Inr w"
    then show ?ok by (auto simp: serialize_def r Let_def erel_def split: if_splits)
  next
    assume ?ok
    then show "\<exists>w. serialize v p a b = Inr w" using serialized [OF v assms(3), of a b] by metis
  qed
  ultimately show ?thesis by blast
qed

section \<open>Round trips\<close>

lemma rebuilt_order:
  assumes "wf_node (PartialOrder cs es f cl d)" "order_edges_ok es' (length cs)" "erel es' = erel es"
  shows "mk_partial_order cs es' f = Inr (PartialOrder cs es f cl d)"
proof -
  have "mk_partial_order cs es' f = mk_partial_order cs es f"
    by (rule mk_partial_order_cong) (use assms wf_partial_orderD(2) in auto)
  with assms(1) show ?thesis by simp
qed

lemma serialize_parallelize:
  assumes "admitted v" "node_at v p = Inr (PartialOrder cs es f cl d)" "(a, b) \<in> erel es"
  shows "\<exists>w. parallelize v p a b = Inr w \<and> serialize w p a b = Inr v"
proof -
  have wf: "wf_node v" using assms(1) by (simp add: admitted_iff)
  note wf' = node_at_wf [OF wf assms(2)]
  note W = wf_partial_orderD [OF wf']
  obtain red cl' d' w where x: "erel red = erel es - {(a, b)}" "(a, b) \<notin> erel cl'" "erel cl' \<subseteq> erel cl"
    "wf_node (PartialOrder cs red f cl' d')" "parallelize v p a b = Inr w"
    "replace_at_path v p (PartialOrder cs red f cl' d') = Inr w" "admitted w"
    using parallelized [OF assms] by metis
  note tw = replaced_twice [OF wf x(6)]
  have range: "in_range a (length cs)" "in_range b (length cs)" using assms(3) erel_range [OF W(2)] by blast+
  have "(a, b) \<in> erel cl" using assms(3) W(4) by auto
  then have no: "a \<noteq> b" "(b, a) \<notin> erel cl'" using W(5,6) x(3) by (auto simp: irrefl_def dest: transD)
  obtain red2 cl2 d2 u where u: "mk_partial_order cs (List.insert (OrderEdge a b) red) f = Inr (PartialOrder cs red2 f cl2 d2)"
    "serialize w p a b = Inr u" "replace_at_path w p (PartialOrder cs red2 f cl2 d2) = Inr u"
    using serialized [OF x(7) tw [THEN conjunct1] range no(1) x(2) no(2)] by metis
  have "erel (List.insert (OrderEdge a b) red) = insert (a, b) (erel red)" by (simp add: erel_def)
  also have "\<dots> = erel es" unfolding x(1) using assms(3) by blast
  finally have "mk_partial_order cs (List.insert (OrderEdge a b) red) f = Inr (PartialOrder cs es f cl d)"
    by (rule rebuilt_order [OF wf', rotated]) (use wf_partial_orderD(2) [OF x(4)] range in \<open>auto simp: order_edges_ok_def\<close>)
  then have "replace_at_path v p (PartialOrder cs es f cl d) = Inr u" using u(1,3) tw [of "PartialOrder cs es f cl d"] by simp
  then have "u = v" using replaced_back [OF wf assms(2)] by simp
  with x(5) u(2) show ?thesis by blast
qed

lemma reorder_reorder:
  assumes "admitted v" "reorder v p a b = Inr w"
  shows "reorder w p a b = Inr v"
proof -
  have wf: "wf_node v" using assms(1) by (simp add: admitted_iff)
  from assms(2) obtain cs es cl where r: "require_partial_order v p = Inr (cs, es, cl)"
    and c: "in_range a (length cs)" "in_range b (length cs)" "a \<noteq> b" "(a, b) \<notin> erel es" "(b, a) \<notin> erel es"
    by (auto simp: reorder_def bindE_Inr_iff Let_def erel_def split: if_splits)
  from require_order [OF r] obtain f d where at: "node_at v p = Inr (PartialOrder cs es f cl d)" by blast
  note wf' = node_at_wf [OF wf at]
  let ?cs = "cs[nat a := cs ! nat b, nat b := cs ! nat a]"
  obtain red cl' d' where x: "erel red = map_prod (swap a b) (swap a b) ` erel es" "admitted w"
    "replace_at_path v p (PartialOrder ?cs red f cl' d') = Inr w"
    using reordered [OF assms(1) at c] assms(2) by (metis sum.inject(2))
  note tw = replaced_twice [OF wf x(3)]
  have no: "(a, b) \<notin> erel red" "(b, a) \<notin> erel red"
    unfolding x(1) using c(4,5) by (auto simp: swap_def split: if_splits)
  have ab: "nat a < length cs" "nat b < length cs" "nat a \<noteq> nat b" using c(1-3) by (auto simp: in_range_def)
  let ?cs2 = "?cs[nat a := ?cs ! nat b, nat b := ?cs ! nat a]"
  have cs2: "?cs2 = cs" using ab by (simp add: list_eq_iff_nth_eq nth_list_update)
  obtain red2 cl2 d2 u where u: "erel red2 = map_prod (swap a b) (swap a b) ` erel red"
    "reorder w p a b = Inr u" "replace_at_path w p (PartialOrder ?cs2 red2 f cl2 d2) = Inr u" "wf_node (PartialOrder ?cs2 red2 f cl2 d2)"
    using reordered [OF x(2) tw [THEN conjunct1], of a b] c(1-3) no by (metis length_list_update)
  have "swap a b \<circ> swap a b = id" by (simp add: fun_eq_iff)
  then have "erel red2 = erel es" unfolding u(1) x(1) by (simp add: image_comp map_prod.comp map_prod.id)
  then have "mk_partial_order cs red2 f = Inr (PartialOrder cs es f cl d)"
    by (rule rebuilt_order [OF wf', rotated]) (use wf_partial_orderD(2) [OF u(4)] cs2 in simp)
  then have "PartialOrder ?cs2 red2 f cl2 d2 = PartialOrder cs es f cl d" using u(4) unfolding cs2 by simp
  then have "replace_at_path v p (PartialOrder cs es f cl d) = Inr u" using u(3) tw by metis
  then have "u = v" using replaced_back [OF wf at] by simp
  with u(2) show ?thesis by simp
qed

lemma survivors_eq: "0 \<le> i \<Longrightarrow> i \<le> int n \<Longrightarrow> filter (\<lambda>k. int k \<noteq> i) [0..<Suc n] = map (\<lambda>k. nat (shift i (int k))) [0..<n]"
proof -
  assume i: "0 \<le> i" "i \<le> int n"
  have up: "[0..<Suc n] = [0..<nat i] @ nat i # [Suc (nat i)..<Suc n]"
    using i by (metis Suc_eq_plus1 le_SucI le_add1 nat_le_iff upt_conv_Cons upt_add_eq_append le_imp_less_Suc le0 le_add_diff_inverse)
  have "filter (\<lambda>k. int k \<noteq> i) [0..<nat i] = [0..<nat i]" "filter (\<lambda>k. int k \<noteq> i) [Suc (nat i)..<Suc n] = [Suc (nat i)..<Suc n]"
    using i by (auto intro!: filter_True)
  then have "filter (\<lambda>k. int k \<noteq> i) [0..<Suc n] = [0..<nat i] @ [Suc (nat i)..<Suc n]"
    unfolding up using i by simp
  also have "\<dots> = map (\<lambda>k. nat (shift i (int k))) [0..<n]"
    using i by (intro nth_equalityI) (auto simp: nth_append shift_def nat_add_distrib simp del: upt_Suc)
  finally show ?thesis .
qed

lemma survivors_shift:
  assumes "0 \<le> i" "i \<le> int n" "in_range x n"
  shows "map_of (survivors (Suc n) i) (shift i x) = Some x"
proof -
  have s: "survivors (Suc n) i = map (\<lambda>k. (shift i (int k), int k)) [0..<n]"
    unfolding survivors_def Let_def survivors_eq [OF assms(1,2)]
    by (simp add: zip_map_map zip_same_conv_map comp_def shift_def cong: map_cong)
  have "distinct (map fst (survivors (Suc n) i))"
    unfolding s by (auto simp: distinct_map inj_on_def shift_def split: if_splits)
  moreover have "(shift i x, x) \<in> set (survivors (Suc n) i)" using assms(3) unfolding s by (auto elim!: in_rangeE)
  ultimately show ?thesis by (rule map_of_is_SomeI)
qed

lemma delete_insert:
  assumes "admitted v" "insert_atom v p i (Atom l a b k) = Inr w"
  shows "delete_node w (p @ [i]) = Inr v"
proof -
  have wf: "wf_node v" using assms(1) by (simp add: admitted_iff)
  let ?at = "Atom l a b k"
  from assms(2) obtain cs es cl where r: "require_partial_order v p = Inr (cs, es, cl)" and i: "0 \<le> i" "i \<le> int (length cs)"
    by (auto simp: insert_atom_def bindE_Inr_iff Let_def split: if_splits)
  from require_order [OF r] obtain f d where at: "node_at v p = Inr (PartialOrder cs es f cl d)" by blast
  note wf' = node_at_wf [OF wf at]
  note W = wf_partial_orderD [OF wf']
  let ?cs = "take (nat i) cs @ [?at] @ drop (nat i) cs"
  let ?remap = "map (\<lambda>k. (int k, shift i (int k))) [0..<length cs]"
  obtain red cl' d' w' where x': "transitive_reduction (remap_order_edges es ?remap) (Suc (length cs)) = Inr red"
    "erel (remap_order_edges es ?remap) = map_prod (shift i) (shift i) ` erel es"
    "insert_atom v p i ?at = Inr w'" "replace_at_path v p (PartialOrder ?cs red f cl' d') = Inr w'"
    "wf_node (PartialOrder ?cs red f cl' d')"
    by (rule inserted [OF assms(1) at i refl, of l a b k])
  have "w' = w" using x'(3) assms(2) by simp
  note x = x'(1,2) x'(4) [unfolded this] x'(5)
  note tw = replaced_twice [OF wf x(3)]
  have red: "erel red = map_prod (shift i) (shift i) ` erel es"
    by (rule reduction_renamed [OF shift_inj W(11) x(1,2)])
  let ?s = "survivors (Suc (length cs)) i"
  let ?h = "\<lambda>y. inv (shift i) y"
  have shifted: "\<exists>y z. in_range y (length cs) \<and> in_range z (length cs) \<and> ends e = (shift i y, shift i z)" if "e \<in> set red" for e
  proof -
    have "ends e \<in> map_prod (shift i) (shift i) ` erel es" using that unfolding red [symmetric] by (simp add: erel_def)
    then obtain y z where "(y, z) \<in> erel es" "ends e = (shift i y, shift i z)" by auto
    with erel_range [OF W(2)] show ?thesis by blast
  qed
  have remap: "remap_ends ?s e = Some (?h (src e), ?h (dst e)) \<and> in_range (?h (src e)) (length cs) \<and> in_range (?h (dst e)) (length cs)"
    if "e \<in> set red" for e
  proof -
    from shifted [OF that] obtain y z where "in_range y (length cs)" "in_range z (length cs)" "src e = shift i y" "dst e = shift i z" by auto
    then show ?thesis using survivors_shift [OF i] inv_f_f [OF shift_inj, of i] by (simp add: remap_ends_def)
  qed
  let ?es = "remap_order_edges red ?s"
  have "erel ?es = map_prod ?h ?h ` erel red" by (rule remap_order_rel(1)) (use remap in blast)
  also have "\<dots> = erel es" unfolding red using inv_f_f [OF shift_inj, of i] by (simp add: image_image map_prod_def split_def)
  finally have es: "erel ?es = erel es" .
  have "order_edges_ok ?es (length cs)" by (rule remap_order_rel(2) [where h = ?h]) (use remap in blast)+
  then have mk: "mk_partial_order cs ?es f = Inr (PartialOrder cs es f cl d)" by (rule rebuilt_order [OF wf' _ es])
  have cs: "map (\<lambda>k. ?cs ! k) (filter (\<lambda>k. int k \<noteq> i) [0..<Suc (length cs)]) = cs"
    unfolding survivors_eq [OF i] using i
    by (intro nth_equalityI) (auto simp: nth_append shift_def nat_add_distrib min_def nth_Cons split: nat.split intro!: arg_cong [where f = "(!) cs"])
  have "rebuild w p cs ?es None = Inr v"
    using tw replaced_back [OF wf at] by (simp add: rebuild_def mk)
  then have "validated_model (rebuild w p cs ?es None) = Inr v" using assms(1) by (simp add: validated_model_Inr admitted_def)
  moreover have "length ?cs = Suc (length cs)" "in_range i (Suc (length cs))" "\<not> int (Suc (length cs)) - 1 < 2"
    using i W(1) by (auto simp: in_range_def)
  ultimately show ?thesis using tw cs by (simp add: delete_node_def Let_def del: upt_Suc)
qed

text \<open>
  C11.  Round trips of mutations: on an admitted model, serializing two children again after
  their order edge was removed, deleting an atom that was inserted and swapping two children
  twice give back exactly the model one started from.
\<close>

theorem mutation_roundtrips:
  assumes "wf_node v" "validate_model v = Inr ()" "node_at v p = Inr (PartialOrder cs es f cl d)"
  shows "((a, b) \<in> erel es \<longrightarrow> (\<exists>w. parallelize v p a b = Inr w \<and> serialize w p a b = Inr v))
    \<and> (insert_atom v p i (Atom l x y z) = Inr w \<longrightarrow> delete_node w (p @ [i]) = Inr v)
    \<and> (reorder v p a b = Inr w \<longrightarrow> reorder w p a b = Inr v)"
proof -
  have v: "admitted v" using assms(1,2) by (simp add: admitted_def)
  show ?thesis using serialize_parallelize [OF v assms(3)] delete_insert [OF v] reorder_reorder [OF v] by blast
qed

section \<open>The two steps as an example\<close>

lemma two_steps_admitted: "validate_model two_steps = Inr ()"
  using validate_iff_choices [OF two_steps_wf] by (simp add: two_steps_def)

lemma two_steps_root: "node_at two_steps [] = Inr (PartialOrder [act ''a'', act ''b''] [OrderEdge 0 1] ONCE [OrderEdge 0 1] 2)"
  by (simp add: two_steps_def)

lemma two_steps_edited: "\<exists>w. parallelize two_steps [] 0 1 = Inr w \<and> serialize w [] 0 1 = Inr two_steps"
  by (rule serialize_parallelize [OF _ two_steps_root]) (simp_all add: admitted_def two_steps_wf two_steps_admitted erel_def)

theorem mutations_stay_admitted_witness:
  "\<exists>w. foldE mutate two_steps [Parallelize [] 0 1, Serialize [] 0 1, Parallelize [] 0 1] = Inr w \<and> wf_node w \<and> validate_model w = Inr ()"
proof -
  obtain w where w: "parallelize two_steps [] 0 1 = Inr w" "serialize w [] 0 1 = Inr two_steps"
    using two_steps_edited by blast
  then have "foldE mutate two_steps [Parallelize [] 0 1, Serialize [] 0 1, Parallelize [] 0 1] = Inr w"
    by (simp add: mutate_def)
  with mutations_stay_admitted [OF two_steps_wf two_steps_admitted, of "[Parallelize [] 0 1, Serialize [] 0 1, Parallelize [] 0 1]"]
  show ?thesis by simp
qed

theorem mutation_language_witness:
  "\<exists>w. parallelize two_steps [] 0 1 = Inr w \<and> den None two_steps \<subseteq> den None w"
  using two_steps_edited mutation_language [OF two_steps_wf two_steps_admitted, of "[]" 0 1] by blast

theorem order_mutations_exact_witness:
  "(\<exists>w. insert_atom two_steps [] 1 (Atom ''c'' NoAction (JObj []) PURE) = Inr w) \<and> (\<exists>w. parallelize two_steps [] 1 0 = Inr w)
     \<and> (\<forall>w. reorder two_steps [] 0 1 \<noteq> Inr w) \<and> (\<forall>w. serialize two_steps [] 1 0 \<noteq> Inr w)"
  using order_mutations_exact [OF two_steps_wf two_steps_admitted two_steps_root, of 1 "''c''" NoAction "JObj []" PURE 1 0]
    order_mutations_exact [OF two_steps_wf two_steps_admitted two_steps_root, of 0 "''c''" NoAction "JObj []" PURE 0 1]
  by (simp add: erel_def)

theorem mutation_roundtrips_witness:
  "\<exists>w. parallelize two_steps [] 0 1 = Inr w \<and> serialize w [] 0 1 = Inr two_steps"
  using mutation_roundtrips [OF two_steps_wf two_steps_admitted two_steps_root, of 0 1] by (simp add: erel_def)

end
