(* ===== verification/Powl_Deletion.thy ===== *)
theory Powl_Deletion
  imports Powl_Mutation_Laws Ocel_Plan
begin

text \<open>
  What is left of the order of a partial order when one of its children is deleted.
\<close>

section \<open>The surviving children\<close>

lemma survivors_dom: "map_of (survivors n i) x = Some y \<Longrightarrow> x \<noteq> i"
  by (auto simp: survivors_def Let_def dest!: map_of_SomeD set_zip_leftD)

lemma deleted_child: "0 \<le> i \<Longrightarrow> map_of (survivors n i) i = None"
  using survivors_dom [of n i i] by (cases "map_of (survivors n i) i") auto

lemma shift_onto:
  assumes "in_range x (Suc n)" "x \<noteq> i" "in_range i (Suc n)"
  obtains y where "in_range y n" "x = shift i y"
proof (cases "x < i")
  case True
  with that [of x] assms show ?thesis by (auto simp: shift_def in_range_def)
next
  case False
  with that [of "x - 1"] assms show ?thesis by (auto simp: shift_def in_range_def)
qed

lemma remap_filter:
  "(\<And>e. e \<in> set es \<Longrightarrow> \<not> P e \<Longrightarrow> remap_ends remap e = None) \<Longrightarrow> remap_order_edges es remap = remap_order_edges (filter P es) remap"
proof -
  assume *: "\<And>e. e \<in> set es \<Longrightarrow> \<not> P e \<Longrightarrow> remap_ends remap e = None"
  have "List.map_filter f es = List.map_filter f (filter P es)" if "\<And>e. e \<in> set es \<Longrightarrow> \<not> P e \<Longrightarrow> f e = None" for f :: "edge \<Rightarrow> edge option"
    using that by (induction es) (auto simp: map_filter_def)
  then show ?thesis using * unfolding remap_order_edges_def by (metis (no_types, lifting) option.map(1))
qed

lemma restricted_rel: "erel (filter (\<lambda>e. src e \<noteq> i \<and> dst e \<noteq> i) es) = Restr (erel es) (- {i})"
  by (auto simp: erel_def)

text \<open>The edges that do not touch the deleted child survive under the new names.\<close>

lemma survived:
  assumes "order_edges_ok es (Suc n)" "in_range i (Suc n)"
  shows "map_prod (shift i) (shift i) ` erel (remap_order_edges es (survivors (Suc n) i)) = Restr (erel es) (- {i})"
    and "order_edges_ok (remap_order_edges es (survivors (Suc n) i)) n"
proof -
  let ?s = "survivors (Suc n) i" and ?h = "inv (shift i)"
  let ?es = "filter (\<lambda>e. src e \<noteq> i \<and> dst e \<noteq> i) es"
  have i: "0 \<le> i" "i \<le> int n" using assms(2) by (auto simp: in_range_def)
  have eq: "remap_order_edges es ?s = remap_order_edges ?es ?s"
    by (rule remap_filter) (use i(1) in \<open>auto simp: remap_ends_def deleted_child split: option.split\<close>)
  have remap: "remap_ends ?s e = Some (?h (src e), ?h (dst e)) \<and> in_range (?h (src e)) n \<and> in_range (?h (dst e)) n
      \<and> shift i (?h (src e)) = src e \<and> shift i (?h (dst e)) = dst e" if em: "e \<in> set ?es" for e
  proof -
    have r: "in_range (src e) (Suc n)" "in_range (dst e) (Suc n)" using assms(1) em by (auto simp: order_edges_ok_def)
    obtain y where y: "in_range y n" "src e = shift i y" using shift_onto [OF r(1) _ assms(2)] em by auto
    obtain z where z: "in_range z n" "dst e = shift i z" using shift_onto [OF r(2) _ assms(2)] em by auto
    show ?thesis using y z survivors_shift [OF i y(1)] survivors_shift [OF i z(1)] inv_f_f [OF shift_inj, of i] by (simp add: remap_ends_def)
  qed
  have "erel (remap_order_edges ?es ?s) = map_prod ?h ?h ` erel ?es" by (rule remap_order_rel(1)) (use remap in blast)
  then have "map_prod (shift i) (shift i) ` erel (remap_order_edges ?es ?s) = (\<lambda>e. (shift i (?h (src e)), shift i (?h (dst e)))) ` set ?es"
    by (simp add: erel_def image_image)
  also have "\<dots> = (\<lambda>e. (src e, dst e)) ` set ?es" by (rule image_cong) (use remap in auto)
  also have "\<dots> = erel ?es" by (simp add: erel_def)
  finally show "map_prod (shift i) (shift i) ` erel (remap_order_edges es ?s) = Restr (erel es) (- {i})"
    unfolding eq restricted_rel .
  show "order_edges_ok (remap_order_edges es ?s) n" unfolding eq by (rule remap_order_rel(2) [where h = ?h]) (use remap in blast)+
qed

section \<open>The order that is left\<close>

text \<open>
  C12.  Deleting a child of a partial order with at least three children always succeeds on an
  admitted model.  The other children keep their subtrees and are renumbered; two of them are
  ordered afterwards exactly when they were ordered by a path of stored edges that avoids the
  deleted child, so an order that passed through it is lost.
\<close>

theorem deletion_keeps_paths_around:
  assumes "wf_node v" "validate_model v = Inr ()" "node_at v p = Inr (PartialOrder cs es f cl d)"
    and "in_range i (length cs)" "2 < length cs"
  shows "\<exists>w cs' es' cl' d'. delete_node v (p @ [i]) = Inr w \<and> node_at w p = Inr (PartialOrder cs' es' f cl' d')
    \<and> cs' = take (nat i) cs @ drop (Suc (nat i)) cs
    \<and> (\<forall>x y. (x, y) \<in> erel cl' \<longleftrightarrow> (shift i x, shift i y) \<in> (Restr (erel es) (- {i}))\<^sup>+)"
proof -
  have v: "admitted v" using assms(1,2) by (simp add: admitted_def)
  have n: "admitted (PartialOrder cs es f cl d)" by (rule node_at_admitted [OF v assms(3)])
  then have wf: "wf_node (PartialOrder cs es f cl d)" by (simp add: admitted_iff)
  note W = wf_partial_orderD [OF wf]
  obtain m where m: "length cs = Suc m" using assms(5) by (cases "length cs") auto
  have i: "0 \<le> i" "i \<le> int m" using assms(4) m by (auto simp: in_range_def)
  let ?cs = "map (\<lambda>k. cs ! k) (filter (\<lambda>k. int k \<noteq> i) [0..<length cs])"
  let ?es = "remap_order_edges es (survivors (Suc m) i)"
  have cs: "?cs = take (nat i) cs @ drop (Suc (nat i)) cs"
    unfolding m survivors_eq [OF i] using i m
    by (intro nth_equalityI) (auto simp: nth_append shift_def nat_add_distrib min_def intro!: arg_cong [where f = "(!) cs"])
  then have len: "length ?cs = m" using m i by simp
  note rel = survived [OF W(2) [unfolded m] assms(4) [unfolded m]]
  have tr: "map_prod (shift i) (shift i) ` (erel ?es)\<^sup>+ = (Restr (erel es) (- {i}))\<^sup>+"
    using trancl_map_prod [OF shift_inj, of i "erel ?es"] rel(1) by simp
  have "acyclic (Restr (erel es) (- {i}))" by (rule acyclic_subset [OF order_acyclic [OF wf]]) blast
  have iff: "(x, y) \<in> (erel ?es)\<^sup>+ \<longleftrightarrow> (shift i x, shift i y) \<in> (Restr (erel es) (- {i}))\<^sup>+" for x y
    unfolding tr [symmetric] by (auto dest: injD [OF shift_inj])
  have ac: "acyclic (erel ?es)"
    using \<open>acyclic (Restr (erel es) (- {i}))\<close> by (simp add: acyclic_def iff)
  have kids: "admitted c \<and> node_depth c + 1 \<le> d" if "c \<in> set ?cs" for c
    using that survivors_set [of cs i] order_children [OF n] by blast
  obtain red cl' d' w where R: "erel cl' = (erel ?es)\<^sup>+"
    "validated_model (rebuild v p ?cs ?es None) = Inr w" "replace_at_path v p (PartialOrder ?cs red f cl' d') = Inr w"
    by (rule order_edit [OF v assms(3) _ ac _ kids]) (use len rel(2) assms(5) m in auto)
  have "delete_node v (p @ [i]) = Inr w" using R(2) assms(3-5) m by (simp add: delete_node_def Let_def del: upt_Suc)
  moreover have "node_at w p = Inr (PartialOrder ?cs red f cl' d')" using replaced_twice [OF assms(1) R(3)] by blast
  ultimately show ?thesis using cs R(1) iff by metis
qed

lemma chain_of_three:
  assumes "plan_lines_to_powl_node [l, l', l''] = Inr v"
  shows "wf_node v \<and> validate_model v = Inr () \<and> den None v = {[l, l', l'']} \<and> (\<exists>red cl. node_at v [] =
    Inr (PartialOrder [act l, act l', act l''] red ONCE cl 2) \<and> erel red \<subseteq> {(0, 1), (1, 2)} \<and> (0, 2) \<in> erel cl)"
proof -
  obtain red cl where v: "v = PartialOrder [act l, act l', act l''] red ONCE cl 2" "wf_node v"
    "erel red \<subseteq> erel (chain_edges 3)" "erel cl = (erel (chain_edges 3))\<^sup>+"
    by (rule chain_model [of "[l, l', l'']"]) (use assms in \<open>auto simp: numeral_3_eq_3\<close>)
  have "erel (chain_edges 3) = {(0, 1), (1, 2)}" by (auto simp: chain_edges_def erel_def numeral_3_eq_3)
  moreover have "(int 0, int 2) \<in> erel cl" unfolding v(4) trancl_chain by (intro exI [of _ 0] exI [of _ 2]) simp
  moreover have "validate_model v = Inr ()" unfolding validate_iff_choices [OF v(2)] by (simp add: v(1))
  moreover have "before cl i j \<longleftrightarrow> i < j \<and> j < 3" for i j unfolding before_def v(4) trancl_chain by auto
  then have "merge_lang (before cl) (map (\<lambda>l. {[l]}) [l, l', l'']) = {[l, l', l'']}" by (intro linear_merge) (simp add: numeral_3_eq_3)
  then have "den None v = {[l, l', l'']}" by (simp add: v(1))
  ultimately show ?thesis using v(1-3) by auto
qed

theorem deletion_keeps_paths_around_witness:
  "\<exists>v w. plan_lines_to_powl_node [''isolate'', ''backup'', ''wipe''] = Inr v \<and> den None v = {[''isolate'', ''backup'', ''wipe'']}
     \<and> delete_node v [1] = Inr w \<and> (\<exists>cs es cl d. w = PartialOrder cs es ONCE cl d \<and> cs = [act ''isolate'', act ''wipe''] \<and> erel cl = {})"
proof -
  have "\<exists>v. plan_lines_to_powl_node [''isolate'', ''backup'', ''wipe''] = Inr v"
    by (rule chain_model [of "[''isolate'', ''backup'', ''wipe'']"]) auto
  then obtain v where v: "plan_lines_to_powl_node [''isolate'', ''backup'', ''wipe''] = Inr v" by blast
  obtain red cl where r: "wf_node v" "validate_model v = Inr ()" "den None v = {[''isolate'', ''backup'', ''wipe'']}"
    "node_at v [] = Inr (PartialOrder [act ''isolate'', act ''backup'', act ''wipe''] red ONCE cl 2)" "erel red \<subseteq> {(0, 1), (1, 2)}"
    using chain_of_three [OF v] by blast
  have "Restr (erel red) (- {1}) = {}" using r(5) by auto
  then obtain w cs es cl' d where "delete_node v [1] = Inr w" "node_at w [] = Inr (PartialOrder cs es ONCE cl' d)"
    "cs = [act ''isolate'', act ''wipe'']" "\<forall>x y. (x, y) \<notin> erel cl'"
    using deletion_keeps_paths_around [OF r(1,2,4), of 1] by (auto simp: in_range_def)
  moreover from this(4) have "erel cl' = {}" by auto
  ultimately show ?thesis using v r(3) by (intro exI [of _ v] exI [of _ w]) simp
qed

end
