(* ===== verification/Powl_Net.thy ===== *)
theory Powl_Net
  imports Powl_Emission Powl_Membership Canonical_Json
begin

text \<open>
  \<^verbatim>\<open>powl/soundness_bridge.py\<close>: the translation of a model into the workflow net that is sent to
  the external soundness checker.
\<close>

section \<open>Nets\<close>

datatype arc_kind = PLACE_TO_TRANSITION | TRANSITION_TO_PLACE | SILENT_LINK

definition arc_value :: "arc_kind \<Rightarrow> string" where
  "arc_value k = (case k of PLACE_TO_TRANSITION \<Rightarrow> ''place_to_transition'' | TRANSITION_TO_PLACE \<Rightarrow> ''transition_to_place''
     | SILENT_LINK \<Rightarrow> ''__silent_link__'')"

type_synonym arc = "string \<times> string \<times> arc_kind"
type_synonym transition = "string \<times> string option"

record wf_net =
  wn_places :: "string list"
  wn_transitions :: "transition list"
  wn_flow :: "arc list"
  wn_source :: string
  wn_sink :: string

definition net_json :: "wf_net \<Rightarrow> json" where
  "net_json w = JObj [(''places'', JList (map JStr (wn_places w))),
     (''transitions'', JList (map (\<lambda>(tid, name). JObj [(''id'', JStr tid), (''name'', case name of None \<Rightarrow> JNull | Some a \<Rightarrow> JStr a)]) (wn_transitions w))),
     (''flow'', JList (map (\<lambda>(x, y, k). JObj [(''from'', JStr x), (''to'', JStr y), (''kind'', JStr (arc_value k))]) (wn_flow w))),
     (''source'', JStr (wn_source w)), (''sink'', JStr (wn_sink w))]"

record fragment =
  fr_places :: "string list"
  fr_transitions :: "transition list"
  fr_flow :: "arc list"
  fr_entry :: string
  fr_exit :: string

section \<open>Compilation\<close>

text \<open>The counter is threaded through the whole compilation, so every name has a number of its own.\<close>

definition fresh_name :: "string \<Rightarrow> nat \<Rightarrow> string \<times> nat" where
  "fresh_name prefix n = (prefix @ string_of_nat (Suc n), Suc n)"

definition compile_leaf :: "string option \<Rightarrow> nat \<Rightarrow> fragment \<times> nat" where
  "compile_leaf name n =
     (let (entry, n) = fresh_name ''p'' n; (exit, n) = fresh_name ''p'' n; (tid, n) = fresh_name ''t'' n
      in (\<lparr>fr_places = [entry, exit], fr_transitions = [(tid, name)],
            fr_flow = [(entry, tid, PLACE_TO_TRANSITION), (tid, exit, TRANSITION_TO_PLACE)],
            fr_entry = entry, fr_exit = exit\<rparr>, n))"

definition realize :: "transition list \<times> arc list \<times> nat \<Rightarrow> arc \<Rightarrow> transition list \<times> arc list \<times> nat" where
  "realize s a = (case (s, a) of ((trs, fl, n), (x, y, k)) \<Rightarrow>
     if k = SILENT_LINK
     then let (tau, n) = fresh_name ''t'' n
          in (trs @ [(tau, None)], fl @ [(x, tau, PLACE_TO_TRANSITION), (tau, y, TRANSITION_TO_PLACE)], n)
     else (trs, fl @ [(x, y, k)], n))"

definition finish_composite :: "string \<Rightarrow> string \<Rightarrow> string list \<Rightarrow> transition list \<Rightarrow> arc list \<Rightarrow> nat \<Rightarrow> fragment \<times> nat" where
  "finish_composite entry exit pls trs fl n =
     (case foldl realize (trs, [], n) fl of (trs', fl', n') \<Rightarrow>
        (\<lparr>fr_places = pls, fr_transitions = trs', fr_flow = fl', fr_entry = entry, fr_exit = exit\<rparr>, n'))"

definition edge_link :: "fragment list \<Rightarrow> edge \<Rightarrow> arc res" where
  "edge_link frs e = bindE (child_at frs (src e)) (\<lambda>s. bindE (child_at frs (dst e)) (\<lambda>d. Inr (fr_exit s, fr_entry d, SILENT_LINK)))"

text \<open>Which children have an order edge into them and out of them.\<close>

definition mark_edge :: "bool list \<times> bool list \<Rightarrow> edge \<Rightarrow> (bool list \<times> bool list) res" where
  "mark_edge s e = (case s of (has_pred, has_succ) \<Rightarrow>
     bindE (py_index (length has_succ) (src e)) (\<lambda>i. bindE (py_index (length has_pred) (dst e)) (\<lambda>j.
       Inr (has_pred[j := True], has_succ[i := True]))))"

definition compile_partial_order :: "fragment list \<Rightarrow> edge list \<Rightarrow> nat \<Rightarrow> (fragment \<times> nat) res" where
  "compile_partial_order frs es n =
     bindE (foldE mark_edge (replicate (length frs) False, replicate (length frs) False) es) (\<lambda>(has_pred, has_succ).
       let (entry, n) = fresh_name ''p'' n; (exit, n) = fresh_name ''p'' n;
           borders = concat (map (\<lambda>i. (if \<not> has_pred ! i then [(entry, fr_entry (frs ! i), SILENT_LINK)] else [])
             @ (if \<not> has_succ ! i then [(fr_exit (frs ! i), exit, SILENT_LINK)] else [])) [0..<length frs])
       in bindE (mapE (edge_link frs) es) (\<lambda>links.
         Inr (finish_composite entry exit ([entry, exit] @ concat (map fr_places frs)) (concat (map fr_transitions frs))
           (concat (map fr_flow frs) @ borders @ links) n)))"

definition compile_choice_graph :: "fragment list \<Rightarrow> edge list \<Rightarrow> int \<Rightarrow> int \<Rightarrow> nat \<Rightarrow> (fragment \<times> nat) res" where
  "compile_choice_graph frs es st en n =
     (let (entry, n) = fresh_name ''p'' n; (exit, n) = fresh_name ''p'' n
      in bindE (child_at frs st) (\<lambda>s. bindE (child_at frs en) (\<lambda>e. bindE (mapE (edge_link frs) es) (\<lambda>links.
         Inr (finish_composite entry exit ([entry, exit] @ concat (map fr_places frs)) (concat (map fr_transitions frs))
           (concat (map fr_flow frs) @ [(entry, fr_entry s, SILENT_LINK), (fr_exit e, exit, SILENT_LINK)] @ links) n)))))"

function compile :: "pnode \<Rightarrow> nat \<Rightarrow> (fragment \<times> nat) res"
  and compile_all :: "pnode list \<Rightarrow> nat \<Rightarrow> (fragment list \<times> nat) res" where
  "compile Start n = Inr (compile_leaf None n)"
| "compile End n = Inr (compile_leaf None n)"
| "compile Silent n = Inr (compile_leaf None n)"
| "compile (Atom l a p c) n = Inr (compile_leaf (Some l) n)"
| "compile (PartialOrder cs es f cl d) n = bindE (compile_all cs n) (\<lambda>(frs, n). compile_partial_order frs es n)"
| "compile (ChoiceGraph cs es st en f d) n = bindE (compile_all cs n) (\<lambda>(frs, n). compile_choice_graph frs es st en n)"
| "compile (Foreign x) n = Inl TypeError"
| "compile_all [] n = Inr ([], n)"
| "compile_all (c # cs) n = bindE (compile c n) (\<lambda>(fr, n). bindE (compile_all cs n) (\<lambda>(frs, n). Inr (fr # frs, n)))"
  by pat_completeness auto

termination by (relation "measure (case_sum (\<lambda>(v, n). size v) (\<lambda>(cs, n). size_list size cs))") auto

definition powl_to_wf_net_request :: "pnode \<Rightarrow> wf_net res" where
  "powl_to_wf_net_request root = bindE (compile root 0) (\<lambda>(fr, _).
     Inr \<lparr>wn_places = fr_places fr, wn_transitions = fr_transitions fr, wn_flow = fr_flow fr,
          wn_source = fr_entry fr, wn_sink = fr_exit fr\<rparr>)"

end
