(* ===== verification/Powl_Net_Facts.thy ===== *)
theory Powl_Net_Facts
  imports Powl_Net
begin

text \<open>
  What the compiled net can do: its token game keeps exactly one token, so its traces are the
  labels along its paths, and these are computed from the model.
\<close>

section \<open>The token game\<close>

definition inputs :: "wf_net \<Rightarrow> string \<Rightarrow> string multiset" where
  "inputs w t = mset (map fst (filter (\<lambda>a. fst (snd a) = t \<and> snd (snd a) = PLACE_TO_TRANSITION) (wn_flow w)))"

definition outputs :: "wf_net \<Rightarrow> string \<Rightarrow> string multiset" where
  "outputs w t = mset (map (\<lambda>a. fst (snd a)) (filter (\<lambda>a. fst a = t \<and> snd (snd a) = TRANSITION_TO_PLACE) (wn_flow w)))"

definition label_word :: "string option \<Rightarrow> trace" where
  "label_word l = (case l of None \<Rightarrow> [] | Some a \<Rightarrow> [a])"

inductive plays :: "wf_net \<Rightarrow> string multiset \<Rightarrow> trace \<Rightarrow> string multiset \<Rightarrow> bool" for w where
  rest: "plays w M [] M"
| turn: "(t, l) \<in> set (wn_transitions w) \<Longrightarrow> inputs w t \<subseteq># M \<Longrightarrow> plays w (M - inputs w t + outputs w t) u N \<Longrightarrow>
    plays w M (label_word l @ u) N"

definition net_traces :: "wf_net \<Rightarrow> trace set" where
  "net_traces w = {u. plays w {#wn_source w#} u {#wn_sink w#}}"

section \<open>Nets of steps\<close>

text \<open>A step is a transition between one place and another.\<close>

type_synonym net_step = "string \<times> transition \<times> string"

definition step_arcs :: "net_step \<Rightarrow> arc list" where
  "step_arcs s = (case s of (x, t, y) \<Rightarrow> [(x, fst t, PLACE_TO_TRANSITION), (fst t, y, TRANSITION_TO_PLACE)])"

definition tid :: "net_step \<Rightarrow> string" where
  "tid s = fst (fst (snd s))"

definition made_of :: "transition list \<Rightarrow> arc list \<Rightarrow> net_step list \<Rightarrow> bool" where
  "made_of trs fl ts \<longleftrightarrow> trs = map (\<lambda>s. fst (snd s)) ts \<and> fl = concat (map step_arcs ts) \<and> distinct (map tid ts)"

inductive run :: "net_step set \<Rightarrow> string \<Rightarrow> trace \<Rightarrow> string \<Rightarrow> bool" for S where
  stay: "run S x [] x"
| move: "(x, (t, l), y) \<in> S \<Longrightarrow> run S y u z \<Longrightarrow> run S x (label_word l @ u) z"

lemma run_mono: "run S x u y \<Longrightarrow> S \<subseteq> T \<Longrightarrow> run T x u y"
  by (induction rule: run.induct) (auto intro: run.intros)

lemma run_append: "run S x u y \<Longrightarrow> run S y v z \<Longrightarrow> run S x (u @ v) z"
  by (induction rule: run.induct) (auto intro: run.intros)

lemma arcs_from:
  assumes "distinct (map tid ts)" "(x, (t, l), y) \<in> set ts"
  shows "filter (\<lambda>a. fst (snd a) = t \<and> snd (snd a) = PLACE_TO_TRANSITION) (concat (map step_arcs ts)) = [(x, t, PLACE_TO_TRANSITION)]"
    and "filter (\<lambda>a. fst a = t \<and> snd (snd a) = TRANSITION_TO_PLACE) (concat (map step_arcs ts)) = [(t, y, TRANSITION_TO_PLACE)]"
proof -
  have none: "filter (\<lambda>a. fst (snd a) = t \<and> snd (snd a) = PLACE_TO_TRANSITION) (concat (map step_arcs us)) = []"
    "filter (\<lambda>a. fst a = t \<and> snd (snd a) = TRANSITION_TO_PLACE) (concat (map step_arcs us)) = []" if "t \<notin> tid ` set us" for us
    using that by (induction us) (auto simp: step_arcs_def tid_def)
  obtain us vs where ts: "ts = us @ (x, (t, l), y) # vs" using assms(2) by (auto simp: in_set_conv_decomp)
  with assms(1) have "t \<notin> tid ` set us" "t \<notin> tid ` set vs" by (auto simp: tid_def)
  then show "filter (\<lambda>a. fst (snd a) = t \<and> snd (snd a) = PLACE_TO_TRANSITION) (concat (map step_arcs ts)) = [(x, t, PLACE_TO_TRANSITION)]"
    "filter (\<lambda>a. fst a = t \<and> snd (snd a) = TRANSITION_TO_PLACE) (concat (map step_arcs ts)) = [(t, y, TRANSITION_TO_PLACE)]"
    by (simp_all add: ts none step_arcs_def)
qed

lemma net_of_steps:
  assumes "made_of (wn_transitions w) (wn_flow w) ts"
  shows "plays w {#x#} u N \<longleftrightarrow> (\<exists>y. N = {#y#} \<and> run (set ts) x u y)"
proof
  have io: "inputs w t = {#x#} \<and> outputs w t = {#y#}" if "(x, (t, l), y) \<in> set ts" for x t l y
    using arcs_from [OF _ that] assms by (simp add: inputs_def outputs_def made_of_def)
  have "\<exists>y. N = {#y#} \<and> run (set ts) x u y" if "plays w M u N" "M = {#x#}" for M
    using that
  proof (induction arbitrary: x rule: plays.induct)
    case (turn t l M u N)
    then obtain x' y where s: "(x', (t, l), y) \<in> set ts" using assms by (auto simp: made_of_def)
    with io [OF s] turn(2,5) have "x' = x" by simp
    moreover from this io [OF s] turn(4) [of y] turn(5) obtain z where "N = {#z#}" "run (set ts) y u z" by auto
    ultimately show ?case using s by (auto intro: run.move)
  qed (auto intro: run.stay)
  then show "plays w {#x#} u N \<Longrightarrow> \<exists>y. N = {#y#} \<and> run (set ts) x u y" by blast
  have "plays w {#x#} u {#y#}" if "run (set ts) x u y" for x y
    using that
  proof (induction rule: run.induct)
    case (move x t l y u z)
    moreover have "(t, l) \<in> set (wn_transitions w)" using move(1) assms by (force simp: made_of_def)
    ultimately show ?case using io [OF move(1)] by (intro plays.turn) auto
  qed (rule plays.rest)
  then show "\<exists>y. N = {#y#} \<and> run (set ts) x u y \<Longrightarrow> plays w {#x#} u N" by blast
qed

section \<open>Blocks\<close>

definition numbered :: "string \<Rightarrow> nat \<Rightarrow> nat \<Rightarrow> string \<Rightarrow> bool" where
  "numbered c k m s \<longleftrightarrow> (\<exists>n. k < n \<and> n \<le> m \<and> s = c @ string_of_nat n)"

lemma numbered_apart: "numbered c k m s \<Longrightarrow> numbered c m' n s \<Longrightarrow> m \<le> m' \<Longrightarrow> False"
  by (auto simp: numbered_def dest: string_of_nat_inj)

lemma numberedI: "k < n \<Longrightarrow> n \<le> m \<Longrightarrow> numbered c k m (c @ string_of_nat n)"
  unfolding numbered_def by blast

lemma numbered_mono: "numbered c k m s \<Longrightarrow> k' \<le> k \<Longrightarrow> m \<le> m' \<Longrightarrow> numbered c k' m' s"
  by (auto simp: numbered_def intro!: numberedI [unfolded numbered_def])

text \<open>
  A compiled fragment: its names are numbered by the counter values it used, its steps stay
  inside it, none enters its entry and none leaves its exit.
\<close>

definition block :: "nat \<Rightarrow> nat \<Rightarrow> fragment \<Rightarrow> net_step list \<Rightarrow> bool" where
  "block k m fr ts \<longleftrightarrow> k < m \<and> made_of (fr_transitions fr) (fr_flow fr) ts
     \<and> (\<forall>s \<in> set ts. numbered ''t'' k m (tid s)) \<and> (\<forall>x \<in> set (fr_places fr). numbered ''p'' k m x) \<and> distinct (fr_places fr)
     \<and> fr_entry fr \<in> set (fr_places fr) \<and> fr_exit fr \<in> set (fr_places fr) \<and> fr_entry fr \<noteq> fr_exit fr
     \<and> (\<forall>(x, t, y) \<in> set ts. x \<in> set (fr_places fr) \<and> y \<in> set (fr_places fr) \<and> y \<noteq> fr_entry fr \<and> x \<noteq> fr_exit fr)"

definition block_traces :: "fragment \<Rightarrow> net_step list \<Rightarrow> trace set" where
  "block_traces fr ts = {u. run (set ts) (fr_entry fr) u (fr_exit fr)}"

inductive blocks :: "nat \<Rightarrow> nat \<Rightarrow> fragment list \<Rightarrow> net_step list list \<Rightarrow> bool" where
  blocks_Nil: "blocks k k [] []"
| blocks_Cons: "block k m fr ts \<Longrightarrow> blocks m n frs tss \<Longrightarrow> blocks k n (fr # frs) (ts # tss)"

inductive_cases blocks_ConsE: "blocks k n (fr # frs) tss"

lemma block_leaf: "compile_leaf l k = (fr, m) \<Longrightarrow> \<exists>ts. block k m fr ts \<and> block_traces fr ts = {label_word l}"
proof -
  assume *: "compile_leaf l k = (fr, m)"
  let ?x = "''p'' @ string_of_nat (Suc k)" and ?y = "''p'' @ string_of_nat (Suc (Suc k))" and ?t = "''t'' @ string_of_nat (Suc (Suc (Suc k)))"
  let ?ts = "[(?x, (?t, l), ?y)]"
  have fr: "fr = \<lparr>fr_places = [?x, ?y], fr_transitions = [(?t, l)],
      fr_flow = [(?x, ?t, PLACE_TO_TRANSITION), (?t, ?y, TRANSITION_TO_PLACE)], fr_entry = ?x, fr_exit = ?y\<rparr>" "m = Suc (Suc (Suc k))"
    using * by (auto simp: compile_leaf_def fresh_name_def)
  have ne: "?x \<noteq> ?y" using string_of_nat_inj by fastforce
  moreover have "numbered ''p'' k (Suc (Suc (Suc k))) ?x" "numbered ''p'' k (Suc (Suc (Suc k))) ?y" "numbered ''t'' k (Suc (Suc (Suc k))) ?t"
    by (rule numberedI; simp)+
  ultimately have "block k m fr ?ts"
    by (auto simp: block_def fr made_of_def step_arcs_def tid_def)
  moreover have "run (set ?ts) ?x u ?y \<longleftrightarrow> u = label_word l" for u
  proof -
    have "v = []" if "run (set ?ts) ?y v z" for v z using that ne by (cases rule: run.cases) auto
    then have "run (set ?ts) ?x u ?y \<Longrightarrow> u = label_word l" using ne by (auto elim: run.cases)
    moreover have "run (set ?ts) ?x (label_word l @ []) ?y" by (rule run.move [where t = ?t and y = ?y]) (simp, rule run.stay)
    ultimately show ?thesis by auto
  qed
  then have "block_traces fr ?ts = {label_word l}" by (auto simp: block_traces_def fr)
  ultimately show ?thesis by blast
qed

lemma blockD:
  assumes "block k m fr ts"
  shows "k < m" "made_of (fr_transitions fr) (fr_flow fr) ts" "\<And>s. s \<in> set ts \<Longrightarrow> numbered ''t'' k m (tid s)"
    "\<And>x. x \<in> set (fr_places fr) \<Longrightarrow> numbered ''p'' k m x" "distinct (fr_places fr)"
    "fr_entry fr \<in> set (fr_places fr)" "fr_exit fr \<in> set (fr_places fr)" "fr_entry fr \<noteq> fr_exit fr"
    "\<And>x t y. (x, t, y) \<in> set ts \<Longrightarrow> x \<in> set (fr_places fr) \<and> y \<in> set (fr_places fr) \<and> y \<noteq> fr_entry fr \<and> x \<noteq> fr_exit fr"
  using assms by (auto simp: block_def)

lemma made_of_append:
  "made_of trs fl ts \<Longrightarrow> made_of trs' fl' ts' \<Longrightarrow> (\<And>s s'. s \<in> set ts \<Longrightarrow> s' \<in> set ts' \<Longrightarrow> tid s \<noteq> tid s') \<Longrightarrow>
    made_of (trs @ trs') (fl @ fl') (ts @ ts')"
  by (fastforce simp: made_of_def)

lemma blocks_all:
  assumes "blocks k n frs tss"
  shows "k \<le> n \<and> length tss = length frs \<and> made_of (concat (map fr_transitions frs)) (concat (map fr_flow frs)) (concat tss)
    \<and> (\<forall>s \<in> set (concat tss). numbered ''t'' k n (tid s)) \<and> (\<forall>x \<in> set (concat (map fr_places frs)). numbered ''p'' k n x)
    \<and> distinct (concat (map fr_places frs))"
  using assms
proof (induction rule: blocks.induct)
  case (blocks_Cons k m fr ts n frs tss)
  note B = blockD [OF blocks_Cons(1)]
  have t: "tid s \<noteq> tid s'" if "s \<in> set ts" "s' \<in> set (concat tss)" for s s'
    using numbered_apart [OF B(3) [OF that(1)], of m n] blocks_Cons(3) that(2) by auto
  have p: "x \<noteq> y" if "x \<in> set (fr_places fr)" "y \<in> set (concat (map fr_places frs))" for x y
    using numbered_apart [OF B(4) [OF that(1)], of m n] blocks_Cons(3) that(2) by auto
  have "made_of (concat (map fr_transitions (fr # frs))) (concat (map fr_flow (fr # frs))) (concat (ts # tss))"
    using made_of_append [OF B(2) conjunct1 [OF conjunct2 [OF conjunct2 [OF blocks_Cons(3)]]] t] by (simp only: list.map concat.simps)
  moreover have "numbered ''t'' k n (tid s)" if "s \<in> set (concat (ts # tss))" for s
    using that B(1) blocks_Cons(3) numbered_mono [OF B(3), of s k n] numbered_mono [of "''t''" m n "tid s" k n] by fastforce
  moreover have "numbered ''p'' k n x" if "x \<in> set (concat (map fr_places (fr # frs)))" for x
    using that B(1) blocks_Cons(3) numbered_mono [OF B(4), of x k n] numbered_mono [of "''p''" m n x k n] by fastforce
  moreover have "distinct (concat (map fr_places (fr # frs)))" using B(5) blocks_Cons(3) p by fastforce
  ultimately show ?case using B(1) blocks_Cons(3) by simp
qed (simp add: made_of_def)

lemma blocks_nth: "blocks k n frs tss \<Longrightarrow> i < length frs \<Longrightarrow> \<exists>k' m'. block k' m' (frs ! i) (tss ! i)"
proof (induction arbitrary: i rule: blocks.induct)
  case (blocks_Cons k m fr ts n frs tss)
  then show ?case by (cases i) auto
qed simp

lemma distinct_concat_nth:
  "distinct (concat xss) \<Longrightarrow> i < length xss \<Longrightarrow> j < length xss \<Longrightarrow> x \<in> set (xss ! i) \<Longrightarrow> x \<in> set (xss ! j) \<Longrightarrow> i = j"
proof (induction xss arbitrary: i j)
  case (Cons xs xss)
  then show ?case by (cases i; cases j) (fastforce dest: nth_mem)+
qed simp

text \<open>Silent links become steps without a label.\<close>

fun link_steps :: "nat \<Rightarrow> (string \<times> string) list \<Rightarrow> net_step list" where
  "link_steps n [] = []"
| "link_steps n ((x, y) # ls) = (x, (''t'' @ string_of_nat (Suc n), None), y) # link_steps (Suc n) ls"

lemma link_steps_tids: "s \<in> set (link_steps n ls) \<Longrightarrow> numbered ''t'' n (n + length ls) (tid s)"
  by (induction n ls rule: link_steps.induct) (auto simp: tid_def numbered_def dest: Suc_lessD)

lemma link_steps_distinct: "distinct (map tid (link_steps n ls))"
proof (induction n ls rule: link_steps.induct)
  case (2 n x y ls)
  have "''t'' @ string_of_nat (Suc n) \<noteq> tid s" if "s \<in> set (link_steps (Suc n) ls)" for s
    using link_steps_tids [OF that] by (auto simp: numbered_def dest: string_of_nat_inj)
  with 2 show ?case by (auto simp: tid_def)
qed simp

lemma link_steps_set: "(\<exists>t. (x, (t, l), y) \<in> set (link_steps n ls)) \<longleftrightarrow> (x, y) \<in> set ls \<and> l = None"
  by (induction n ls rule: link_steps.induct) auto

lemma realize_plain: "(\<And>x y k. (x, y, k) \<in> set as \<Longrightarrow> k \<noteq> SILENT_LINK) \<Longrightarrow> foldl realize (trs, fl, n) as = (trs, fl @ as, n)"
  by (induction as arbitrary: fl) (fastforce simp: realize_def)+

lemma realize_links: "foldl realize (trs, fl, n) (map (\<lambda>(x, y). (x, y, SILENT_LINK)) ls) =
   (trs @ map (\<lambda>s. fst (snd s)) (link_steps n ls), fl @ concat (map step_arcs (link_steps n ls)), n + length ls)"
  by (induction n ls arbitrary: trs fl rule: link_steps.induct) (simp_all add: realize_def fresh_name_def step_arcs_def)

lemma plain_arcs: "made_of trs fl ts \<Longrightarrow> (x, y, k) \<in> set fl \<Longrightarrow> k \<noteq> SILENT_LINK"
  by (auto simp: made_of_def step_arcs_def)

section \<open>Routes\<close>

text \<open>The traces of a graph of languages along its walks from one set of nodes to another.\<close>

definition route_lang :: "(int \<times> int) set \<Rightarrow> int set \<Rightarrow> int set \<Rightarrow> 'a list set list \<Rightarrow> 'a list set" where
  "route_lang E I J Ls = (\<Union>ws \<in> {ws. ws \<noteq> [] \<and> hd ws \<in> I \<and> last ws \<in> J \<and> successively (\<lambda>a b. (a, b) \<in> E) ws}.
     conc_list (map (\<lambda>i. Ls ! nat i) ws))"

inductive onward :: "(int \<times> int) set \<Rightarrow> int set \<Rightarrow> 'a list set list \<Rightarrow> int \<Rightarrow> 'a list \<Rightarrow> bool" for E J Ls where
  arrive: "i \<in> J \<Longrightarrow> onward E J Ls i []"
| travel: "(i, j) \<in> E \<Longrightarrow> u \<in> Ls ! nat j \<Longrightarrow> onward E J Ls j v \<Longrightarrow> onward E J Ls i (u @ v)"

lemma onward_walk:
  "onward E J Ls i v \<longleftrightarrow> (\<exists>ws. last (i # ws) \<in> J \<and> successively (\<lambda>a b. (a, b) \<in> E) (i # ws) \<and> v \<in> conc_list (map (\<lambda>i. Ls ! nat i) ws))"
proof
  show "onward E J Ls i v \<Longrightarrow> \<exists>ws. last (i # ws) \<in> J \<and> successively (\<lambda>a b. (a, b) \<in> E) (i # ws) \<and> v \<in> conc_list (map (\<lambda>i. Ls ! nat i) ws)"
  proof (induction rule: onward.induct)
    case (arrive i)
    then show ?case by (intro exI [of _ "[]"]) simp
  next
    case (travel i j u v)
    then obtain ws where "last (j # ws) \<in> J" "successively (\<lambda>a b. (a, b) \<in> E) (j # ws)" "v \<in> conc_list (map (\<lambda>i. Ls ! nat i) ws)" by blast
    with travel(1,2) show ?case by (intro exI [of _ "j # ws"]) (auto intro: concI)
  qed
  have "onward E J Ls i v" if "last (i # ws) \<in> J" "successively (\<lambda>a b. (a, b) \<in> E) (i # ws)" "v \<in> conc_list (map (\<lambda>i. Ls ! nat i) ws)" for ws
    using that
  proof (induction ws arbitrary: i v)
    case (Cons j ws)
    then obtain a b where "v = a @ b" "a \<in> Ls ! nat j" "b \<in> conc_list (map (\<lambda>i. Ls ! nat i) ws)" by (auto simp: conc_def)
    with Cons.IH [of j b] Cons.prems show ?case by (auto intro: travel)
  qed (auto intro: arrive)
  then show "\<exists>ws. last (i # ws) \<in> J \<and> successively (\<lambda>a b. (a, b) \<in> E) (i # ws) \<and> v \<in> conc_list (map (\<lambda>i. Ls ! nat i) ws) \<Longrightarrow> onward E J Ls i v"
    by blast
qed

lemma route_onward: "u \<in> route_lang E I J Ls \<longleftrightarrow> (\<exists>i \<in> I. u \<in> conc (Ls ! nat i) {v. onward E J Ls i v})"
proof -
  let ?Q = "\<lambda>ws. hd ws \<in> I \<and> last ws \<in> J \<and> successively (\<lambda>a b. (a, b) \<in> E) ws \<and> u \<in> conc_list (map (\<lambda>i. Ls ! nat i) ws)"
  have "u \<in> route_lang E I J Ls \<longleftrightarrow> (\<exists>ws. ws \<noteq> [] \<and> ?Q ws)" unfolding route_lang_def by blast
  also have "\<dots> \<longleftrightarrow> (\<exists>i ws. ?Q (i # ws))" by (metis list.distinct(1) neq_Nil_conv)
  also have "\<dots> \<longleftrightarrow> (\<exists>i ws. i \<in> I \<and> last (i # ws) \<in> J \<and> successively (\<lambda>a b. (a, b) \<in> E) (i # ws)
      \<and> u \<in> conc (Ls ! nat i) (conc_list (map (\<lambda>i. Ls ! nat i) ws)))"
    by (simp only: list.sel(1) list.map conc_list.simps)
  also have "\<dots> \<longleftrightarrow> (\<exists>i \<in> I. u \<in> conc (Ls ! nat i) {v. onward E J Ls i v})"
    unfolding onward_walk conc_def by blast
  finally show ?thesis .
qed

section \<open>Composites\<close>

text \<open>
  The situation in a composite: the steps of its fragments, and silent steps from its entry into
  the fragments of \<open>I\<close>, from those of \<open>J\<close> to its exit, and along \<open>E\<close> between fragments.
\<close>

definition linked :: "fragment list \<Rightarrow> string \<Rightarrow> string \<Rightarrow> int set \<Rightarrow> int set \<Rightarrow> (int \<times> int) set \<Rightarrow> (string \<times> string) list \<Rightarrow> bool" where
  "linked frs entry exit I J E ls \<longleftrightarrow> (\<forall>i \<in> I \<union> J \<union> fst ` E \<union> snd ` E. in_range i (length frs))
     \<and> set ls = (\<lambda>i. (entry, fr_entry (frs ! nat i))) ` I \<union> (\<lambda>i. (fr_exit (frs ! nat i), exit)) ` J
         \<union> (\<lambda>(i, j). (fr_exit (frs ! nat i), fr_entry (frs ! nat j))) ` E"

lemma place_owner:
  assumes "blocks k n frs tss" "i < length frs" "j < length frs" "x \<in> set (fr_places (frs ! i))" "x \<in> set (fr_places (frs ! j))"
  shows "i = j"
  by (rule distinct_concat_nth [of "map fr_places frs" _ _ x]) (use assms blocks_all [OF assms(1)] in auto)

lemma place_numbered: "blocks k n frs tss \<Longrightarrow> i < length frs \<Longrightarrow> x \<in> set (fr_places (frs ! i)) \<Longrightarrow> numbered ''p'' k n x"
  using blocks_all [of k n frs tss] by (auto dest: nth_mem)

lemma step_owner:
  assumes "blocks k n frs tss" "s \<in> set (concat tss)"
  obtains i where "i < length frs" "s \<in> set (tss ! i)"
proof -
  from assms(2) obtain us where us: "us \<in> set tss" "s \<in> set us" by auto
  from us(1) obtain i where "i < length tss" "tss ! i = us" by (auto simp: in_set_conv_nth)
  with us(2) blocks_all [OF assms(1)] show ?thesis by (intro that [of i]) simp_all
qed

lemma block_at:
  assumes "blocks k n frs tss" "i < length frs" "(x, t, y) \<in> set (tss ! i)"
  shows "x \<in> set (fr_places (frs ! i)) \<and> y \<in> set (fr_places (frs ! i)) \<and> y \<noteq> fr_entry (frs ! i) \<and> x \<noteq> fr_exit (frs ! i)"
  using blocks_nth [OF assms(1,2)] blockD(9) assms(3) by blast

lemma ends_at:
  assumes "blocks k n frs tss" "i < length frs"
  shows "fr_entry (frs ! i) \<in> set (fr_places (frs ! i))" "fr_exit (frs ! i) \<in> set (fr_places (frs ! i))" "fr_entry (frs ! i) \<noteq> fr_exit (frs ! i)"
  using blocks_nth [OF assms] blockD(6-8) by blast+

lemma composite_run:
  assumes "blocks k n frs tss" "linked frs entry exit I J E ls" "\<not> numbered ''p'' k n entry" "\<not> numbered ''p'' k n exit" "entry \<noteq> exit"
  shows "run (set (concat tss @ link_steps m ls)) entry u exit \<longleftrightarrow> u \<in> route_lang E I J (map2 block_traces frs tss)"
proof -
  let ?S = "set (concat tss @ link_steps m ls)" and ?Ls = "map2 block_traces frs tss"
  have len: "length tss = length frs" using blocks_all [OF assms(1)] by simp
  have rng: "nat i < length frs" and pos: "0 \<le> i" if "i \<in> I \<or> i \<in> J \<or> (i, j) \<in> E \<or> (j, i) \<in> E" for i j
  proof -
    have "i \<in> I \<union> J \<union> fst ` E \<union> snd ` E" using that by (metis UnCI fst_conv image_eqI snd_conv)
    then have "in_range i (length frs)" using assms(2) unfolding linked_def by blast
    then show "nat i < length frs" "0 \<le> i" by (auto simp: in_range_def)
  qed
  have Ls: "?Ls ! nat i = block_traces (frs ! nat i) (tss ! nat i)" if "nat i < length frs" for i
    using that len by simp
  have outside: "x \<noteq> entry \<and> x \<noteq> exit" if "i < length frs" "x \<in> set (fr_places (frs ! i))" for i x
    using place_numbered [OF assms(1) that] assms(3,4) by auto
  have split: "(\<exists>i < length frs. (x, (t, l), y) \<in> set (tss ! i)) \<or> (x, y) \<in> set ls \<and> l = None" if "(x, (t, l), y) \<in> ?S" for x t l y
  proof (cases "(x, (t, l), y) \<in> set (concat tss)")
    case True
    then show ?thesis by (rule step_owner [OF assms(1)]) blast
  next
    case False
    with that have "(x, (t, l), y) \<in> set (link_steps m ls)" by simp
    with link_steps_set [of x l y m ls] show ?thesis by blast
  qed
  have links: "(\<exists>i \<in> I. x = entry \<and> y = fr_entry (frs ! nat i)) \<or> (\<exists>i \<in> J. x = fr_exit (frs ! nat i) \<and> y = exit)
      \<or> (\<exists>i j. (i, j) \<in> E \<and> x = fr_exit (frs ! nat i) \<and> y = fr_entry (frs ! nat j))" if "(x, y) \<in> set ls" for x y
    using that assms(2) by (auto simp: linked_def)
  have stuck: "u = []" if "run ?S exit u z" for u z
    using that
  proof (cases rule: run.cases)
    case (move t l y u)
    from split [OF move(2)] show ?thesis
    proof
      assume "\<exists>i < length frs. (exit, (t, l), y) \<in> set (tss ! i)"
      then show ?thesis using block_at [OF assms(1)] outside by blast
    next
      assume "(exit, y) \<in> set ls \<and> l = None"
      then show ?thesis using links [of exit y] assms(5) outside ends_at(2) [OF assms(1)] rng by metis
    qed
  qed
  have inner: "run ?S x u y" if "run (set (tss ! i)) x u y" "i < length frs" for i x u y
  proof -
    have "tss ! i \<in> set tss" using that(2) len by simp
    then show ?thesis by (intro run_mono [OF that(1)]) auto
  qed
  have hop: "run ?S x u z" if "(x, y) \<in> set ls" "run ?S y u z" for x y u z
  proof -
    obtain t where "(x, (t, None), y) \<in> ?S" using link_steps_set [of x None y m ls] \<open>(x, y) \<in> set ls\<close> by auto
    from run.move [OF this that(2)] show ?thesis by (simp add: label_word_def)
  qed
  have there: "\<exists>a b. u = a @ b \<and> run (set (tss ! nat i)) x a (fr_exit (frs ! nat i)) \<and> onward E J ?Ls i b"
    if "run ?S x u z" "z = exit" "0 \<le> i" "nat i < length frs" "x \<in> set (fr_places (frs ! nat i))" for x u z i
    using that
  proof (induction arbitrary: i rule: run.induct)
    case (stay x)
    then show ?case using outside by blast
  next
    case (move x t l y u z)
    from split [OF move(1)] show ?case
    proof
      assume "\<exists>j < length frs. (x, (t, l), y) \<in> set (tss ! j)"
      then obtain j where j: "j < length frs" "(x, (t, l), y) \<in> set (tss ! j)" by blast
      have "j = nat i" using place_owner [OF assms(1) j(1) move(6)] block_at [OF assms(1) j] move(7) by blast
      with j block_at [OF assms(1) j] move.IH [of i] move(4-6) obtain a b where
        "u = a @ b" "run (set (tss ! nat i)) y a (fr_exit (frs ! nat i))" "onward E J ?Ls i b" by blast
      with run.move [of x t l y "set (tss ! nat i)" a "fr_exit (frs ! nat i)"] j \<open>j = nat i\<close>
      show ?thesis by (metis append.assoc)
    next
      assume xy: "(x, y) \<in> set ls \<and> l = None"
      then have w: "label_word l = []" by (simp add: label_word_def)
      from links [of x y] xy outside [OF move(6,7)] consider
        (leave) j where "j \<in> J" "x = fr_exit (frs ! nat j)" "y = exit"
        | (next_one) j j' where "(j, j') \<in> E" "x = fr_exit (frs ! nat j)" "y = fr_entry (frs ! nat j')" by blast
      then show ?thesis
      proof cases
        case leave
        have "0 \<le> j" using leave(1) pos by blast
        moreover have "nat j = nat i"
          using place_owner [OF assms(1) _ move(6) _ move(7)] rng leave(1) ends_at(2) [OF assms(1)] leave(2) by blast
        ultimately have "j = i" using move(5) by simp
        moreover have "u = []" using stuck move(2) leave(3) by blast
        ultimately show ?thesis using w leave(1,2) by (auto intro: run.stay onward.arrive)
      next
        case next_one
        have "0 \<le> j" "0 \<le> j'" using next_one(1) pos by blast+
        moreover have "nat j = nat i"
          using place_owner [OF assms(1) _ move(6) _ move(7)] rng next_one(1) ends_at(2) [OF assms(1)] next_one(2) by blast
        ultimately have "j = i" using move(5) by simp
        have j': "nat j' < length frs" using rng next_one(1) by blast
        obtain a b where ab: "u = a @ b" "run (set (tss ! nat j')) y a (fr_exit (frs ! nat j'))" "onward E J ?Ls j' b"
          using move.IH [OF move(4) \<open>0 \<le> j'\<close> j'] next_one(3) ends_at(1) [OF assms(1) j'] by blast
        then have "a \<in> ?Ls ! nat j'" unfolding Ls [OF j'] by (simp add: block_traces_def next_one(3))
        from onward.travel [OF _ this ab(3)] next_one(1) have "onward E J ?Ls i u" by (simp add: \<open>j = i\<close> ab(1))
        then show ?thesis using w next_one(2) \<open>j = i\<close> by (auto intro: run.stay)
      qed
    qed
  qed
  have arrive: "run ?S (fr_exit (frs ! nat i)) v exit" if "onward E J ?Ls i v" for i v
    using that
  proof (induction rule: onward.induct)
    case (arrive i)
    then have "(fr_exit (frs ! nat i), exit) \<in> set ls" using assms(2) by (auto simp: linked_def)
    then show ?case by (rule hop) (rule run.stay)
  next
    case (travel i j u v)
    have "(fr_exit (frs ! nat i), fr_entry (frs ! nat j)) \<in> (\<lambda>(i, j). (fr_exit (frs ! nat i), fr_entry (frs ! nat j))) ` E"
      by (rule image_eqI [OF _ travel(1)]) simp
    then have "(fr_exit (frs ! nat i), fr_entry (frs ! nat j)) \<in> set ls" using assms(2) unfolding linked_def by blast
    moreover have j: "nat j < length frs" using travel(1) rng by blast
    then have "run ?S (fr_entry (frs ! nat j)) u (fr_exit (frs ! nat j))"
      by (intro inner) (use travel(2) Ls [OF j] in \<open>simp_all add: block_traces_def\<close>)
    ultimately show ?case using travel(4) hop run_append by blast
  qed
  show ?thesis unfolding route_onward
  proof
    assume "run ?S entry u exit"
    then show "\<exists>i \<in> I. u \<in> conc (?Ls ! nat i) {v. onward E J ?Ls i v}"
    proof (cases rule: run.cases)
      case stay
      then show ?thesis using assms(5) by simp
    next
      case (move t l y u')
      have "\<not> (\<exists>i < length frs. (entry, (t, l), y) \<in> set (tss ! i))" using block_at [OF assms(1)] outside by blast
      with split [OF move(2)] have l: "(entry, y) \<in> set ls" "l = None" by blast+
      with links [of entry y] outside ends_at(2) [OF assms(1)] rng obtain i where i: "i \<in> I" "y = fr_entry (frs ! nat i)" by metis
      have "0 \<le> i" using i(1) pos by blast
      with there [OF move(3) refl, of i] i rng ends_at(1) [OF assms(1)] obtain a b where
        "u' = a @ b" "run (set (tss ! nat i)) y a (fr_exit (frs ! nat i))" "onward E J ?Ls i b" by blast
      moreover have "?Ls ! nat i = block_traces (frs ! nat i) (tss ! nat i)" using i(1) rng by (intro Ls) blast
      ultimately show ?thesis using i move(1) l(2) by (auto simp: label_word_def block_traces_def conc_def)
    qed
  next
    assume "\<exists>i \<in> I. u \<in> conc (?Ls ! nat i) {v. onward E J ?Ls i v}"
    then obtain i a b where i: "i \<in> I" "u = a @ b" "a \<in> ?Ls ! nat i" "onward E J ?Ls i b" by (auto simp: conc_def)
    have n: "nat i < length frs" using i(1) rng by blast
    have "(entry, fr_entry (frs ! nat i)) \<in> set ls" using i(1) assms(2) by (auto simp: linked_def)
    moreover have "run ?S (fr_entry (frs ! nat i)) a (fr_exit (frs ! nat i))"
      by (intro inner) (use i(3) Ls [OF n] n in \<open>simp_all add: block_traces_def\<close>)
    ultimately show "run ?S entry u exit" using arrive [OF i(4)] i(2) hop run_append by blast
  qed
qed

lemma composite_block:
  assumes "blocks k n frs tss" "linked frs entry exit I J E ls"
    and "entry = ''p'' @ string_of_nat (Suc n)" "exit = ''p'' @ string_of_nat (Suc (Suc n))"
    and "finish_composite entry exit ([entry, exit] @ concat (map fr_places frs)) (concat (map fr_transitions frs))
      (concat (map fr_flow frs) @ map (\<lambda>(x, y). (x, y, SILENT_LINK)) ls) (Suc (Suc n)) = (fr, m)"
  shows "\<exists>ts. block k m fr ts \<and> block_traces fr ts = route_lang E I J (map2 block_traces frs tss)"
proof -
  let ?l = "link_steps (Suc (Suc n)) ls" and ?ps = "concat (map fr_places frs)"
  have all: "k \<le> n" "length tss = length frs" "made_of (concat (map fr_transitions frs)) (concat (map fr_flow frs)) (concat tss)"
    "\<And>s. s \<in> set (concat tss) \<Longrightarrow> numbered ''t'' k n (tid s)" "\<And>x. x \<in> set ?ps \<Longrightarrow> numbered ''p'' k n x" "distinct ?ps"
    using blocks_all [OF assms(1)] by blast+
  have fr: "fr = \<lparr>fr_places = [entry, exit] @ ?ps, fr_transitions = concat (map fr_transitions frs) @ map (\<lambda>s. fst (snd s)) ?l,
      fr_flow = concat (map fr_flow frs) @ concat (map step_arcs ?l), fr_entry = entry, fr_exit = exit\<rparr>" "m = Suc (Suc n) + length ls"
  proof -
    have plain: "foldl realize (concat (map fr_transitions frs), [], Suc (Suc n)) (concat (map fr_flow frs))
      = (concat (map fr_transitions frs), [] @ concat (map fr_flow frs), Suc (Suc n))"
      by (rule realize_plain) (rule plain_arcs [OF all(3)])
    have "foldl realize (concat (map fr_transitions frs), [], Suc (Suc n)) (concat (map fr_flow frs) @ map (\<lambda>(x, y). (x, y, SILENT_LINK)) ls)
      = (concat (map fr_transitions frs) @ map (\<lambda>s. fst (snd s)) ?l, concat (map fr_flow frs) @ concat (map step_arcs ?l), Suc (Suc n) + length ls)"
      unfolding foldl_append plain realize_links by simp
    from assms(5) [unfolded finish_composite_def this] show
      "fr = \<lparr>fr_places = [entry, exit] @ ?ps, fr_transitions = concat (map fr_transitions frs) @ map (\<lambda>s. fst (snd s)) ?l,
        fr_flow = concat (map fr_flow frs) @ concat (map step_arcs ?l), fr_entry = entry, fr_exit = exit\<rparr>" "m = Suc (Suc n) + length ls"
      by auto
  qed
  have new: "\<not> numbered ''p'' k n entry" "\<not> numbered ''p'' k n exit" "entry \<noteq> exit"
    unfolding assms(3,4) by (auto simp: numbered_def dest: string_of_nat_inj)
  have sil: "made_of (map (\<lambda>s. fst (snd s)) ?l) (concat (map step_arcs ?l)) ?l" by (simp add: made_of_def link_steps_distinct)
  have "tid s \<noteq> tid s'" if "s \<in> set (concat tss)" "s' \<in> set ?l" for s s'
    using numbered_apart [OF all(4) [OF that(1)], of "Suc (Suc n)"] link_steps_tids [OF that(2)] by auto
  from made_of_append [OF all(3) sil this] have made: "made_of (fr_transitions fr) (fr_flow fr) (concat tss @ ?l)"
    by (simp only: fr(1) fragment.select_convs)
  have tids: "numbered ''t'' k m (tid s)" if "s \<in> set (concat tss @ ?l)" for s
  proof (cases "s \<in> set (concat tss)")
    case True
    from numbered_mono [OF all(4) [OF this]] show ?thesis using fr(2) by simp
  next
    case False
    with that have "s \<in> set ?l" by simp
    from numbered_mono [OF link_steps_tids [OF this]] show ?thesis using fr(2) all(1) by simp
  qed
  have "numbered ''p'' k m entry" "numbered ''p'' k m exit"
    unfolding assms(3,4) by (rule numberedI; use all(1) fr(2) in simp)+
  then have places: "numbered ''p'' k m x" if "x \<in> set (fr_places fr)" for x
    using that numbered_mono [OF all(5), of x k m] fr all(1) by auto
  have dist: "distinct (fr_places fr)" using all(5,6) new by (auto simp: fr(1))
  have own: "set (fr_places (frs ! i)) \<subseteq> set ?ps" if "i < length frs" for i using that by (auto dest: nth_mem)
  have rng: "nat i < length frs" if "i \<in> I \<or> i \<in> J \<or> (\<exists>j. (i, j) \<in> E \<or> (j, i) \<in> E)" for i
  proof -
    have "i \<in> I \<union> J \<union> fst ` E \<union> snd ` E" using that by (metis UnCI fst_conv image_eqI snd_conv)
    then have "in_range i (length frs)" using assms(2) unfolding linked_def by blast
    then show ?thesis by (auto simp: in_range_def)
  qed
  have steps: "x \<in> set (fr_places fr) \<and> y \<in> set (fr_places fr) \<and> y \<noteq> fr_entry fr \<and> x \<noteq> fr_exit fr"
    if "(x, t, y) \<in> set (concat tss @ ?l)" for x t y
  proof (cases "(x, t, y) \<in> set (concat tss)")
    case True
    then obtain i where i: "i < length frs" "(x, t, y) \<in> set (tss ! i)" by (rule step_owner [OF assms(1)])
    from block_at [OF assms(1) i] own [OF i(1)] have "x \<in> set ?ps" "y \<in> set ?ps" by blast+
    then show ?thesis using all(5) new by (auto simp: fr(1))
  next
    case False
    with that have "(x, (fst t, snd t), y) \<in> set ?l" by simp
    with link_steps_set [of x "snd t" y "Suc (Suc n)" ls] have "(x, y) \<in> set ls" by blast
    then consider (a) i where "i \<in> I" "x = entry" "y = fr_entry (frs ! nat i)" | (b) i where "i \<in> J" "x = fr_exit (frs ! nat i)" "y = exit"
      | (c) i j where "(i, j) \<in> E" "x = fr_exit (frs ! nat i)" "y = fr_entry (frs ! nat j)"
      using assms(2) by (auto simp: linked_def)
    then have "(x = entry \<or> x \<in> set ?ps) \<and> (y = exit \<or> y \<in> set ?ps)"
      by cases (use rng own ends_at(1,2) [OF assms(1)] in blast)+
    then show ?thesis using all(5) new by (auto simp: fr(1))
  qed
  have "block k m fr (concat tss @ ?l)"
  proof -
    have "k < m" "fr_entry fr \<in> set (fr_places fr)" "fr_exit fr \<in> set (fr_places fr)" "fr_entry fr \<noteq> fr_exit fr"
      using new(3) all(1) fr(2) by (simp_all add: fr(1))
    moreover have "\<forall>(x, t, y) \<in> set (concat tss @ ?l). x \<in> set (fr_places fr) \<and> y \<in> set (fr_places fr) \<and> y \<noteq> fr_entry fr \<and> x \<noteq> fr_exit fr"
      by (intro ballI, simp only: split_paired_all prod.case, rule steps)
    ultimately show ?thesis unfolding block_def using made tids places dist by blast
  qed
  moreover have "block_traces fr (concat tss @ ?l) = route_lang E I J (map2 block_traces frs tss)"
    using composite_run [OF assms(1,2) new] by (auto simp: block_traces_def fr(1))
  ultimately show ?thesis by blast
qed

section \<open>The traces of a compiled model\<close>

text \<open>
  What the net of a model can do, read off the model: an order is walked along single chains of
  its stored edges, and frequencies play no part.
\<close>

definition unpreceded :: "edge list \<Rightarrow> nat \<Rightarrow> int set" where
  "unpreceded es n = {i. in_range i n \<and> i \<notin> dst ` set es}"

definition unfollowed :: "edge list \<Rightarrow> nat \<Rightarrow> int set" where
  "unfollowed es n = {i. in_range i n \<and> i \<notin> src ` set es}"

fun chain_traces :: "pnode \<Rightarrow> trace set" where
  "chain_traces (Atom l _ _ _) = {[l]}"
| "chain_traces (PartialOrder cs es f cl d) =
     route_lang (erel es) (unpreceded es (length cs)) (unfollowed es (length cs)) (map chain_traces cs)"
| "chain_traces (ChoiceGraph cs es st en f d) = route_lang (erel es) {st} {en} (map chain_traces cs)"
| "chain_traces (Foreign _) = {}"
| "chain_traces _ = {[]}"

lemma edge_links:
  assumes "\<And>e. e \<in> set es \<Longrightarrow> in_range (src e) (length frs) \<and> in_range (dst e) (length frs)"
  shows "mapE (edge_link frs) es = Inr (map (\<lambda>(x, y). (x, y, SILENT_LINK)) (map (\<lambda>e. (fr_exit (frs ! nat (src e)), fr_entry (frs ! nat (dst e)))) es))"
  using assms by (induction es) (simp_all add: edge_link_def)

lemma edge_link_rel: "(\<lambda>(i, j). (fr_exit (frs ! nat i), fr_entry (frs ! nat j))) ` erel es =
    set (map (\<lambda>e. (fr_exit (frs ! nat (src e)), fr_entry (frs ! nat (dst e)))) es)"
  by (simp add: erel_def image_image)

lemma marked:
  assumes "\<And>e. e \<in> set es \<Longrightarrow> in_range (src e) n \<and> in_range (dst e) n" "length hp = n" "length hs = n"
  shows "\<exists>hp' hs'. foldE mark_edge (hp, hs) es = Inr (hp', hs') \<and> length hp' = n \<and> length hs' = n
    \<and> (\<forall>i < n. (hp' ! i \<longleftrightarrow> hp ! i \<or> int i \<in> dst ` set es) \<and> (hs' ! i \<longleftrightarrow> hs ! i \<or> int i \<in> src ` set es))"
  using assms
proof (induction es arbitrary: hp hs)
  case (Cons e es)
  have r: "in_range (src e) n" "in_range (dst e) n" using Cons.prems(1) by simp_all
  then have step: "mark_edge (hp, hs) e = Inr (hp[nat (dst e) := True], hs[nat (src e) := True])"
    using Cons.prems(2,3) by (simp add: mark_edge_def)
  obtain hp' hs' where IH: "foldE mark_edge (hp[nat (dst e) := True], hs[nat (src e) := True]) es = Inr (hp', hs')" "length hp' = n" "length hs' = n"
    "\<forall>i < n. (hp' ! i \<longleftrightarrow> hp[nat (dst e) := True] ! i \<or> int i \<in> dst ` set es) \<and> (hs' ! i \<longleftrightarrow> hs[nat (src e) := True] ! i \<or> int i \<in> src ` set es)"
    using Cons.IH [of "hp[nat (dst e) := True]" "hs[nat (src e) := True]"] Cons.prems by auto
  have "xs[nat j := True] ! i \<longleftrightarrow> xs ! i \<or> int i = j" if "i < n" "in_range j n" "length xs = n" for xs :: "bool list" and i j
    using that by (auto simp: nth_list_update in_range_def)
  then show ?case using IH step r Cons.prems(2,3) by auto
qed simp

lemma borders_set:
  assumes "length hp = n" "length hs = n" "\<forall>i < n. (hp ! i \<longleftrightarrow> int i \<in> dst ` set es) \<and> (hs ! i \<longleftrightarrow> int i \<in> src ` set es)" "length frs = n"
  obtains ls where "concat (map (\<lambda>i. (if \<not> hp ! i then [(entry, fr_entry (frs ! i), SILENT_LINK)] else [])
      @ (if \<not> hs ! i then [(fr_exit (frs ! i), exit, SILENT_LINK)] else [])) [0..<length frs]) = map (\<lambda>(x, y). (x, y, SILENT_LINK)) ls"
    "set ls = (\<lambda>i. (entry, fr_entry (frs ! nat i))) ` unpreceded es n \<union> (\<lambda>i. (fr_exit (frs ! nat i), exit)) ` unfollowed es n"
proof -
  let ?g = "\<lambda>i. (if \<not> hp ! i then [(entry, fr_entry (frs ! i))] else []) @ (if \<not> hs ! i then [(fr_exit (frs ! i), exit)] else [])"
  let ?ls = "concat (map ?g [0..<n])"
  have "concat (map (\<lambda>i. (if \<not> hp ! i then [(entry, fr_entry (frs ! i), SILENT_LINK)] else [])
      @ (if \<not> hs ! i then [(fr_exit (frs ! i), exit, SILENT_LINK)] else [])) [0..<length frs]) = map (\<lambda>(x, y). (x, y, SILENT_LINK)) ?ls"
    unfolding map_concat map_map assms(4) by (intro arg_cong [where f = concat] map_cong) auto
  moreover have "set ?ls = (\<lambda>i. (entry, fr_entry (frs ! i))) ` {i. i < n \<and> \<not> hp ! i} \<union> (\<lambda>i. (fr_exit (frs ! i), exit)) ` {i. i < n \<and> \<not> hs ! i}"
    by auto
  moreover have "unpreceded es n = int ` {i. i < n \<and> \<not> hp ! i}" "unfollowed es n = int ` {i. i < n \<and> \<not> hs ! i}"
    using assms(3) by (auto simp: unpreceded_def unfollowed_def elim!: in_rangeE)
  ultimately show ?thesis by (intro that [of ?ls]) (simp_all add: image_image)
qed

lemma compile_order_block:
  assumes "blocks k n frs tss" "length frs = length cs" "order_edges_ok es (length cs)"
  shows "\<exists>fr m ts. compile_partial_order frs es n = Inr (fr, m) \<and> block k m fr ts
    \<and> block_traces fr ts = route_lang (erel es) (unpreceded es (length cs)) (unfollowed es (length cs)) (map2 block_traces frs tss)"
proof -
  let ?n = "length frs" and ?entry = "''p'' @ string_of_nat (Suc n)" and ?exit = "''p'' @ string_of_nat (Suc (Suc n))"
  have rng: "in_range (src e) ?n \<and> in_range (dst e) ?n" if "e \<in> set es" for e
    using that assms(2,3) by (simp add: order_edges_ok_def)
  obtain hp hs where marks: "foldE mark_edge (replicate ?n False, replicate ?n False) es = Inr (hp, hs)" "length hp = ?n" "length hs = ?n"
    "\<forall>i < ?n. (hp ! i \<longleftrightarrow> int i \<in> dst ` set es) \<and> (hs ! i \<longleftrightarrow> int i \<in> src ` set es)"
    using marked [of es ?n "replicate ?n False" "replicate ?n False"] rng by auto
  obtain ls where ls: "concat (map (\<lambda>i. (if \<not> hp ! i then [(?entry, fr_entry (frs ! i), SILENT_LINK)] else [])
      @ (if \<not> hs ! i then [(fr_exit (frs ! i), ?exit, SILENT_LINK)] else [])) [0..<?n]) = map (\<lambda>(x, y). (x, y, SILENT_LINK)) ls"
    "set ls = (\<lambda>i. (?entry, fr_entry (frs ! nat i))) ` unpreceded es ?n \<union> (\<lambda>i. (fr_exit (frs ! nat i), ?exit)) ` unfollowed es ?n"
    by (rule borders_set [OF marks(2-4) refl])
  let ?ls = "ls @ map (\<lambda>e. (fr_exit (frs ! nat (src e)), fr_entry (frs ! nat (dst e)))) es"
  obtain fr m where fin: "finish_composite ?entry ?exit ([?entry, ?exit] @ concat (map fr_places frs)) (concat (map fr_transitions frs))
      (concat (map fr_flow frs) @ map (\<lambda>(x, y). (x, y, SILENT_LINK)) ?ls) (Suc (Suc n)) = (fr, m)" by (cases "finish_composite ?entry ?exit
      ([?entry, ?exit] @ concat (map fr_places frs)) (concat (map fr_transitions frs))
      (concat (map fr_flow frs) @ map (\<lambda>(x, y). (x, y, SILENT_LINK)) ?ls) (Suc (Suc n))")
  have "in_range i ?n" if "i \<in> fst ` erel es \<union> snd ` erel es" for i
    using that rng by (auto simp: erel_def)
  then have "linked frs ?entry ?exit (unpreceded es ?n) (unfollowed es ?n) (erel es) ?ls"
    unfolding linked_def edge_link_rel set_append ls(2) by (auto simp: unpreceded_def unfollowed_def)
  from composite_block [OF assms(1) this refl refl fin] obtain ts where
    "block k m fr ts" "block_traces fr ts = route_lang (erel es) (unpreceded es ?n) (unfollowed es ?n) (map2 block_traces frs tss)" by blast
  moreover have links: "mapE (edge_link frs) es = Inr (map (\<lambda>(x, y). (x, y, SILENT_LINK))
      (map (\<lambda>e. (fr_exit (frs ! nat (src e)), fr_entry (frs ! nat (dst e)))) es))" by (rule edge_links) (rule rng)
  have "compile_partial_order frs es n = Inr (fr, m)"
    unfolding compile_partial_order_def marks(1) links fresh_name_def Let_def bindE_simps prod.case ls(1)
    using fin by (simp only: map_append)
  ultimately show ?thesis using assms(2) by auto
qed

lemma compile_choice_block:
  assumes "blocks k n frs tss" "\<And>e. e \<in> set es \<Longrightarrow> in_range (src e) (length frs) \<and> in_range (dst e) (length frs)"
    "in_range st (length frs)" "in_range en (length frs)"
  shows "\<exists>fr m ts. compile_choice_graph frs es st en n = Inr (fr, m) \<and> block k m fr ts
    \<and> block_traces fr ts = route_lang (erel es) {st} {en} (map2 block_traces frs tss)"
proof -
  let ?entry = "''p'' @ string_of_nat (Suc n)" and ?exit = "''p'' @ string_of_nat (Suc (Suc n))"
  let ?ls = "[(?entry, fr_entry (frs ! nat st)), (fr_exit (frs ! nat en), ?exit)] @ map (\<lambda>e. (fr_exit (frs ! nat (src e)), fr_entry (frs ! nat (dst e)))) es"
  obtain fr m where fin: "finish_composite ?entry ?exit ([?entry, ?exit] @ concat (map fr_places frs)) (concat (map fr_transitions frs))
      (concat (map fr_flow frs) @ map (\<lambda>(x, y). (x, y, SILENT_LINK)) ?ls) (Suc (Suc n)) = (fr, m)" by (cases "finish_composite ?entry ?exit
      ([?entry, ?exit] @ concat (map fr_places frs)) (concat (map fr_transitions frs))
      (concat (map fr_flow frs) @ map (\<lambda>(x, y). (x, y, SILENT_LINK)) ?ls) (Suc (Suc n))")
  have "in_range i (length frs)" if "i \<in> fst ` erel es \<union> snd ` erel es" for i
    using that assms(2) by (auto simp: erel_def)
  then have "linked frs ?entry ?exit {st} {en} (erel es) ?ls"
    unfolding linked_def edge_link_rel set_append using assms(3,4) by auto
  from composite_block [OF assms(1) this refl refl fin] obtain ts where
    "block k m fr ts" "block_traces fr ts = route_lang (erel es) {st} {en} (map2 block_traces frs tss)" by blast
  moreover have links: "mapE (edge_link frs) es = Inr (map (\<lambda>(x, y). (x, y, SILENT_LINK))
      (map (\<lambda>e. (fr_exit (frs ! nat (src e)), fr_entry (frs ! nat (dst e)))) es))" by (rule edge_links) (rule assms(2))
  have "compile_choice_graph frs es st en n = Inr (fr, m)"
    unfolding compile_choice_graph_def links fresh_name_def Let_def prod.case child_at_in_range [OF assms(3)]
      child_at_in_range [OF assms(4)] bindE_simps
    using fin by simp
  ultimately show ?thesis by blast
qed

lemma compiled:
  "wf_node v \<Longrightarrow> \<exists>fr m ts. compile v k = Inr (fr, m) \<and> block k m fr ts \<and> block_traces fr ts = chain_traces v"
  "(\<And>c. c \<in> set cs \<Longrightarrow> wf_node c) \<Longrightarrow> \<exists>frs m tss. compile_all cs k = Inr (frs, m) \<and> blocks k m frs tss \<and> length frs = length cs
    \<and> map2 block_traces frs tss = map chain_traces cs"
proof (induction v k and cs k rule: compile_compile_all.induct)
  case (1 n)
  then show ?case using block_leaf [of None n] by (cases "compile_leaf None n") (auto simp: label_word_def)
next
  case (2 n)
  then show ?case using block_leaf [of None n] by (cases "compile_leaf None n") (auto simp: label_word_def)
next
  case (3 n)
  then show ?case using block_leaf [of None n] by (cases "compile_leaf None n") (auto simp: label_word_def)
next
  case (4 l a p c n)
  then show ?case using block_leaf [of "Some l" n] by (cases "compile_leaf (Some l) n") (auto simp: label_word_def)
next
  case (5 cs es f cl d n)
  note W = wf_partial_orderD [OF 5(2)]
  obtain frs m tss where B: "compile_all cs n = Inr (frs, m)" "blocks n m frs tss" "length frs = length cs"
    "map2 block_traces frs tss = map chain_traces cs" using 5(1) W(8) by blast
  from compile_order_block [OF B(2,3) W(2)] B show ?case by simp
next
  case (6 cs es st en f d n)
  note W = wf_choice_graphD [OF 6(2)]
  obtain frs m tss where B: "compile_all cs n = Inr (frs, m)" "blocks n m frs tss" "length frs = length cs"
    "map2 block_traces frs tss = map chain_traces cs" using 6(1) W(7) by blast
  have "in_range (src e) (length frs) \<and> in_range (dst e) (length frs)" if "e \<in> set es" for e
    using W(2) that B(3) by (auto simp: choice_edges_ok_def)
  from compile_choice_block [OF B(2) this, of es st en] W(3,4) B show ?case by simp
next
  case (8 n)
  then show ?case by (auto intro: blocks_Nil)
next
  case (9 c cs n)
  obtain fr m ts where c: "compile c n = Inr (fr, m)" "block n m fr ts" "block_traces fr ts = chain_traces c" using 9(1,3) by auto
  obtain frs m' tss where cs: "compile_all cs m = Inr (frs, m')" "blocks m m' frs tss" "length frs = length cs"
    "map2 block_traces frs tss = map chain_traces cs" using 9(2) [OF c(1) refl] 9(3) by auto
  show ?case using c cs blocks_Cons [OF c(2) cs(2)]
    by (intro exI [of _ "fr # frs"] exI [of _ m'] exI [of _ "ts # tss"]) simp
qed simp

end
