(* ===== verification/Powl_Net_Laws.thy ===== *)
theory Powl_Net_Laws
  imports Powl_Net_Facts Powl_Guard_Facts
begin

text \<open>
  What the net sent to the soundness checker says about a model, and what it does not.
\<close>

lemma compiled_net:
  assumes "wf_node v"
  obtains w ts where "powl_to_wf_net_request v = Inr w" "made_of (wn_transitions w) (wn_flow w) ts"
    "{u. run (set ts) (wn_source w) u (wn_sink w)} = chain_traces v" "wn_source w \<noteq> wn_sink w"
proof -
  obtain fr m ts where c: "compile v 0 = Inr (fr, m)" "block 0 m fr ts" "block_traces fr ts = chain_traces v"
    using compiled(1) [OF assms, of 0] by blast
  let ?w = "\<lparr>wn_places = fr_places fr, wn_transitions = fr_transitions fr, wn_flow = fr_flow fr,
    wn_source = fr_entry fr, wn_sink = fr_exit fr\<rparr>"
  have "powl_to_wf_net_request v = Inr ?w" using c(1) by (simp add: powl_to_wf_net_request_def)
  then show ?thesis by (rule that) (use c blockD(2,8) [OF c(2)] in \<open>simp_all add: block_traces_def\<close>)
qed

text \<open>
  C13.  Every admitted model has a net, and its complete firing sequences, from one token in the
  source to one token in the sink, are labelled by the chains of the model: one branch of a
  partial order after another along stored edges, choices by their walks, frequencies ignored.
\<close>

theorem net_traces_of_model:
  assumes "wf_node v"
  shows "\<exists>w. powl_to_wf_net_request v = Inr w \<and> net_traces w = chain_traces v"
proof -
  obtain w ts where w: "powl_to_wf_net_request v = Inr w" "made_of (wn_transitions w) (wn_flow w) ts"
    "{u. run (set ts) (wn_source w) u (wn_sink w)} = chain_traces v" by (rule compiled_net [OF assms])
  then show ?thesis using net_of_steps [OF w(2)] by (auto simp: net_traces_def)
qed

text \<open>
  Safety and proper completion of the net hold whatever the model is: every marking that can
  be reached from the source has exactly one token, so no place ever holds two and a token in
  the sink is the only one.
\<close>

theorem net_keeps_one_token:
  assumes "wf_node v"
  shows "\<exists>w. powl_to_wf_net_request v = Inr w \<and> wn_source w \<noteq> wn_sink w
    \<and> (\<forall>u N. plays w {#wn_source w#} u N \<longrightarrow> size N = 1 \<and> (wn_sink w \<in># N \<longrightarrow> N = {#wn_sink w#}))"
proof -
  obtain w ts where w: "powl_to_wf_net_request v = Inr w" "made_of (wn_transitions w) (wn_flow w) ts" "wn_source w \<noteq> wn_sink w"
    by (rule compiled_net [OF assms])
  then show ?thesis using net_of_steps [OF w(2)] by auto
qed

section \<open>Where the net is exact\<close>

fun choices_once :: "pnode \<Rightarrow> bool" where
  "choices_once (PartialOrder cs es f cl d) \<longleftrightarrow> False"
| "choices_once (ChoiceGraph cs es st en f d) \<longleftrightarrow> f = ONCE \<and> (\<forall>c \<in> set cs. choices_once c)"
| "choices_once _ \<longleftrightarrow> True"

lemma route_graph: "graph_lang None E st en Ls = route_lang E {st} {en} Ls"
  by (simp add: graph_lang_def route_lang_def walk_def within_def)

lemma chains_of_choices: "choices_once v \<Longrightarrow> chain_traces v = den None v"
proof (induction v)
  case (ChoiceGraph cs es st en f d)
  then have "map chain_traces cs = map (den None) cs" by simp
  with ChoiceGraph show ?case by (simp add: route_graph del: map_eq_conv)
qed simp_all

text \<open>
  For a model without partial orders in which nothing is skipped or repeated the net is
  exact: its complete firing sequences are the language of the model.
\<close>

theorem net_exact_for_choices:
  assumes "wf_node v" "choices_once v"
  shows "\<exists>w. powl_to_wf_net_request v = Inr w \<and> net_traces w = den None v"
proof -
  obtain w ts where w: "powl_to_wf_net_request v = Inr w" "made_of (wn_transitions w) (wn_flow w) ts"
    "{u. run (set ts) (wn_source w) u (wn_sink w)} = chain_traces v" by (rule compiled_net [OF assms(1)])
  then show ?thesis using net_of_steps [OF w(2)] chains_of_choices [OF assms(2)] by (auto simp: net_traces_def)
qed

theorem net_exact_for_choices_witness:
  "\<exists>w. powl_to_wf_net_request loop_graph = Inr w \<and> net_traces w = den None loop_graph"
  by (rule net_exact_for_choices [OF loop_graph_wf]) (simp add: loop_graph_def)

theorem net_keeps_one_token_witness:
  "\<exists>w. powl_to_wf_net_request loop_graph = Inr w \<and> wn_source w \<noteq> wn_sink w
    \<and> (\<forall>u N. plays w {#wn_source w#} u N \<longrightarrow> size N = 1 \<and> (wn_sink w \<in># N \<longrightarrow> N = {#wn_sink w#}))"
  by (rule net_keeps_one_token [OF loop_graph_wf])

theorem net_traces_of_model_witness: "\<exists>w. powl_to_wf_net_request two_steps = Inr w \<and> net_traces w = chain_traces two_steps"
  by (rule net_traces_of_model [OF two_steps_wf])

section \<open>Where it is not\<close>

lemma strands_length: "(\<forall>z \<in> set zs. fst z < n) \<Longrightarrow> length zs = (\<Sum>i<n. length (strand i zs))"
proof (induction zs)
  case (Cons z zs)
  have "(\<Sum>i<n. length (strand i (z # zs))) = (\<Sum>i<n. length (strand i zs) + (if i = fst z then 1 else 0))"
    by (intro sum.cong) (auto simp: strand_def)
  also have "\<dots> = length zs + 1" using Cons by (simp add: sum.distrib)
  finally show ?case by simp
qed (simp add: strand_def)

text \<open>
  C14.  Parallel actions become a choice: for a model of two or more actions without any order,
  every trace of the model performs all of them, but the complete firing sequences of its net
  are the single actions, so no behaviour of the net is one of the model.
\<close>

theorem parallel_net_is_choice:
  assumes "wf_node v" "v = PartialOrder (map act ls) [] ONCE [] d"
  shows "\<exists>w. powl_to_wf_net_request v = Inr w \<and> net_traces w = {[l] |l. l \<in> set ls}
    \<and> (\<forall>u \<in> den None v. length u = length ls) \<and> net_traces w \<inter> den None v = {}"
proof -
  have n: "2 \<le> length ls" using wf_partial_orderD(1) assms by force
  obtain w ts where w: "powl_to_wf_net_request v = Inr w" "made_of (wn_transitions w) (wn_flow w) ts"
    "{u. run (set ts) (wn_source w) u (wn_sink w)} = chain_traces v" by (rule compiled_net [OF assms(1)])
  have all: "unpreceded [] n = {i. in_range i n}" "unfollowed [] n = {i. in_range i n}" for n
    by (simp_all add: unpreceded_def unfollowed_def)
  have on: "onward {} J Ls i v \<longleftrightarrow> i \<in> J \<and> v = []" for J Ls i and v :: trace
    by (auto intro: onward.arrive elim: onward.cases)
  have "u \<in> chain_traces v \<longleftrightarrow> (\<exists>l \<in> set ls. u = [l])" for u
  proof -
    have "u \<in> chain_traces v \<longleftrightarrow> (\<exists>i. in_range i (length ls) \<and> u \<in> map (\<lambda>l. {[l]}) ls ! nat i)"
      unfolding assms(2) by (simp add: all route_onward on erel_def comp_def cong: conj_cong)
    also have "\<dots> \<longleftrightarrow> (\<exists>k < length ls. u = [ls ! k])"
    proof
      assume "\<exists>i. in_range i (length ls) \<and> u \<in> map (\<lambda>l. {[l]}) ls ! nat i"
      then obtain i where "in_range i (length ls)" "u \<in> map (\<lambda>l. {[l]}) ls ! nat i" by blast
      then show "\<exists>k < length ls. u = [ls ! k]" by (auto elim!: in_rangeE)
    next
      assume "\<exists>k < length ls. u = [ls ! k]"
      then obtain k where "k < length ls" "u = [ls ! k]" by blast
      then show "\<exists>i. in_range i (length ls) \<and> u \<in> map (\<lambda>l. {[l]}) ls ! nat i"
        by (intro exI [of _ "int k"]) (simp add: in_range_def)
    qed
    also have "\<dots> \<longleftrightarrow> (\<exists>l \<in> set ls. u = [l])" by (auto simp: in_set_conv_nth)
    finally show ?thesis .
  qed
  then have chains: "chain_traces v = {[l] |l. l \<in> set ls}" by blast
  have len: "length u = length ls" if "u \<in> den None v" for u
  proof -
    from that obtain zs where zs: "u = map snd zs" "\<forall>z \<in> set zs. fst z < length ls" "\<forall>i < length ls. strand i zs = [ls ! i]"
      unfolding assms(2) by (auto simp: merge_lang_def comp_def)
    have "(\<Sum>i<length ls. length (strand i zs)) = length ls" using zs(3) by simp
    then show ?thesis using strands_length [OF zs(2)] zs(1) by simp
  qed
  have "net_traces w = chain_traces v" using net_of_steps [OF w(2)] w(3) by (auto simp: net_traces_def)
  moreover from chains len n have "chain_traces v \<inter> den None v = {}" by force
  ultimately show ?thesis using w(1) chains len by auto
qed

theorem parallel_net_is_choice_witness:
  "\<exists>v w. mk_partial_order [act ''encrypt'', act ''sign''] [] ONCE = Inr v \<and> powl_to_wf_net_request v = Inr w
     \<and> net_traces w = {[l] |l. l \<in> {''encrypt'', ''sign''}} \<and> net_traces w \<inter> den None v = {}"
proof -
  have mk: "mk_partial_order [act ''encrypt'', act ''sign''] [] ONCE = Inr (PartialOrder (map act [''encrypt'', ''sign'']) [] ONCE [] 2)"
    using mk_parallel [of "[act ''encrypt'', act ''sign'']" 2 ONCE] by (simp add: composite_depth_def node_depth_def MAX_POWL_DEPTH_def)
  have "wf_node (PartialOrder (map act [''encrypt'', ''sign'']) [] ONCE [] 2)" by (rule mk_partial_order_wf [OF mk]) (auto simp: ONCE_def wf_frequency_def)
  from parallel_net_is_choice [OF this refl] mk show ?thesis by auto
qed

end
