(* ===== verification/Agent_Faults.thy ===== *)
theory Agent_Faults
  imports Agent_Ledger
begin

text \<open>
  \<^verbatim>\<open>agent/faults.py\<close>: the fault matrix, a total function from what was observed to one of
  seven outcomes, and the three observations that are derived from ledgers and occurrence keys.
\<close>

section \<open>Kinds, outcomes and observations\<close>

datatype fault_kind = DUPLICATE_OBSERVATION | OUT_OF_ORDER_OBSERVATION | DOWNSTREAM_TIMEOUT | NOTIFICATION_REJECTED
  | EVIDENCE_SINK_UNAVAILABLE | IDENTITY_FORBIDDEN | AUTHORITY_EXPIRED | POPULATION_EXPANDED
  | POSTCONDITION_UNCONFIRMED | LABEL_CONTEXT_COLLISION | TORN_FIRE

datatype fault_outcome = Continue | Repair | Replan | Request_New_Authority | Retry_Within_Bound | Refuse_Fault | Unknown

definition DECLARED_MAPPING_ONLY :: "fault_kind set" where
  "DECLARED_MAPPING_ONLY = {OUT_OF_ORDER_OBSERVATION, NOTIFICATION_REJECTED, IDENTITY_FORBIDDEN, AUTHORITY_EXPIRED,
     POPULATION_EXPANDED, POSTCONDITION_UNCONFIRMED}"

record fault_observation =
  fo_kind :: fault_kind
  fo_attempt :: int
  fo_retry_bound :: int
  fo_torn :: bool
  fo_already_committed :: bool
  fo_context_diverged :: bool
  fo_keys_compared :: bool

text \<open>An observation with the defaults of the class.\<close>

definition observed_fault :: "fault_kind \<Rightarrow> fault_observation" where
  "observed_fault k = \<lparr>fo_kind = k, fo_attempt = 1, fo_retry_bound = 3, fo_torn = False, fo_already_committed = False,
     fo_context_diverged = False, fo_keys_compared = False\<rparr>"

record fault_classification =
  fc_kind :: fault_kind
  fc_outcome :: fault_outcome
  fc_reason :: string
  fc_refusal_code :: "agent_code option"
  fc_mechanism_backed :: bool

section \<open>The matrix\<close>

definition retry :: "fault_observation \<Rightarrow> string \<Rightarrow> fault_classification" where
  "retry ob what =
     (if fo_attempt ob \<ge> fo_retry_bound ob
      then \<lparr>fc_kind = fo_kind ob, fc_outcome = Refuse_Fault,
             fc_reason = what @ '': retry bound '' @ string_of_int (fo_retry_bound ob) @ '' exhausted at attempt '' @ string_of_int (fo_attempt ob),
             fc_refusal_code = Some AGENT_BOUND_EXHAUSTED, fc_mechanism_backed = True\<rparr>
      else \<lparr>fc_kind = fo_kind ob, fc_outcome = Retry_Within_Bound,
             fc_reason = what @ '': attempt '' @ string_of_int (fo_attempt ob) @ '' of '' @ string_of_int (fo_retry_bound ob),
             fc_refusal_code = None, fc_mechanism_backed = True\<rparr>)"

definition verdict :: "fault_observation \<Rightarrow> fault_outcome \<Rightarrow> string \<Rightarrow> agent_code option \<Rightarrow> bool \<Rightarrow> fault_classification" where
  "verdict ob out why code backed =
     \<lparr>fc_kind = fo_kind ob, fc_outcome = out, fc_reason = why, fc_refusal_code = code, fc_mechanism_backed = backed\<rparr>"

definition classify :: "fault_observation \<Rightarrow> fault_classification" where
  "classify ob = (case fo_kind ob of
       TORN_FIRE \<Rightarrow> verdict ob Refuse_Fault ''INTENDED with no COMMITTED; recovery state is UNKNOWN and the session refuses to resume''
         (Some LEDGER_UNRESUMABLE) True
     | DUPLICATE_OBSERVATION \<Rightarrow>
         (if \<not> fo_already_committed ob then verdict ob Unknown ''claimed duplicate, but no committed occurrence supports it'' None True
          else verdict ob Continue ''occurrence key already committed; the observation adds nothing'' None True)
     | LABEL_CONTEXT_COLLISION \<Rightarrow>
         (if \<not> fo_keys_compared ob
          then verdict ob Unknown ''collision claimed without comparing occurrence keys; 'nobody looked' is not evidence of sameness'' None True
          else if \<not> fo_context_diverged ob
          then verdict ob Continue ''same activity and same context: genuinely one occurrence'' None True
          else verdict ob Replan
            ''identical activity_sha256 with divergent context_sha256: two distinct occurrences, decided against different world states'' None True)
     | DOWNSTREAM_TIMEOUT \<Rightarrow> retry ob ''downstream call timed out''
     | EVIDENCE_SINK_UNAVAILABLE \<Rightarrow> retry ob ''evidence sink unavailable''
     | OUT_OF_ORDER_OBSERVATION \<Rightarrow> verdict ob Repair
         ''observation order violates append order; the log is reorderable without changing what happened'' None False
     | NOTIFICATION_REJECTED \<Rightarrow> verdict ob Repair
         ''capture rejected the payload; the payload is reformable without changing the decision'' None False
     | IDENTITY_FORBIDDEN \<Rightarrow> verdict ob Request_New_Authority
         ''identity received 403; this runtime requests authority and never grants it'' None False
     | AUTHORITY_EXPIRED \<Rightarrow> verdict ob Request_New_Authority
         ''authority expired before delivery; a fresh grant must come from a broker, not from here'' None False
     | POPULATION_EXPANDED \<Rightarrow> verdict ob Replan ''population expanded after containment; the plan's scope premise no longer holds'' None False
     | POSTCONDITION_UNCONFIRMED \<Rightarrow> verdict ob Unknown
         (''containment postcondition could not be confirmed; observation is insufficient to classify and this is not 'probably fine'' @ [CHR 0x27]) None False)"

text \<open>The wire form of a classification.\<close>

definition kind_value :: "fault_kind \<Rightarrow> string" where
  "kind_value k = (case k of DUPLICATE_OBSERVATION \<Rightarrow> ''DUPLICATE_OBSERVATION'' | OUT_OF_ORDER_OBSERVATION \<Rightarrow> ''OUT_OF_ORDER_OBSERVATION''
     | DOWNSTREAM_TIMEOUT \<Rightarrow> ''DOWNSTREAM_TIMEOUT'' | NOTIFICATION_REJECTED \<Rightarrow> ''NOTIFICATION_REJECTED''
     | EVIDENCE_SINK_UNAVAILABLE \<Rightarrow> ''EVIDENCE_SINK_UNAVAILABLE'' | IDENTITY_FORBIDDEN \<Rightarrow> ''IDENTITY_FORBIDDEN''
     | AUTHORITY_EXPIRED \<Rightarrow> ''AUTHORITY_EXPIRED'' | POPULATION_EXPANDED \<Rightarrow> ''POPULATION_EXPANDED''
     | POSTCONDITION_UNCONFIRMED \<Rightarrow> ''POSTCONDITION_UNCONFIRMED'' | LABEL_CONTEXT_COLLISION \<Rightarrow> ''LABEL_CONTEXT_COLLISION''
     | TORN_FIRE \<Rightarrow> ''TORN_FIRE'')"

definition fault_outcome_value :: "fault_outcome \<Rightarrow> string" where
  "fault_outcome_value out = (case out of Continue \<Rightarrow> ''continue'' | Repair \<Rightarrow> ''repair'' | Replan \<Rightarrow> ''replan''
     | Request_New_Authority \<Rightarrow> ''request_new_authority'' | Retry_Within_Bound \<Rightarrow> ''retry_within_bound''
     | Refuse_Fault \<Rightarrow> ''refuse'' | Unknown \<Rightarrow> ''unknown'')"

definition code_value :: "agent_code \<Rightarrow> string" where
  "code_value c = (case c of SESSION_CLOSED \<Rightarrow> ''SKD-AGENT-001'' | NO_OPEN_EPOCH \<Rightarrow> ''SKD-AGENT-002''
     | UNKNOWN_SUPERSEDED_EPOCH \<Rightarrow> ''SKD-AGENT-003'' | PRESERVATION_VIOLATED \<Rightarrow> ''SKD-AGENT-004''
     | UNKNOWN_INTENT_TOKEN \<Rightarrow> ''SKD-AGENT-005'' | LEDGER_UNRESUMABLE \<Rightarrow> ''SKD-AGENT-006''
     | ACTION_NODE_UNRESOLVED \<Rightarrow> ''SKD-AGENT-007'' | INTENT_ALREADY_OUTSTANDING \<Rightarrow> ''SKD-AGENT-008''
     | EPOCH_MODEL_INVALID \<Rightarrow> ''SKD-AGENT-009'' | AGENT_BOUND_EXHAUSTED \<Rightarrow> ''SKD-AGENT-010'')"

definition classification_json :: "fault_classification \<Rightarrow> json" where
  "classification_json c = JObj [(''kind'', JStr (kind_value (fc_kind c))), (''outcome'', JStr (fault_outcome_value (fc_outcome c))),
     (''reason'', JStr (fc_reason c)),
     (''refusal_code'', case fc_refusal_code c of None \<Rightarrow> JNull | Some q \<Rightarrow> JStr (code_value q)),
     (''mechanism_backed'', JBool (fc_mechanism_backed c))]"

section \<open>Observations with state behind them\<close>

definition observe_torn_fire :: "occurrence_ledger \<Rightarrow> fault_observation option" where
  "observe_torn_fire l = (if outstanding l = [] then None else Some ((observed_fault TORN_FIRE)\<lparr>fo_torn := True\<rparr>))"

definition observe_duplicate_observation :: "occurrence_key list \<Rightarrow> occurrence_key \<Rightarrow> fault_observation" where
  "observe_duplicate_observation committed key =
     (observed_fault DUPLICATE_OBSERVATION)\<lparr>fo_already_committed := key \<in> set committed\<rparr>"

definition observe_label_context_collision :: "occurrence_key \<Rightarrow> occurrence_key \<Rightarrow> fault_observation" where
  "observe_label_context_collision left right = (observed_fault LABEL_CONTEXT_COLLISION)\<lparr>fo_keys_compared := True,
     fo_context_diverged := ok_activity left = ok_activity right \<and> ok_context left \<noteq> ok_context right\<rparr>"

section \<open>Properties\<close>

lemmas fault_defs = classify_def retry_def verdict_def observed_fault_def observe_torn_fire_def
  observe_duplicate_observation_def observe_label_context_collision_def

text \<open>
  The matrix is fail-closed: a refusal is the outcome exactly of a torn fire and of a
  retryable fault whose attempts have reached the bound, it always carries a code and nothing
  else does, retries are granted exactly below the bound, and the outcomes that no mechanism
  backs are those of the declared mapping.
\<close>

theorem fault_matrix:
  "(fc_outcome (classify ob) = Refuse_Fault \<longleftrightarrow> fo_kind ob = TORN_FIRE
      \<or> fo_kind ob \<in> {DOWNSTREAM_TIMEOUT, EVIDENCE_SINK_UNAVAILABLE} \<and> fo_retry_bound ob \<le> fo_attempt ob)
    \<and> (fc_refusal_code (classify ob) \<noteq> None \<longleftrightarrow> fc_outcome (classify ob) = Refuse_Fault)
    \<and> (fc_outcome (classify ob) = Retry_Within_Bound \<longleftrightarrow>
        fo_kind ob \<in> {DOWNSTREAM_TIMEOUT, EVIDENCE_SINK_UNAVAILABLE} \<and> fo_attempt ob < fo_retry_bound ob)
    \<and> (fc_mechanism_backed (classify ob) \<longleftrightarrow> fo_kind ob \<notin> DECLARED_MAPPING_ONLY)
    \<and> fc_kind (classify ob) = fo_kind ob"
  by (cases "fo_kind ob") (simp_all add: fault_defs DECLARED_MAPPING_ONLY_def not_le)

text \<open>
  C38.  Torn fires and crashes: of any ledger that was rehydrated from the lines written before a
  crash, a torn fire is observed exactly when the last line announces an act that was not
  recorded; it is classified as a refusal, with the code that resuming the ledger raises.
\<close>

theorem torn_fire_refused:
  assumes "inj sha" "written sha l"
  shows "case observe_torn_fire (from_records (take n (ol_records l))) of
      None \<Rightarrow> even (length (take n (ol_records l))) \<and> assert_resumable (from_records (take n (ol_records l))) = Inr ()
    | Some ob \<Rightarrow> odd (length (take n (ol_records l))) \<and> fc_outcome (classify ob) = Refuse_Fault
        \<and> (\<exists>q. fc_refusal_code (classify ob) = Some q \<and> assert_resumable (from_records (take n (ol_records l))) = agent_refuse q)"
  using resumable_prefix [OF assms, of n]
  by (auto simp: fault_defs is_resumable_def assert_resumable_def)

text \<open>
  The verdicts derived from occurrence keys: a duplicate is passed over exactly when its key
  is committed; on a pair of keys the verdict is to replan exactly when they are the same
  activity in different contexts, and to continue, as \<open>genuinely one occurrence\<close>, in every
  other case, also for keys of different activities.
\<close>

theorem collision_verdict:
  "(fc_outcome (classify (observe_duplicate_observation keys k)) = Continue \<longleftrightarrow> k \<in> set keys)
    \<and> fc_outcome (classify (observe_label_context_collision x y)) =
      (if ok_activity x = ok_activity y \<and> ok_context x \<noteq> ok_context y then Replan else Continue)
    \<and> (fc_reason (classify (observe_label_context_collision x y)) = ''same activity and same context: genuinely one occurrence''
        \<longleftrightarrow> \<not> (ok_activity x = ok_activity y \<and> ok_context x \<noteq> ok_context y))"
  by (simp add: fault_defs)

theorem torn_fire_refused_witness:
  "\<exists>ob. observe_torn_fire (from_records (ol_records mid_act)) = Some ob \<and> fc_outcome (classify ob) = Refuse_Fault
     \<and> fc_refusal_code (classify ob) = Some LEDGER_UNRESUMABLE"
proof -
  have "take 3 (ol_records mid_act) = ol_records mid_act" "odd (length (ol_records mid_act))" by (simp_all add: mid_act_length)
  then show ?thesis using torn_fire_refused [OF inj_on_id mid_act_written, of 3]
    by (auto simp: assert_resumable_def split: option.splits if_splits)
qed

end
