(* ===== verification/Ocel_Conformance.thy ===== *)
theory Ocel_Conformance
  imports Ocel_Recorder_Facts Complex_Main
begin

text \<open>
  \<^verbatim>\<open>ocel/object_centric_conformance.py\<close>: the events of each object of a log, compared by edit
  distance with what the object was meant to go through.  A float is the rational number it
  approximates.
\<close>

section \<open>Edit distance\<close>

text \<open>
  One cell of the table: \<open>prev\<close> is the row above, \<open>row\<close> the row that is being filled, \<open>j\<close>
  counts from 1.
\<close>

definition lev_cell :: "'a \<Rightarrow> 'a list \<Rightarrow> nat list \<Rightarrow> nat list \<Rightarrow> nat \<Rightarrow> nat list" where
  "lev_cell ca b prev row j =
     row[j := min (min (prev ! j + 1) (row ! (j - 1) + 1)) (prev ! (j - 1) + (if ca = b ! (j - 1) then 0 else 1))]"

definition lev_row :: "'a list \<Rightarrow> nat list \<Rightarrow> nat \<times> 'a \<Rightarrow> nat list" where
  "lev_row b prev r = (case r of (i, ca) \<Rightarrow> foldl (lev_cell ca b prev) ([i] @ replicate (length b) 0) [1..<length b + 1])"

definition levenshtein :: "'a list \<Rightarrow> 'a list \<Rightarrow> nat" where
  "levenshtein a b =
     (if a = [] then length b else if b = [] then length a
      else last (foldl (lev_row b) [0..<length b + 1] (zip [1..<length a + 1] a)))"

definition trace_fitness :: "string list \<Rightarrow> string list \<Rightarrow> rat" where
  "trace_fitness observed intended =
     (if observed = [] \<and> intended = [] then 1
      else let distance = levenshtein observed intended; denom = max (length observed) (length intended)
           in 1 - (if denom \<noteq> 0 then of_nat distance / of_nat denom else 0))"

section \<open>Projections\<close>

text \<open>The text of a value; that of a list or a map is left to a parameter.\<close>

definition value_text :: "(ocel_value \<Rightarrow> string) \<Rightarrow> ocel_value \<Rightarrow> string" where
  "value_text repr v = (case v of VInteger i \<Rightarrow> string_of_int i | VFloat t \<Rightarrow> t | VBoolean b \<Rightarrow> (if b then ''True'' else ''False'')
     | VString s \<Rightarrow> s | VTime i \<Rightarrow> string_of_int i | VNull \<Rightarrow> ''None'' | _ \<Rightarrow> repr v)"

definition event_label :: "(ocel_value \<Rightarrow> string) \<Rightarrow> log_event \<Rightarrow> string" where
  "event_label repr e = (case find (\<lambda>a. fst a = ''label'') (ev_attributes e) of
     Some a \<Rightarrow> value_text repr (snd a) | None \<Rightarrow> ev_activity e)"

definition in_time :: "log_event list \<Rightarrow> log_event list" where
  "in_time es = sort_key (\<lambda>e. (ev_time e, ev_id e)) es"

definition project_object_trace :: "(ocel_value \<Rightarrow> string) \<Rightarrow> ocel_log \<Rightarrow> string \<Rightarrow> string list" where
  "project_object_trace repr L ob =
     (let linked = map eo_event (filter (\<lambda>l. eo_object l = ob) (lg_links L))
      in map (event_label repr) (in_time (filter (\<lambda>e. ev_id e \<in> set linked) (lg_events L))))"

definition flattened_trace :: "(ocel_value \<Rightarrow> string) \<Rightarrow> ocel_log \<Rightarrow> string list" where
  "flattened_trace repr L = map (event_label repr) (in_time (lg_events L))"

section \<open>The check\<close>

record object_trace_fitness =
  of_object :: string
  of_type :: string
  of_intended :: "string list"
  of_observed :: "string list"
  of_fitness :: rat
  of_conforms :: bool

record object_conformance =
  oc_per_object :: "object_trace_fitness list"
  oc_overall_fitness :: rat
  oc_all_conform :: bool

definition score_object :: "(ocel_value \<Rightarrow> string) \<Rightarrow> ocel_log \<Rightarrow> (string \<times> string) list \<Rightarrow> string \<times> string list \<Rightarrow> object_trace_fitness res" where
  "score_object repr L known p = (case p of (ob, intended) \<Rightarrow>
     (case map_of known ob of None \<Rightarrow> Inl KeyError
      | Some ty \<Rightarrow> let observed = project_object_trace repr L ob; fitness = trace_fitness observed intended
         in Inr \<lparr>of_object = ob, of_type = ty, of_intended = intended, of_observed = observed, of_fitness = fitness,
                 of_conforms = (fitness = 1)\<rparr>))"

definition check_object_centric_conformance :: "(ocel_value \<Rightarrow> string) \<Rightarrow> ocel_log \<Rightarrow> (string \<times> string list) list \<Rightarrow> object_conformance res" where
  "check_object_centric_conformance repr L intended =
     bindE (mapE (score_object repr L (object_types L)) intended) (\<lambda>per.
       Inr \<lparr>oc_per_object = per,
            oc_overall_fitness = (if per \<noteq> [] then sum_list (map of_fitness per) / of_nat (length per) else 0),
            oc_all_conform = (per \<noteq> [] \<and> list_all of_conforms per)\<rparr>)"

section \<open>The table computes the least number of edits\<close>

text \<open>A list is edited into another by keeping, changing, dropping and adding elements.\<close>

inductive edits :: "'a list \<Rightarrow> 'a list \<Rightarrow> nat \<Rightarrow> bool" where
  nothing: "edits [] [] 0"
| keep: "edits xs ys n \<Longrightarrow> edits (x # xs) (x # ys) n"
| change: "edits xs ys n \<Longrightarrow> edits (x # xs) (y # ys) (Suc n)"
| drop_one: "edits xs ys n \<Longrightarrow> edits (x # xs) ys (Suc n)"
| add_one: "edits xs ys n \<Longrightarrow> edits xs (y # ys) (Suc n)"

fun distance :: "'a list \<Rightarrow> 'a list \<Rightarrow> nat" where
  "distance [] ys = length ys"
| "distance xs [] = length xs"
| "distance (x # xs) (y # ys) =
     min (min (distance xs (y # ys) + 1) (distance (x # xs) ys + 1)) (distance xs ys + (if x = y then 0 else 1))"

lemma distance_Nil [simp]: "distance xs [] = length xs"
  by (cases xs) simp_all

lemma edits_distance: "edits xs ys (distance xs ys)"
proof (induction xs ys rule: distance.induct)
  case (1 ys)
  then show ?case by (induction ys) (auto intro: edits.intros)
next
  case (2 x xs)
  have "edits xs [] (length xs)" for xs :: "'a list" by (induction xs) (auto intro: edits.intros)
  from this [of "x # xs"] show ?case by simp
next
  case (3 x xs y ys)
  then show ?case by (auto simp: min_def intro: edits.intros)
qed

lemma distance_Cons_le: "distance xs (y # ys) \<le> distance xs ys + 1" "distance (x # xs) ys \<le> distance xs ys + 1"
  by (cases xs; simp) (cases ys; simp)

lemma distance_step: "distance (x # xs) (y # ys) \<le> distance xs ys + (if x = y then 0 else 1)"
  by simp

lemma distance_least: "edits xs ys n \<Longrightarrow> distance xs ys \<le> n"
proof (induction rule: edits.induct)
  case (keep xs ys n x)
  then show ?case using distance_step [of x xs x ys] by simp
next
  case (change xs ys n x y)
  then show ?case using distance_step [of x xs y ys] by (auto split: if_splits)
next
  case (drop_one xs ys n x)
  then show ?case using distance_Cons_le(2) [of x xs ys] by linarith
next
  case (add_one xs ys n y)
  then show ?case using distance_Cons_le(1) [of xs y ys] by linarith
qed simp

lemma edits_append: "edits xs ys n \<Longrightarrow> edits us vs m \<Longrightarrow> edits (xs @ us) (ys @ vs) (n + m)"
  by (induction rule: edits.induct) (auto intro: edits.intros)

lemma edits_rev: "edits xs ys n \<Longrightarrow> edits (rev xs) (rev ys) n"
proof (induction rule: edits.induct)
  case (keep xs ys n x)
  from edits_append [OF this(2) edits.keep [OF edits.nothing, where x = x]] show ?case by simp
next
  case (change xs ys n x y)
  from edits_append [OF this(2) edits.change [OF edits.nothing, where x = x and y = y]] show ?case by simp
next
  case (drop_one xs ys n x)
  from edits_append [OF this(2) edits.drop_one [OF edits.nothing, where x = x]] show ?case by simp
next
  case (add_one xs ys n y)
  from edits_append [OF this(2) edits.add_one [OF edits.nothing, where y = y]] show ?case by simp
qed (simp add: edits.nothing)

lemma distance_rev: "distance (rev xs) (rev ys) = distance xs ys"
proof (rule antisym)
  show "distance (rev xs) (rev ys) \<le> distance xs ys" by (rule distance_least [OF edits_rev [OF edits_distance]])
  show "distance xs ys \<le> distance (rev xs) (rev ys)"
    using distance_least [OF edits_rev [OF edits_distance [of "rev xs" "rev ys"]]] by simp
qed

text \<open>The distances of the prefixes, by their last elements.\<close>

definition prefix_distance :: "'a list \<Rightarrow> 'a list \<Rightarrow> nat \<Rightarrow> nat \<Rightarrow> nat" where
  "prefix_distance a b i j = distance (rev (take i a)) (rev (take j b))"

lemma prefix_distance_0 [simp]:
  "j \<le> length b \<Longrightarrow> prefix_distance a b 0 j = j" "i \<le> length a \<Longrightarrow> prefix_distance a b i 0 = i"
  by (simp_all add: prefix_distance_def)

lemma prefix_distance_Suc:
  assumes "i < length a" "j < length b"
  shows "prefix_distance a b (Suc i) (Suc j) = min (min (prefix_distance a b i (Suc j) + 1) (prefix_distance a b (Suc i) j + 1))
    (prefix_distance a b i j + (if a ! i = b ! j then 0 else 1))"
  using assms by (simp add: prefix_distance_def take_Suc_conv_app_nth)

lemma lev_row_distance:
  assumes "i < length a" "prev = map (prefix_distance a b i) [0..<length b + 1]"
  shows "lev_row b prev (Suc i, a ! i) = map (prefix_distance a b (Suc i)) [0..<length b + 1]"
proof -
  let ?row = "\<lambda>m. map (\<lambda>j. if j \<le> m then prefix_distance a b (Suc i) j else 0) [0..<length b + 1]"
  have "foldl (lev_cell (a ! i) b prev) ([Suc i] @ replicate (length b) 0) [1..<m + 1] = ?row m" if "m \<le> length b" for m
    using that
  proof (induction m)
    case 0
    show ?case using assms(1) by (intro nth_equalityI) (auto simp: nth_Cons simp del: upt_Suc split: nat.split)
  next
    case (Suc m)
    then have "foldl (lev_cell (a ! i) b prev) ([Suc i] @ replicate (length b) 0) [1..<Suc m + 1] = lev_cell (a ! i) b prev (?row m) (Suc m)"
      by simp
    also have "\<dots> = ?row (Suc m)"
    proof (rule nth_equalityI)
      fix j assume "j < length (lev_cell (a ! i) b prev (?row m) (Suc m))"
      then have j: "j < length b + 1" by (simp add: lev_cell_def)
      show "lev_cell (a ! i) b prev (?row m) (Suc m) ! j = ?row (Suc m) ! j"
      proof (cases "j = Suc m")
        case True
        with j Suc.prems assms show ?thesis
          by (simp add: lev_cell_def prefix_distance_Suc del: upt_Suc)
      next
        case False
        with j Suc.prems show ?thesis by (simp add: lev_cell_def nth_list_update le_Suc_eq del: upt_Suc)
      qed
    qed (simp add: lev_cell_def)
    finally show ?case .
  qed
  from this [of "length b"] show ?thesis by (simp add: lev_row_def cong: map_cong del: upt_Suc)
qed

lemma levenshtein_distance: "levenshtein a b = distance a b"
proof (cases "a = [] \<or> b = []")
  case False
  have "foldl (lev_row b) [0..<length b + 1] (zip [1..<m + 1] (take m a)) = map (prefix_distance a b m) [0..<length b + 1]" if "m \<le> length a" for m
    using that
  proof (induction m)
    case 0
    show ?case by (intro nth_equalityI) (simp_all del: upt_Suc)
  next
    case (Suc m)
    then have "zip [1..<Suc m + 1] (take (Suc m) a) = zip [1..<m + 1] (take m a) @ [(Suc m, a ! m)]"
      by (simp add: take_Suc_conv_app_nth zip_append1 min_def)
    with Suc lev_row_distance [of m a _ b] show ?case by (simp del: upt_Suc)
  qed
  from this [of "length a"] False show ?thesis
    by (simp add: levenshtein_def prefix_distance_def distance_rev last_map)
qed (auto simp: levenshtein_def)

text \<open>
  C19.  The edit distance: the table of the check holds in its last cell the least number of
  changes, insertions and deletions that turn one trace into the other.
\<close>

theorem levenshtein_is_edit_distance:
  "edits a b (levenshtein a b) \<and> (\<forall>n. edits a b n \<longrightarrow> levenshtein a b \<le> n)"
  unfolding levenshtein_distance using edits_distance distance_least by blast

section \<open>Fitness\<close>

lemma distance_bound: "distance a b \<le> max (length a) (length b)"
  by (induction a b rule: distance.induct) (auto simp: min_def max_def split: if_splits)

lemma distance_zero: "distance a b = 0 \<longleftrightarrow> a = b"
proof
  show "distance a b = 0 \<Longrightarrow> a = b" by (induction a b rule: distance.induct) (auto simp: min_def split: if_splits)
  have "distance b b = 0" by (induction b) (simp_all add: min_def)
  then show "a = b \<Longrightarrow> distance a b = 0" by simp
qed

lemma trace_fitness_law: "0 \<le> trace_fitness a b \<and> trace_fitness a b \<le> 1 \<and> (trace_fitness a b = 1 \<longleftrightarrow> a = b)"
proof (cases "a = [] \<and> b = []")
  case False
  let ?m = "max (length a) (length b)"
  have m: "0 < ?m" using False by (simp add: less_max_iff_disj)
  have f: "trace_fitness a b = 1 - of_nat (distance a b) / of_nat ?m"
    using False m by (auto simp: trace_fitness_def Let_def levenshtein_distance)
  have "(of_nat (distance a b) :: rat) \<le> of_nat ?m" using distance_bound by (simp only: of_nat_le_iff)
  then have "(of_nat (distance a b) :: rat) / of_nat ?m \<le> 1" using m by (simp add: divide_le_eq_1)
  moreover have "(of_nat (distance a b) :: rat) / of_nat ?m = 0 \<longleftrightarrow> a = b" using m distance_zero [of a b] by auto
  ultimately show ?thesis unfolding f by simp
qed (simp add: trace_fitness_def)

lemma mean_one:
  assumes "xs \<noteq> []" "\<And>x. x \<in> set xs \<Longrightarrow> 0 \<le> f x \<and> f x \<le> (1 :: rat)"
  shows "0 \<le> sum_list (map f xs) / of_nat (length xs)" "sum_list (map f xs) / of_nat (length xs) \<le> 1"
    "sum_list (map f xs) / of_nat (length xs) = 1 \<longleftrightarrow> (\<forall>x \<in> set xs. f x = 1)"
proof -
  have n: "(0 :: rat) < of_nat (length xs)" using assms(1) by simp
  have "0 \<le> sum_list (map f xs) \<and> sum_list (map f xs) \<le> of_nat (length xs) \<and>
      (sum_list (map f xs) = of_nat (length xs) \<longleftrightarrow> (\<forall>x \<in> set xs. f x = 1))" using assms(2)
  proof (induction xs)
    case (Cons x xs)
    then have "0 \<le> f x" "f x \<le> 1" "0 \<le> sum_list (map f xs)" "sum_list (map f xs) \<le> of_nat (length xs)"
      "sum_list (map f xs) = of_nat (length xs) \<longleftrightarrow> (\<forall>x \<in> set xs. f x = 1)" by auto
    then show ?case by auto
  qed simp
  then show "0 \<le> sum_list (map f xs) / of_nat (length xs)" "sum_list (map f xs) / of_nat (length xs) \<le> 1"
    "sum_list (map f xs) / of_nat (length xs) = 1 \<longleftrightarrow> (\<forall>x \<in> set xs. f x = 1)"
    using n by (auto simp: field_simps)
qed

lemma object_types_dom: "map_of (object_types L) i = None \<longleftrightarrow> i \<notin> log_objects L"
proof -
  have "map_of (foldl (\<lambda>d b. dict_set (ob_id b) (ob_type b) d) d obs) i = None \<longleftrightarrow> map_of d i = None \<and> i \<notin> ob_id ` set obs" for d obs
    by (induction obs arbitrary: d) auto
  from this [of "[]" "lg_objects L"] show ?thesis by (simp add: object_types_def)
qed

lemma score_object_law:
  "score_object repr L (object_types L) (ob, t) = Inr f \<Longrightarrow> ob \<in> log_objects L \<and> of_fitness f = trace_fitness (project_object_trace repr L ob) t
     \<and> (of_conforms f \<longleftrightarrow> project_object_trace repr L ob = t)"
  "score_object repr L (object_types L) (ob, t) = Inl x \<Longrightarrow> x = KeyError \<and> ob \<notin> log_objects L"
  using object_types_dom [of L ob] trace_fitness_law [of "project_object_trace repr L ob" t]
  by (auto simp: score_object_def Let_def split: option.splits)

lemma conformance_law:
  "case check_object_centric_conformance repr L intended of
      Inl x \<Rightarrow> x = KeyError \<and> (\<exists>p \<in> set intended. fst p \<notin> log_objects L)
    | Inr r \<Rightarrow> (\<forall>p \<in> set intended. fst p \<in> log_objects L)
        \<and> (oc_all_conform r \<longleftrightarrow> intended \<noteq> [] \<and> (\<forall>p \<in> set intended. project_object_trace repr L (fst p) = snd p))
        \<and> (oc_all_conform r \<longleftrightarrow> oc_overall_fitness r = 1) \<and> 0 \<le> oc_overall_fitness r \<and> oc_overall_fitness r \<le> 1"
proof (cases "mapE (score_object repr L (object_types L)) intended")
  case (Inl x)
  then obtain p where "p \<in> set intended" "score_object repr L (object_types L) p = Inl x" using mapE_InlD by metis
  with score_object_law(2) [of repr L "fst p" "snd p" x] Inl show ?thesis by (auto simp: check_object_centric_conformance_def)
next
  case (Inr per)
  then have all: "list_all2 (\<lambda>p f. score_object repr L (object_types L) p = Inr f) intended per" by (simp add: mapE_Inr_iff)
  then have len: "length per = length intended" by (simp add: list_all2_lengthD)
  have law: "fst p \<in> log_objects L \<and> of_fitness f = trace_fitness (project_object_trace repr L (fst p)) (snd p)
      \<and> (of_conforms f \<longleftrightarrow> project_object_trace repr L (fst p) = snd p)" if "score_object repr L (object_types L) p = Inr f" for p f
    using score_object_law(1) [of repr L "fst p" "snd p" f] that by simp
  have known: "\<forall>p \<in> set intended. fst p \<in> log_objects L"
    using all law by (fastforce simp: list_all2_conv_all_nth in_set_conv_nth)
  have conf: "(\<forall>f \<in> set per. of_conforms f) \<longleftrightarrow> (\<forall>p \<in> set intended. project_object_trace repr L (fst p) = snd p)"
  proof -
    have "of_conforms (per ! i) \<longleftrightarrow> project_object_trace repr L (fst (intended ! i)) = snd (intended ! i)" if "i < length intended" for i
      using law [of "intended ! i" "per ! i"] all that by (simp add: list_all2_conv_all_nth)
    then show ?thesis using len by (simp add: all_set_conv_all_nth)
  qed
  have fit: "0 \<le> of_fitness f \<and> of_fitness f \<le> 1 \<and> (of_fitness f = 1 \<longleftrightarrow> of_conforms f)" if "f \<in> set per" for f
  proof -
    from that all obtain k where "score_object repr L (object_types L) (intended ! k) = Inr f"
      by (auto simp: list_all2_conv_all_nth in_set_conv_nth)
    from law [OF this] trace_fitness_law show ?thesis by metis
  qed
  let ?r = "\<lparr>oc_per_object = per, oc_overall_fitness = (if per \<noteq> [] then sum_list (map of_fitness per) / of_nat (length per) else 0),
    oc_all_conform = (per \<noteq> [] \<and> list_all of_conforms per)\<rparr>"
  have r: "check_object_centric_conformance repr L intended = Inr ?r" by (simp add: check_object_centric_conformance_def Inr)
  have "oc_all_conform ?r \<longleftrightarrow> intended \<noteq> [] \<and> (\<forall>p \<in> set intended. project_object_trace repr L (fst p) = snd p)"
    using conf len by (auto simp: list_all_iff)
  moreover have "(oc_all_conform ?r \<longleftrightarrow> oc_overall_fitness ?r = 1) \<and> 0 \<le> oc_overall_fitness ?r \<and> oc_overall_fitness ?r \<le> 1"
    using mean_one [of per of_fitness] fit by (cases "per = []") (simp_all add: list_all_iff)
  ultimately show ?thesis using r known by simp
qed

text \<open>
  C20.  What object-centric conformance decides: the check raises \<open>KeyError\<close> exactly when a
  trace is intended for an object the log does not declare; otherwise every object conforms
  exactly when something was intended and each object went through precisely what was
  intended, and then, and only then, the overall fitness, which lies between 0 and 1, is 1.
\<close>

theorem object_conformance_decides:
  "case check_object_centric_conformance repr L intended of
      Inl x \<Rightarrow> x = KeyError \<and> (\<exists>p \<in> set intended. fst p \<notin> log_objects L)
    | Inr r \<Rightarrow> (\<forall>p \<in> set intended. fst p \<in> log_objects L)
        \<and> (oc_all_conform r \<longleftrightarrow> intended \<noteq> [] \<and> (\<forall>p \<in> set intended. project_object_trace repr L (fst p) = snd p))
        \<and> (oc_all_conform r \<longleftrightarrow> oc_overall_fitness r = 1) \<and> 0 \<le> oc_overall_fitness r \<and> oc_overall_fitness r \<le> 1"
  by (rule conformance_law)

section \<open>The log of an execution\<close>

lemma record_atom_events:
  assumes "record_atom env r st t = Inr r'" "es_label st = Some l"
  shows "er_execution r' = er_execution r \<and> (\<exists>e l'. lg_events (er_log r') = lg_events (er_log r) @ [e] \<and> ev_time e = t \<and> event_label repr e = l
    \<and> lg_links (er_log r') = lg_links (er_log r) @ [\<lparr>eo_event = ev_id e, eo_object = er_execution r, eo_qualifier = None\<rparr>, l'])"
  using assms by (auto simp: record_atom_def Let_def ensure_activity_def append_event_def with_objects_def as_link_def event_label_def
    value_text_def split: if_splits)

definition told_in_order :: "(ocel_value \<Rightarrow> string) \<Rightarrow> string list \<Rightarrow> execution_recorder \<Rightarrow> bool" where
  "told_in_order repr ls r \<longleftrightarrow> map (event_label repr) (lg_events (er_log r)) = ls
     \<and> map ev_time (lg_events (er_log r)) = map int [0..<length ls]
     \<and> (\<forall>e \<in> set (lg_events (er_log r)). \<exists>l \<in> set (lg_links (er_log r)). eo_object l = er_execution r \<and> eo_event l = ev_id e)"

lemma record_steps_told:
  assumes "record_steps env r sts = Inr r'" "list_all tagged sts" "told_in_order repr [] r"
  shows "told_in_order repr (step_labels sts) r' \<and> er_execution r' = er_execution r"
proof -
  have gen: "foldE (\<lambda>(r, t) st. if es_kind st \<noteq> ''Atom'' then Inr (r, t)
       else bindE (record_atom env r st t) (\<lambda>r'. Inr (r', t + 1))) (r, t) sts = Inr (r', t') \<Longrightarrow> list_all tagged sts \<Longrightarrow>
     told_in_order repr ls r \<Longrightarrow> t = int (length ls) \<Longrightarrow> told_in_order repr (ls @ step_labels sts) r' \<and> er_execution r' = er_execution r"
    for r t r' t' ls
  proof (induction sts arbitrary: r t ls)
    case (Cons st sts)
    show ?case
    proof (cases "es_label st")
      case None
      with Cons show ?thesis by (simp add: tagged_def step_labels_def map_filter_simps)
    next
      case (Some l)
      with Cons.prems(2) have k: "es_kind st = ''Atom''" by (simp add: tagged_def)
      with Cons.prems(1) obtain r1 where r1: "record_atom env r st t = Inr r1" by (auto simp: bindE_Inr_iff)
      from record_atom_events [OF r1 Some, of repr] Cons.prems(3,4) have "told_in_order repr (ls @ [l]) r1" "er_execution r1 = er_execution r"
        by (auto simp: told_in_order_def)
      with Cons.IH [of r1 "t + 1" "ls @ [l]"] Cons.prems k r1 Some show ?thesis by (simp add: step_labels_def map_filter_simps)
    qed
  qed (simp add: step_labels_def map_filter_simps)
  from assms(1) obtain t' where "foldE (\<lambda>(r, t) st. if es_kind st \<noteq> ''Atom'' then Inr (r, t)
       else bindE (record_atom env r st t) (\<lambda>r'. Inr (r', t + 1))) (r, 0) sts = Inr (r', t')" by (auto simp: record_steps_def bindE_Inr_iff)
  from gen [OF this assms(2,3)] show ?thesis by simp
qed

lemma in_time_told: "told_in_order repr ls r \<Longrightarrow> in_time (lg_events (er_log r)) = lg_events (er_log r)"
proof -
  assume told: "told_in_order repr ls r"
  let ?es = "lg_events (er_log r)"
  have len: "length ?es = length ls" using told by (auto simp: told_in_order_def dest: arg_cong [where f = length])
  have "ev_time (?es ! i) = int i" if "i < length ?es" for i
  proof -
    have "map ev_time ?es ! i = map int [0..<length ls] ! i" using told by (simp add: told_in_order_def)
    with that len show ?thesis by simp
  qed
  then have "sorted (map (\<lambda>e. (ev_time e, ev_id e)) ?es)" by (auto simp: sorted_iff_nth_mono_less)
  then show ?thesis unfolding in_time_def by (rule sort_key_id_if_sorted)
qed

lemma project_told:
  assumes "told_in_order repr ls r"
  shows "project_object_trace repr (er_log r) (er_execution r) = ls"
proof -
  have "filter (\<lambda>e. ev_id e \<in> set (map eo_event (filter (\<lambda>l. eo_object l = er_execution r) (lg_links (er_log r))))) (lg_events (er_log r))
      = lg_events (er_log r)"
    using assms by (intro filter_True) (force simp: told_in_order_def)
  then show ?thesis using assms in_time_told [OF assms] by (simp add: project_object_trace_def told_in_order_def)
qed

text \<open>
  C18.  From execution to conformance: when an execution of a lawful model that is recorded by a
  fresh recorder returns, the events of its execution object spell a trace of the language of
  the model, and the object-centric check of that object accepts exactly this trace.
\<close>

theorem execution_conforms_to_itself:
  assumes "wf_node v" "\<And>n. length (hex8 env n) = 8"
    and "execute_with_ocel env cb most fuel v w (new_execution_recorder i h) = ((s, Returned), res)"
    and "\<forall>l. er_execution (new_execution_recorder i h) \<noteq> ''activity-'' @ l"
  shows "\<exists>r u. res = Inr r \<and> u = project_object_trace repr (er_log r) (er_execution r) \<and> u \<in> den None v
    \<and> (\<forall>t. (\<exists>c. check_object_centric_conformance repr (er_log r) [(er_execution r, t)] = Inr c \<and> oc_all_conform c) \<longleftrightarrow> t = u)"
proof -
  have e: "execute (cb\<lparr>repeat_evaluator := None\<rparr>) most fuel v None w = (s, Returned)"
    and res: "res = record_steps env (new_execution_recorder i h) (sink_steps s)"
    using assms(3) by (auto simp: execute_with_ocel_def split: prod.splits)
  have tags: "list_all tagged (sink_steps s)" using executed_tagged [of "cb\<lparr>repeat_evaluator := None\<rparr>" most fuel v w] e by simp
  with record_steps_kept [OF assms(2) new_execution_recorder_kept(1)] assms(4) obtain r where r: "res = Inr r" "execution_kept r"
    unfolding res by blast
  have fresh: "told_in_order repr [] (new_execution_recorder i h)"
    by (simp add: told_in_order_def new_execution_recorder_def Let_def with_objects_def empty_log_def)
  from record_steps_told [OF _ tags this] r(1) have told: "told_in_order repr (step_labels (sink_steps s)) r" unfolding res by blast
  have "step_labels (sink_steps s) \<in> den None v" by (rule executed_labels [OF assms(1) e])
  moreover have "er_execution r \<in> log_objects (er_log r)" using r(2) by (auto simp: execution_kept_def)
  then have "(\<exists>c. check_object_centric_conformance repr (er_log r) [(er_execution r, t)] = Inr c \<and> oc_all_conform c)
      \<longleftrightarrow> t = project_object_trace repr (er_log r) (er_execution r)" for t
    using conformance_law [where repr = repr and L = "er_log r" and intended = "[(er_execution r, t)]"] by (auto split: sum.splits)
  ultimately show ?thesis using r(1) project_told [OF told] by auto
qed

section \<open>Examples\<close>

theorem levenshtein_is_edit_distance_witness: "levenshtein ''ship'' ''sip'' \<le> 1 \<and> edits ''ship'' ''sip'' (levenshtein ''ship'' ''sip'')"
proof -
  have "edits ''ship'' ''sip'' (Suc 0)" by (intro edits.intros)
  then show ?thesis using levenshtein_is_edit_distance [of "''ship''" "''sip''"] by fastforce
qed

text \<open>Two orders, each with one event.\<close>

definition two_orders :: ocel_log where
  "two_orders = \<lparr>lg_objects = [\<lparr>ob_id = ''o1'', ob_type = ''order'', ob_attributes = []\<rparr>, \<lparr>ob_id = ''o2'', ob_type = ''order'', ob_attributes = []\<rparr>],
     lg_events = [\<lparr>ev_id = ''e1'', ev_activity = ''pay'', ev_time = 0, ev_attributes = []\<rparr>,
       \<lparr>ev_id = ''e2'', ev_activity = ''ship'', ev_time = 1, ev_attributes = []\<rparr>],
     lg_links = [\<lparr>eo_event = ''e1'', eo_object = ''o1'', eo_qualifier = None\<rparr>, \<lparr>eo_event = ''e2'', eo_object = ''o2'', eo_qualifier = None\<rparr>],
     lg_relations = [], lg_changes = []\<rparr>"

theorem object_conformance_decides_witness:
  "\<exists>r. check_object_centric_conformance (\<lambda>_. '''') two_orders [(''o1'', [''pay'']), (''o2'', [''ship''])] = Inr r
     \<and> oc_all_conform r \<and> oc_overall_fitness r = 1"
proof -
  have "project_object_trace (\<lambda>_. '''') two_orders ''o1'' = [''pay'']" "project_object_trace (\<lambda>_. '''') two_orders ''o2'' = [''ship'']"
    by (simp_all add: project_object_trace_def two_orders_def in_time_def event_label_def)
  then show ?thesis
    using object_conformance_decides [where repr = "\<lambda>_. ''''" and L = two_orders and intended = "[(''o1'', [''pay'']), (''o2'', [''ship''])]"]
    by (auto simp: two_orders_def split: sum.splits)
qed

theorem execution_conforms_to_itself_witness:
  "\<exists>s res r. execute_with_ocel plain_surroundings (agreeable False) 64 2 loop_graph () (new_execution_recorder (Some ''run'') '''') = ((s, Returned), res)
     \<and> res = Inr r \<and> project_object_trace (\<lambda>_. '''') (er_log r) (er_execution r) \<in> den None loop_graph"
proof -
  obtain s where s: "execute (agreeable False) 64 2 loop_graph None () = (s, Returned)" "step_labels (sink_steps s) = [''a'']"
    using loop_graph_executes by blast
  have "(agreeable False)\<lparr>repeat_evaluator := None\<rparr> = agreeable False" by (simp add: agreeable_def)
  with s obtain res where e: "execute_with_ocel plain_surroundings (agreeable False) 64 2 loop_graph () (new_execution_recorder (Some ''run'') '''') = ((s, Returned), res)"
    by (simp add: execute_with_ocel_def)
  have "\<exists>r u. res = Inr r \<and> u = project_object_trace (\<lambda>_. '''') (er_log r) (er_execution r) \<and> u \<in> den None loop_graph
    \<and> (\<forall>t. (\<exists>c. check_object_centric_conformance (\<lambda>_. '''') (er_log r) [(er_execution r, t)] = Inr c \<and> oc_all_conform c) \<longleftrightarrow> t = u)"
    by (rule execution_conforms_to_itself [OF loop_graph_wf _ e]) (simp_all add: plain_surroundings_def new_execution_recorder_def Let_def)
  with e show ?thesis by blast
qed

end
